(* ===== verification/Prelude.thy ===== *)
theory Prelude
  imports Main "HOL-Library.Word"
begin

text \<open>
  Shared vocabulary of the development: the types the components exchange (blocks, party
  numbers, C arrays), counted loops, and the algebra of exclusive or on blocks and on shared
  bits that the protocol proofs rest on.

  Conventions.
  \<^item> A \<open>block\<close> (\<^verbatim>\<open>__m128i\<close>) is a \<open>128 word\<close>.
  \<^item> A heap array \<^verbatim>\<open>T * a\<close> is a total function \<open>nat \<Rightarrow> T\<close>: what \<^verbatim>\<open>new T[n]\<close> leaves in it is
    an arbitrary function, so a theorem that holds for every initial array says that the code
    never depends on uninitialised memory.  A \<^verbatim>\<open>std::vector\<close> is a list.
  \<^item> \<^verbatim>\<open>for(int i = a; i < b; ++i) body\<close> is \<open>fold body [a..<b]\<close>.
  \<^item> Parties are numbered \<open>1, \<dots>, nP\<close>; \<open>nP\<close> is the template argument of the code.
\<close>

unbundle bit_operations_syntax

named_theorems xor_simps \<open>rewriting with exclusive or of blocks and of bits\<close>
named_theorems share_simps \<open>parities and sums over the parties\<close>
named_theorems circuit \<open>introduction rules for circuits over a backend\<close>

type_synonym block = "128 word"
type_synonym 'a arr = "nat \<Rightarrow> 'a"
type_synonym 'a party_arr = "nat \<Rightarrow> nat \<Rightarrow> 'a"

subsection \<open>Counted loops\<close>

lemma fold_upt_invariant:
  assumes "P a s" and "a \<le> b"
    and "\<And>i t. a \<le> i \<Longrightarrow> i < b \<Longrightarrow> P i t \<Longrightarrow> P (Suc i) (f i t)"
  shows "P b (fold f [a..<b] s)"
  using \<open>a \<le> b\<close> assms(3)
proof (induction b rule: dec_induct)
  case base
  then show ?case using assms(1) by simp
next
  case (step n)
  then have "P n (fold f [a..<n] s)" by simp
  with step show ?case by simp
qed

lemma fold_upt_Suc [simp]: "a \<le> b \<Longrightarrow> fold f [a..<Suc b] s = f b (fold f [a..<b] s)"
  by simp

lemma fold_fun_upd_upt:
  "fold (\<lambda>i A. A(i := g i)) [a..<b] A0 k = (if a \<le> k \<and> k < b then g k else A0 k)"
  by (induction b) (auto simp: less_Suc_eq_le)

lemma fold_id_on: "(\<And>x s. x \<in> set xs \<Longrightarrow> f x s = s) \<Longrightarrow> fold f xs s = s"
  by (induction xs arbitrary: s) auto

text \<open>Two loops over the same indices keep a relation between their states.\<close>

lemma fold_related:
  assumes "R s t" and "\<And>x s t. x \<in> set xs \<Longrightarrow> R s t \<Longrightarrow> R (f x s) (g x t)"
  shows "R (fold f xs s) (fold g xs t)"
  using assms by (induction xs arbitrary: s t) auto

subsection \<open>Exclusive or on bits\<close>

text \<open>\<^verbatim>\<open>a != b\<close> and \<^verbatim>\<open>a ^ b\<close> on \<^verbatim>\<open>bool\<close>s.\<close>

definition bxor :: "bool \<Rightarrow> bool \<Rightarrow> bool" where
  "bxor a b = (a \<noteq> b)"

lemma bxor_simps [simp]:
  "bxor False b = b" "bxor b False = b" "bxor True b = (\<not> b)" "bxor b True = (\<not> b)" "bxor b b = False"
  by (auto simp: bxor_def)

lemma bxor_assoc: "bxor (bxor a b) c = bxor a (bxor b c)"
  by (auto simp: bxor_def)

lemma bxor_commute: "bxor a b = bxor b a"
  by (auto simp: bxor_def)

lemma bxor_left_commute: "bxor a (bxor b c) = bxor b (bxor a c)"
  by (auto simp: bxor_def)

lemma bxor_self_left [simp]: "bxor a (bxor a b) = b"
  by (auto simp: bxor_def)

lemma bxor_not [simp]: "bxor (\<not> a) b = (\<not> bxor a b)" "bxor a (\<not> b) = (\<not> bxor a b)"
  by (auto simp: bxor_def)

lemma bxor_cancel [simp]: "(bxor a c = bxor b c) = (a = b)" "(bxor c a = bxor c b) = (a = b)"
  by (auto simp: bxor_def)

lemmas bxor_ac [xor_simps] = bxor_assoc bxor_commute bxor_left_commute

subsection \<open>Exclusive or on blocks\<close>

text \<open>\<open>gate_blk b D\<close> is \<open>D\<close> when the bit is set and the zero block otherwise: what
  \<^verbatim>\<open>if(b) x = x ^ D\<close> and \<^verbatim>\<open>select_mask[b] & D\<close> add to a block.\<close>

definition gate_blk :: "bool \<Rightarrow> 'a::len word \<Rightarrow> 'a word" where
  "gate_blk b D = (if b then D else 0)"

lemma xor_self_left [simp, xor_simps]: "(x :: 'a::len word) XOR (x XOR y) = y"
  by (simp flip: xor.assoc)

lemmas xor_ac [xor_simps] = xor.assoc xor.commute xor.left_commute

lemma xor_right_cancel [simp]: "((x :: 'a::len word) XOR z = y XOR z) = (x = y)"
  by (metis xor.right_neutral xor.assoc xor_self_eq)

lemma xor_left_cancel [simp]: "((z :: 'a::len word) XOR x = z XOR y) = (x = y)"
  by (metis xor_self_left)

lemma xor_eq_self_iff [simp]: "((x :: 'a::len word) XOR y = x) = (y = 0)"
  "((x :: 'a::len word) XOR y = y) = (x = 0)"
  by (metis xor.right_neutral xor_left_cancel, metis xor.left_neutral xor_right_cancel)

lemma gate_blk_simps [simp]:
  "gate_blk False D = 0" "gate_blk True D = D" "gate_blk b 0 = 0"
  by (simp_all add: gate_blk_def)

lemma gate_blk_bxor: "gate_blk (bxor a b) D = gate_blk a D XOR gate_blk b D"
  by (cases a; cases b) simp_all

lemma gate_blk_xor_blk: "gate_blk b (D XOR E) = gate_blk b D XOR gate_blk b E"
  by (simp add: gate_blk_def)

lemma gate_blk_not: "gate_blk (\<not> b) D = D XOR gate_blk b D"
  by (simp add: gate_blk_def)

lemma if_xor_gate_blk: "(if b then x XOR D else x) = x XOR gate_blk b D"
  by (simp add: gate_blk_def)

lemma gate_blk_inj: "D \<noteq> 0 \<Longrightarrow> (gate_blk a D = gate_blk b D) = (a = b)"
  by (simp add: gate_blk_def)

subsection \<open>Sums and parities over a list of indices\<close>

definition xsum :: "('i \<Rightarrow> 'a::len word) \<Rightarrow> 'i list \<Rightarrow> 'a word" where
  "xsum f is = foldr (\<lambda>i x. f i XOR x) is 0"

definition parity :: "('i \<Rightarrow> bool) \<Rightarrow> 'i list \<Rightarrow> bool" where
  "parity b is = foldr (\<lambda>i x. bxor (b i) x) is False"

lemma xsum_simps [simp]: "xsum f [] = 0" "xsum f (i # is) = f i XOR xsum f is"
  by (simp_all add: xsum_def)

lemma parity_simps [simp]: "parity b [] = False" "parity b (i # is) = bxor (b i) (parity b is)"
  by (simp_all add: parity_def)

lemma xsum_append [simp]: "xsum f (is @ js) = xsum f is XOR xsum f js"
  by (induction "is") (simp_all add: xor.assoc)

lemma parity_append [simp]: "parity b (is @ js) = bxor (parity b is) (parity b js)"
  by (induction "is") (simp_all add: bxor_assoc)

lemma xsum_cong [cong]: "is = js \<Longrightarrow> (\<And>i. i \<in> set js \<Longrightarrow> f i = g i) \<Longrightarrow> xsum f is = xsum g js"
  by (induction js arbitrary: "is") auto

lemma parity_cong [cong]:
  "is = js \<Longrightarrow> (\<And>i. i \<in> set js \<Longrightarrow> b i = c i) \<Longrightarrow> parity b is = parity c js"
  by (induction js arbitrary: "is") auto

lemma xsum_zero [simp]: "xsum (\<lambda>i. 0) is = 0"
  by (induction "is") auto

lemma parity_False [simp]: "parity (\<lambda>i. False) is = False"
  by (induction "is") auto

lemma xsum_xor: "xsum (\<lambda>i. f i XOR g i) is = xsum f is XOR xsum g is"
  by (induction "is") (simp_all add: xor.assoc xor.left_commute)

lemma parity_bxor: "parity (\<lambda>i. bxor (b i) (c i)) is = bxor (parity b is) (parity c is)"
  by (induction "is") (simp_all add: bxor_ac)

lemma parity_conj_right: "parity (\<lambda>i. b i \<and> c) is = (parity b is \<and> c)"
  by (induction "is") (auto simp: bxor_def)

lemma parity_conj_left: "parity (\<lambda>i. c \<and> b i) is = (c \<and> parity b is)"
  by (induction "is") (auto simp: bxor_def)

lemma xsum_gate_blk: "xsum (\<lambda>i. gate_blk (b i) D) is = gate_blk (parity b is) D"
  by (induction "is") (simp_all add: gate_blk_bxor)

lemma xsum_gate_blk_const: "xsum (\<lambda>i. gate_blk b (f i)) is = gate_blk b (xsum f is)"
  by (induction "is") (simp_all add: gate_blk_xor_blk)

lemma xsum_swap: "xsum (\<lambda>i. xsum (\<lambda>j. f i j) js) is = xsum (\<lambda>j. xsum (\<lambda>i. f i j) is) js"
  by (induction "is") (simp_all add: xsum_xor)

lemma parity_swap:
  "parity (\<lambda>i. parity (\<lambda>j. f i j) js) is = parity (\<lambda>j. parity (\<lambda>i. f i j) is) js"
  by (induction "is") (simp_all add: parity_bxor)

lemma xsum_remove:
  assumes "distinct is" and "p \<in> set is"
  shows "xsum f is = f p XOR xsum f (filter (\<lambda>i. i \<noteq> p) is)"
  using assms
proof (induction "is")
  case (Cons a js)
  show ?case
  proof (cases "a = p")
    case True
    with Cons.prems have "filter (\<lambda>i. i \<noteq> p) js = js"
      by (auto intro: filter_True)
    with True show ?thesis by simp
  next
    case False
    with Cons show ?thesis by (simp add: xor.left_commute)
  qed
qed simp

lemma parity_remove:
  assumes "distinct is" and "p \<in> set is"
  shows "parity b is = bxor (b p) (parity b (filter (\<lambda>i. i \<noteq> p) is))"
  using assms
proof (induction "is")
  case (Cons a js)
  show ?case
  proof (cases "a = p")
    case True
    with Cons.prems have "filter (\<lambda>i. i \<noteq> p) js = js"
      by (auto intro: filter_True)
    with True show ?thesis by simp
  next
    case False
    with Cons show ?thesis by (simp add: bxor_left_commute)
  qed
qed simp

text \<open>A pairwise sum over ordered pairs of distinct parties can be read from either end.\<close>

lemma xsum_filter: "xsum h (filter P js) = xsum (\<lambda>i. if P i then h i else 0) js"
  by (induction js) auto

lemma parity_filter: "parity h (filter P js) = parity (\<lambda>i. P i \<and> h i) js"
  by (induction js) auto

lemma xsum_pairs_swap:
  "xsum (\<lambda>p. xsum (\<lambda>i. f p i) (filter (\<lambda>i. i \<noteq> p) is)) is
   = xsum (\<lambda>p. xsum (\<lambda>i. f i p) (filter (\<lambda>i. i \<noteq> p) is)) is"
  unfolding xsum_filter by (subst xsum_swap) (intro xsum_cong refl, auto)

lemma parity_pairs_swap:
  "parity (\<lambda>p. parity (\<lambda>i. f p i) (filter (\<lambda>i. i \<noteq> p) is)) is
   = parity (\<lambda>p. parity (\<lambda>i. f i p) (filter (\<lambda>i. i \<noteq> p) is)) is"
  unfolding parity_filter by (subst parity_swap) (intro parity_cong refl, auto)

text \<open>Loops that accumulate into a variable.\<close>

lemma fold_xor_xsum: "fold (\<lambda>i x. x XOR f i) is s = s XOR xsum f is"
  by (induction "is" arbitrary: s) (simp_all add: xor.assoc)

lemma fold_bxor_parity: "fold (\<lambda>i x. bxor x (b i)) is s = bxor s (parity b is)"
  by (induction "is" arbitrary: s) (simp_all add: bxor_assoc)

subsection \<open>The parties\<close>

abbreviation parties :: "nat \<Rightarrow> nat list" where
  "parties nP \<equiv> [1..<Suc nP]"

text \<open>\<open>others nP p\<close>: the loop \<^verbatim>\<open>for(int i = 1; i <= nP; ++i) if (i != party)\<close>.\<close>

definition others :: "nat \<Rightarrow> nat \<Rightarrow> nat list" where
  "others nP p = filter (\<lambda>i. i \<noteq> p) (parties nP)"

lemma set_others [simp]: "i \<in> set (others nP p) \<longleftrightarrow> 1 \<le> i \<and> i \<le> nP \<and> i \<noteq> p"
  by (auto simp: others_def)

lemma distinct_others [simp]: "distinct (others nP p)"
  by (simp add: others_def)

lemma xsum_parties: "1 \<le> p \<Longrightarrow> p \<le> nP \<Longrightarrow> xsum f (parties nP) = f p XOR xsum f (others nP p)"
  unfolding others_def by (rule xsum_remove) auto

lemma parity_parties:
  "1 \<le> p \<Longrightarrow> p \<le> nP \<Longrightarrow> parity b (parties nP) = bxor (b p) (parity b (others nP p))"
  unfolding others_def by (rule parity_remove) auto

lemma parties_Cons: "1 \<le> nP \<Longrightarrow> parties nP = 1 # [2..<Suc nP]"
  by (simp add: upt_rec numeral_2_eq_2)

lemma parity_first: "1 \<le> nP \<Longrightarrow> parity (\<lambda>p. p = 1) (parties nP)"
proof -
  assume "1 \<le> nP"
  have "parity (\<lambda>p. p = (1::nat)) [2..<Suc nP] = parity (\<lambda>p. False) [2..<Suc nP]"
    by (intro parity_cong refl) auto
  then show ?thesis unfolding parties_Cons [OF \<open>1 \<le> nP\<close>] parity_simps by simp
qed

end
