(* ===== verification/Blocks.thy ===== *)
theory Blocks
  imports Prelude
begin

text \<open>
  The 128-bit blocks of \<^verbatim>\<open>emp-tool/utils/block.h\<close>, the conversions between blocks, machine
  integers, bits and bytes of \<^verbatim>\<open>emp-tool/utils/utils.hpp\<close>, and the byte images of a block that
  serialization and hashing read (x86 is little-endian).
\<close>

subsection \<open>block.h\<close>

definition makeBlock :: "64 word \<Rightarrow> 64 word \<Rightarrow> block" where
  "makeBlock high low = push_bit 64 (ucast high) OR ucast low"

definition getLSB :: "block \<Rightarrow> bool" where
  "getLSB x = (x AND 1 = 1)"

text \<open>SSE2 intrinsics over the four 32-bit lanes.\<close>

definition lane32 :: "block \<Rightarrow> nat \<Rightarrow> block" where
  "lane32 a k = take_bit 32 (drop_bit (32 * k) a)"

definition mm_shuffle_epi32 :: "block \<Rightarrow> nat \<Rightarrow> block" where
  "mm_shuffle_epi32 a imm =
     lane32 a (imm mod 4) OR push_bit 32 (lane32 a (imm div 4 mod 4))
     OR push_bit 64 (lane32 a (imm div 16 mod 4)) OR push_bit 96 (lane32 a (imm div 64 mod 4))"

definition sigma :: "block \<Rightarrow> block" where
  "sigma a = mm_shuffle_epi32 a 78 XOR (a AND makeBlock 0xFFFFFFFFFFFFFFFF 0x00)"

definition zero_block :: block where
  "zero_block = makeBlock 0 0"

definition all_one_block :: block where
  "all_one_block = makeBlock 0xFFFFFFFFFFFFFFFF 0xFFFFFFFFFFFFFFFF"

definition select_mask :: "bool \<Rightarrow> block" where
  "select_mask b = (if b then all_one_block else zero_block)"

definition set_bit_block :: "block \<Rightarrow> nat \<Rightarrow> block" where
  "set_bit_block a i =
     (if i < 64 then makeBlock 0 (push_bit i 1) OR a else makeBlock (push_bit (i - 64) 1) 0 OR a)"

definition xorBlocks_arr :: "block arr \<Rightarrow> block arr \<Rightarrow> block arr \<Rightarrow> nat \<Rightarrow> block arr" where
  "xorBlocks_arr res x y nblocks = fold (\<lambda>i r. r(i := x i XOR y i)) [0..<nblocks] res"

definition xorBlocks_const :: "block arr \<Rightarrow> block arr \<Rightarrow> block \<Rightarrow> nat \<Rightarrow> block arr" where
  "xorBlocks_const res x y nblocks = fold (\<lambda>i r. r(i := x i XOR y)) [0..<nblocks] res"

fun cmpBlock :: "block arr \<Rightarrow> block arr \<Rightarrow> nat \<Rightarrow> bool" where
  "cmpBlock x y 0 = True"
| "cmpBlock x y (Suc n) =
     (let vcmp = x 0 XOR y 0 in
      if vcmp AND vcmp \<noteq> 0 then False else cmpBlock (\<lambda>i. x (Suc i)) (\<lambda>i. y (Suc i)) n)"

lemma zero_block_eq [simp]: "zero_block = 0"
  by (simp add: zero_block_def makeBlock_def)

lemma all_one_block_eq [simp]: "all_one_block = - 1"
  by (simp add: all_one_block_def makeBlock_def)

lemma select_mask_and [simp]:
  "select_mask b AND D = gate_blk b D" "D AND select_mask b = gate_blk b D"
  by (simp_all add: select_mask_def gate_blk_def)

lemma xorBlocks_arr_nth [simp]:
  "xorBlocks_arr res x y n k = (if k < n then x k XOR y k else res k)"
  by (simp add: xorBlocks_arr_def fold_fun_upd_upt)

lemma xorBlocks_const_nth [simp]:
  "xorBlocks_const res x y n k = (if k < n then x k XOR y else res k)"
  by (simp add: xorBlocks_const_def fold_fun_upd_upt)

lemma cmpBlock_iff: "cmpBlock x y n \<longleftrightarrow> (\<forall>i<n. x i = y i)"
proof (induction n arbitrary: x y)
  case (Suc n)
  have "(x 0 XOR y 0 = 0) = (x 0 = y 0)"
    by (metis xor_self_eq xor_right_cancel)
  with Suc show ?case
    by (auto simp: Let_def less_Suc_eq_0_disj)
qed simp

declare cmpBlock.simps [simp del]

lemma cmpBlock_single [simp]: "cmpBlock x y (Suc 0) \<longleftrightarrow> x 0 = y 0"
  by (simp add: cmpBlock_iff)

lemma bit_makeBlock:
  "bit (makeBlock h l) n = (if n < 64 then bit l n else n < 128 \<and> bit h (n - 64))"
proof -
  have "\<not> bit l n" if "64 \<le> n"
    using that bit_imp_le_length [of l n] by auto
  then show ?thesis
    by (auto simp: makeBlock_def bit_simps)
qed

lemma bit_lane32: "bit (lane32 a k) n = (n < 32 \<and> bit a (32 * k + n))"
  by (auto simp: lane32_def bit_simps ac_simps dest: bit_imp_le_length)

lemma bit_sigma:
  assumes "n < 128"
  shows "bit (sigma a) n = (if n < 64 then bit a (n + 64) else bxor (bit a (n - 64)) (bit a n))"
proof -
  have "bit (makeBlock (- 1) 0) n = (64 \<le> n)"
    using assms by (auto simp: bit_makeBlock bit_simps)
  moreover have "(- 1 :: 64 word) = 0xFFFFFFFFFFFFFFFF" by simp
  ultimately have m: "bit (makeBlock 0xFFFFFFFFFFFFFFFF 0) n = (64 \<le> n)" by (simp only:)
  consider "n < 32" | "32 \<le> n" "n < 64" | "64 \<le> n" "n < 96" | "96 \<le> n" by linarith
  then show ?thesis
    using assms m
    by cases (auto simp: sigma_def mm_shuffle_epi32_def bit_simps bit_lane32 bxor_def ac_simps)
qed

text \<open>\<open>sigma\<close> is a linear orthomorphism, as the comment above it in the code says: it is
  additive and injective, and so is \<open>x \<mapsto> sigma x XOR x\<close>.\<close>

lemma sigma_xor: "sigma (a XOR b) = sigma a XOR sigma b"
  by (rule bit_word_eqI) (simp add: bit_sigma bit_xor_iff bxor_def; blast)

lemma sigma_inj: "sigma a = sigma b \<Longrightarrow> a = b"
proof (rule bit_word_eqI)
  fix n
  assume eq: "sigma a = sigma b" and n: "n < LENGTH(128)"
  have hi: "bit a (k + 64) = bit b (k + 64)" if "k < 64" for k
    using arg_cong [OF eq, of "\<lambda>x. bit x k"] that by (simp add: bit_sigma)
  show "bit a n = bit b n"
  proof (cases "n < 64")
    case True
    with arg_cong [OF eq, of "\<lambda>x. bit x (n + 64)"] hi [of n] show ?thesis
      by (simp add: bit_sigma)
  next
    case False
    with hi [of "n - 64"] n show ?thesis by simp
  qed
qed

text \<open>
  \<^verbatim>\<open>sigma\<close> is an orthomorphism: \<open>x \<mapsto> sigma x XOR x\<close> is injective, which is what the circular correlation-robust
  hash needs of it.
\<close>

theorem sigma_orthomorphism: "sigma a XOR a = sigma b XOR b \<Longrightarrow> a = b"
proof (rule bit_word_eqI)
  fix n
  assume eq: "sigma a XOR a = sigma b XOR b" and n: "n < LENGTH(128)"
  have lo: "bit a k = bit b k" if "k < 64" for k
    using arg_cong [OF eq, of "\<lambda>x. bit x (k + 64)"] that
    by (simp add: bit_sigma bit_xor_iff bxor_def; blast)
  show "bit a n = bit b n"
  proof (cases "n < 64")
    case True
    with lo show ?thesis by simp
  next
    case False
    with n have "n - 64 < 64" by simp
    with arg_cong [OF eq, of "\<lambda>x. bit x (n - 64)"] lo [of "n - 64"] False n show ?thesis
      by (simp add: bit_sigma bit_xor_iff bxor_def; blast)
  qed
qed

theorem sigma_orthomorphism_witness: "sigma 1 XOR 1 \<noteq> sigma 2 XOR 2"
  using sigma_orthomorphism [of 1 2] by auto

lemma set_bit_block_bit: "i < 128 \<Longrightarrow> bit (set_bit_block a i) n = (n = i \<or> bit a n)"
  by (auto simp: set_bit_block_def bit_makeBlock bit_simps dest: bit_imp_le_length)

lemma getLSB_bit: "getLSB x = bit x 0"
  by (simp add: getLSB_def and_one_eq bit_0 odd_iff_mod_2_eq_one)

subsection \<open>utils.hpp: integers, bits and blocks\<close>

definition bool_to_int64 :: "bool arr \<Rightarrow> 64 word" where
  "bool_to_int64 data = fold (\<lambda>i ret. ret OR push_bit i (of_bool (data i))) [0..<64] 0"

definition int_to_bool_u64 :: "bool arr \<Rightarrow> 64 word \<Rightarrow> nat \<Rightarrow> bool arr" where
  "int_to_bool_u64 data input len =
     fst (fold (\<lambda>i (d, x). (d(i := (x AND 1 = 1)), drop_bit 1 x)) [0..<len] (data, input))"

text \<open>With \<^verbatim>\<open>T = int64_t\<close> the shift is arithmetic.\<close>

definition int_to_bool_s64 :: "bool arr \<Rightarrow> 64 word \<Rightarrow> nat \<Rightarrow> bool arr" where
  "int_to_bool_s64 data input len =
     fst (fold (\<lambda>i (d, x). (d(i := (x AND 1 = 1)), signed_drop_bit 1 x)) [0..<len] (data, input))"

definition bool_to_block :: "bool arr \<Rightarrow> block" where
  "bool_to_block data = makeBlock (bool_to_int64 (\<lambda>i. data (64 + i))) (bool_to_int64 data)"

definition block_to_bool :: "bool arr \<Rightarrow> block \<Rightarrow> bool arr" where
  "block_to_bool data b =
     (let d = int_to_bool_u64 data (ucast b) 64;
          hi = int_to_bool_u64 (\<lambda>i. d (64 + i)) (ucast (drop_bit 64 b)) 64
      in (\<lambda>i. if i < 64 then d i else hi (i - 64)))"

definition to_bool :: "bool arr \<Rightarrow> 8 word arr \<Rightarrow> nat \<Rightarrow> bool \<Rightarrow> bool arr" where
  "to_bool data input len reverse =
     fold (\<lambda>i d. d((if reverse then len - i else i) := (input (i div 8) AND push_bit (i mod 8) 1 \<noteq> 0)))
       [0..<len] data"

definition from_bool :: "bool arr \<Rightarrow> 8 word arr \<Rightarrow> nat \<Rightarrow> bool \<Rightarrow> 8 word arr" where
  "from_bool data output len reverse =
     fold (\<lambda>i out. out(i div 8 :=
             (out (i div 8) AND NOT (push_bit (i mod 8) 1))
             OR push_bit (i mod 8) (of_bool (data (if reverse then len - i else i)))))
       [0..<len] output"

lemma bit_bool_to_int64: "bit (bool_to_int64 data) n = (n < 64 \<and> data n)"
proof -
  have "m \<le> 64 \<Longrightarrow>
      bit (fold (\<lambda>i ret. ret OR push_bit i (of_bool (data i))) [0..<m] (0 :: 64 word)) n
      = (n < m \<and> data n)" for m
    by (induction m) (auto simp: bit_simps less_Suc_eq)
  then show ?thesis by (simp add: bool_to_int64_def)
qed

lemma bit_bool_to_block: "bit (bool_to_block data) n = (n < 128 \<and> data n)"
  by (auto simp: bool_to_block_def bit_makeBlock bit_bool_to_int64)

lemma int_to_bool_loop:
  fixes x0 :: "64 word"
  assumes step: "\<And>m. x (Suc m) = f (x m)"
  shows "fold (\<lambda>i (d, y). (d(i := (y AND 1 = 1)), f y)) [0..<n] (data, x 0)
         = ((\<lambda>i. if i < n then (x i AND 1 = (1 :: 64 word)) else data i), x n)"
  by (induction n) (auto simp: step fun_eq_iff less_Suc_eq)

lemma and_one_bit: "((x :: 'a::len word) AND 1 = 1) = bit x 0"
  by (simp add: and_one_eq bit_0 odd_iff_mod_2_eq_one)

lemma int_to_bool_u64_nth: "int_to_bool_u64 data x n k = (if k < n then bit x k else data k)"
proof -
  have "int_to_bool_u64 data x n
        = fst (fold (\<lambda>i (d, y). (d(i := (y AND 1 = 1)), drop_bit 1 y)) [0..<n] (data, drop_bit 0 x))"
    by (simp add: int_to_bool_u64_def)
  also have "\<dots> = (\<lambda>i. if i < n then (drop_bit i x AND 1 = 1) else data i)"
    by (subst int_to_bool_loop [where x = "\<lambda>i. drop_bit i x"]) simp_all
  finally show ?thesis by (simp add: and_one_bit bit_simps)
qed

lemma int_to_bool_s64_nth:
  "int_to_bool_s64 data x n k = (if k < n then bit x (min k 63) else data k)"
proof -
  have shift: "signed_drop_bit 1 (signed_drop_bit m x) = signed_drop_bit (Suc m) x" for m
    by (rule bit_word_eqI) (auto simp: bit_simps min_def)
  have "int_to_bool_s64 data x n
        = fst (fold (\<lambda>i (d, y). (d(i := (y AND 1 = 1)), signed_drop_bit 1 y)) [0..<n]
                (data, signed_drop_bit 0 x))"
    by (simp add: int_to_bool_s64_def)
  also have "\<dots> = (\<lambda>i. if i < n then (signed_drop_bit i x AND 1 = 1) else data i)"
    by (subst int_to_bool_loop [where x = "\<lambda>i. signed_drop_bit i x"]) (simp_all add: shift)
  finally show ?thesis by (simp add: and_one_bit bit_simps min_def)
qed

lemma block_to_bool_nth: "block_to_bool data b k = (if k < 128 then bit b k else data k)"
proof (cases "k < 64")
  case False
  then show ?thesis
    by (auto simp: block_to_bool_def Let_def int_to_bool_u64_nth bit_simps)
qed (simp add: block_to_bool_def Let_def int_to_bool_u64_nth bit_simps)

lemma bool_to_block_to_bool: "bool_to_block (block_to_bool data b) = b"
  by (rule bit_word_eqI) (simp add: bit_bool_to_block block_to_bool_nth)

lemma to_bool_nth:
  "to_bool data input len False k = (if k < len then bit (input (k div 8)) (k mod 8) else data k)"
  by (simp add: to_bool_def fold_fun_upd_upt and_exp_eq_0_iff_not_bit)

lemma to_bool_reverse_nth:
  "to_bool data input len True k = (if 0 < k \<and> k \<le> len then bit (input ((len - k) div 8)) ((len - k) mod 8) else data k)"
proof -
  have "fold (\<lambda>i d. d(len - i := P i)) [0..<n] data k = (if len - n < k \<and> k \<le> len then P (len - k) else data k)"
    if "n \<le> len" for n and P :: "nat \<Rightarrow> bool"
    using that by (induction n) (auto simp: Suc_diff_le)
  from this [OF order_refl] show ?thesis by (simp add: to_bool_def and_exp_eq_0_iff_not_bit)
qed

lemma from_bool_loop_bit:
  assumes "m < 8"
  shows "bit (fold (\<lambda>i out. out(i div 8 := (out (i div 8) AND NOT (push_bit (i mod 8) 1)) OR push_bit (i mod 8) (of_bool (P i)))) [0..<n] out k) m
       = (if 8 * k + m < n then P (8 * k + m) else bit (out k :: 8 word) m)"
proof (induction n)
  case (Suc n)
  have "(8 * k + m = n) = (k = n div 8 \<and> m = n mod 8)"
    using assms by auto
  with Suc assms show ?case
    by (auto simp: bit_simps less_Suc_eq)
qed simp

lemma from_bool_bit:
  assumes "m < 8"
  shows "bit (from_bool data out len reverse k) m
         = (if 8 * k + m < len then data (if reverse then len - (8 * k + m) else 8 * k + m) else bit (out k) m)"
  unfolding from_bool_def by (rule from_bool_loop_bit [OF assms])

text \<open>
  C34.  \<^verbatim>\<open>to_bool\<close> and \<^verbatim>\<open>from_bool\<close> with the same \<^verbatim>\<open>reverse\<close> undo each other, and touch nothing else.  Without \<^verbatim>\<open>reverse\<close> the bools
  concerned are those at the indices \<open>0, \<dots>, len - 1\<close>; with \<^verbatim>\<open>reverse\<close> they are those at \<open>1, \<dots>, len\<close>, so index \<open>len\<close>, one past the end of an
  array of \<open>len\<close> bools, is accessed and index 0 is not.  In the other direction the first \<open>len\<close> bits are restored and the remaining
  bits of the output are kept, for both values of \<^verbatim>\<open>reverse\<close>.
\<close>

theorem to_bool_from_bool:
  "to_bool d (from_bool data out len reverse) len reverse k
     = (if (if reverse then 0 < k \<and> k \<le> len else k < len) then data k else d k)
   \<and> bit (from_bool (to_bool d input len reverse) out len reverse b) m
     = (if 8 * b + m < len then bit (input b) m else bit (out b) m)"
proof (intro conjI)
  show "to_bool d (from_bool data out len reverse) len reverse k
     = (if (if reverse then 0 < k \<and> k \<le> len else k < len) then data k else d k)"
    by (cases reverse) (simp_all add: to_bool_nth to_bool_reverse_nth from_bool_bit mult.commute)
  show "bit (from_bool (to_bool d input len reverse) out len reverse b) m
     = (if 8 * b + m < len then bit (input b) m else bit (out b) m)"
  proof (cases "m < 8")
    case True
    then show ?thesis by (cases reverse) (simp_all add: to_bool_nth to_bool_reverse_nth from_bool_bit)
  qed (simp add: bit_simps impossible_bit)
qed

subsection \<open>Bytes of a block\<close>

definition bytes_of_block :: "block \<Rightarrow> 8 word list" where
  "bytes_of_block b = map (\<lambda>i. ucast (drop_bit (8 * i) b)) [0..<16]"

definition block_of_bytes :: "8 word list \<Rightarrow> block" where
  "block_of_bytes bs = foldr (\<lambda>x b. ucast x OR push_bit 8 b) bs 0"

lemma length_bytes_of_block [simp]: "length (bytes_of_block b) = 16"
  by (simp add: bytes_of_block_def)

text \<open>Reading a little-endian integer from its bytes.\<close>

lemma bit_word_of_bytes:
  fixes bs :: "8 word list"
  assumes "8 * length bs \<le> LENGTH('a)"
  shows "bit (foldr (\<lambda>x w. ucast x OR push_bit 8 w) bs (0 :: 'a::len word)) n
       = (n < 8 * length bs \<and> bit (bs ! (n div 8)) (n mod 8))"
  using assms
proof (induction bs arbitrary: n)
  case (Cons x xs)
  let ?w = "foldr (\<lambda>x w. ucast x OR push_bit 8 w) xs (0 :: 'a word)"
  have lo: "\<not> bit x n" if "8 \<le> n"
    using that bit_imp_le_length [of x n] by auto
  have step: "bit (foldr (\<lambda>x w. ucast x OR push_bit 8 w) (x # xs) (0 :: 'a word)) n
        = (n < LENGTH('a) \<and> (bit x n \<or> 8 \<le> n \<and> bit ?w (n - 8)))"
    by (simp add: bit_simps; blast)
  show ?case
  proof (cases "n < 8")
    case True
    then show ?thesis using Cons.prems by (simp only: step) auto
  next
    case False
    then obtain k where "n = k + 8" by (metis le_add_diff_inverse2 not_less)
    then have d: "n div 8 = Suc ((n - 8) div 8)" and m: "(n - 8) mod 8 = n mod 8"
      by simp_all
    have "bit ?w (n - 8) = (n - 8 < 8 * length xs \<and> bit (xs ! ((n - 8) div 8)) (n mod 8))"
      using Cons m by simp
    moreover have "(n < 8 * length (x # xs)) = (n - 8 < 8 * length xs)" using False by simp linarith
    ultimately show ?thesis using False lo Cons.prems by (simp only: step d nth_Cons_Suc) auto
  qed
qed simp

lemma bit_block_of_bytes:
  "length bs \<le> 16 \<Longrightarrow>
   bit (block_of_bytes bs) n = (n < 8 * length bs \<and> bit (bs ! (n div 8)) (n mod 8))"
  unfolding block_of_bytes_def by (rule bit_word_of_bytes) simp

lemma block_of_bytes_of_block [simp]: "block_of_bytes (bytes_of_block b) = b"
proof (rule bit_word_eqI)
  fix n assume "n < LENGTH(128)"
  then have "n div 8 < 16" by simp
  with \<open>n < LENGTH(128)\<close> show "bit (block_of_bytes (bytes_of_block b)) n = bit b n"
    by (simp add: bit_block_of_bytes) (simp add: bytes_of_block_def bit_simps)
qed

lemma bytes_of_block_of_bytes [simp]:
  "length bs = 16 \<Longrightarrow> bytes_of_block (block_of_bytes bs) = bs"
proof (rule nth_equalityI)
  fix i assume len: "length bs = 16" and i: "i < length (bytes_of_block (block_of_bytes bs))"
  show "bytes_of_block (block_of_bytes bs) ! i = bs ! i"
  proof (rule bit_word_eqI)
    fix n assume "n < LENGTH(8)"
    then have "(8 * i + n) div 8 = i" "(8 * i + n) mod 8 = n" by simp_all
    with len i \<open>n < LENGTH(8)\<close> show "bit (bytes_of_block (block_of_bytes bs) ! i) n = bit (bs ! i) n"
      by (simp add: bytes_of_block_def bit_simps bit_block_of_bytes)
  qed
qed simp

end
