(* ===== verification/Cipher.thy ===== *)
theory Cipher
  imports Blocks
begin

text \<open>
  The AES-based primitives: \<^verbatim>\<open>emp-tool/utils/aes.h\<close> over the AES-NI instructions, the public
  permutation of \<^verbatim>\<open>prp.h\<close>, the correlation-robust hashes of \<^verbatim>\<open>crh.h\<close>, \<^verbatim>\<open>ccrh.h\<close> and \<^verbatim>\<open>tccrh.h\<close>.
  Functions that work in place on \<^verbatim>\<open>block *\<close> with a length are functions on lists of that length.
  The lemmas show that the batched loops are the pointwise functions they unroll.
\<close>

subsection \<open>AES-NI instructions\<close>

definition sbox :: "8 word list" where
  "sbox = [
    0x63, 0x7c, 0x77, 0x7b, 0xf2, 0x6b, 0x6f, 0xc5, 0x30, 0x01, 0x67, 0x2b, 0xfe, 0xd7, 0xab, 0x76,
    0xca, 0x82, 0xc9, 0x7d, 0xfa, 0x59, 0x47, 0xf0, 0xad, 0xd4, 0xa2, 0xaf, 0x9c, 0xa4, 0x72, 0xc0,
    0xb7, 0xfd, 0x93, 0x26, 0x36, 0x3f, 0xf7, 0xcc, 0x34, 0xa5, 0xe5, 0xf1, 0x71, 0xd8, 0x31, 0x15,
    0x04, 0xc7, 0x23, 0xc3, 0x18, 0x96, 0x05, 0x9a, 0x07, 0x12, 0x80, 0xe2, 0xeb, 0x27, 0xb2, 0x75,
    0x09, 0x83, 0x2c, 0x1a, 0x1b, 0x6e, 0x5a, 0xa0, 0x52, 0x3b, 0xd6, 0xb3, 0x29, 0xe3, 0x2f, 0x84,
    0x53, 0xd1, 0x00, 0xed, 0x20, 0xfc, 0xb1, 0x5b, 0x6a, 0xcb, 0xbe, 0x39, 0x4a, 0x4c, 0x58, 0xcf,
    0xd0, 0xef, 0xaa, 0xfb, 0x43, 0x4d, 0x33, 0x85, 0x45, 0xf9, 0x02, 0x7f, 0x50, 0x3c, 0x9f, 0xa8,
    0x51, 0xa3, 0x40, 0x8f, 0x92, 0x9d, 0x38, 0xf5, 0xbc, 0xb6, 0xda, 0x21, 0x10, 0xff, 0xf3, 0xd2,
    0xcd, 0x0c, 0x13, 0xec, 0x5f, 0x97, 0x44, 0x17, 0xc4, 0xa7, 0x7e, 0x3d, 0x64, 0x5d, 0x19, 0x73,
    0x60, 0x81, 0x4f, 0xdc, 0x22, 0x2a, 0x90, 0x88, 0x46, 0xee, 0xb8, 0x14, 0xde, 0x5e, 0x0b, 0xdb,
    0xe0, 0x32, 0x3a, 0x0a, 0x49, 0x06, 0x24, 0x5c, 0xc2, 0xd3, 0xac, 0x62, 0x91, 0x95, 0xe4, 0x79,
    0xe7, 0xc8, 0x37, 0x6d, 0x8d, 0xd5, 0x4e, 0xa9, 0x6c, 0x56, 0xf4, 0xea, 0x65, 0x7a, 0xae, 0x08,
    0xba, 0x78, 0x25, 0x2e, 0x1c, 0xa6, 0xb4, 0xc6, 0xe8, 0xdd, 0x74, 0x1f, 0x4b, 0xbd, 0x8b, 0x8a,
    0x70, 0x3e, 0xb5, 0x66, 0x48, 0x03, 0xf6, 0x0e, 0x61, 0x35, 0x57, 0xb9, 0x86, 0xc1, 0x1d, 0x9e,
    0xe1, 0xf8, 0x98, 0x11, 0x69, 0xd9, 0x8e, 0x94, 0x9b, 0x1e, 0x87, 0xe9, 0xce, 0x55, 0x28, 0xdf,
    0x8c, 0xa1, 0x89, 0x0d, 0xbf, 0xe6, 0x42, 0x68, 0x41, 0x99, 0x2d, 0x0f, 0xb0, 0x54, 0xbb, 0x16]"

definition sub_byte :: "8 word \<Rightarrow> 8 word" where
  "sub_byte x = sbox ! unat x"

definition shift_rows :: "8 word list \<Rightarrow> 8 word list" where
  "shift_rows s = map (\<lambda>i. s ! (4 * ((i div 4 + i mod 4) mod 4) + i mod 4)) [0..<16]"

definition xtime :: "8 word \<Rightarrow> 8 word" where
  "xtime x = push_bit 1 x XOR (if bit x 7 then 0x1b else 0)"

definition mix_columns :: "8 word list \<Rightarrow> 8 word list" where
  "mix_columns s = map (\<lambda>i.
     let c = 4 * (i div 4); a = s ! i; b = s ! (c + (i + 1) mod 4)
     in xtime a XOR (xtime b XOR b) XOR s ! (c + (i + 2) mod 4) XOR s ! (c + (i + 3) mod 4)) [0..<16]"

definition mm_aesenc :: "block \<Rightarrow> block \<Rightarrow> block" where
  "mm_aesenc a k = block_of_bytes (mix_columns (map sub_byte (shift_rows (bytes_of_block a)))) XOR k"

definition mm_aesenclast :: "block \<Rightarrow> block \<Rightarrow> block" where
  "mm_aesenclast a k = block_of_bytes (map sub_byte (shift_rows (bytes_of_block a))) XOR k"

text \<open>Words of the state as lists of four bytes, least significant first.\<close>

definition word_bytes :: "block \<Rightarrow> nat \<Rightarrow> 8 word list" where
  "word_bytes a k = take 4 (drop (4 * k) (bytes_of_block a))"

definition rot_bytes :: "8 word list \<Rightarrow> 8 word list" where
  "rot_bytes w = tl w @ [hd w]"

definition xor_low_byte :: "8 word list \<Rightarrow> 8 word \<Rightarrow> 8 word list" where
  "xor_low_byte w r = (hd w XOR r) # tl w"

definition mm_aeskeygenassist :: "block \<Rightarrow> 8 word \<Rightarrow> block" where
  "mm_aeskeygenassist a rcon =
     (let s1 = map sub_byte (word_bytes a 1); s3 = map sub_byte (word_bytes a 3) in
      block_of_bytes (s1 @ xor_low_byte (rot_bytes s1) rcon @ s3 @ xor_low_byte (rot_bytes s3) rcon))"

definition mm_shuffle_ps :: "block \<Rightarrow> block \<Rightarrow> nat \<Rightarrow> block" where
  "mm_shuffle_ps a b imm =
     lane32 a (imm mod 4) OR push_bit 32 (lane32 a (imm div 4 mod 4))
     OR push_bit 64 (lane32 b (imm div 16 mod 4)) OR push_bit 96 (lane32 b (imm div 64 mod 4))"

subsection \<open>aes.h\<close>

record AES_KEY =
  rd_key :: "block list"
  rounds :: nat

text \<open>The macro \<^verbatim>\<open>EXPAND_ASSIST(v1, v2, v3, v4, shuff, con)\<close> as it is used, with \<open>v4 = v1\<close>;
  it updates \<open>v1\<close> and \<open>v3\<close>.\<close>

definition EXPAND_ASSIST :: "nat \<Rightarrow> 8 word \<Rightarrow> block \<times> block \<Rightarrow> block \<times> block" where
  "EXPAND_ASSIST shuff con = (\<lambda>(v1, v3).
     let v2 = mm_aeskeygenassist v1 con;
         v3 = mm_shuffle_ps v3 v1 16;
         v1 = v1 XOR v3;
         v3 = mm_shuffle_ps v3 v1 140;
         v1 = v1 XOR v3;
         v2 = mm_shuffle_epi32 v2 shuff
     in (v1 XOR v2, v3))"

definition AES_set_encrypt_key :: "block \<Rightarrow> AES_KEY" where
  "AES_set_encrypt_key userkey =
     (let kp = fold (\<lambda>con (kp, x). let x' = EXPAND_ASSIST 255 con x in (kp @ [fst x'], x'))
                 [1, 2, 4, 8, 16, 32, 64, 128, 27, 54] ([userkey], (userkey, 0))
      in \<lparr>rd_key = fst kp, rounds = 10\<rparr>)"

definition AES_ecb_encrypt_blks :: "AES_KEY \<Rightarrow> block list \<Rightarrow> block list" where
  "AES_ecb_encrypt_blks key blks =
     (let b0 = map (\<lambda>b. b XOR rd_key key ! 0) blks;
          b1 = fold (\<lambda>j bs. map (\<lambda>b. mm_aesenc b (rd_key key ! j)) bs) [1..<rounds key] b0
      in map (\<lambda>b. mm_aesenclast b (rd_key key ! rounds key)) b1)"

definition aes_encrypt :: "AES_KEY \<Rightarrow> block \<Rightarrow> block" where
  "aes_encrypt key b =
     mm_aesenclast (fold (\<lambda>j c. mm_aesenc c (rd_key key ! j)) [1..<rounds key] (b XOR rd_key key ! 0))
       (rd_key key ! rounds key)"

lemma fold_map_map: "fold (\<lambda>j bs. map (f j) bs) js (map g bs) = map (\<lambda>b. fold f js (g b)) bs"
  by (induction js arbitrary: g) (simp_all add: comp_def)

lemma AES_ecb_encrypt_blks_map: "AES_ecb_encrypt_blks key blks = map (aes_encrypt key) blks"
  by (simp add: AES_ecb_encrypt_blks_def aes_encrypt_def fold_map_map comp_def)

subsection \<open>prp.h\<close>

definition AES_BATCH_SIZE :: nat where "AES_BATCH_SIZE = 8"

definition permute_block :: "AES_KEY \<Rightarrow> block list \<Rightarrow> block list" where
  "permute_block aes data =
     (let n = length data;
          d = fold (\<lambda>i d. take (i * AES_BATCH_SIZE) d
                     @ AES_ecb_encrypt_blks aes (take AES_BATCH_SIZE (drop (i * AES_BATCH_SIZE) d))
                     @ drop (i * AES_BATCH_SIZE + AES_BATCH_SIZE) d) [0..<n div AES_BATCH_SIZE] data;
          remain = n mod AES_BATCH_SIZE
      in take (n - remain) d @ AES_ecb_encrypt_blks aes (drop (n - remain) d))"

lemma batched_map:
  assumes "m * k \<le> length data"
  shows "fold (\<lambda>i d. take (i * k) d @ map f (take k (drop (i * k) d)) @ drop (i * k + k) d) [0..<m] data
         = map f (take (m * k) data) @ drop (m * k) data"
  using assms
proof (induction m)
  case (Suc m)
  then have le: "m * k + k \<le> length data" by simp
  with Suc have IH: "fold (\<lambda>i d. take (i * k) d @ map f (take k (drop (i * k) d)) @ drop (i * k + k) d)
      [0..<m] data = map f (take (m * k) data) @ drop (m * k) data" by simp
  have "take (m * k + k) data = take (m * k) data @ take k (drop (m * k) data)"
    by (simp add: take_add)
  with le IH show ?case
    by (simp add: min_def add.commute)
qed simp

theorem permute_block_map: "permute_block aes data = map (aes_encrypt aes) data"
proof -
  have le: "length data div 8 * 8 \<le> length data" by simp
  have rem: "length data - length data mod 8 = length data div 8 * 8"
    by (simp add: minus_mod_eq_div_mult)
  show ?thesis
    unfolding permute_block_def AES_ecb_encrypt_blks_map AES_BATCH_SIZE_def Let_def
    by (simp add: batched_map [OF le] rem min_def flip: map_append)
qed

definition PRP_key :: "block \<Rightarrow> AES_KEY" where
  "PRP_key v = AES_set_encrypt_key v"

text \<open>The default-constructed \<^verbatim>\<open>PRP\<close> and \<^verbatim>\<open>CRH\<close> use the zero block as their key.\<close>

definition pi :: "block \<Rightarrow> block" where
  "pi = aes_encrypt (PRP_key zero_block)"

subsection \<open>crh.h, ccrh.h, tccrh.h\<close>

definition CRH_H :: "AES_KEY \<Rightarrow> block \<Rightarrow> block" where
  "CRH_H aes inp = (let t = hd (permute_block aes [inp]) in t XOR inp)"

definition CRH_Hn :: "AES_KEY \<Rightarrow> block list \<Rightarrow> block list" where
  "CRH_Hn aes inp = map2 (XOR) inp (permute_block aes inp)"

definition CCRH_H :: "AES_KEY \<Rightarrow> block \<Rightarrow> block" where
  "CCRH_H aes inp = (let inp' = sigma inp; t = hd (permute_block aes [inp']) in t XOR inp')"

definition CCRH_Hn :: "AES_KEY \<Rightarrow> block list \<Rightarrow> block list" where
  "CCRH_Hn aes inp = (let out = map sigma inp; scratch = permute_block aes out in map2 (XOR) scratch out)"

definition TCCRH_H :: "AES_KEY \<Rightarrow> block \<Rightarrow> 64 word \<Rightarrow> block" where
  "TCCRH_H aes inp i =
     (let inp' = hd (permute_block aes [inp]);
          t = inp' XOR makeBlock 0 i
      in hd (permute_block aes [t]) XOR inp')"

definition TCCRH_Hn :: "AES_KEY \<Rightarrow> block list \<Rightarrow> 64 word \<Rightarrow> block list" where
  "TCCRH_Hn aes inp idx =
     (let scratch = permute_block aes inp;
          out = map (\<lambda>i. scratch ! i XOR makeBlock 0 (idx + of_nat i)) [0..<length inp];
          out' = permute_block aes out
      in map2 (XOR) scratch out')"

lemma CRH_H_eq: "CRH_H aes x = aes_encrypt aes x XOR x"
  by (simp add: CRH_H_def permute_block_map)

text \<open>The vector forms are the scalar ones, element by element.\<close>

lemma map2_map_right: "map2 g xs (map f xs) = map (\<lambda>x. g x (f x)) xs"
  by (induction xs) auto

lemma CRH_Hn_map: "CRH_Hn aes xs = map (CRH_H aes) xs"
  by (simp add: CRH_Hn_def CRH_H_eq permute_block_map map2_map_right xor.commute)

lemma CCRH_Hn_map: "CCRH_Hn aes xs = map (CCRH_H aes) xs"
  by (induction xs) (simp_all add: CCRH_Hn_def CCRH_H_def permute_block_map Let_def)

lemma TCCRH_Hn_map:
  "TCCRH_Hn aes xs idx = map (\<lambda>i. TCCRH_H aes (xs ! i) (idx + of_nat i)) [0..<length xs]"
proof (rule nth_equalityI)
  show "length (TCCRH_Hn aes xs idx) = length (map (\<lambda>i. TCCRH_H aes (xs ! i) (idx + of_nat i)) [0..<length xs])"
    by (simp add: TCCRH_Hn_def Let_def permute_block_map)
next
  fix i assume "i < length (TCCRH_Hn aes xs idx)"
  then have "i < length xs" by (simp add: TCCRH_Hn_def Let_def permute_block_map)
  then show "TCCRH_Hn aes xs idx ! i
      = map (\<lambda>i. TCCRH_H aes (xs ! i) (idx + of_nat i)) [0..<length xs] ! i"
    by (simp add: TCCRH_Hn_def TCCRH_H_def permute_block_map Let_def) (rule xor.commute)
qed

end
