(* ===== verification/Shares.thy ===== *)
theory Shares
  imports Blocks
begin

text \<open>
  Authenticated bits.  Party \<open>i\<close> holds a bit \<open>val i\<close>, and for every other party \<open>j\<close> a tag
  \<open>mac i j\<close>; party \<open>j\<close> holds the matching key \<open>key j i\<close> and a global offset \<open>\<Delta> j\<close>.  Every
  component of emp-agmpc produces or consumes such bits, in the arrays \<^verbatim>\<open>MAC[nP+1]\<close>, \<^verbatim>\<open>KEY[nP+1]\<close>
  and \<^verbatim>\<open>r\<close> (or \<^verbatim>\<open>mac\<close>, \<^verbatim>\<open>key\<close>, \<^verbatim>\<open>value\<close>).  The invariant \<open>auth_bit\<close> and the way linear operations
  keep it are stated once here; \<open>helper.h\<close>'s debugging routines \<^verbatim>\<open>check_MAC\<close> and
  \<^verbatim>\<open>check_correctness\<close> are its executable form.
\<close>

definition auth_bit ::
  "nat \<Rightarrow> (nat \<Rightarrow> block) \<Rightarrow> (nat \<Rightarrow> bool) \<Rightarrow> block party_arr \<Rightarrow> block party_arr \<Rightarrow> bool" where
  "auth_bit nP \<Delta> val mac key \<longleftrightarrow>
     (\<forall>i\<in>{1..nP}. \<forall>j\<in>{1..nP}. i \<noteq> j \<longrightarrow> mac i j = key j i XOR gate_blk (val i) (\<Delta> j))"

lemma auth_bitI:
  "(\<And>i j. 1 \<le> i \<Longrightarrow> i \<le> nP \<Longrightarrow> 1 \<le> j \<Longrightarrow> j \<le> nP \<Longrightarrow> i \<noteq> j
     \<Longrightarrow> mac i j = key j i XOR gate_blk (val i) (\<Delta> j)) \<Longrightarrow> auth_bit nP \<Delta> val mac key"
  by (auto simp: auth_bit_def)

lemma auth_bitD:
  "auth_bit nP \<Delta> val mac key \<Longrightarrow> 1 \<le> i \<Longrightarrow> i \<le> nP \<Longrightarrow> 1 \<le> j \<Longrightarrow> j \<le> nP \<Longrightarrow> i \<noteq> j
     \<Longrightarrow> mac i j = key j i XOR gate_blk (val i) (\<Delta> j)"
  by (auto simp: auth_bit_def)

lemma auth_bit_cong:
  assumes "\<And>i. 1 \<le> i \<Longrightarrow> i \<le> nP \<Longrightarrow> val i = val' i"
    and "\<And>i j. 1 \<le> i \<Longrightarrow> i \<le> nP \<Longrightarrow> 1 \<le> j \<Longrightarrow> j \<le> nP \<Longrightarrow> i \<noteq> j \<Longrightarrow> mac i j = mac' i j"
    and "\<And>i j. 1 \<le> i \<Longrightarrow> i \<le> nP \<Longrightarrow> 1 \<le> j \<Longrightarrow> j \<le> nP \<Longrightarrow> i \<noteq> j \<Longrightarrow> key i j = key' i j"
  shows "auth_bit nP \<Delta> val mac key = auth_bit nP \<Delta> val' mac' key'"
  using assms by (auto simp: auth_bit_def)

lemma auth_bit_zero: "auth_bit nP \<Delta> (\<lambda>i. False) (\<lambda>i j. 0) (\<lambda>i j. 0)"
  by (simp add: auth_bit_def)

text \<open>Linear operations: the sum of two authenticated bits is authenticated, and a public
  correction of one party's share is absorbed by the other parties' keys.\<close>

lemma auth_bit_xor:
  assumes "auth_bit nP \<Delta> val mac key" and "auth_bit nP \<Delta> val' mac' key'"
  shows "auth_bit nP \<Delta> (\<lambda>i. bxor (val i) (val' i)) (\<lambda>i j. mac i j XOR mac' i j)
           (\<lambda>i j. key i j XOR key' i j)"
proof (rule auth_bitI)
  fix i j assume ij: "1 \<le> i" "i \<le> nP" "1 \<le> j" "j \<le> nP" "i \<noteq> j"
  show "mac i j XOR mac' i j = (key j i XOR key' j i) XOR gate_blk (bxor (val i) (val' i)) (\<Delta> j)"
    by (simp add: auth_bitD [OF assms(1) ij] auth_bitD [OF assms(2) ij] gate_blk_bxor xor_ac)
qed

lemma auth_bit_scale:
  assumes "auth_bit nP \<Delta> val mac key"
  shows "auth_bit nP \<Delta> (\<lambda>i. c \<and> val i) (\<lambda>i j. gate_blk c (mac i j)) (\<lambda>i j. gate_blk c (key i j))"
  using assms by (cases c) (simp_all add: auth_bit_zero)

lemma auth_bit_correct:
  assumes "auth_bit nP \<Delta> val mac key"
  shows "auth_bit nP \<Delta> (\<lambda>i. bxor (val i) (e i)) mac (\<lambda>j i. key j i XOR gate_blk (e i) (\<Delta> j))"
proof (rule auth_bitI)
  fix i j assume ij: "1 \<le> i" "i \<le> nP" "1 \<le> j" "j \<le> nP" "i \<noteq> j"
  show "mac i j = (key j i XOR gate_blk (e i) (\<Delta> j)) XOR gate_blk (bxor (val i) (e i)) (\<Delta> j)"
    by (simp add: auth_bitD [OF assms ij] gate_blk_bxor xor_ac)
qed

text \<open>What the tags held under party \<open>j\<close>'s keys add up to.\<close>

lemma auth_bit_column:
  assumes "auth_bit nP \<Delta> val mac key" and "1 \<le> j" "j \<le> nP"
  shows "xsum (\<lambda>i. mac i j) (others nP j)
         = xsum (\<lambda>i. key j i) (others nP j) XOR gate_blk (parity val (others nP j)) (\<Delta> j)"
proof -
  have "xsum (\<lambda>i. mac i j) (others nP j)
        = xsum (\<lambda>i. key j i XOR gate_blk (val i) (\<Delta> j)) (others nP j)"
    using assms by (intro xsum_cong) (auto intro: auth_bitD)
  then show ?thesis by (simp add: xsum_xor xsum_gate_blk)
qed

text \<open>Unforgeability of a single tag: a bit accepted under the key of an honest \<open>j\<close> with the
  wrong value carries the honest tag shifted by exactly \<open>\<Delta> j\<close>.\<close>

lemma mac_forgery_reveals_offset:
  assumes "auth_bit nP \<Delta> val mac key" and "1 \<le> i" "i \<le> nP" "1 \<le> j" "j \<le> nP" "i \<noteq> j"
    and "gate_blk b (\<Delta> j) XOR key j i = tag" and "b \<noteq> val i"
  shows "tag = mac i j XOR \<Delta> j"
proof -
  have "mac i j = key j i XOR gate_blk (val i) (\<Delta> j)"
    using assms by (auto intro: auth_bitD)
  moreover have "gate_blk b (\<Delta> j) = gate_blk (val i) (\<Delta> j) XOR \<Delta> j"
    using assms(8) by (cases "val i"; cases b) auto
  ultimately show ?thesis
    using assms(7) by (simp add: xor_ac)
qed

text \<open>Opening a shared bit to party \<open>p\<close>: if the bits \<open>b j\<close> it receives are accepted with the tags
  \<open>t j\<close>, then the sum is the shared bit, or some tag is the honest one shifted by \<open>p\<close>'s offset.\<close>

lemma opening_sound:
  assumes auth: "auth_bit nP \<Delta> val mac key" and p: "1 \<le> p" "p \<le> nP"
    and acc: "\<And>j. j \<in> set (others nP p) \<Longrightarrow> t j = gate_blk (b j) (\<Delta> p) XOR key p j"
  shows "(\<exists>j\<in>set (others nP p). b j \<noteq> val j \<and> t j = mac j p XOR \<Delta> p)
       \<or> bxor (val p) (parity b (others nP p)) = parity val (parties nP)"
proof (cases "\<forall>j\<in>set (others nP p). b j = val j")
  case True
  then have "parity b (others nP p) = parity val (others nP p)"
    by (intro parity_cong refl) auto
  then show ?thesis unfolding parity_parties [OF p] by simp
next
  case False
  then obtain j where j: "j \<in> set (others nP p)" "b j \<noteq> val j" by blast
  then have "1 \<le> j" "j \<le> nP" "j \<noteq> p" by auto
  then have "t j = mac j p XOR \<Delta> p"
    using mac_forgery_reveals_offset [OF auth _ _ p _ acc [OF j(1), symmetric] j(2)] by blast
  with j show ?thesis by blast
qed

lemma opening_honest:
  assumes "auth_bit nP \<Delta> val mac key" and "1 \<le> p" "p \<le> nP" and "j \<in> set (others nP p)"
  shows "mac j p = gate_blk (val j) (\<Delta> p) XOR key p j"
  using assms by (subst auth_bitD [OF assms(1)]) (auto simp: xor.commute)

subsection \<open>Arrays of authenticated bits\<close>

text \<open>\<open>set_all nP w f A\<close>: \<^verbatim>\<open>for(int j = 1; j <= nP; ++j) A[j][w] = f(j)\<close>.\<close>

definition set_all :: "nat \<Rightarrow> nat \<Rightarrow> (nat \<Rightarrow> 'a) \<Rightarrow> 'a party_arr \<Rightarrow> 'a party_arr" where
  "set_all nP w f A = (\<lambda>j. if 1 \<le> j \<and> j \<le> nP then (A j)(w := f j) else A j)"

lemma set_all_nth [simp]:
  "set_all nP w f A j v = (if 1 \<le> j \<and> j \<le> nP \<and> v = w then f j else A j v)"
  by (simp add: set_all_def)

end
