(* ===== verification/Circuit.thy ===== *)
theory Circuit
  imports Prelude "HOL-Library.State_Monad"
begin

text \<open>
  Boolean circuits: the interface \<^verbatim>\<open>CircuitExecution\<close> every backend implements
  (\<^verbatim>\<open>emp-tool/execution/circuit_execution.h\<close>) and the Bristol circuits of \<^verbatim>\<open>circuits/circuit_file.h\<close>, with
  their evaluation in the clear.  A backend is a record of gate functions over its own state (gate
  counter, channel) and wire type.
\<close>

record ('s, 'w) circuit_execution =
  and_gate :: "'w \<Rightarrow> 'w \<Rightarrow> ('s, 'w) state"
  xor_gate :: "'w \<Rightarrow> 'w \<Rightarrow> ('s, 'w) state"
  not_gate :: "'w \<Rightarrow> ('s, 'w) state"
  public_label :: "bool \<Rightarrow> ('s, 'w) state"

text \<open>\<^verbatim>\<open>for\<close> loops whose body runs gates.\<close>

primrec for_gates :: "nat list \<Rightarrow> (nat \<Rightarrow> 'a \<Rightarrow> ('s, 'a) state) \<Rightarrow> 'a \<Rightarrow> ('s, 'a) state" where
  "for_gates [] body x = State_Monad.return x"
| "for_gates (i # is) body x = do { y \<leftarrow> body i x; for_gates is body y }"

subsection \<open>circuit_file.h\<close>

definition AND_GATE :: nat where "AND_GATE = 0"
definition XOR_GATE :: nat where "XOR_GATE = 1"
definition NOT_GATE :: nat where "NOT_GATE = 2"

text \<open>The fields of \<^verbatim>\<open>BristolFormat\<close>; \<open>gates\<close> holds four entries per gate.\<close>

record BristolFormat =
  num_gate :: nat
  num_wire :: nat
  n1 :: nat
  n2 :: nat
  n3 :: nat
  gates :: "nat list"

definition gate_in1 :: "BristolFormat \<Rightarrow> nat \<Rightarrow> nat" where "gate_in1 cf i = gates cf ! (4 * i)"
definition gate_in2 :: "BristolFormat \<Rightarrow> nat \<Rightarrow> nat" where "gate_in2 cf i = gates cf ! (4 * i + 1)"
definition gate_out :: "BristolFormat \<Rightarrow> nat \<Rightarrow> nat" where "gate_out cf i = gates cf ! (4 * i + 2)"
definition gate_type :: "BristolFormat \<Rightarrow> nat \<Rightarrow> nat" where "gate_type cf i = gates cf ! (4 * i + 3)"

text \<open>\<^verbatim>\<open>execute_circuit\<close> treats an unknown gate type as OR.\<close>

definition execute_gate ::
  "('s, 'w) circuit_execution \<Rightarrow> BristolFormat \<Rightarrow> nat \<Rightarrow> 'w arr \<Rightarrow> ('s, 'w arr) state" where
  "execute_gate E cf i wires =
     (if gate_type cf i = AND_GATE then
        do { c \<leftarrow> and_gate E (wires (gate_in1 cf i)) (wires (gate_in2 cf i));
             State_Monad.return (wires(gate_out cf i := c)) }
      else if gate_type cf i = XOR_GATE then
        do { c \<leftarrow> xor_gate E (wires (gate_in1 cf i)) (wires (gate_in2 cf i));
             State_Monad.return (wires(gate_out cf i := c)) }
      else if gate_type cf i = NOT_GATE then
        do { c \<leftarrow> not_gate E (wires (gate_in1 cf i));
             State_Monad.return (wires(gate_out cf i := c)) }
      else
        do { tmp \<leftarrow> xor_gate E (wires (gate_in1 cf i)) (wires (gate_in2 cf i));
             tmp2 \<leftarrow> and_gate E (wires (gate_in1 cf i)) (wires (gate_in2 cf i));
             c \<leftarrow> xor_gate E tmp tmp2;
             State_Monad.return (wires(gate_out cf i := c)) })"

definition execute_circuit ::
  "('s, 'w) circuit_execution \<Rightarrow> BristolFormat \<Rightarrow> 'w arr \<Rightarrow> ('s, 'w arr) state" where
  "execute_circuit E cf wires = for_gates [0..<num_gate cf] (execute_gate E cf) wires"

text \<open>\<^verbatim>\<open>BristolFormat::compute\<close> takes every type but AND and XOR for NOT.\<close>

definition compute_gate ::
  "('s, 'w) circuit_execution \<Rightarrow> BristolFormat \<Rightarrow> nat \<Rightarrow> 'w arr \<Rightarrow> ('s, 'w arr) state" where
  "compute_gate E cf i wires =
     (if gate_type cf i = AND_GATE then
        do { c \<leftarrow> and_gate E (wires (gate_in1 cf i)) (wires (gate_in2 cf i));
             State_Monad.return (wires(gate_out cf i := c)) }
      else if gate_type cf i = XOR_GATE then
        do { c \<leftarrow> xor_gate E (wires (gate_in1 cf i)) (wires (gate_in2 cf i));
             State_Monad.return (wires(gate_out cf i := c)) }
      else
        do { c \<leftarrow> not_gate E (wires (gate_in1 cf i));
             State_Monad.return (wires(gate_out cf i := c)) })"

definition load_inputs :: "BristolFormat \<Rightarrow> 'w arr \<Rightarrow> 'w arr \<Rightarrow> 'w arr \<Rightarrow> 'w arr" where
  "load_inputs cf wires in1 in2 =
     (\<lambda>w. if w < n1 cf then in1 w else if w < n1 cf + n2 cf then in2 (w - n1 cf) else wires w)"

definition output_wires :: "BristolFormat \<Rightarrow> 'w arr \<Rightarrow> 'w list" where
  "output_wires cf wires = map wires [num_wire cf - n3 cf..<num_wire cf]"

definition compute ::
  "('s, 'w) circuit_execution \<Rightarrow> BristolFormat \<Rightarrow> 'w arr \<Rightarrow> 'w arr \<Rightarrow> 'w arr \<Rightarrow> ('s, 'w list) state" where
  "compute E cf wires in1 in2 =
     do { ws \<leftarrow> for_gates [0..<num_gate cf] (compute_gate E cf) (load_inputs cf wires in1 in2);
          State_Monad.return (output_wires cf ws) }"

subsection \<open>The reference: evaluation over the bits\<close>

definition eval_gate :: "BristolFormat \<Rightarrow> nat \<Rightarrow> bool arr \<Rightarrow> bool arr" where
  "eval_gate cf i w = w(gate_out cf i :=
     (if gate_type cf i = AND_GATE then w (gate_in1 cf i) \<and> w (gate_in2 cf i)
      else if gate_type cf i = XOR_GATE then bxor (w (gate_in1 cf i)) (w (gate_in2 cf i))
      else \<not> w (gate_in1 cf i)))"

definition eval_circuit :: "BristolFormat \<Rightarrow> bool arr \<Rightarrow> bool arr" where
  "eval_circuit cf w = fold (eval_gate cf) [0..<num_gate cf] w"

text \<open>A circuit is well formed when every wire is written once and read only after that, and
  all indices are in range.\<close>

definition defined_by :: "BristolFormat \<Rightarrow> nat \<Rightarrow> nat \<Rightarrow> bool" where
  "defined_by cf i w \<longleftrightarrow> w < n1 cf + n2 cf \<or> w \<in> set (map (gate_out cf) [0..<i])"

definition wf_gate :: "BristolFormat \<Rightarrow> nat \<Rightarrow> bool" where
  "wf_gate cf i \<longleftrightarrow>
     gate_type cf i \<in> {AND_GATE, XOR_GATE, NOT_GATE} \<and> gate_out cf i < num_wire cf
     \<and> \<not> defined_by cf i (gate_out cf i) \<and> defined_by cf i (gate_in1 cf i)
     \<and> (gate_type cf i \<noteq> NOT_GATE \<longrightarrow> defined_by cf i (gate_in2 cf i))"

definition wf_circuit :: "BristolFormat \<Rightarrow> bool" where
  "wf_circuit cf \<longleftrightarrow>
     n1 cf + n2 cf \<le> num_wire cf \<and> n3 cf \<le> num_wire cf \<and> length (gates cf) = 4 * num_gate cf
     \<and> list_all (wf_gate cf) [0..<num_gate cf]
     \<and> list_all (defined_by cf (num_gate cf)) [num_wire cf - n3 cf..<num_wire cf]"

lemma wf_gateD: "wf_circuit cf \<Longrightarrow> i < num_gate cf \<Longrightarrow> wf_gate cf i"
  by (auto simp: wf_circuit_def list_all_iff)

lemma defined_by_Suc: "defined_by cf (Suc i) w \<longleftrightarrow> defined_by cf i w \<or> w = gate_out cf i"
  by (auto simp: defined_by_def)

lemma defined_by_mono: "i \<le> j \<Longrightarrow> defined_by cf i w \<Longrightarrow> defined_by cf j w"
  by (auto simp: defined_by_def)

lemma gate_types: "AND_GATE \<noteq> XOR_GATE" "XOR_GATE \<noteq> NOT_GATE" "AND_GATE \<noteq> NOT_GATE"
  by (simp_all add: AND_GATE_def XOR_GATE_def NOT_GATE_def)

text \<open>On a well-formed circuit each gate writes its wire once and for all: the value a gate
  leaves is still there at the end.\<close>

lemma gate_out_fresh:
  assumes "wf_circuit cf" and "i < j" and "j < num_gate cf"
  shows "gate_out cf j \<noteq> gate_out cf i"
proof -
  have "\<not> defined_by cf j (gate_out cf j)"
    using wf_gateD [OF assms(1,3)] by (simp add: wf_gate_def)
  moreover have "defined_by cf j (gate_out cf i)"
    using assms(2) by (auto simp: defined_by_def)
  ultimately show ?thesis by metis
qed

lemma gate_out_not_defined:
  assumes "wf_circuit cf" and "i \<le> j" and "j < num_gate cf" and "defined_by cf i w"
  shows "gate_out cf j \<noteq> w"
  using wf_gateD [OF assms(1,3)] defined_by_mono [OF assms(2,4)] by (auto simp: wf_gate_def)

text \<open>A well-formed circuit reads nothing but its inputs.\<close>

lemma eval_gate_cong:
  assumes "wf_gate cf n" and "\<And>w. defined_by cf n w \<Longrightarrow> u w = v w" and "defined_by cf (Suc n) w"
  shows "eval_gate cf n u w = eval_gate cf n v w"
  using assms gate_types by (auto simp: eval_gate_def wf_gate_def defined_by_Suc)

lemma eval_circuit_cong:
  assumes wf: "wf_circuit cf" and "\<And>w. w < n1 cf + n2 cf \<Longrightarrow> u w = v w" and "defined_by cf (num_gate cf) w"
  shows "eval_circuit cf u w = eval_circuit cf v w"
proof -
  have "defined_by cf n w \<Longrightarrow> fold (eval_gate cf) [0..<n] u w = fold (eval_gate cf) [0..<n] v w" if "n \<le> num_gate cf" for n w
    using that
  proof (induction n arbitrary: w)
    case (Suc n)
    have "eval_gate cf n (fold (eval_gate cf) [0..<n] u) w = eval_gate cf n (fold (eval_gate cf) [0..<n] v) w"
      by (rule eval_gate_cong [OF wf_gateD [OF wf]]) (use Suc in auto)
    then show ?case by simp
  qed (simp add: defined_by_def assms(2))
  then show ?thesis using assms(3) by (simp add: eval_circuit_def)
qed

end
