(* ===== verification/Cmpc.thy ===== *)
theory Cmpc
  imports Cipher Shares Circuit
begin

text \<open>
  The protocol class \<^verbatim>\<open>CMPC<nP>\<close> of \<^verbatim>\<open>emp-agmpc/mpc.h\<close>: authenticated garbling among \<open>nP\<close>
  parties.  Party 1 evaluates, the others garble.  One record holds one party's object; every
  method is a function of that record and of the messages the party receives, and the honest
  run of a method feeds each party what the others send.  The functions follow the code loop
  by loop; \<open>fold f [0..<num_gate cf]\<close> is the loop over the gates.
\<close>

record cmpc =
  cm_party :: nat
  cm_value :: "bool arr"
  cm_mac :: "block party_arr"
  cm_key :: "block party_arr"
  preprocess_value :: "bool arr"
  preprocess_mac :: "block party_arr"
  preprocess_key :: "block party_arr"
  sigma_value :: "bool arr"
  sigma_mac :: "block party_arr"
  sigma_key :: "block party_arr"
  ANDS_value :: "bool arr"
  ANDS_mac :: "block party_arr"
  ANDS_key :: "block party_arr"
  cm_labels :: "block arr"
  cm_Delta :: block
  num_ands :: nat
  num_in :: nat
  total_pre :: nat
  cm_ssp :: nat
  GTM :: "nat \<Rightarrow> nat \<Rightarrow> nat \<Rightarrow> block"
  GTK :: "nat \<Rightarrow> nat \<Rightarrow> nat \<Rightarrow> block"
  GTv :: "nat \<Rightarrow> nat \<Rightarrow> bool"
  GT :: "nat \<Rightarrow> nat \<Rightarrow> nat \<Rightarrow> nat \<Rightarrow> block"
  eval_labels :: "block party_arr"

subsection \<open>Construction and the function-independent phase\<close>

definition count_ands :: "BristolFormat \<Rightarrow> nat \<Rightarrow> nat" where
  "count_ands cf n = fold (\<lambda>i c. if gate_type cf i = AND_GATE then Suc c else c) [0..<n] 0"

text \<open>The constructor; the arrays it allocates keep whatever \<open>heap\<close> held.\<close>

definition CMPC_new :: "nat \<Rightarrow> BristolFormat \<Rightarrow> block \<Rightarrow> nat \<Rightarrow> cmpc \<Rightarrow> cmpc" where
  "CMPC_new party cf delta ssp heap =
     (let ands = count_ands cf (num_gate cf) in
      heap\<lparr>cm_party := party, num_ands := ands, num_in := n1 cf + n2 cf,
           total_pre := n1 cf + n2 cf + ands + 3 * ssp, cm_ssp := ssp, cm_Delta := delta\<rparr>)"

text \<open>\<^verbatim>\<open>function_independent\<close>: random labels, the AND triples \<^verbatim>\<open>fpre->compute\<close> delivers and the
  authenticated bits \<^verbatim>\<open>fpre->abit->compute\<close> delivers; the first \<open>num_in\<close> of them become the
  masks of the input wires.\<close>

definition copy_parties :: "nat \<Rightarrow> nat \<Rightarrow> 'a party_arr \<Rightarrow> 'a party_arr \<Rightarrow> 'a party_arr" where
  "copy_parties nP n dst src = (\<lambda>i w. if 1 \<le> i \<and> i \<le> nP \<and> w < n then src i w else dst i w)"

definition function_independent ::
  "nat \<Rightarrow> BristolFormat \<Rightarrow> block arr \<Rightarrow> bool arr \<times> block party_arr \<times> block party_arr
   \<Rightarrow> bool arr \<times> block party_arr \<times> block party_arr \<Rightarrow> cmpc \<Rightarrow> cmpc" where
  "function_independent nP cf random_labels ands pre st =
     (let st = (if cm_party st \<noteq> 1
                then st\<lparr>cm_labels := (\<lambda>w. if w < num_wire cf then random_labels w else cm_labels st w)\<rparr>
                else st);
          (av, am, ak) = ands;
          (pv, pm, pk) = pre;
          st = st\<lparr>ANDS_mac := am, ANDS_key := ak, ANDS_value := av\<rparr>;
          st = st\<lparr>preprocess_mac := pm, preprocess_key := pk, preprocess_value := pv\<rparr>
      in st\<lparr>cm_key := copy_parties nP (num_in st) (cm_key st) (preprocess_key st),
            cm_mac := copy_parties nP (num_in st) (cm_mac st) (preprocess_mac st),
            cm_value := (\<lambda>w. if w < num_in st then preprocess_value st w else cm_value st w)\<rparr>)"

subsection \<open>The function-dependent phase\<close>

definition assign_and_masks :: "nat \<Rightarrow> BristolFormat \<Rightarrow> cmpc \<Rightarrow> cmpc" where
  "assign_and_masks nP cf st =
     snd (fold (\<lambda>i (ands, st).
        if gate_type cf i = AND_GATE then
          (Suc ands,
           st\<lparr>cm_key := set_all nP (gate_out cf i) (\<lambda>j. preprocess_key st j ands) (cm_key st),
              cm_mac := set_all nP (gate_out cf i) (\<lambda>j. preprocess_mac st j ands) (cm_mac st),
              cm_value := (cm_value st)(gate_out cf i := preprocess_value st ands)\<rparr>)
        else (ands, st)) [0..<num_gate cf] (num_in st, st))"

definition linear_gate :: "nat \<Rightarrow> BristolFormat \<Rightarrow> nat \<Rightarrow> cmpc \<Rightarrow> cmpc" where
  "linear_gate nP cf i st =
     (let a = gate_in1 cf i; b = gate_in2 cf i; c = gate_out cf i in
      if gate_type cf i = XOR_GATE then
        st\<lparr>cm_key := set_all nP c (\<lambda>j. cm_key st j a XOR cm_key st j b) (cm_key st),
           cm_mac := set_all nP c (\<lambda>j. cm_mac st j a XOR cm_mac st j b) (cm_mac st),
           cm_value := (cm_value st)(c := bxor (cm_value st a) (cm_value st b)),
           cm_labels := (if cm_party st \<noteq> 1
                         then (cm_labels st)(c := cm_labels st a XOR cm_labels st b) else cm_labels st)\<rparr>
      else if gate_type cf i = NOT_GATE then
        st\<lparr>cm_key := set_all nP c (\<lambda>j. cm_key st j a) (cm_key st),
           cm_mac := set_all nP c (\<lambda>j. cm_mac st j a) (cm_mac st),
           cm_value := (cm_value st)(c := cm_value st a),
           cm_labels := (if cm_party st \<noteq> 1
                         then (cm_labels st)(c := cm_labels st a XOR cm_Delta st) else cm_labels st)\<rparr>
      else st)"

definition linear_gates :: "nat \<Rightarrow> BristolFormat \<Rightarrow> cmpc \<Rightarrow> cmpc" where
  "linear_gates nP cf st = fold (linear_gate nP cf) [0..<num_gate cf] st"

text \<open>The party's shares \<open>x[party]\<close>, \<open>y[party]\<close> of the masked operands of each AND gate.  The
  entries beyond \<open>num_ands\<close> are never sent.\<close>

definition masked_operands :: "BristolFormat \<Rightarrow> cmpc \<Rightarrow> bool arr \<times> bool arr" where
  "masked_operands cf st =
     snd (fold (\<lambda>i (ands, x, y).
        if gate_type cf i = AND_GATE then
          (Suc ands, x(ands := bxor (cm_value st (gate_in1 cf i)) (ANDS_value st (3 * ands))),
           y(ands := bxor (cm_value st (gate_in2 cf i)) (ANDS_value st (3 * ands + 1))))
        else (ands, x, y)) [0..<num_gate cf] (0, (\<lambda>_. False), (\<lambda>_. False)))"

text \<open>\<open>x[1][j] = x[1][j] != x[i][j]\<close> for \<open>i = 2, \<dots>, nP\<close>, where \<open>xs i\<close> is party \<open>i\<close>'s array.\<close>

definition sum_shares :: "nat \<Rightarrow> (nat \<Rightarrow> bool arr) \<Rightarrow> bool arr" where
  "sum_shares nP xs = (\<lambda>j. fold (\<lambda>i b. bxor b (xs i j)) [2..<Suc nP] (xs 1 j))"

definition sigma_gate :: "nat \<Rightarrow> bool arr \<Rightarrow> bool arr \<Rightarrow> nat \<Rightarrow> cmpc \<Rightarrow> cmpc" where
  "sigma_gate nP x y k st =
     (let st = st\<lparr>sigma_mac := set_all nP k (\<lambda>j. ANDS_mac st j (3 * k + 2)) (sigma_mac st),
                  sigma_key := set_all nP k (\<lambda>j. ANDS_key st j (3 * k + 2)) (sigma_key st),
                  sigma_value := (sigma_value st)(k := ANDS_value st (3 * k + 2))\<rparr>;
          st = (if x k then
             st\<lparr>sigma_mac := set_all nP k (\<lambda>j. sigma_mac st j k XOR ANDS_mac st j (3 * k + 1)) (sigma_mac st),
                sigma_key := set_all nP k (\<lambda>j. sigma_key st j k XOR ANDS_key st j (3 * k + 1)) (sigma_key st),
                sigma_value := (sigma_value st)(k := bxor (sigma_value st k) (ANDS_value st (3 * k + 1)))\<rparr>
             else st);
          st = (if y k then
             st\<lparr>sigma_mac := set_all nP k (\<lambda>j. sigma_mac st j k XOR ANDS_mac st j (3 * k)) (sigma_mac st),
                sigma_key := set_all nP k (\<lambda>j. sigma_key st j k XOR ANDS_key st j (3 * k)) (sigma_key st),
                sigma_value := (sigma_value st)(k := bxor (sigma_value st k) (ANDS_value st (3 * k)))\<rparr>
             else st)
      in if x k \<and> y k then
           (if cm_party st \<noteq> 1
            then st\<lparr>sigma_key := (sigma_key st)(1 := (sigma_key st 1)(k := sigma_key st 1 k XOR cm_Delta st))\<rparr>
            else st\<lparr>sigma_value := (sigma_value st)(k := (\<not> sigma_value st k))\<rparr>)
         else st)"

definition compute_sigma :: "nat \<Rightarrow> BristolFormat \<Rightarrow> bool arr \<Rightarrow> bool arr \<Rightarrow> cmpc \<Rightarrow> cmpc" where
  "compute_sigma nP cf x y st =
     snd (fold (\<lambda>i (ands, st).
        if gate_type cf i = AND_GATE then (Suc ands, sigma_gate nP x y ands st) else (ands, st))
        [0..<num_gate cf] (0, st))"

text \<open>The shares of the four rows of a garbled gate: bits \<open>r\<close>, tags \<open>M\<close> and keys \<open>K\<close>.\<close>

definition row_bits :: "BristolFormat \<Rightarrow> cmpc \<Rightarrow> nat \<Rightarrow> nat \<Rightarrow> bool list" where
  "row_bits cf st i ands =
     (let r0 = bxor (sigma_value st ands) (cm_value st (gate_out cf i));
          r1 = bxor r0 (cm_value st (gate_in1 cf i));
          r2 = bxor r0 (cm_value st (gate_in2 cf i));
          r3 = bxor r1 (cm_value st (gate_in2 cf i));
          r3 = (if cm_party st \<noteq> 1 then r3 else bxor r3 True)
      in [r0, r1, r2, r3])"

definition row_macs :: "BristolFormat \<Rightarrow> cmpc \<Rightarrow> nat \<Rightarrow> nat \<Rightarrow> nat \<Rightarrow> block list" where
  "row_macs cf st i ands j =
     (let m0 = sigma_mac st j ands XOR cm_mac st j (gate_out cf i);
          m1 = m0 XOR cm_mac st j (gate_in1 cf i);
          m2 = m0 XOR cm_mac st j (gate_in2 cf i);
          m3 = m1 XOR cm_mac st j (gate_in2 cf i)
      in [m0, m1, m2, m3])"

definition row_keys :: "BristolFormat \<Rightarrow> cmpc \<Rightarrow> nat \<Rightarrow> nat \<Rightarrow> nat \<Rightarrow> block list" where
  "row_keys cf st i ands j =
     (let k0 = sigma_key st j ands XOR cm_key st j (gate_out cf i);
          k1 = k0 XOR cm_key st j (gate_in1 cf i);
          k2 = k0 XOR cm_key st j (gate_in2 cf i);
          k3 = k1 XOR cm_key st j (gate_in2 cf i);
          k3 = (if cm_party st \<noteq> 1 \<and> j = 1 then k3 XOR cm_Delta st else k3)
      in [k0, k1, k2, k3])"

text \<open>The two \<^verbatim>\<open>Hash\<close> methods.  \<open>prp.permute_block(H[j]+1, nP)\<close> permutes entries \<open>1, \<dots>, nP\<close>.\<close>

definition hash_row :: "nat \<Rightarrow> block \<Rightarrow> nat \<Rightarrow> nat \<Rightarrow> nat \<Rightarrow> block" where
  "hash_row nP h0 idx row =
     (let hs = permute_block (PRP_key zero_block)
                 (map (\<lambda>i. h0 XOR makeBlock (4 * of_nat idx + of_nat row) (of_nat i)) [1..<Suc nP])
      in (\<lambda>i. if 1 \<le> i \<and> i \<le> nP then hs ! (i - 1) else h0))"

definition Hash_garble :: "nat \<Rightarrow> block \<Rightarrow> block \<Rightarrow> block \<Rightarrow> nat \<Rightarrow> nat \<Rightarrow> nat \<Rightarrow> block" where
  "Hash_garble nP Delta a b idx row =
     (let t0 = sigma a; t1 = sigma (a XOR Delta);
          t2 = sigma (sigma b); t3 = sigma (sigma (b XOR Delta));
          h0 = [t0 XOR t2, t0 XOR t3, t1 XOR t2, t1 XOR t3] ! row
      in hash_row nP h0 idx row)"

definition Hash_eval :: "nat \<Rightarrow> block \<Rightarrow> block \<Rightarrow> nat \<Rightarrow> nat \<Rightarrow> nat \<Rightarrow> block" where
  "Hash_eval nP a b idx row = hash_row nP (sigma a XOR sigma (sigma b)) idx row"

text \<open>One garbled gate of a party other than 1: what it sends, indexed by row and receiver slot.\<close>

definition garble_row :: "nat \<Rightarrow> BristolFormat \<Rightarrow> cmpc \<Rightarrow> nat \<Rightarrow> nat \<Rightarrow> nat \<Rightarrow> nat \<Rightarrow> block" where
  "garble_row nP cf st i ands row =
     (let p = cm_party st;
          H = Hash_garble nP (cm_Delta st) (cm_labels st (gate_in1 cf i)) (cm_labels st (gate_in2 cf i)) ands row;
          H = fold (\<lambda>k h. let h = h(k := h k XOR row_macs cf st i ands k ! row)
                          in h(p := h p XOR row_keys cf st i ands k ! row)) (others nP p) H;
          H = H(p := H p XOR cm_labels st (gate_out cf i))
      in if row_bits cf st i ands ! row then H(p := H p XOR cm_Delta st) else H)"

definition garble :: "nat \<Rightarrow> BristolFormat \<Rightarrow> cmpc \<Rightarrow> nat \<Rightarrow> nat \<Rightarrow> nat \<Rightarrow> block" where
  "garble nP cf st =
     snd (fold (\<lambda>i (ands, tab).
        if gate_type cf i = AND_GATE
        then (Suc ands, tab(ands := (\<lambda>row. garble_row nP cf st i ands row))) else (ands, tab))
        [0..<num_gate cf] (0, (\<lambda>_ _ _. 0)))"

text \<open>Party 1 keeps its own rows and receives those of the others into \<open>GT\<close>.\<close>

definition keep_rows :: "nat \<Rightarrow> BristolFormat \<Rightarrow> cmpc \<Rightarrow> cmpc" where
  "keep_rows nP cf st =
     snd (fold (\<lambda>i (ands, st).
        if gate_type cf i = AND_GATE then
          (Suc ands,
           st\<lparr>GTK := (GTK st)(ands := (\<lambda>row j. row_keys cf st i ands j ! row)),
              GTM := (GTM st)(ands := (\<lambda>row j. row_macs cf st i ands j ! row)),
              GTv := (GTv st)(ands := (\<lambda>row. row_bits cf st i ands ! row))\<rparr>)
        else (ands, st)) [0..<num_gate cf] (0, st))"

definition receive_tables :: "nat \<Rightarrow> (nat \<Rightarrow> nat \<Rightarrow> nat \<Rightarrow> nat \<Rightarrow> block) \<Rightarrow> cmpc \<Rightarrow> cmpc" where
  "receive_tables nP tabs st =
     st\<lparr>GT := (\<lambda>k p2 row i.
         if k < num_ands st \<and> 2 \<le> p2 \<and> p2 \<le> nP \<and> row < 4 \<and> 1 \<le> i \<and> i \<le> nP
         then tabs p2 k row i else GT st k p2 row i)\<rparr>"

text \<open>The part of \<^verbatim>\<open>function_dependent\<close> before the first message, and the whole method:
  \<open>xs\<close>, \<open>ys\<close> are the arrays of masked operands (the party's own and those received), \<open>tabs\<close> the
  garbled gates received by party 1.\<close>

definition fd_prepare :: "nat \<Rightarrow> BristolFormat \<Rightarrow> cmpc \<Rightarrow> cmpc" where
  "fd_prepare nP cf st = linear_gates nP cf (assign_and_masks nP cf st)"

definition fd_sigma ::
  "nat \<Rightarrow> BristolFormat \<Rightarrow> (nat \<Rightarrow> bool arr) \<Rightarrow> (nat \<Rightarrow> bool arr) \<Rightarrow> cmpc \<Rightarrow> cmpc" where
  "fd_sigma nP cf xs ys st =
     compute_sigma nP cf (sum_shares nP xs) (sum_shares nP ys) (fd_prepare nP cf st)"

definition function_dependent ::
  "nat \<Rightarrow> BristolFormat \<Rightarrow> (nat \<Rightarrow> bool arr) \<Rightarrow> (nat \<Rightarrow> bool arr)
   \<Rightarrow> (nat \<Rightarrow> nat \<Rightarrow> nat \<Rightarrow> nat \<Rightarrow> block) \<Rightarrow> cmpc \<Rightarrow> cmpc" where
  "function_dependent nP cf xs ys tabs st =
     (let st = fd_sigma nP cf xs ys st in
      if cm_party st \<noteq> 1 then st else keep_rows nP cf (receive_tables nP tabs st))"

text \<open>The honest run: every party receives what the others send.\<close>

definition run_function_dependent :: "nat \<Rightarrow> BristolFormat \<Rightarrow> (nat \<Rightarrow> cmpc) \<Rightarrow> nat \<Rightarrow> cmpc" where
  "run_function_dependent nP cf W =
     (let xs = (\<lambda>p. fst (masked_operands cf (fd_prepare nP cf (W p))));
          ys = (\<lambda>p. snd (masked_operands cf (fd_prepare nP cf (W p))));
          tabs = (\<lambda>p. garble nP cf (fd_sigma nP cf xs ys (W p)))
      in (\<lambda>p. function_dependent nP cf xs ys tabs (W p)))"

subsection \<open>Evaluation\<close>

text \<open>What a garbler sends for the masked inputs, and party 1's evaluation of the circuit.  The
  state of the loop is the AND counter, the masked values, the labels and the gates at which
  the code prints \<^verbatim>\<open>no match GT!\<close>.\<close>

definition input_labels :: "cmpc \<Rightarrow> bool arr \<Rightarrow> block arr" where
  "input_labels st msk = (\<lambda>i. if msk i then cm_labels st i XOR cm_Delta st else cm_labels st i)"

definition eval_row ::
  "nat \<Rightarrow> BristolFormat \<Rightarrow> cmpc \<Rightarrow> nat \<Rightarrow> nat \<Rightarrow> nat \<Rightarrow> nat \<Rightarrow> bool arr \<times> block party_arr \<times> nat list
   \<Rightarrow> bool arr \<times> block party_arr \<times> nat list" where
  "eval_row nP cf st i ands index j = (\<lambda>(m, el, log).
     let c = gate_out cf i;
         H = Hash_eval nP (el j (gate_in1 cf i)) (el j (gate_in2 cf i)) ands index;
         H = xorBlocks_arr H H (GT st ands j index) (Suc nP);
         el = (\<lambda>k. if 2 \<le> k \<and> k \<le> nP then (el k)(c := H k XOR el k c) else el k);
         t0 = GTK st ands index j XOR cm_Delta st
     in if cmpBlock (\<lambda>_. H 1) (\<lambda>_. GTK st ands index j) 1 then (m(c := bxor (m c) False), el, log)
        else if cmpBlock (\<lambda>_. H 1) (\<lambda>_. t0) 1 then (m(c := bxor (m c) True), el, log)
        else (m, el, log @ [ands]))"

definition eval_and_gate ::
  "nat \<Rightarrow> BristolFormat \<Rightarrow> cmpc \<Rightarrow> nat \<Rightarrow> nat \<Rightarrow> bool arr \<times> block party_arr \<times> nat list
   \<Rightarrow> bool arr \<times> block party_arr \<times> nat list" where
  "eval_and_gate nP cf st i ands = (\<lambda>(m, el, log).
     let index = 2 * of_bool (m (gate_in1 cf i)) + of_bool (m (gate_in2 cf i));
         c = gate_out cf i;
         el = (\<lambda>j. if 2 \<le> j \<and> j \<le> nP then (el j)(c := GTM st ands index j) else el j);
         m = m(c := GTv st ands index)
     in fold (eval_row nP cf st i ands index) [2..<Suc nP] (m, el, log))"

definition eval_gate_labels ::
  "nat \<Rightarrow> BristolFormat \<Rightarrow> cmpc \<Rightarrow> nat \<Rightarrow> nat \<times> bool arr \<times> block party_arr \<times> nat list
   \<Rightarrow> nat \<times> bool arr \<times> block party_arr \<times> nat list" where
  "eval_gate_labels nP cf st i = (\<lambda>(ands, m, el, log).
     let a = gate_in1 cf i; b = gate_in2 cf i; c = gate_out cf i in
     if gate_type cf i = XOR_GATE then
       (ands, m(c := bxor (m a) (m b)),
        (\<lambda>j. if 2 \<le> j \<and> j \<le> nP then (el j)(c := el j a XOR el j b) else el j), log)
     else if gate_type cf i = AND_GATE then (Suc ands, eval_and_gate nP cf st i ands (m, el, log))
     else
       (ands, m(c := (\<not> m a)),
        (\<lambda>j. if 2 \<le> j \<and> j \<le> nP then (el j)(c := el j a) else el j), log))"

definition evaluate ::
  "nat \<Rightarrow> BristolFormat \<Rightarrow> cmpc \<Rightarrow> bool arr \<Rightarrow> block party_arr \<Rightarrow> bool arr \<times> block party_arr \<times> nat list" where
  "evaluate nP cf st msk el =
     snd (fold (eval_gate_labels nP cf st) [0..<num_gate cf] (0, msk, el, []))"

text \<open>\<open>eval_labels[party2]\<close> is received for the inputs only; its other entries are what the
  allocation left.\<close>

definition receive_labels :: "nat \<Rightarrow> cmpc \<Rightarrow> (nat \<Rightarrow> block arr) \<Rightarrow> block party_arr" where
  "receive_labels nP st ls =
     (\<lambda>j w. if 2 \<le> j \<and> j \<le> nP \<and> w < num_in st then ls j w else eval_labels st j w)"

subsection \<open>online(bool * input, bool * output)\<close>

text \<open>Every party holds an exclusive-or share of every input bit.  Party 1 combines the masked
  shares, returns them, collects the labels, evaluates and unmasks the outputs.  \<open>garbage\<close> is
  the uninitialised \<^verbatim>\<open>mask_input\<close> array.\<close>

definition online_mask :: "cmpc \<Rightarrow> bool arr \<Rightarrow> bool arr \<Rightarrow> bool arr" where
  "online_mask st garbage input =
     (\<lambda>i. if i < num_in st then bxor (input i) (cm_value st i) else garbage i)"

definition online_collect :: "nat \<Rightarrow> cmpc \<Rightarrow> (nat \<Rightarrow> bool arr) \<Rightarrow> bool arr \<Rightarrow> bool arr" where
  "online_collect nP st tmp msk =
     (\<lambda>i. if i < num_in st then fold (\<lambda>j b. bxor (tmp j i) b) [2..<Suc nP] (msk i) else msk i)"

definition online_unmask ::
  "nat \<Rightarrow> BristolFormat \<Rightarrow> cmpc \<Rightarrow> (nat \<Rightarrow> bool arr) \<Rightarrow> bool arr \<Rightarrow> bool list" where
  "online_unmask nP cf st tmp msk =
     map (\<lambda>w. bxor (cm_value st w) (fold (\<lambda>j b. bxor (tmp j w) b) [2..<Suc nP] (msk w)))
       [num_wire cf - n3 cf..<num_wire cf]"

definition online_alice ::
  "nat \<Rightarrow> BristolFormat \<Rightarrow> cmpc \<Rightarrow> bool arr \<Rightarrow> bool arr \<Rightarrow> (nat \<Rightarrow> bool arr) \<Rightarrow> (nat \<Rightarrow> block arr)
   \<Rightarrow> (nat \<Rightarrow> bool arr) \<Rightarrow> bool list \<times> nat list" where
  "online_alice nP cf st garbage input masks ls outs =
     (let msk = online_collect nP st masks (online_mask st garbage input);
          (m, el, log) = evaluate nP cf st msk (receive_labels nP st ls)
      in (online_unmask nP cf st outs m, log))"

text \<open>The honest run of \<^verbatim>\<open>online\<close> on the states \<open>W\<close> and the input shares \<open>inputs\<close>: party 1's output
  and log.\<close>

definition run_online ::
  "nat \<Rightarrow> BristolFormat \<Rightarrow> (nat \<Rightarrow> cmpc) \<Rightarrow> bool arr \<Rightarrow> (nat \<Rightarrow> bool arr) \<Rightarrow> bool list \<times> nat list" where
  "run_online nP cf W garbage inputs =
     (let masks = (\<lambda>p. online_mask (W p) garbage (inputs p));
          msk = online_collect nP (W 1) masks (masks 1)
      in online_alice nP cf (W 1) garbage (inputs 1) masks
           (\<lambda>p. input_labels (W p) msk) (\<lambda>p. cm_value (W p)))"

end
