(* ===== verification/Garbling.thy ===== *)
theory Garbling
  imports Cmpc
begin

text \<open>
  What the phases of \<open>Cmpc\<close> leave behind, and why party 1 can evaluate it.  The loops are first
  brought to closed form (counters removed, each wire and each AND slot written once); then
  \<open>garbled\<close> collects the facts about the parties' states after \<^verbatim>\<open>function_dependent\<close> that the
  evaluation relies on.
\<close>

subsection \<open>Counted loops over the AND gates\<close>

lemma count_ands_simps [simp]:
  "count_ands cf 0 = 0"
  "count_ands cf (Suc n) = (if gate_type cf n = AND_GATE then Suc (count_ands cf n) else count_ands cf n)"
  by (simp_all add: count_ands_def)

lemma count_ands_mono: "m \<le> n \<Longrightarrow> count_ands cf m \<le> count_ands cf n"
  by (induction n rule: dec_induct) auto

lemma count_ands_less:
  assumes "k < n" and "gate_type cf k = AND_GATE"
  shows "count_ands cf k < count_ands cf n"
proof -
  have "count_ands cf k < count_ands cf (Suc k)" using assms by simp
  also have "\<dots> \<le> count_ands cf n" using assms by (intro count_ands_mono) simp
  finally show ?thesis .
qed

lemma count_ands_inj:
  assumes "gate_type cf k = AND_GATE" and "gate_type cf l = AND_GATE"
    and "count_ands cf k = count_ands cf l"
  shows "k = l"
  using assms count_ands_less [of k l cf] count_ands_less [of l k cf]
  by (metis less_irrefl linorder_neqE_nat)

lemma counter_loop:
  "fold (\<lambda>i (a, s). if gate_type cf i = AND_GATE then (Suc a, g i a s) else (a, s)) [0..<n] (a0, s0)
   = (a0 + count_ands cf n,
      fold (\<lambda>i s. if gate_type cf i = AND_GATE then g i (a0 + count_ands cf i) s else s) [0..<n] s0)"
  by (induction n) auto

text \<open>A quantity no iteration from \<open>k\<close> on changes has its final value after \<open>k\<close> iterations.\<close>

lemma fold_stable:
  assumes "k \<le> n" and "\<And>i s. k \<le> i \<Longrightarrow> i < n \<Longrightarrow> g (f i s) = g s"
  shows "g (fold f [0..<n] s) = g (fold f [0..<k] s)"
  using assms by (induction n rule: dec_induct) auto

lemma fold_stable_all: "(\<And>i s. g (f i s) = g s) \<Longrightarrow> g (fold f xs s) = g s"
  by (induction xs arbitrary: s) auto

text \<open>The value the only writer of a slot leaves there.\<close>

lemma fold_written:
  assumes "k < n" and "\<And>i s. k < i \<Longrightarrow> i < n \<Longrightarrow> g (f i s) = g s"
  shows "g (fold f [0..<n] s) = g (f k (fold f [0..<k] s))"
  using fold_stable [of "Suc k" n g f s] assms by simp

subsection \<open>Masks of the AND outputs\<close>

definition and_mask_step :: "nat \<Rightarrow> BristolFormat \<Rightarrow> nat \<Rightarrow> nat \<Rightarrow> cmpc \<Rightarrow> cmpc" where
  "and_mask_step nP cf i a st =
     st\<lparr>cm_key := set_all nP (gate_out cf i) (\<lambda>j. preprocess_key st j a) (cm_key st),
        cm_mac := set_all nP (gate_out cf i) (\<lambda>j. preprocess_mac st j a) (cm_mac st),
        cm_value := (cm_value st)(gate_out cf i := preprocess_value st a)\<rparr>"

lemma assign_and_masks_fold:
  "assign_and_masks nP cf st =
     fold (\<lambda>i s. if gate_type cf i = AND_GATE then and_mask_step nP cf i (num_in st + count_ands cf i) s else s)
       [0..<num_gate cf] st"
  unfolding assign_and_masks_def and_mask_step_def
  by (subst counter_loop) simp

lemma assign_and_masks_frame [simp]:
  "cm_party (assign_and_masks nP cf st) = cm_party st"
  "cm_Delta (assign_and_masks nP cf st) = cm_Delta st"
  "cm_labels (assign_and_masks nP cf st) = cm_labels st"
  "num_in (assign_and_masks nP cf st) = num_in st"
  "num_ands (assign_and_masks nP cf st) = num_ands st"
  "ANDS_value (assign_and_masks nP cf st) = ANDS_value st"
  "ANDS_mac (assign_and_masks nP cf st) = ANDS_mac st"
  "ANDS_key (assign_and_masks nP cf st) = ANDS_key st"
  unfolding assign_and_masks_fold
  by (rule fold_stable_all, simp add: and_mask_step_def)+

lemma and_mask_step_other:
  assumes "gate_out cf i \<noteq> w"
  shows "cm_value (and_mask_step nP cf i a s) w = cm_value s w"
    and "cm_mac (and_mask_step nP cf i a s) j w = cm_mac s j w"
    and "cm_key (and_mask_step nP cf i a s) j w = cm_key s j w"
  using assms by (simp_all add: and_mask_step_def)

lemma and_mask_step_at:
  "cm_value (and_mask_step nP cf i a s) (gate_out cf i) = preprocess_value s a"
  "1 \<le> j \<Longrightarrow> j \<le> nP \<Longrightarrow> cm_mac (and_mask_step nP cf i a s) j (gate_out cf i) = preprocess_mac s j a"
  "1 \<le> j \<Longrightarrow> j \<le> nP \<Longrightarrow> cm_key (and_mask_step nP cf i a s) j (gate_out cf i) = preprocess_key s j a"
  by (simp_all add: and_mask_step_def)

lemma assign_and_masks_stable:
  assumes "\<And>i a s. i < num_gate cf \<Longrightarrow> g (and_mask_step nP cf i a s) = g s"
  shows "g (assign_and_masks nP cf st) = g st"
  unfolding assign_and_masks_fold
  using fold_stable [of 0 "num_gate cf" g] assms by simp

lemma input_not_out:
  "wf_circuit cf \<Longrightarrow> w < n1 cf + n2 cf \<Longrightarrow> i < num_gate cf \<Longrightarrow> gate_out cf i \<noteq> w"
  using gate_out_not_defined [of cf 0 i w] by (simp add: defined_by_def)

lemma assign_and_masks_input:
  assumes "wf_circuit cf" and "w < n1 cf + n2 cf"
  shows "cm_value (assign_and_masks nP cf st) w = cm_value st w"
    and "cm_mac (assign_and_masks nP cf st) j w = cm_mac st j w"
    and "cm_key (assign_and_masks nP cf st) j w = cm_key st j w"
  using input_not_out [OF assms]
  by (auto intro!: assign_and_masks_stable [of cf "\<lambda>s. cm_value s w"]
        assign_and_masks_stable [of cf "\<lambda>s. cm_mac s j w"]
        assign_and_masks_stable [of cf "\<lambda>s. cm_key s j w"] and_mask_step_other)

lemma assign_and_masks_out:
  assumes "wf_circuit cf" and "k < num_gate cf" and "gate_type cf k = AND_GATE" and "1 \<le> j" "j \<le> nP"
  shows "cm_value (assign_and_masks nP cf st) (gate_out cf k) = preprocess_value st (num_in st + count_ands cf k)"
    and "cm_mac (assign_and_masks nP cf st) j (gate_out cf k) = preprocess_mac st j (num_in st + count_ands cf k)"
    and "cm_key (assign_and_masks nP cf st) j (gate_out cf k) = preprocess_key st j (num_in st + count_ands cf k)"
proof -
  let ?f = "\<lambda>i s. if gate_type cf i = AND_GATE
              then and_mask_step nP cf i (num_in st + count_ands cf i) s else s"
  have pre: "preprocess_value (fold ?f xs s) = preprocess_value s"
      "preprocess_mac (fold ?f xs s) = preprocess_mac s"
      "preprocess_key (fold ?f xs s) = preprocess_key s" for xs s
    by (rule fold_stable_all, simp add: and_mask_step_def)+
  have fresh: "k < i \<Longrightarrow> i < num_gate cf \<Longrightarrow> gate_out cf i \<noteq> gate_out cf k" for i
    using gate_out_fresh [OF assms(1)] by blast
  note written = fold_written [OF assms(2), where f = ?f]
  show "cm_value (assign_and_masks nP cf st) (gate_out cf k) = preprocess_value st (num_in st + count_ands cf k)"
    unfolding assign_and_masks_fold
    by (subst written [of "\<lambda>s. cm_value s (gate_out cf k)"])
      (use assms(3-) in \<open>simp_all add: and_mask_step_other fresh and_mask_step_at pre\<close>)
  show "cm_mac (assign_and_masks nP cf st) j (gate_out cf k) = preprocess_mac st j (num_in st + count_ands cf k)"
    unfolding assign_and_masks_fold
    by (subst written [of "\<lambda>s. cm_mac s j (gate_out cf k)"])
      (use assms(3-) in \<open>simp_all add: and_mask_step_other fresh and_mask_step_at pre\<close>)
  show "cm_key (assign_and_masks nP cf st) j (gate_out cf k) = preprocess_key st j (num_in st + count_ands cf k)"
    unfolding assign_and_masks_fold
    by (subst written [of "\<lambda>s. cm_key s j (gate_out cf k)"])
      (use assms(3-) in \<open>simp_all add: and_mask_step_other fresh and_mask_step_at pre\<close>)
qed

subsection \<open>Linear gates\<close>

lemma linear_gate_frame [simp]:
  "cm_party (linear_gate nP cf i st) = cm_party st"
  "cm_Delta (linear_gate nP cf i st) = cm_Delta st"
  "num_in (linear_gate nP cf i st) = num_in st"
  "num_ands (linear_gate nP cf i st) = num_ands st"
  "ANDS_value (linear_gate nP cf i st) = ANDS_value st"
  "ANDS_mac (linear_gate nP cf i st) = ANDS_mac st"
  "ANDS_key (linear_gate nP cf i st) = ANDS_key st"
  by (simp_all add: linear_gate_def Let_def)

lemma linear_gates_frame [simp]:
  "cm_party (linear_gates nP cf st) = cm_party st"
  "cm_Delta (linear_gates nP cf st) = cm_Delta st"
  "num_in (linear_gates nP cf st) = num_in st"
  "num_ands (linear_gates nP cf st) = num_ands st"
  "ANDS_value (linear_gates nP cf st) = ANDS_value st"
  "ANDS_mac (linear_gates nP cf st) = ANDS_mac st"
  "ANDS_key (linear_gates nP cf st) = ANDS_key st"
  unfolding linear_gates_def by (rule fold_stable_all, simp)+

lemma linear_gate_other:
  assumes "gate_out cf i \<noteq> w"
  shows "cm_value (linear_gate nP cf i s) w = cm_value s w"
    and "cm_mac (linear_gate nP cf i s) j w = cm_mac s j w"
    and "cm_key (linear_gate nP cf i s) j w = cm_key s j w"
    and "cm_labels (linear_gate nP cf i s) w = cm_labels s w"
  using assms by (simp_all add: linear_gate_def Let_def)

lemma linear_gate_and: "gate_type cf i = AND_GATE \<Longrightarrow> linear_gate nP cf i s = s"
  using gate_types by (simp add: linear_gate_def Let_def)

text \<open>A wire defined by the first \<open>k\<close> gates keeps the value it has after them.\<close>

lemma linear_gates_defined:
  assumes "wf_circuit cf" and "k \<le> num_gate cf" and "defined_by cf k w"
  shows "cm_value (linear_gates nP cf st) w = cm_value (fold (linear_gate nP cf) [0..<k] st) w"
    and "cm_mac (linear_gates nP cf st) j w = cm_mac (fold (linear_gate nP cf) [0..<k] st) j w"
    and "cm_key (linear_gates nP cf st) j w = cm_key (fold (linear_gate nP cf) [0..<k] st) j w"
    and "cm_labels (linear_gates nP cf st) w = cm_labels (fold (linear_gate nP cf) [0..<k] st) w"
proof -
  have fresh: "k \<le> i \<Longrightarrow> i < num_gate cf \<Longrightarrow> gate_out cf i \<noteq> w" for i
    using gate_out_not_defined [OF assms(1) _ _ assms(3)] by blast
  show "cm_value (linear_gates nP cf st) w = cm_value (fold (linear_gate nP cf) [0..<k] st) w"
    unfolding linear_gates_def
    by (rule fold_stable [OF assms(2), of "\<lambda>s. cm_value s w"]) (simp add: fresh linear_gate_other)
  show "cm_mac (linear_gates nP cf st) j w = cm_mac (fold (linear_gate nP cf) [0..<k] st) j w"
    unfolding linear_gates_def
    by (rule fold_stable [OF assms(2), of "\<lambda>s. cm_mac s j w"]) (simp add: fresh linear_gate_other)
  show "cm_key (linear_gates nP cf st) j w = cm_key (fold (linear_gate nP cf) [0..<k] st) j w"
    unfolding linear_gates_def
    by (rule fold_stable [OF assms(2), of "\<lambda>s. cm_key s j w"]) (simp add: fresh linear_gate_other)
  show "cm_labels (linear_gates nP cf st) w = cm_labels (fold (linear_gate nP cf) [0..<k] st) w"
    unfolding linear_gates_def
    by (rule fold_stable [OF assms(2), of "\<lambda>s. cm_labels s w"]) (simp add: fresh linear_gate_other)
qed

lemma linear_gates_xor:
  fixes nP :: nat and st :: cmpc
  assumes "wf_circuit cf" and "k < num_gate cf" and "gate_type cf k = XOR_GATE"
  defines "s \<equiv> linear_gates nP cf st"
  shows "cm_value s (gate_out cf k) = bxor (cm_value s (gate_in1 cf k)) (cm_value s (gate_in2 cf k))"
    and "1 \<le> j \<Longrightarrow> j \<le> nP \<Longrightarrow>
         cm_mac s j (gate_out cf k) = cm_mac s j (gate_in1 cf k) XOR cm_mac s j (gate_in2 cf k)"
    and "1 \<le> j \<Longrightarrow> j \<le> nP \<Longrightarrow>
         cm_key s j (gate_out cf k) = cm_key s j (gate_in1 cf k) XOR cm_key s j (gate_in2 cf k)"
    and "cm_party st \<noteq> 1 \<Longrightarrow>
         cm_labels s (gate_out cf k) = cm_labels s (gate_in1 cf k) XOR cm_labels s (gate_in2 cf k)"
proof -
  have "wf_gate cf k" using wf_gateD [OF assms(1,2)] .
  then have def: "defined_by cf k (gate_in1 cf k)" "defined_by cf k (gate_in2 cf k)"
    "defined_by cf (Suc k) (gate_out cf k)"
    using assms(3) gate_types by (auto simp: wf_gate_def defined_by_Suc)
  have le: "k \<le> num_gate cf" "Suc k \<le> num_gate cf" using assms(2) by simp_all
  have party: "cm_party (fold (linear_gate nP cf) [0..<k] st) = cm_party st"
    by (rule fold_stable_all) simp
  note ends = linear_gates_defined [OF assms(1) le(2) def(3), where st = st]
    linear_gates_defined [OF assms(1) le(1) def(1), where st = st]
    linear_gates_defined [OF assms(1) le(1) def(2), where st = st]
  show "cm_value s (gate_out cf k) = bxor (cm_value s (gate_in1 cf k)) (cm_value s (gate_in2 cf k))"
    unfolding s_def ends by (simp add: linear_gate_def Let_def assms(3))
  show "1 \<le> j \<Longrightarrow> j \<le> nP \<Longrightarrow>
      cm_mac s j (gate_out cf k) = cm_mac s j (gate_in1 cf k) XOR cm_mac s j (gate_in2 cf k)"
    unfolding s_def ends by (simp add: linear_gate_def Let_def assms(3))
  show "1 \<le> j \<Longrightarrow> j \<le> nP \<Longrightarrow>
      cm_key s j (gate_out cf k) = cm_key s j (gate_in1 cf k) XOR cm_key s j (gate_in2 cf k)"
    unfolding s_def ends by (simp add: linear_gate_def Let_def assms(3))
  show "cm_party st \<noteq> 1 \<Longrightarrow>
      cm_labels s (gate_out cf k) = cm_labels s (gate_in1 cf k) XOR cm_labels s (gate_in2 cf k)"
    unfolding s_def ends by (simp add: linear_gate_def Let_def assms(3) party)
qed

lemma linear_gates_not:
  fixes nP :: nat and st :: cmpc
  assumes "wf_circuit cf" and "k < num_gate cf" and "gate_type cf k = NOT_GATE"
  defines "s \<equiv> linear_gates nP cf st"
  shows "cm_value s (gate_out cf k) = cm_value s (gate_in1 cf k)"
    and "1 \<le> j \<Longrightarrow> j \<le> nP \<Longrightarrow> cm_mac s j (gate_out cf k) = cm_mac s j (gate_in1 cf k)"
    and "1 \<le> j \<Longrightarrow> j \<le> nP \<Longrightarrow> cm_key s j (gate_out cf k) = cm_key s j (gate_in1 cf k)"
    and "cm_party st \<noteq> 1 \<Longrightarrow>
         cm_labels s (gate_out cf k) = cm_labels s (gate_in1 cf k) XOR cm_Delta s"
proof -
  have "wf_gate cf k" using wf_gateD [OF assms(1,2)] .
  then have def: "defined_by cf k (gate_in1 cf k)" "defined_by cf (Suc k) (gate_out cf k)"
    by (auto simp: wf_gate_def defined_by_Suc)
  have le: "k \<le> num_gate cf" "Suc k \<le> num_gate cf" using assms(2) by simp_all
  have frame: "cm_party (fold (linear_gate nP cf) [0..<k] st) = cm_party st"
      "cm_Delta (fold (linear_gate nP cf) [0..<k] st) = cm_Delta st"
    by (rule fold_stable_all, simp)+
  have ty: "gate_type cf k \<noteq> XOR_GATE" using assms(3) gate_types by simp
  note ends = linear_gates_defined [OF assms(1) le(2) def(2), where st = st]
    linear_gates_defined [OF assms(1) le(1) def(1), where st = st]
  show "cm_value s (gate_out cf k) = cm_value s (gate_in1 cf k)"
    unfolding s_def ends using ty assms(3) by (simp add: linear_gate_def Let_def)
  show "1 \<le> j \<Longrightarrow> j \<le> nP \<Longrightarrow> cm_mac s j (gate_out cf k) = cm_mac s j (gate_in1 cf k)"
    unfolding s_def ends using ty assms(3) by (simp add: linear_gate_def Let_def)
  show "1 \<le> j \<Longrightarrow> j \<le> nP \<Longrightarrow> cm_key s j (gate_out cf k) = cm_key s j (gate_in1 cf k)"
    unfolding s_def ends using ty assms(3) by (simp add: linear_gate_def Let_def)
  show "cm_party st \<noteq> 1 \<Longrightarrow>
      cm_labels s (gate_out cf k) = cm_labels s (gate_in1 cf k) XOR cm_Delta s"
    unfolding s_def ends using ty assms(3) by (simp add: linear_gate_def Let_def frame)
qed

lemma linear_gates_and_out:
  assumes "wf_circuit cf" and "k < num_gate cf" and "gate_type cf k = AND_GATE"
  shows "cm_value (linear_gates nP cf st) (gate_out cf k) = cm_value st (gate_out cf k)"
    and "cm_mac (linear_gates nP cf st) j (gate_out cf k) = cm_mac st j (gate_out cf k)"
    and "cm_key (linear_gates nP cf st) j (gate_out cf k) = cm_key st j (gate_out cf k)"
proof -
  have other: "linear_gate nP cf i s = s \<or> gate_out cf i \<noteq> gate_out cf k" if "i < num_gate cf" for i s
    using gate_out_fresh [OF assms(1)] assms(2,3) that linear_gate_and [of cf i nP s]
    by (metis linorder_neqE_nat)
  have stable: "cm_value (linear_gate nP cf i s) (gate_out cf k) = cm_value s (gate_out cf k)"
      "cm_mac (linear_gate nP cf i s) j (gate_out cf k) = cm_mac s j (gate_out cf k)"
      "cm_key (linear_gate nP cf i s) j (gate_out cf k) = cm_key s j (gate_out cf k)"
    if "i < num_gate cf" for i s
    using other [OF that, of s] linear_gate_other by metis+
  show "cm_value (linear_gates nP cf st) (gate_out cf k) = cm_value st (gate_out cf k)"
    unfolding linear_gates_def
    using fold_stable [of 0 "num_gate cf" "\<lambda>s. cm_value s (gate_out cf k)" "linear_gate nP cf" st] stable
    by simp
  show "cm_mac (linear_gates nP cf st) j (gate_out cf k) = cm_mac st j (gate_out cf k)"
    unfolding linear_gates_def
    using fold_stable [of 0 "num_gate cf" "\<lambda>s. cm_mac s j (gate_out cf k)" "linear_gate nP cf" st] stable
    by simp
  show "cm_key (linear_gates nP cf st) j (gate_out cf k) = cm_key st j (gate_out cf k)"
    unfolding linear_gates_def
    using fold_stable [of 0 "num_gate cf" "\<lambda>s. cm_key s j (gate_out cf k)" "linear_gate nP cf" st] stable
    by simp
qed

subsection \<open>The wire masks are authenticated\<close>

definition auth_wire :: "nat \<Rightarrow> (nat \<Rightarrow> cmpc) \<Rightarrow> nat \<Rightarrow> bool" where
  "auth_wire nP W w \<longleftrightarrow> auth_bit nP (\<lambda>p. cm_Delta (W p)) (\<lambda>p. cm_value (W p) w)
     (\<lambda>p j. cm_mac (W p) j w) (\<lambda>p j. cm_key (W p) j w)"

definition auth_preprocess :: "nat \<Rightarrow> (nat \<Rightarrow> cmpc) \<Rightarrow> nat \<Rightarrow> bool" where
  "auth_preprocess nP W k \<longleftrightarrow> auth_bit nP (\<lambda>p. cm_Delta (W p)) (\<lambda>p. preprocess_value (W p) k)
     (\<lambda>p j. preprocess_mac (W p) j k) (\<lambda>p j. preprocess_key (W p) j k)"

text \<open>The parties' states before \<^verbatim>\<open>function_dependent\<close>: the masks of the inputs and the spare
  bits are authenticated, and each AND triple is authenticated and multiplicative.\<close>

definition auth_ands :: "nat \<Rightarrow> (nat \<Rightarrow> cmpc) \<Rightarrow> nat \<Rightarrow> bool" where
  "auth_ands nP W k \<longleftrightarrow> auth_bit nP (\<lambda>p. cm_Delta (W p)) (\<lambda>p. ANDS_value (W p) k)
     (\<lambda>p j. ANDS_mac (W p) j k) (\<lambda>p j. ANDS_key (W p) j k)"

definition triple_ok :: "nat \<Rightarrow> (nat \<Rightarrow> cmpc) \<Rightarrow> nat \<Rightarrow> bool" where
  "triple_ok nP W k \<longleftrightarrow>
     auth_ands nP W (3 * k) \<and> auth_ands nP W (3 * k + 1) \<and> auth_ands nP W (3 * k + 2)
     \<and> parity (\<lambda>p. ANDS_value (W p) (3 * k + 2)) (parties nP)
       = (parity (\<lambda>p. ANDS_value (W p) (3 * k)) (parties nP)
          \<and> parity (\<lambda>p. ANDS_value (W p) (3 * k + 1)) (parties nP))"

definition preprocessed :: "nat \<Rightarrow> BristolFormat \<Rightarrow> (nat \<Rightarrow> cmpc) \<Rightarrow> bool" where
  "preprocessed nP cf W \<longleftrightarrow>
     2 \<le> nP
     \<and> (\<forall>p\<in>{1..nP}. cm_party (W p) = p \<and> num_in (W p) = n1 cf + n2 cf
                     \<and> num_ands (W p) = count_ands cf (num_gate cf))
     \<and> (\<forall>w<n1 cf + n2 cf. auth_wire nP W w)
     \<and> (\<forall>k<count_ands cf (num_gate cf). auth_preprocess nP W (n1 cf + n2 cf + k) \<and> triple_ok nP W k)"

lemma prepare_auth:
  assumes wf: "wf_circuit cf" and pre: "preprocessed nP cf W" and k: "k \<le> num_gate cf"
    and def: "defined_by cf k w"
  shows "auth_wire nP (\<lambda>p. fd_prepare nP cf (W p)) w"
  using k def
proof (induction k arbitrary: w rule: less_induct)
  case (less k)
  let ?W = "\<lambda>p. fd_prepare nP cf (W p)"
  have eqs: "num_in (W p) = n1 cf + n2 cf" if "1 \<le> p" "p \<le> nP" for p
    using pre that by (auto simp: preprocessed_def)
  show ?case
  proof (cases "w < n1 cf + n2 cf")
    case True
    then have d0: "defined_by cf 0 w" by (simp add: defined_by_def)
    have "auth_wire nP W w" using pre True by (auto simp: preprocessed_def)
    then show ?thesis
      unfolding auth_wire_def fd_prepare_def
      by (simp add: linear_gates_defined [OF wf _ d0] assign_and_masks_input [OF wf True])
  next
    case False
    then obtain i where i: "i < k" "w = gate_out cf i"
      using less.prems(2) by (auto simp: defined_by_def)
    then have ig: "i < num_gate cf" using less.prems(1) by simp
    have wfg: "wf_gate cf i" using wf_gateD [OF wf ig] .
    have in1: "auth_wire nP ?W (gate_in1 cf i)"
      using less.IH [of i] i wfg less.prems(1) by (simp add: wf_gate_def)
    consider "gate_type cf i = AND_GATE" | "gate_type cf i = XOR_GATE" | "gate_type cf i = NOT_GATE"
      using wfg by (auto simp: wf_gate_def)
    then show ?thesis
    proof cases
      case 1
      have "auth_preprocess nP W (n1 cf + n2 cf + count_ands cf i)"
        using pre count_ands_less [OF ig 1] by (auto simp: preprocessed_def)
      then show ?thesis
        unfolding auth_wire_def auth_preprocess_def fd_prepare_def i(2)
        by (subst auth_bit_cong)
          (simp_all add: linear_gates_and_out [OF wf ig 1] assign_and_masks_out [OF wf ig 1] eqs)
    next
      case 2
      have in2: "auth_wire nP ?W (gate_in2 cf i)"
        using less.IH [of i] i wfg less.prems(1) 2 gate_types by (simp add: wf_gate_def)
      note sum = auth_bit_xor [OF in1 [unfolded auth_wire_def] in2 [unfolded auth_wire_def]]
      from sum show ?thesis
        unfolding auth_wire_def fd_prepare_def i(2)
        by (subst auth_bit_cong) (simp_all add: linear_gates_xor [OF wf ig 2])
    next
      case 3
      from in1 show ?thesis
        unfolding auth_wire_def fd_prepare_def i(2)
        by (subst auth_bit_cong) (simp_all add: linear_gates_not [OF wf ig 3])
    qed
  qed
qed

end
