(* ===== verification/Garbled.thy ===== *)
theory Garbled
  imports Garbling
begin

text \<open>
  The products of the masks, the garbled tables, and party 1's evaluation of them: the second
  half of \<^verbatim>\<open>function_dependent\<close> and \<^verbatim>\<open>online\<close>.
\<close>

subsection \<open>Masked operands\<close>

lemma masked_operands_fold:
  "masked_operands cf st =
     fold (\<lambda>i xy. if gate_type cf i = AND_GATE then
        (case xy of (x, y) \<Rightarrow>
          (x(count_ands cf i := bxor (cm_value st (gate_in1 cf i)) (ANDS_value st (3 * count_ands cf i))),
           y(count_ands cf i := bxor (cm_value st (gate_in2 cf i)) (ANDS_value st (3 * count_ands cf i + 1)))))
        else xy) [0..<num_gate cf] ((\<lambda>_. False), (\<lambda>_. False))"
proof -
  have "(\<lambda>i (ands, x, y).
        if gate_type cf i = AND_GATE then
          (Suc ands, x(ands := bxor (cm_value st (gate_in1 cf i)) (ANDS_value st (3 * ands))),
           y(ands := bxor (cm_value st (gate_in2 cf i)) (ANDS_value st (3 * ands + 1))))
        else (ands, x, y))
    = (\<lambda>i (ands, xy). if gate_type cf i = AND_GATE then
          (Suc ands, (\<lambda>i ands xy. case xy of (x, y) \<Rightarrow>
            (x(ands := bxor (cm_value st (gate_in1 cf i)) (ANDS_value st (3 * ands))),
             y(ands := bxor (cm_value st (gate_in2 cf i)) (ANDS_value st (3 * ands + 1))))) i ands xy)
          else (ands, xy))"
    by (auto simp: fun_eq_iff)
  then show ?thesis
    unfolding masked_operands_def by (simp only: counter_loop snd_conv add_0)
qed

lemma masked_operands_slot:
  assumes "k < num_gate cf" and "gate_type cf k = AND_GATE"
  shows "fst (masked_operands cf st) (count_ands cf k)
           = bxor (cm_value st (gate_in1 cf k)) (ANDS_value st (3 * count_ands cf k))"
    and "snd (masked_operands cf st) (count_ands cf k)
           = bxor (cm_value st (gate_in2 cf k)) (ANDS_value st (3 * count_ands cf k + 1))"
proof -
  have fresh: "count_ands cf k \<noteq> count_ands cf i" if "gate_type cf i = AND_GATE" "k < i" for i
    using count_ands_inj [OF that(1) assms(2)] that(2) by auto
  show "fst (masked_operands cf st) (count_ands cf k)
      = bxor (cm_value st (gate_in1 cf k)) (ANDS_value st (3 * count_ands cf k))"
    unfolding masked_operands_fold
    by (subst fold_written [OF assms(1), of "\<lambda>xy. fst xy (count_ands cf k)"])
      (simp_all add: assms(2) fresh split: prod.splits)
  show "snd (masked_operands cf st) (count_ands cf k)
      = bxor (cm_value st (gate_in2 cf k)) (ANDS_value st (3 * count_ands cf k + 1))"
    unfolding masked_operands_fold
    by (subst fold_written [OF assms(1), of "\<lambda>xy. snd xy (count_ands cf k)"])
      (simp_all add: assms(2) fresh split: prod.splits)
qed

lemma sum_shares_parity:
  assumes "1 \<le> nP"
  shows "sum_shares nP xs k = parity (\<lambda>p. xs p k) (parties nP)"
  unfolding parties_Cons [OF assms] sum_shares_def fold_bxor_parity parity_simps ..

subsection \<open>Products of the masks\<close>

lemma sigma_gate_frame [simp]:
  "cm_party (sigma_gate nP x y k st) = cm_party st"
  "cm_Delta (sigma_gate nP x y k st) = cm_Delta st"
  "cm_value (sigma_gate nP x y k st) = cm_value st"
  "cm_mac (sigma_gate nP x y k st) = cm_mac st"
  "cm_key (sigma_gate nP x y k st) = cm_key st"
  "cm_labels (sigma_gate nP x y k st) = cm_labels st"
  "num_in (sigma_gate nP x y k st) = num_in st"
  "num_ands (sigma_gate nP x y k st) = num_ands st"
  "ANDS_value (sigma_gate nP x y k st) = ANDS_value st"
  "ANDS_mac (sigma_gate nP x y k st) = ANDS_mac st"
  "ANDS_key (sigma_gate nP x y k st) = ANDS_key st"
  by (simp_all add: sigma_gate_def Let_def)

lemma sigma_gate_value:
  "sigma_value (sigma_gate nP x y k st) l =
     (if l = k then
        bxor (bxor (bxor (ANDS_value st (3 * k + 2)) (x k \<and> ANDS_value st (3 * k + 1)))
               (y k \<and> ANDS_value st (3 * k))) (x k \<and> y k \<and> cm_party st = 1)
      else sigma_value st l)"
  by (simp add: sigma_gate_def Let_def)

lemma sigma_gate_mac:
  "1 \<le> j \<Longrightarrow> j \<le> nP \<Longrightarrow> sigma_mac (sigma_gate nP x y k st) j l =
     (if l = k then
        (ANDS_mac st j (3 * k + 2) XOR gate_blk (x k) (ANDS_mac st j (3 * k + 1)))
          XOR gate_blk (y k) (ANDS_mac st j (3 * k))
      else sigma_mac st j l)"
  by (simp add: sigma_gate_def Let_def)

lemma sigma_gate_key:
  "1 \<le> j \<Longrightarrow> j \<le> nP \<Longrightarrow> sigma_key (sigma_gate nP x y k st) j l =
     (if l = k then
        ((ANDS_key st j (3 * k + 2) XOR gate_blk (x k) (ANDS_key st j (3 * k + 1)))
          XOR gate_blk (y k) (ANDS_key st j (3 * k)))
          XOR gate_blk (x k \<and> y k \<and> cm_party st \<noteq> 1 \<and> j = 1) (cm_Delta st)
      else sigma_key st j l)"
  by (simp add: sigma_gate_def Let_def)

lemma compute_sigma_fold:
  "compute_sigma nP cf x y st =
     fold (\<lambda>i s. if gate_type cf i = AND_GATE then sigma_gate nP x y (count_ands cf i) s else s)
       [0..<num_gate cf] st"
  unfolding compute_sigma_def counter_loop snd_conv add_0 ..

lemma compute_sigma_frame [simp]:
  "cm_party (compute_sigma nP cf x y st) = cm_party st"
  "cm_Delta (compute_sigma nP cf x y st) = cm_Delta st"
  "cm_value (compute_sigma nP cf x y st) = cm_value st"
  "cm_mac (compute_sigma nP cf x y st) = cm_mac st"
  "cm_key (compute_sigma nP cf x y st) = cm_key st"
  "cm_labels (compute_sigma nP cf x y st) = cm_labels st"
  "num_in (compute_sigma nP cf x y st) = num_in st"
  "num_ands (compute_sigma nP cf x y st) = num_ands st"
  unfolding compute_sigma_fold by (rule fold_stable_all, simp)+

lemma compute_sigma_slot:
  assumes "k < num_gate cf" and "gate_type cf k = AND_GATE"
  defines "a \<equiv> count_ands cf k"
  shows "sigma_value (compute_sigma nP cf x y st) a =
           bxor (bxor (bxor (ANDS_value st (3 * a + 2)) (x a \<and> ANDS_value st (3 * a + 1)))
                  (y a \<and> ANDS_value st (3 * a))) (x a \<and> y a \<and> cm_party st = 1)"
    and "1 \<le> j \<Longrightarrow> j \<le> nP \<Longrightarrow> sigma_mac (compute_sigma nP cf x y st) j a =
           (ANDS_mac st j (3 * a + 2) XOR gate_blk (x a) (ANDS_mac st j (3 * a + 1)))
             XOR gate_blk (y a) (ANDS_mac st j (3 * a))"
    and "1 \<le> j \<Longrightarrow> j \<le> nP \<Longrightarrow> sigma_key (compute_sigma nP cf x y st) j a =
           ((ANDS_key st j (3 * a + 2) XOR gate_blk (x a) (ANDS_key st j (3 * a + 1)))
             XOR gate_blk (y a) (ANDS_key st j (3 * a)))
             XOR gate_blk (x a \<and> y a \<and> cm_party st \<noteq> 1 \<and> j = 1) (cm_Delta st)"
proof -
  let ?f = "\<lambda>i s. if gate_type cf i = AND_GATE then sigma_gate nP x y (count_ands cf i) s else s"
  have fresh: "a \<noteq> count_ands cf i" if "gate_type cf i = AND_GATE" "k < i" for i
    using count_ands_inj [OF that(1) assms(2)] that(2) by (auto simp: a_def)
  have frame: "ANDS_value (fold ?f xs st) = ANDS_value st" "ANDS_mac (fold ?f xs st) = ANDS_mac st"
      "ANDS_key (fold ?f xs st) = ANDS_key st" "cm_party (fold ?f xs st) = cm_party st"
      "cm_Delta (fold ?f xs st) = cm_Delta st" for xs
    by (rule fold_stable_all, simp)+
  note written = fold_written [OF assms(1), where f = ?f and s = st]
  show "sigma_value (compute_sigma nP cf x y st) a =
      bxor (bxor (bxor (ANDS_value st (3 * a + 2)) (x a \<and> ANDS_value st (3 * a + 1)))
             (y a \<and> ANDS_value st (3 * a))) (x a \<and> y a \<and> cm_party st = 1)"
    unfolding compute_sigma_fold
    by (subst written [of "\<lambda>s. sigma_value s a"])
      (use assms(2) fresh in \<open>simp_all add: sigma_gate_value frame a_def del: bxor_simps\<close>)
  show "sigma_mac (compute_sigma nP cf x y st) j a =
      (ANDS_mac st j (3 * a + 2) XOR gate_blk (x a) (ANDS_mac st j (3 * a + 1)))
        XOR gate_blk (y a) (ANDS_mac st j (3 * a))" if "1 \<le> j" "j \<le> nP"
    unfolding compute_sigma_fold
    by (subst written [of "\<lambda>s. sigma_mac s j a"])
      (use assms(2) fresh that in \<open>simp_all add: sigma_gate_mac frame a_def\<close>)
  show "sigma_key (compute_sigma nP cf x y st) j a =
      ((ANDS_key st j (3 * a + 2) XOR gate_blk (x a) (ANDS_key st j (3 * a + 1)))
        XOR gate_blk (y a) (ANDS_key st j (3 * a)))
        XOR gate_blk (x a \<and> y a \<and> cm_party st \<noteq> 1 \<and> j = 1) (cm_Delta st)" if "1 \<le> j" "j \<le> nP"
    unfolding compute_sigma_fold
    by (subst written [of "\<lambda>s. sigma_key s j a"])
      (use assms(2) fresh that in \<open>simp_all add: sigma_gate_key frame a_def\<close>)
qed

text \<open>The parties' states once \<open>sigma\<close> is computed, in an honest run.\<close>

definition sigma_run :: "nat \<Rightarrow> BristolFormat \<Rightarrow> (nat \<Rightarrow> cmpc) \<Rightarrow> nat \<Rightarrow> cmpc" where
  "sigma_run nP cf W =
     (let xs = (\<lambda>p. fst (masked_operands cf (fd_prepare nP cf (W p))));
          ys = (\<lambda>p. snd (masked_operands cf (fd_prepare nP cf (W p))))
      in (\<lambda>p. fd_sigma nP cf xs ys (W p)))"

lemma fd_prepare_frame [simp]:
  "cm_party (fd_prepare nP cf st) = cm_party st"
  "cm_Delta (fd_prepare nP cf st) = cm_Delta st"
  "num_in (fd_prepare nP cf st) = num_in st"
  "num_ands (fd_prepare nP cf st) = num_ands st"
  "ANDS_value (fd_prepare nP cf st) = ANDS_value st"
  "ANDS_mac (fd_prepare nP cf st) = ANDS_mac st"
  "ANDS_key (fd_prepare nP cf st) = ANDS_key st"
  by (simp_all add: fd_prepare_def)

lemma sigma_run_frame [simp]:
  "cm_party (sigma_run nP cf W p) = cm_party (W p)"
  "cm_Delta (sigma_run nP cf W p) = cm_Delta (W p)"
  "cm_value (sigma_run nP cf W p) = cm_value (fd_prepare nP cf (W p))"
  "cm_mac (sigma_run nP cf W p) = cm_mac (fd_prepare nP cf (W p))"
  "cm_key (sigma_run nP cf W p) = cm_key (fd_prepare nP cf (W p))"
  "cm_labels (sigma_run nP cf W p) = cm_labels (fd_prepare nP cf (W p))"
  "num_in (sigma_run nP cf W p) = num_in (W p)"
  "num_ands (sigma_run nP cf W p) = num_ands (W p)"
  by (simp_all add: sigma_run_def fd_sigma_def Let_def)

definition auth_sigma :: "nat \<Rightarrow> (nat \<Rightarrow> cmpc) \<Rightarrow> nat \<Rightarrow> bool" where
  "auth_sigma nP W k \<longleftrightarrow> auth_bit nP (\<lambda>p. cm_Delta (W p)) (\<lambda>p. sigma_value (W p) k)
     (\<lambda>p j. sigma_mac (W p) j k) (\<lambda>p j. sigma_key (W p) j k)"

definition wire_mask :: "nat \<Rightarrow> (nat \<Rightarrow> cmpc) \<Rightarrow> nat \<Rightarrow> bool" where
  "wire_mask nP W w = parity (\<lambda>p. cm_value (W p) w) (parties nP)"

lemma masked_operand_sum:
  assumes "2 \<le> nP" and "k < num_gate cf" and "gate_type cf k = AND_GATE"
  shows "sum_shares nP (\<lambda>p. fst (masked_operands cf (P p))) (count_ands cf k)
           = bxor (wire_mask nP P (gate_in1 cf k))
               (parity (\<lambda>p. ANDS_value (P p) (3 * count_ands cf k)) (parties nP))"
    and "sum_shares nP (\<lambda>p. snd (masked_operands cf (P p))) (count_ands cf k)
           = bxor (wire_mask nP P (gate_in2 cf k))
               (parity (\<lambda>p. ANDS_value (P p) (3 * count_ands cf k + 1)) (parties nP))"
  using assms(1)
  by (simp_all only: wire_mask_def sum_shares_parity masked_operands_slot [OF assms(2,3)] parity_bxor)

theorem sigma_run_product:
  assumes wf: "wf_circuit cf" and pre: "preprocessed nP cf W"
    and k: "k < num_gate cf" "gate_type cf k = AND_GATE"
  shows "auth_sigma nP (sigma_run nP cf W) (count_ands cf k)"
    and "parity (\<lambda>p. sigma_value (sigma_run nP cf W p) (count_ands cf k)) (parties nP)
       = (wire_mask nP (sigma_run nP cf W) (gate_in1 cf k)
          \<and> wire_mask nP (sigma_run nP cf W) (gate_in2 cf k))"
proof -
  define a where "a = count_ands cf k"
  define x where "x = sum_shares nP (\<lambda>p. fst (masked_operands cf (fd_prepare nP cf (W p))))"
  define y where "y = sum_shares nP (\<lambda>p. snd (masked_operands cf (fd_prepare nP cf (W p))))"
  have nP: "2 \<le> nP" "1 \<le> nP" using pre by (auto simp: preprocessed_def)
  have party: "cm_party (W p) = p" if "1 \<le> p" "p \<le> nP" for p
    using pre that by (auto simp: preprocessed_def)
  have triple: "triple_ok nP W a"
    using pre count_ands_less [OF k] by (auto simp: preprocessed_def a_def)
  note slots = compute_sigma_slot [OF k, folded a_def]
  have run: "sigma_run nP cf W p = compute_sigma nP cf x y (fd_prepare nP cf (W p))" for p
    by (simp add: sigma_run_def fd_sigma_def x_def y_def Let_def)
  have auth: "auth_bit nP (\<lambda>p. cm_Delta (W p))
      (\<lambda>p. bxor (bxor (bxor (ANDS_value (W p) (3 * a + 2)) (x a \<and> ANDS_value (W p) (3 * a + 1)))
                  (y a \<and> ANDS_value (W p) (3 * a))) (x a \<and> y a \<and> p = 1))
      (\<lambda>p j. (ANDS_mac (W p) j (3 * a + 2) XOR gate_blk (x a) (ANDS_mac (W p) j (3 * a + 1)))
               XOR gate_blk (y a) (ANDS_mac (W p) j (3 * a)))
      (\<lambda>p j. ((ANDS_key (W p) j (3 * a + 2) XOR gate_blk (x a) (ANDS_key (W p) j (3 * a + 1)))
               XOR gate_blk (y a) (ANDS_key (W p) j (3 * a)))
               XOR gate_blk (x a \<and> y a \<and> j = 1) (cm_Delta (W p)))"
    using triple unfolding triple_ok_def auth_ands_def
    by (intro auth_bit_correct auth_bit_xor auth_bit_scale) auto
  show "auth_sigma nP (sigma_run nP cf W) (count_ands cf k)"
    unfolding auth_sigma_def a_def [symmetric] sigma_run_frame
    by (rule auth_bit_cong [THEN iffD1, OF _ _ _ auth])
      (auto simp: run slots party intro!: arg_cong2 [where f = gate_blk])
  have "parity (\<lambda>p. sigma_value (sigma_run nP cf W p) a) (parties nP)
      = parity (\<lambda>p. bxor (bxor (bxor (ANDS_value (W p) (3 * a + 2)) (x a \<and> ANDS_value (W p) (3 * a + 1)))
                  (y a \<and> ANDS_value (W p) (3 * a))) (x a \<and> y a \<and> p = 1)) (parties nP)"
    by (intro parity_cong refl) (auto simp: run slots party)
  also have "\<dots> = (wire_mask nP (\<lambda>p. fd_prepare nP cf (W p)) (gate_in1 cf k)
                  \<and> wire_mask nP (\<lambda>p. fd_prepare nP cf (W p)) (gate_in2 cf k))"
    using triple masked_operand_sum [OF nP(1) k, folded a_def, of "\<lambda>p. fd_prepare nP cf (W p)"]
      parity_first [OF nP(2)]
    unfolding triple_ok_def x_def [symmetric] y_def [symmetric] parity_bxor parity_conj_left
    by (auto simp: bxor_def)
  finally show "parity (\<lambda>p. sigma_value (sigma_run nP cf W p) (count_ands cf k)) (parties nP)
       = (wire_mask nP (sigma_run nP cf W) (gate_in1 cf k)
          \<and> wire_mask nP (sigma_run nP cf W) (gate_in2 cf k))"
    by (simp add: a_def wire_mask_def del: upt_Suc)
qed

subsection \<open>Rows\<close>

abbreviation row_of :: "bool \<Rightarrow> bool \<Rightarrow> nat" where
  "row_of ma mb \<equiv> 2 * of_bool ma + of_bool mb"

lemma row_bits_nth:
  "row_bits cf st i a ! row_of ma mb =
     bxor (bxor (bxor (bxor (sigma_value st a) (cm_value st (gate_out cf i)))
       (mb \<and> cm_value st (gate_in1 cf i))) (ma \<and> cm_value st (gate_in2 cf i)))
       (ma \<and> mb \<and> cm_party st = 1)"
  by (cases ma; cases mb) (simp_all add: row_bits_def Let_def)

lemma row_macs_nth:
  "row_macs cf st i a j ! row_of ma mb =
     (((sigma_mac st j a XOR cm_mac st j (gate_out cf i))
       XOR gate_blk mb (cm_mac st j (gate_in1 cf i))) XOR gate_blk ma (cm_mac st j (gate_in2 cf i)))"
  by (cases ma; cases mb) (simp_all add: row_macs_def Let_def)

lemma row_keys_nth:
  "row_keys cf st i a j ! row_of ma mb =
     ((((sigma_key st j a XOR cm_key st j (gate_out cf i))
       XOR gate_blk mb (cm_key st j (gate_in1 cf i))) XOR gate_blk ma (cm_key st j (gate_in2 cf i)))
       XOR gate_blk (ma \<and> mb \<and> cm_party st \<noteq> 1 \<and> j = 1) (cm_Delta st))"
  by (cases ma; cases mb) (simp_all add: row_keys_def Let_def)

definition auth_row :: "nat \<Rightarrow> BristolFormat \<Rightarrow> (nat \<Rightarrow> cmpc) \<Rightarrow> nat \<Rightarrow> nat \<Rightarrow> nat \<Rightarrow> bool" where
  "auth_row nP cf S i a row \<longleftrightarrow> auth_bit nP (\<lambda>p. cm_Delta (S p)) (\<lambda>p. row_bits cf (S p) i a ! row)
     (\<lambda>p j. row_macs cf (S p) i a j ! row) (\<lambda>p j. row_keys cf (S p) i a j ! row)"

lemma row_auth:
  assumes party: "\<And>p. 1 \<le> p \<Longrightarrow> p \<le> nP \<Longrightarrow> cm_party (S p) = p"
    and "auth_sigma nP S a" and "auth_wire nP S (gate_in1 cf i)" and "auth_wire nP S (gate_in2 cf i)"
    and "auth_wire nP S (gate_out cf i)"
  shows "auth_row nP cf S i a (row_of ma mb)"
proof -
  have "auth_bit nP (\<lambda>p. cm_Delta (S p))
      (\<lambda>p. bxor (bxor (bxor (bxor (sigma_value (S p) a) (cm_value (S p) (gate_out cf i)))
         (mb \<and> cm_value (S p) (gate_in1 cf i))) (ma \<and> cm_value (S p) (gate_in2 cf i))) (ma \<and> mb \<and> p = 1))
      (\<lambda>p j. ((sigma_mac (S p) j a XOR cm_mac (S p) j (gate_out cf i))
         XOR gate_blk mb (cm_mac (S p) j (gate_in1 cf i))) XOR gate_blk ma (cm_mac (S p) j (gate_in2 cf i)))
      (\<lambda>p j. (((sigma_key (S p) j a XOR cm_key (S p) j (gate_out cf i))
         XOR gate_blk mb (cm_key (S p) j (gate_in1 cf i))) XOR gate_blk ma (cm_key (S p) j (gate_in2 cf i)))
         XOR gate_blk (ma \<and> mb \<and> j = 1) (cm_Delta (S p)))"
    using assms(2-) unfolding auth_sigma_def auth_wire_def
    by (intro auth_bit_correct auth_bit_xor auth_bit_scale) auto
  then show ?thesis
    unfolding auth_row_def row_bits_nth row_macs_nth row_keys_nth
    by (rule auth_bit_cong [THEN iffD1, rotated -1])
      (auto simp: party intro!: arg_cong2 [where f = gate_blk])
qed

lemma row_parity:
  assumes "1 \<le> nP" and party: "\<And>p. 1 \<le> p \<Longrightarrow> p \<le> nP \<Longrightarrow> cm_party (S p) = p"
    and prod: "parity (\<lambda>p. sigma_value (S p) a) (parties nP)
      = (wire_mask nP S (gate_in1 cf i) \<and> wire_mask nP S (gate_in2 cf i))"
  shows "parity (\<lambda>p. row_bits cf (S p) i a ! row_of ma mb) (parties nP)
    = bxor (bxor (wire_mask nP S (gate_in1 cf i)) ma \<and> bxor (wire_mask nP S (gate_in2 cf i)) mb)
        (wire_mask nP S (gate_out cf i))"
proof -
  have "parity (\<lambda>p. row_bits cf (S p) i a ! row_of ma mb) (parties nP)
    = parity (\<lambda>p. bxor (bxor (bxor (bxor (sigma_value (S p) a) (cm_value (S p) (gate_out cf i)))
         (mb \<and> cm_value (S p) (gate_in1 cf i))) (ma \<and> cm_value (S p) (gate_in2 cf i)))
         (ma \<and> mb \<and> p = 1)) (parties nP)"
    unfolding row_bits_nth by (intro parity_cong refl) (auto simp: party)
  then show ?thesis
    using parity_first [OF assms(1)] prod
    unfolding parity_bxor parity_conj_left wire_mask_def [symmetric] by (auto simp: bxor_def)
qed

subsection \<open>Garbled tables\<close>

lemma hash_row_eq:
  "hash_row nP h0 idx row i =
     (if 1 \<le> i \<and> i \<le> nP then pi (h0 XOR makeBlock (4 * of_nat idx + of_nat row) (of_nat i)) else h0)"
proof (cases "1 \<le> i \<and> i \<le> nP")
  case True
  then have "i - 1 < length [1..<Suc nP]" "[1..<Suc nP] ! (i - 1) = i" by (auto simp del: upt_Suc)
  then show ?thesis
    using True by (simp add: hash_row_def permute_block_map pi_def del: upt_Suc)
qed (auto simp: hash_row_def)

text \<open>The evaluator, holding the labels of the masked values, recomputes the garbler's pad.\<close>

lemma Hash_eval_garble:
  "Hash_eval nP (la XOR gate_blk ma D) (lb XOR gate_blk mb D) idx (row_of ma mb)
   = Hash_garble nP D la lb idx (row_of ma mb)"
  by (cases ma; cases mb) (simp_all add: Hash_eval_def Hash_garble_def Let_def)

lemma garble_row_fold:
  assumes "p \<notin> set ks" and "distinct ks"
  shows "fold (\<lambda>k h. let h = h(k := h k XOR M k) in h(p := h p XOR K k)) ks H
       = (\<lambda>k. if k = p then H p XOR xsum K ks else if k \<in> set ks then H k XOR M k else H k)"
  using assms
proof (induction ks arbitrary: H)
  case (Cons a ks)
  then show ?case by (auto simp: fun_eq_iff Let_def xor.assoc)
qed auto

lemma garble_row_slot:
  fixes st :: cmpc and cf :: BristolFormat and nP p k i a row :: nat
  assumes "cm_party st = p" and "1 \<le> k" "k \<le> nP"
  defines "H \<equiv> Hash_garble nP (cm_Delta st) (cm_labels st (gate_in1 cf i)) (cm_labels st (gate_in2 cf i)) a row"
  shows "garble_row nP cf st i a row k =
     (if k = p then ((H p XOR xsum (\<lambda>j. row_keys cf st i a j ! row) (others nP p))
                     XOR cm_labels st (gate_out cf i)) XOR gate_blk (row_bits cf st i a ! row) (cm_Delta st)
      else H k XOR row_macs cf st i a k ! row)"
proof -
  have "p \<notin> set (others nP p)" by simp
  note body = garble_row_fold [OF this distinct_others]
  show ?thesis
    unfolding garble_row_def assms(1) H_def [symmetric] Let_def [where s = H] Let_def [where s = p]
    using assms(2,3)
    by (subst body) (simp add: gate_blk_def Let_def)
qed

lemma garble_slot:
  assumes "k < num_gate cf" and "gate_type cf k = AND_GATE"
  shows "garble nP cf st (count_ands cf k) = garble_row nP cf st k (count_ands cf k)"
proof -
  have fresh: "count_ands cf k \<noteq> count_ands cf i" if "gate_type cf i = AND_GATE" "k < i" for i
    using count_ands_inj [OF that(1) assms(2)] that(2) by auto
  have "garble nP cf st = fold (\<lambda>i tab. if gate_type cf i = AND_GATE
          then tab(count_ands cf i := garble_row nP cf st i (count_ands cf i)) else tab)
        [0..<num_gate cf] (\<lambda>_ _ _. 0)"
    unfolding garble_def counter_loop snd_conv add_0 ..
  then show ?thesis
    by (simp only:, subst fold_written [OF assms(1), of "\<lambda>t. t (count_ands cf k)"])
      (simp_all add: assms(2) fresh)
qed

definition keep_step :: "BristolFormat \<Rightarrow> nat \<Rightarrow> nat \<Rightarrow> cmpc \<Rightarrow> cmpc" where
  "keep_step cf i a st =
     st\<lparr>GTK := (GTK st)(a := (\<lambda>row j. row_keys cf st i a j ! row)),
        GTM := (GTM st)(a := (\<lambda>row j. row_macs cf st i a j ! row)),
        GTv := (GTv st)(a := (\<lambda>row. row_bits cf st i a ! row))\<rparr>"

lemma keep_step_rows:
  "row_keys cf (keep_step cf' i a st) = row_keys cf st"
  "row_macs cf (keep_step cf' i a st) = row_macs cf st"
  "row_bits cf (keep_step cf' i a st) = row_bits cf st"
  by (simp_all add: keep_step_def fun_eq_iff row_keys_def row_macs_def row_bits_def Let_def)

lemma keep_rows_fold:
  "keep_rows nP cf st =
     fold (\<lambda>i s. if gate_type cf i = AND_GATE then keep_step cf i (count_ands cf i) s else s)
       [0..<num_gate cf] st"
  unfolding keep_rows_def keep_step_def counter_loop snd_conv add_0 ..

lemma keep_rows_frame [simp]:
  "GT (keep_rows nP cf st) = GT st"
  "cm_party (keep_rows nP cf st) = cm_party st"
  "cm_Delta (keep_rows nP cf st) = cm_Delta st"
  "cm_value (keep_rows nP cf st) = cm_value st"
  "cm_mac (keep_rows nP cf st) = cm_mac st"
  "cm_key (keep_rows nP cf st) = cm_key st"
  "cm_labels (keep_rows nP cf st) = cm_labels st"
  "num_in (keep_rows nP cf st) = num_in st"
  "eval_labels (keep_rows nP cf st) = eval_labels st"
  unfolding keep_rows_fold by (rule fold_stable_all, simp add: keep_step_def)+

lemma keep_rows_slot:
  assumes "k < num_gate cf" and "gate_type cf k = AND_GATE"
  defines "a \<equiv> count_ands cf k"
  shows "GTK (keep_rows nP cf st) a row j = row_keys cf st k a j ! row"
    and "GTM (keep_rows nP cf st) a row j = row_macs cf st k a j ! row"
    and "GTv (keep_rows nP cf st) a row = row_bits cf st k a ! row"
proof -
  let ?f = "\<lambda>i s. if gate_type cf i = AND_GATE then keep_step cf i (count_ands cf i) s else s"
  have fresh: "a \<noteq> count_ands cf i" if "gate_type cf i = AND_GATE" "k < i" for i
    using count_ands_inj [OF that(1) assms(2)] that(2) by (auto simp: a_def)
  have frame: "row_keys cf (fold ?f xs st) = row_keys cf st" "row_macs cf (fold ?f xs st) = row_macs cf st"
      "row_bits cf (fold ?f xs st) = row_bits cf st" for xs
    by (rule fold_stable_all, simp add: keep_step_rows)+
  note written = fold_written [OF assms(1), where f = ?f and s = st]
  show "GTK (keep_rows nP cf st) a row j = row_keys cf st k a j ! row"
    unfolding keep_rows_fold
    by (subst written [of "\<lambda>s. GTK s a row j"])
      (use assms(2) fresh in \<open>simp_all add: frame keep_step_def flip: a_def\<close>)
  show "GTM (keep_rows nP cf st) a row j = row_macs cf st k a j ! row"
    unfolding keep_rows_fold
    by (subst written [of "\<lambda>s. GTM s a row j"])
      (use assms(2) fresh in \<open>simp_all add: frame keep_step_def flip: a_def\<close>)
  show "GTv (keep_rows nP cf st) a row = row_bits cf st k a ! row"
    unfolding keep_rows_fold
    by (subst written [of "\<lambda>s. GTv s a row"])
      (use assms(2) fresh in \<open>simp_all add: frame keep_step_def flip: a_def\<close>)
qed

lemma receive_tables_frame [simp]:
  "row_keys cf (receive_tables nP tabs st) = row_keys cf st"
  "row_macs cf (receive_tables nP tabs st) = row_macs cf st"
  "row_bits cf (receive_tables nP tabs st) = row_bits cf st"
  "cm_party (receive_tables nP tabs st) = cm_party st"
  "cm_Delta (receive_tables nP tabs st) = cm_Delta st"
  "cm_value (receive_tables nP tabs st) = cm_value st"
  "cm_mac (receive_tables nP tabs st) = cm_mac st"
  "cm_key (receive_tables nP tabs st) = cm_key st"
  "cm_labels (receive_tables nP tabs st) = cm_labels st"
  "num_in (receive_tables nP tabs st) = num_in st"
  "eval_labels (receive_tables nP tabs st) = eval_labels st"
  by (simp_all add: receive_tables_def fun_eq_iff row_keys_def row_macs_def row_bits_def Let_def)

end
