(* ===== verification/Online.thy ===== *)
theory Online
  imports Garbled
begin

text \<open>
  Party 1's evaluation of the garbled circuit (\<^verbatim>\<open>online\<close> of \<^verbatim>\<open>mpc.h\<close>): the masked value and the labels
  it holds on every wire, and the correctness of the honest run from the preprocessed states to
  the output.
\<close>

subsection \<open>One garbled gate\<close>

text \<open>Party 1's state \<open>T\<close> holds the rows of gate \<open>i\<close> (AND number \<open>a\<close>) made from the states \<open>S\<close>.\<close>

definition gate_table :: "nat \<Rightarrow> BristolFormat \<Rightarrow> (nat \<Rightarrow> cmpc) \<Rightarrow> cmpc \<Rightarrow> nat \<Rightarrow> nat \<Rightarrow> bool" where
  "gate_table nP cf S T i a \<longleftrightarrow> (\<forall>row<4.
     GTv T a row = row_bits cf (S 1) i a ! row
     \<and> (\<forall>j. GTM T a row j = row_macs cf (S 1) i a j ! row \<and> GTK T a row j = row_keys cf (S 1) i a j ! row)
     \<and> (\<forall>j\<in>{2..nP}. \<forall>k\<in>{1..nP}. GT T a j row k = garble_row nP cf (S j) i a row k))"

lemma gate_tableD:
  assumes "gate_table nP cf S T i a" and "row < 4"
  shows "GTv T a row = row_bits cf (S 1) i a ! row"
    and "GTM T a row j = row_macs cf (S 1) i a j ! row"
    and "GTK T a row j = row_keys cf (S 1) i a j ! row"
    and "2 \<le> p \<Longrightarrow> p \<le> nP \<Longrightarrow> 1 \<le> k \<Longrightarrow> k \<le> nP \<Longrightarrow> GT T a p row k = garble_row nP cf (S p) i a row k"
  using assms by (auto simp: gate_table_def)

text \<open>What remains of party \<open>j\<close>'s row once the pad is removed.\<close>

definition opened_row :: "nat \<Rightarrow> BristolFormat \<Rightarrow> (nat \<Rightarrow> cmpc) \<Rightarrow> nat \<Rightarrow> nat \<Rightarrow> nat \<Rightarrow> nat \<Rightarrow> nat \<Rightarrow> block" where
  "opened_row nP cf S i a row j k =
     (if k = j then (xsum (\<lambda>l. row_keys cf (S j) i a l ! row) (others nP j) XOR cm_labels (S j) (gate_out cf i))
                    XOR gate_blk (row_bits cf (S j) i a ! row) (cm_Delta (S j))
      else row_macs cf (S j) i a k ! row)"

lemma opened_row_eq:
  assumes tab: "gate_table nP cf S T i a" and party: "cm_party (S j) = j"
    and j: "2 \<le> j" "j \<le> nP" and k: "1 \<le> k" "k \<le> nP"
    and la: "x = cm_labels (S j) (gate_in1 cf i) XOR gate_blk ma (cm_Delta (S j))"
    and lb: "y = cm_labels (S j) (gate_in2 cf i) XOR gate_blk mb (cm_Delta (S j))"
  shows "xorBlocks_arr (Hash_eval nP x y a (row_of ma mb)) (Hash_eval nP x y a (row_of ma mb))
           (GT T a j (row_of ma mb)) (Suc nP) k = opened_row nP cf S i a (row_of ma mb) j k"
proof -
  have row: "row_of ma mb < 4" by (cases ma; cases mb) simp_all
  show ?thesis
    unfolding la lb Hash_eval_garble xorBlocks_arr_nth gate_tableD(4) [OF tab row j k]
      garble_row_slot [OF party k] opened_row_def
    using k by (simp add: xor_ac del: of_bool_eq split del: split_of_bool)
qed

text \<open>The opened rows, added to the tags party 1 kept, leave the label of the new masked value.\<close>

lemma opened_rows_label:
  assumes auth: "auth_row nP cf S i a row" and k: "2 \<le> k" "k \<le> nP"
  shows "row_macs cf (S 1) i a k ! row XOR xsum (\<lambda>j. opened_row nP cf S i a row j k) [2..<Suc nP]
       = cm_labels (S k) (gate_out cf i)
         XOR gate_blk (parity (\<lambda>p. row_bits cf (S p) i a ! row) (parties nP)) (cm_Delta (S k))"
proof -
  let ?mac = "\<lambda>p j. row_macs cf (S p) i a j ! row"
  let ?keys = "xsum (\<lambda>j. row_keys cf (S k) i a j ! row) (others nP k)"
  let ?bit = "\<lambda>p. row_bits cf (S p) i a ! row"
  have k1: "1 \<le> k" "k \<noteq> 1" using k by auto
  have nP: "1 \<le> nP" using k by simp
  have "?mac 1 k XOR xsum (\<lambda>j. opened_row nP cf S i a row j k) [2..<Suc nP]
      = xsum (\<lambda>j. opened_row nP cf S i a row j k) (parties nP)"
    unfolding parties_Cons [OF nP] xsum_simps using k1 by (simp add: opened_row_def del: upt_Suc)
  also have "\<dots> = opened_row nP cf S i a row k k XOR xsum (\<lambda>j. ?mac j k) (others nP k)"
    unfolding xsum_parties [OF k1(1) k(2)]
    by (intro arg_cong2 [where f = "(XOR)"] refl xsum_cong) (auto simp: opened_row_def)
  also have "xsum (\<lambda>j. ?mac j k) (others nP k)
      = ?keys XOR gate_blk (parity ?bit (others nP k)) (cm_Delta (S k))"
    using auth_bit_column [OF auth [unfolded auth_row_def] k1(1) k(2)] .
  finally show ?thesis
    unfolding parity_parties [OF k1(1) k(2)]
    by (simp add: opened_row_def gate_blk_bxor xor_ac)
qed

text \<open>One garbler's row, and the loop over the garblers.  \<open>set_labels\<close> writes one wire's labels.\<close>

definition set_labels :: "nat \<Rightarrow> nat \<Rightarrow> (nat \<Rightarrow> block) \<Rightarrow> block party_arr \<Rightarrow> block party_arr" where
  "set_labels nP c f el = (\<lambda>k. if 2 \<le> k \<and> k \<le> nP then (el k)(c := f k) else el k)"

lemma set_labels_apply [simp]:
  "set_labels nP c f el k w = (if 2 \<le> k \<and> k \<le> nP \<and> w = c then f k else el k w)"
  by (simp add: set_labels_def)

lemma set_labels_twice [simp]:
  "(\<lambda>k. if 2 \<le> k \<and> k \<le> nP then (set_labels nP c f el k)(c := g k) else set_labels nP c f el k)
   = set_labels nP c g el"
  by (auto simp: set_labels_def fun_eq_iff)

lemma set_labels_cong:
  "(\<And>k. 2 \<le> k \<Longrightarrow> k \<le> nP \<Longrightarrow> f k = g k) \<Longrightarrow> set_labels nP c f el = set_labels nP c g el"
  by (auto simp: set_labels_def fun_eq_iff)

definition labels_ok :: "nat \<Rightarrow> (nat \<Rightarrow> cmpc) \<Rightarrow> bool arr \<Rightarrow> block party_arr \<Rightarrow> nat \<Rightarrow> bool" where
  "labels_ok nP S m el w \<longleftrightarrow>
     (\<forall>j\<in>{2..nP}. el j w = cm_labels (S j) w XOR gate_blk (m w) (cm_Delta (S j)))"

lemma eval_row_open:
  assumes tab: "gate_table nP cf S T i a" and auth: "auth_row nP cf S i a (row_of (m (gate_in1 cf i)) (m (gate_in2 cf i)))"
    and party: "\<And>p. 1 \<le> p \<Longrightarrow> p \<le> nP \<Longrightarrow> cm_party (S p) = p"
    and Delta: "cm_Delta T = cm_Delta (S 1)" "cm_Delta (S 1) \<noteq> 0"
    and ne: "gate_in1 cf i \<noteq> gate_out cf i" "gate_in2 cf i \<noteq> gate_out cf i"
    and ok: "labels_ok nP S m el (gate_in1 cf i)" "labels_ok nP S m el (gate_in2 cf i)"
    and j: "2 \<le> j" "j \<le> nP"
  defines "index \<equiv> row_of (m (gate_in1 cf i)) (m (gate_in2 cf i))"
  shows "eval_row nP cf T i a index j (m(gate_out cf i := b), set_labels nP (gate_out cf i) f el, log)
     = (m(gate_out cf i := bxor b (row_bits cf (S j) i a ! index)),
        set_labels nP (gate_out cf i) (\<lambda>k. f k XOR opened_row nP cf S i a index j k) el, log)"
proof -
  let ?H = "xorBlocks_arr (Hash_eval nP (el j (gate_in1 cf i)) (el j (gate_in2 cf i)) a index)
     (Hash_eval nP (el j (gate_in1 cf i)) (el j (gate_in2 cf i)) a index) (GT T a j index) (Suc nP)"
  let ?r = "row_bits cf (S j) i a ! index"
  have j1: "1 \<le> j" "j \<noteq> 1" "1 \<le> nP" using j by auto
  have la: "el j (gate_in1 cf i) = cm_labels (S j) (gate_in1 cf i) XOR gate_blk (m (gate_in1 cf i)) (cm_Delta (S j))"
    and lb: "el j (gate_in2 cf i) = cm_labels (S j) (gate_in2 cf i) XOR gate_blk (m (gate_in2 cf i)) (cm_Delta (S j))"
    using ok j by (auto simp: labels_ok_def)
  have H: "?H k = opened_row nP cf S i a index j k" if "1 \<le> k" "k \<le> nP" for k
    unfolding index_def by (rule opened_row_eq [OF tab party [OF j1(1) j(2)] j that la lb])
  have row: "index < 4"
    unfolding index_def by (cases "m (gate_in1 cf i)"; cases "m (gate_in2 cf i)") simp_all
  have "?H 1 = row_macs cf (S j) i a 1 ! index"
    unfolding H [OF order_refl j1(3)] using j1(2) by (simp add: opened_row_def)
  also have "\<dots> = row_keys cf (S 1) i a j ! index XOR gate_blk ?r (cm_Delta (S 1))"
    using auth_bitD [OF auth [folded index_def, unfolded auth_row_def] j1(1) j(2) order_refl j1(3,2)] .
  finally have H1: "?H 1 = GTK T a index j XOR gate_blk ?r (cm_Delta T)"
    by (simp add: gate_tableD [OF tab row] Delta)
  have el': "set_labels nP (gate_out cf i) (\<lambda>k. ?H k XOR set_labels nP (gate_out cf i) f el k (gate_out cf i)) el
      = set_labels nP (gate_out cf i) (\<lambda>k. f k XOR opened_row nP cf S i a index j k) el"
    by (rule set_labels_cong) (simp add: H xor.commute del: xorBlocks_arr_nth)
  have ab: "set_labels nP (gate_out cf i) f el j (gate_in1 cf i) = el j (gate_in1 cf i)"
    "set_labels nP (gate_out cf i) f el j (gate_in2 cf i) = el j (gate_in2 cf i)"
    using ne by simp_all
  show ?thesis
    using Delta(2) unfolding eval_row_def prod.case Let_def ab set_labels_twice el' H1
    by (cases ?r) (simp_all add: Delta)
qed

lemma eval_rows_open:
  assumes "gate_table nP cf S T i a" and "auth_row nP cf S i a (row_of (m (gate_in1 cf i)) (m (gate_in2 cf i)))"
    and "\<And>p. 1 \<le> p \<Longrightarrow> p \<le> nP \<Longrightarrow> cm_party (S p) = p"
    and "cm_Delta T = cm_Delta (S 1)" "cm_Delta (S 1) \<noteq> 0"
    and "gate_in1 cf i \<noteq> gate_out cf i" "gate_in2 cf i \<noteq> gate_out cf i"
    and "labels_ok nP S m el (gate_in1 cf i)" "labels_ok nP S m el (gate_in2 cf i)"
    and "set js \<subseteq> {2..nP}"
  defines "index \<equiv> row_of (m (gate_in1 cf i)) (m (gate_in2 cf i))"
  shows "fold (eval_row nP cf T i a index) js (m(gate_out cf i := b), set_labels nP (gate_out cf i) f el, log)
     = (m(gate_out cf i := bxor b (parity (\<lambda>j. row_bits cf (S j) i a ! index) js)),
        set_labels nP (gate_out cf i) (\<lambda>k. f k XOR xsum (\<lambda>j. opened_row nP cf S i a index j k) js) el, log)"
  using assms(10)
proof (induction js arbitrary: b f)
  case (Cons j js)
  then have j: "2 \<le> j" "j \<le> nP" "set js \<subseteq> {2..nP}" by auto
  have step: "eval_row nP cf T i a index j (m(gate_out cf i := b), set_labels nP (gate_out cf i) f el, log)
     = (m(gate_out cf i := bxor b (row_bits cf (S j) i a ! index)),
        set_labels nP (gate_out cf i) (\<lambda>k. f k XOR opened_row nP cf S i a index j k) el, log)"
    unfolding index_def by (rule eval_row_open) (use assms j in auto)
  show ?case
    unfolding fold_simps step Cons.IH [OF j(3)] xsum_simps parity_simps xor.assoc bxor_assoc ..
qed (simp only: fold_simps xsum_simps parity_simps bxor_simps xor.right_neutral)

lemma eval_and_gate_ok:
  assumes "2 \<le> nP" and "gate_table nP cf S T i a"
    and "auth_row nP cf S i a (row_of (m (gate_in1 cf i)) (m (gate_in2 cf i)))"
    and "\<And>p. 1 \<le> p \<Longrightarrow> p \<le> nP \<Longrightarrow> cm_party (S p) = p"
    and "cm_Delta T = cm_Delta (S 1)" "cm_Delta (S 1) \<noteq> 0"
    and "gate_in1 cf i \<noteq> gate_out cf i" "gate_in2 cf i \<noteq> gate_out cf i"
    and "labels_ok nP S m el (gate_in1 cf i)" "labels_ok nP S m el (gate_in2 cf i)"
  defines "z \<equiv> parity (\<lambda>p. row_bits cf (S p) i a ! row_of (m (gate_in1 cf i)) (m (gate_in2 cf i))) (parties nP)"
  shows "eval_and_gate nP cf T i a (m, el, log)
     = (m(gate_out cf i := z),
        set_labels nP (gate_out cf i)
          (\<lambda>k. cm_labels (S k) (gate_out cf i) XOR gate_blk z (cm_Delta (S k))) el, log)"
proof -
  define index where "index = row_of (m (gate_in1 cf i)) (m (gate_in2 cf i))"
  have row: "index < 4"
    unfolding index_def by (cases "m (gate_in1 cf i)"; cases "m (gate_in2 cf i)") simp_all
  have nP: "1 \<le> nP" using assms(1) by simp
  have "eval_and_gate nP cf T i a (m, el, log)
      = fold (eval_row nP cf T i a index) [2..<Suc nP]
          (m(gate_out cf i := row_bits cf (S 1) i a ! index),
           set_labels nP (gate_out cf i) (\<lambda>k. row_macs cf (S 1) i a k ! index) el, log)"
    unfolding eval_and_gate_def prod.case Let_def gate_tableD [OF assms(2) row, unfolded index_def]
      index_def set_labels_def ..
  also have "\<dots> = (m(gate_out cf i := bxor (row_bits cf (S 1) i a ! index)
             (parity (\<lambda>p. row_bits cf (S p) i a ! index) [2..<Suc nP])),
           set_labels nP (gate_out cf i) (\<lambda>k. row_macs cf (S 1) i a k ! index
             XOR xsum (\<lambda>j. opened_row nP cf S i a index j k) [2..<Suc nP]) el, log)"
    unfolding index_def by (rule eval_rows_open) (use assms in auto)
  also have "bxor (row_bits cf (S 1) i a ! index) (parity (\<lambda>p. row_bits cf (S p) i a ! index) [2..<Suc nP]) = z"
    unfolding z_def parties_Cons [OF nP] parity_simps index_def ..
  also have "set_labels nP (gate_out cf i) (\<lambda>k. row_macs cf (S 1) i a k ! index
             XOR xsum (\<lambda>j. opened_row nP cf S i a index j k) [2..<Suc nP]) el
      = set_labels nP (gate_out cf i)
          (\<lambda>k. cm_labels (S k) (gate_out cf i) XOR gate_blk z (cm_Delta (S k))) el"
    unfolding z_def index_def
    by (intro set_labels_cong opened_rows_label) (use assms(3) in auto)
  finally show ?thesis .
qed

subsection \<open>The whole circuit\<close>

text \<open>What the evaluation needs of the garblers' states \<open>S\<close> and of party 1's state \<open>T\<close>.\<close>

definition garbled :: "nat \<Rightarrow> BristolFormat \<Rightarrow> (nat \<Rightarrow> cmpc) \<Rightarrow> cmpc \<Rightarrow> bool" where
  "garbled nP cf S T \<longleftrightarrow>
     2 \<le> nP \<and> (\<forall>p\<in>{1..nP}. cm_party (S p) = p) \<and> cm_Delta T = cm_Delta (S 1)
     \<and> (\<forall>i<num_gate cf. gate_type cf i = AND_GATE \<longrightarrow>
          gate_table nP cf S T i (count_ands cf i)
          \<and> (\<forall>ma mb. auth_row nP cf S i (count_ands cf i) (row_of ma mb)
              \<and> parity (\<lambda>p. row_bits cf (S p) i (count_ands cf i) ! row_of ma mb) (parties nP)
                = bxor (bxor (wire_mask nP S (gate_in1 cf i)) ma \<and> bxor (wire_mask nP S (gate_in2 cf i)) mb)
                    (wire_mask nP S (gate_out cf i))))
     \<and> (\<forall>i<num_gate cf. gate_type cf i = XOR_GATE \<longrightarrow>
          wire_mask nP S (gate_out cf i)
            = bxor (wire_mask nP S (gate_in1 cf i)) (wire_mask nP S (gate_in2 cf i))
          \<and> (\<forall>j\<in>{2..nP}. cm_labels (S j) (gate_out cf i)
                 = cm_labels (S j) (gate_in1 cf i) XOR cm_labels (S j) (gate_in2 cf i)))
     \<and> (\<forall>i<num_gate cf. gate_type cf i = NOT_GATE \<longrightarrow>
          wire_mask nP S (gate_out cf i) = wire_mask nP S (gate_in1 cf i)
          \<and> (\<forall>j\<in>{2..nP}. cm_labels (S j) (gate_out cf i) = cm_labels (S j) (gate_in1 cf i) XOR cm_Delta (S j)))"

text \<open>The invariant: party 1 holds the masked value of each wire and the labels that go with it.\<close>

definition eval_inv ::
  "nat \<Rightarrow> BristolFormat \<Rightarrow> (nat \<Rightarrow> cmpc) \<Rightarrow> nat \<Rightarrow> bool arr \<Rightarrow> nat \<times> bool arr \<times> block party_arr \<times> nat list \<Rightarrow> bool" where
  "eval_inv nP cf S n v = (\<lambda>(a, m, el, log). a = count_ands cf n \<and> log = []
     \<and> (\<forall>w. defined_by cf n w \<longrightarrow> m w = bxor (v w) (wire_mask nP S w) \<and> labels_ok nP S m el w))"

lemma eval_inv_write:
  assumes inv: "eval_inv nP cf S n v (a, m, el, log)" and fresh: "\<not> defined_by cf n (gate_out cf n)"
    and a': "a' = count_ands cf (Suc n)"
    and c: "z = bxor (eval_gate cf n v (gate_out cf n)) (wire_mask nP S (gate_out cf n))"
    and f: "\<And>j. 2 \<le> j \<Longrightarrow> j \<le> nP \<Longrightarrow> f j = cm_labels (S j) (gate_out cf n) XOR gate_blk z (cm_Delta (S j))"
  shows "eval_inv nP cf S (Suc n) (eval_gate cf n v)
           (a', m(gate_out cf n := z), set_labels nP (gate_out cf n) f el, log)"
proof -
  have "m w = bxor (v w) (wire_mask nP S w) \<and> labels_ok nP S m el w \<and> w \<noteq> gate_out cf n"
    if "defined_by cf n w" for w
    using inv that fresh by (auto simp: eval_inv_def)
  moreover have "eval_gate cf n v w = v w" if "w \<noteq> gate_out cf n" for w
    using that by (simp add: eval_gate_def)
  ultimately show ?thesis
    using inv a' c f by (auto simp: eval_inv_def defined_by_Suc labels_ok_def)
qed

lemma eval_gate_labels_ok:
  assumes wf: "wf_circuit cf" and n: "n < num_gate cf" and g: "garbled nP cf S T" and D: "cm_Delta (S 1) \<noteq> 0"
    and inv: "eval_inv nP cf S n v (a, m, el, log)"
  shows "eval_inv nP cf S (Suc n) (eval_gate cf n v) (eval_gate_labels nP cf T n (a, m, el, log))"
proof -
  have wfg: "wf_gate cf n" using wf_gateD [OF wf n] .
  then have fresh: "\<not> defined_by cf n (gate_out cf n)" and in1: "defined_by cf n (gate_in1 cf n)"
    by (simp_all add: wf_gate_def)
  have a: "a = count_ands cf n" using inv by (simp add: eval_inv_def)
  have w: "m w = bxor (v w) (wire_mask nP S w)" "labels_ok nP S m el w"
    "2 \<le> j \<Longrightarrow> j \<le> nP \<Longrightarrow> el j w = cm_labels (S j) w XOR gate_blk (m w) (cm_Delta (S j))"
    if "defined_by cf n w" for w j
    using inv that by (auto simp: eval_inv_def labels_ok_def)
  note written = eval_inv_write [OF inv fresh]
  consider "gate_type cf n = AND_GATE" | "gate_type cf n = XOR_GATE" | "gate_type cf n = NOT_GATE"
    using wfg by (auto simp: wf_gate_def)
  then show ?thesis
  proof cases
    case 1
    then have in2: "defined_by cf n (gate_in2 cf n)" using wfg gate_types by (simp add: wf_gate_def)
    have G: "gate_table nP cf S T n a" "2 \<le> nP" "\<And>p. 1 \<le> p \<Longrightarrow> p \<le> nP \<Longrightarrow> cm_party (S p) = p"
      "cm_Delta T = cm_Delta (S 1)" "\<And>ma mb. auth_row nP cf S n a (row_of ma mb)"
      and par: "\<And>ma mb. parity (\<lambda>p. row_bits cf (S p) n a ! row_of ma mb) (parties nP)
         = bxor (bxor (wire_mask nP S (gate_in1 cf n)) ma \<and> bxor (wire_mask nP S (gate_in2 cf n)) mb)
             (wire_mask nP S (gate_out cf n))"
      using g n 1 unfolding garbled_def a by (blast, blast, simp, blast+)
    have ne: "gate_in1 cf n \<noteq> gate_out cf n" "gate_in2 cf n \<noteq> gate_out cf n" using fresh in1 in2 by auto
    have step: "eval_gate_labels nP cf T n (a, m, el, log) = (Suc a, eval_and_gate nP cf T n a (m, el, log))"
      using 1 gate_types by (simp add: eval_gate_labels_def Let_def)
    define z where "z = bxor (bxor (wire_mask nP S (gate_in1 cf n)) (m (gate_in1 cf n))
        \<and> bxor (wire_mask nP S (gate_in2 cf n)) (m (gate_in2 cf n))) (wire_mask nP S (gate_out cf n))"
    have opened: "eval_and_gate nP cf T n a (m, el, log) = (m(gate_out cf n := z), set_labels nP (gate_out cf n)
        (\<lambda>k. cm_labels (S k) (gate_out cf n) XOR gate_blk z (cm_Delta (S k))) el, log)"
      unfolding z_def par [symmetric] by (rule eval_and_gate_ok) (use G D ne w(2) in1 in2 in blast)+
    show ?thesis
      unfolding step opened
      by (rule written) (auto simp: 1 a z_def w(1) [OF in1] w(1) [OF in2] eval_gate_def bxor_ac)
  next
    case 2
    then have in2: "defined_by cf n (gate_in2 cf n)" using wfg gate_types by (simp add: wf_gate_def)
    have G: "wire_mask nP S (gate_out cf n) = bxor (wire_mask nP S (gate_in1 cf n)) (wire_mask nP S (gate_in2 cf n))"
      "\<And>j. 2 \<le> j \<Longrightarrow> j \<le> nP \<Longrightarrow> cm_labels (S j) (gate_out cf n)
         = cm_labels (S j) (gate_in1 cf n) XOR cm_labels (S j) (gate_in2 cf n)"
      using g n 2 unfolding garbled_def by (blast, simp)
    have step: "eval_gate_labels nP cf T n (a, m, el, log)
        = (a, m(gate_out cf n := bxor (m (gate_in1 cf n)) (m (gate_in2 cf n))),
           set_labels nP (gate_out cf n) (\<lambda>j. el j (gate_in1 cf n) XOR el j (gate_in2 cf n)) el, log)"
      unfolding eval_gate_labels_def prod.case Let_def set_labels_def 2 by simp
    show ?thesis
      unfolding step
      by (rule written) (use 2 gate_types in \<open>auto simp: a w(1) [OF in1] w(1) [OF in2] w(3) [OF in1] w(3) [OF in2]
          eval_gate_def G gate_blk_bxor bxor_ac xor_ac\<close>)
  next
    case 3
    have G: "wire_mask nP S (gate_out cf n) = wire_mask nP S (gate_in1 cf n)"
      "\<And>j. 2 \<le> j \<Longrightarrow> j \<le> nP \<Longrightarrow> cm_labels (S j) (gate_out cf n) = cm_labels (S j) (gate_in1 cf n) XOR cm_Delta (S j)"
      using g n 3 unfolding garbled_def by (blast, simp)
    have step: "eval_gate_labels nP cf T n (a, m, el, log)
        = (a, m(gate_out cf n := (\<not> m (gate_in1 cf n))),
           set_labels nP (gate_out cf n) (\<lambda>j. el j (gate_in1 cf n)) el, log)"
      unfolding eval_gate_labels_def prod.case Let_def set_labels_def 3 using gate_types by simp
    show ?thesis
      unfolding step
      by (rule written) (use 3 gate_types in \<open>auto simp: a w(1) [OF in1] w(3) [OF in1]
          eval_gate_def G gate_blk_not gate_blk_bxor xor_ac\<close>)
  qed
qed

theorem evaluate_garbled:
  assumes wf: "wf_circuit cf" and g: "garbled nP cf S T" and D: "cm_Delta (S 1) \<noteq> 0"
    and start: "\<And>w. w < n1 cf + n2 cf \<Longrightarrow> msk w = bxor (v w) (wire_mask nP S w) \<and> labels_ok nP S msk el w"
  obtains m el' where "evaluate nP cf T msk el = (m, el', [])"
    and "\<And>w. defined_by cf (num_gate cf) w \<Longrightarrow>
           m w = bxor (eval_circuit cf v w) (wire_mask nP S w) \<and> labels_ok nP S m el' w"
proof -
  have "eval_inv nP cf S n (fold (eval_gate cf) [0..<n] v) (fold (eval_gate_labels nP cf T) [0..<n] (0, msk, el, []))"
    if "n \<le> num_gate cf" for n
    using that
  proof (induction n)
    case 0
    then show ?case using start by (simp add: eval_inv_def defined_by_def)
  next
    case (Suc n)
    obtain a m e l where st: "fold (eval_gate_labels nP cf T) [0..<n] (0, msk, el, []) = (a, m, e, l)"
      by (metis prod_cases4)
    then show ?case
      using eval_gate_labels_ok [OF wf _ g D] Suc by simp
  qed
  from this [of "num_gate cf"] show thesis
    by (cases "fold (eval_gate_labels nP cf T) [0..<num_gate cf] (0, msk, el, [])")
      (auto simp: eval_inv_def evaluate_def eval_circuit_def intro: that)
qed

subsection \<open>The honest run\<close>

lemma run_fd_garbler:
  "cm_party (W p) \<noteq> 1 \<Longrightarrow> run_function_dependent nP cf W p = sigma_run nP cf W p"
  by (simp add: run_function_dependent_def function_dependent_def sigma_run_def Let_def fd_sigma_def)

lemma run_fd_evaluator:
  "cm_party (W p) = 1 \<Longrightarrow> run_function_dependent nP cf W p
     = keep_rows nP cf (receive_tables nP (\<lambda>p. garble nP cf (sigma_run nP cf W p)) (sigma_run nP cf W p))"
  by (simp add: run_function_dependent_def function_dependent_def sigma_run_def Let_def fd_sigma_def)

lemma run_fd_frame [simp]:
  "cm_value (run_function_dependent nP cf W p) = cm_value (sigma_run nP cf W p)"
  "cm_mac (run_function_dependent nP cf W p) = cm_mac (sigma_run nP cf W p)"
  "cm_key (run_function_dependent nP cf W p) = cm_key (sigma_run nP cf W p)"
  "cm_labels (run_function_dependent nP cf W p) = cm_labels (sigma_run nP cf W p)"
  "cm_Delta (run_function_dependent nP cf W p) = cm_Delta (W p)"
  "num_in (run_function_dependent nP cf W p) = num_in (W p)"
  "cm_party (run_function_dependent nP cf W p) = cm_party (W p)"
  by (cases "cm_party (W p) = 1"; simp add: run_fd_garbler run_fd_evaluator)+

lemma sigma_run_auth_wire:
  assumes "wf_circuit cf" and "preprocessed nP cf W" and "k \<le> num_gate cf" and "defined_by cf k w"
  shows "auth_wire nP (sigma_run nP cf W) w"
  using prepare_auth [OF assms] by (simp add: auth_wire_def)

lemma run_fd_table:
  assumes pre: "preprocessed nP cf W" and k: "k < num_gate cf" "gate_type cf k = AND_GATE"
  shows "gate_table nP cf (sigma_run nP cf W) (run_function_dependent nP cf W 1) k (count_ands cf k)"
proof -
  have p1: "cm_party (W 1) = 1" "num_ands (W 1) = count_ands cf (num_gate cf)"
    using pre by (auto simp: preprocessed_def)
  show ?thesis
    unfolding gate_table_def run_fd_evaluator [of W 1, OF p1(1)] keep_rows_slot [OF k] keep_rows_frame
    using count_ands_less [OF k] p1(2)
    by (auto simp: receive_tables_def garble_slot [OF k] simp flip: One_nat_def)
      (simp_all add: row_keys_def row_macs_def row_bits_def Let_def)
qed

theorem run_fd_garbled:
  assumes wf: "wf_circuit cf" and pre: "preprocessed nP cf W"
  shows "garbled nP cf (sigma_run nP cf W) (run_function_dependent nP cf W 1)"
proof -
  let ?S = "sigma_run nP cf W"
  have nP: "2 \<le> nP" "1 \<le> nP" using pre by (auto simp: preprocessed_def)
  have party: "cm_party (W p) = p" if "1 \<le> p" "p \<le> nP" for p
    using pre that by (auto simp: preprocessed_def)
  have ands: "auth_row nP cf ?S i (count_ands cf i) (row_of ma mb)
      \<and> parity (\<lambda>p. row_bits cf (?S p) i (count_ands cf i) ! row_of ma mb) (parties nP)
        = bxor (bxor (wire_mask nP ?S (gate_in1 cf i)) ma \<and> bxor (wire_mask nP ?S (gate_in2 cf i)) mb)
            (wire_mask nP ?S (gate_out cf i))"
    if i: "i < num_gate cf" "gate_type cf i = AND_GATE" for i ma mb
  proof -
    have def: "defined_by cf (num_gate cf) (gate_in1 cf i)" "defined_by cf (num_gate cf) (gate_in2 cf i)"
      "defined_by cf (num_gate cf) (gate_out cf i)"
      using wf_gateD [OF wf i(1)] i gate_types defined_by_mono [of i "num_gate cf"]
      by (auto simp: wf_gate_def) (auto simp: defined_by_def)
    show ?thesis
      by (intro conjI row_auth row_parity nP sigma_run_product [OF wf pre i]
          sigma_run_auth_wire [OF wf pre order_refl] def) (simp_all add: party)
  qed
  have xors: "wire_mask nP ?S (gate_out cf i) = bxor (wire_mask nP ?S (gate_in1 cf i)) (wire_mask nP ?S (gate_in2 cf i))
      \<and> (\<forall>j\<in>{2..nP}. cm_labels (?S j) (gate_out cf i)
             = cm_labels (?S j) (gate_in1 cf i) XOR cm_labels (?S j) (gate_in2 cf i))"
    if "i < num_gate cf" "gate_type cf i = XOR_GATE" for i
    unfolding wire_mask_def sigma_run_frame fd_prepare_def linear_gates_xor(1) [OF wf that] parity_bxor
    using linear_gates_xor(4) [OF wf that] party by auto
  have nots: "wire_mask nP ?S (gate_out cf i) = wire_mask nP ?S (gate_in1 cf i)
      \<and> (\<forall>j\<in>{2..nP}. cm_labels (?S j) (gate_out cf i) = cm_labels (?S j) (gate_in1 cf i) XOR cm_Delta (?S j))"
    if "i < num_gate cf" "gate_type cf i = NOT_GATE" for i
    unfolding wire_mask_def sigma_run_frame fd_prepare_def linear_gates_not(1) [OF wf that]
    using linear_gates_not(4) [OF wf that] party by auto
  show ?thesis
    unfolding garbled_def using nP ands xors nots run_fd_table [OF pre] party by auto
qed

lemma fold_bxor_left: "fold (\<lambda>j b. bxor (xs j) b) js b = bxor b (parity xs js)"
  unfolding bxor_commute [of "xs _"] fold_bxor_parity ..

text \<open>From the masked inputs on, whichever way party 1 and the others agreed on them.\<close>

lemma online_finish:
  assumes wf: "wf_circuit cf" and pre: "preprocessed nP cf W" and D: "cm_Delta (W 1) \<noteq> 0"
    and msk: "\<And>w. w < n1 cf + n2 cf \<Longrightarrow> msk w = bxor (v w) (wire_mask nP (sigma_run nP cf W) w)"
  defines "R \<equiv> run_function_dependent nP cf W"
  shows "(case evaluate nP cf (R 1) msk (receive_labels nP (R 1) (\<lambda>p. input_labels (R p) msk)) of
            (m, el, log) \<Rightarrow> (online_unmask nP cf (R 1) (\<lambda>p. cm_value (R p)) m, log))
         = (output_wires cf (eval_circuit cf v), [])"
proof -
  let ?S = "sigma_run nP cf W"
  define el where "el = receive_labels nP (R 1) (\<lambda>p. input_labels (R p) msk)"
  have nP: "1 \<le> nP" and in1: "num_in (W 1) = n1 cf + n2 cf" using pre by (auto simp: preprocessed_def)
  have D': "cm_Delta (?S 1) \<noteq> 0" using D by simp
  have start: "msk w = bxor (v w) (wire_mask nP ?S w) \<and> labels_ok nP ?S msk el w" if "w < n1 cf + n2 cf" for w
    using msk [OF that] that in1
    by (auto simp: labels_ok_def el_def receive_labels_def input_labels_def gate_blk_def R_def)
  obtain m el' where ev: "evaluate nP cf (R 1) msk el = (m, el', [])"
    and m: "\<And>w. defined_by cf (num_gate cf) w \<Longrightarrow>
         m w = bxor (eval_circuit cf v w) (wire_mask nP ?S w) \<and> labels_ok nP ?S m el' w"
    by (rule evaluate_garbled [OF wf run_fd_garbled [OF wf pre, folded R_def] D',
          where msk = msk and el = el and v = v]) (use start in \<open>blast+\<close>)
  have out: "bxor (cm_value (R 1) w) (fold (\<lambda>j b. bxor (cm_value (R j) w) b) [2..<Suc nP] (m w))
      = eval_circuit cf v w" if "w \<in> set [num_wire cf - n3 cf..<num_wire cf]" for w
  proof -
    have "defined_by cf (num_gate cf) w" using wf that by (auto simp: wf_circuit_def list_all_iff)
    from conjunct1 [OF m [OF this]] show ?thesis
      unfolding fold_bxor_left wire_mask_def parties_Cons [OF nP] parity_simps R_def
      by (simp add: bxor_ac del: upt_Suc)
  qed
  have "online_unmask nP cf (R 1) (\<lambda>p. cm_value (R p)) m = output_wires cf (eval_circuit cf v)"
    unfolding online_unmask_def output_wires_def using out by (intro map_cong refl)
  with ev show ?thesis by (simp add: el_def)
qed

theorem run_online_ok:
  assumes wf: "wf_circuit cf" and pre: "preprocessed nP cf W" and D: "cm_Delta (W 1) \<noteq> 0"
  shows "run_online nP cf (run_function_dependent nP cf W) garbage inputs
     = (output_wires cf (eval_circuit cf (\<lambda>w. parity (\<lambda>p. inputs p w) (parties nP))), [])"
proof -
  let ?S = "sigma_run nP cf W" and ?R = "run_function_dependent nP cf W"
  let ?v = "\<lambda>w. parity (\<lambda>p. inputs p w) (parties nP)"
  define masks where "masks = (\<lambda>p. online_mask (?R p) garbage (inputs p))"
  define msk where "msk = online_collect nP (?R 1) masks (masks 1)"
  have nP: "1 \<le> nP" using pre by (auto simp: preprocessed_def)
  have in_p: "num_in (W p) = n1 cf + n2 cf" if "1 \<le> p" "p \<le> nP" for p
    using pre that by (auto simp: preprocessed_def)
  have msk_in: "msk w = bxor (?v w) (wire_mask nP ?S w)" if "w < n1 cf + n2 cf" for w
  proof -
    have "msk w = parity (\<lambda>p. masks p w) (parties nP)"
      unfolding msk_def online_collect_def fold_bxor_left parties_Cons [OF nP] parity_simps
      using that in_p [OF order_refl nP] by (simp del: upt_Suc)
    also have "\<dots> = parity (\<lambda>p. bxor (inputs p w) (cm_value (?S p) w)) (parties nP)"
      using that in_p by (intro parity_cong refl) (auto simp: masks_def online_mask_def)
    finally show ?thesis by (simp only: parity_bxor wire_mask_def)
  qed
  have "run_online nP cf ?R garbage inputs
      = (case evaluate nP cf (?R 1) msk (receive_labels nP (?R 1) (\<lambda>p. input_labels (?R p) msk)) of
          (m, el, log) \<Rightarrow> (online_unmask nP cf (?R 1) (\<lambda>p. cm_value (?R p)) m, log))"
    unfolding run_online_def online_alice_def Let_def msk_def masks_def ..
  also have "\<dots> = (output_wires cf (eval_circuit cf ?v), [])"
    using online_finish [OF wf pre D, where msk = msk and v = ?v] msk_in by blast
  finally show ?thesis .
qed

subsection \<open>From construction to output\<close>

text \<open>What \<^verbatim>\<open>FpreMP::compute\<close> and \<^verbatim>\<open>ABitMP::compute\<close> promise for arrays \<open>(value, MAC, KEY)\<close>, one per
  party, under the parties' offsets.\<close>

type_synonym auth_array = "bool arr \<times> block party_arr \<times> block party_arr"

definition auth_entry :: "nat \<Rightarrow> (nat \<Rightarrow> block) \<Rightarrow> (nat \<Rightarrow> auth_array) \<Rightarrow> nat \<Rightarrow> bool" where
  "auth_entry nP \<Delta> A k \<longleftrightarrow> auth_bit nP \<Delta> (\<lambda>p. fst (A p) k)
     (\<lambda>p j. fst (snd (A p)) j k) (\<lambda>p j. snd (snd (A p)) j k)"

definition triples_ok :: "nat \<Rightarrow> (nat \<Rightarrow> block) \<Rightarrow> (nat \<Rightarrow> auth_array) \<Rightarrow> nat \<Rightarrow> bool" where
  "triples_ok nP \<Delta> A n \<longleftrightarrow>
     list_all (\<lambda>k. auth_entry nP \<Delta> A (3 * k) \<and> auth_entry nP \<Delta> A (3 * k + 1) \<and> auth_entry nP \<Delta> A (3 * k + 2)
       \<and> parity (\<lambda>p. fst (A p) (3 * k + 2)) (parties nP)
         = (parity (\<lambda>p. fst (A p) (3 * k)) (parties nP) \<and> parity (\<lambda>p. fst (A p) (3 * k + 1)) (parties nP)))
       [0..<n]"

definition abits_ok :: "nat \<Rightarrow> (nat \<Rightarrow> block) \<Rightarrow> (nat \<Rightarrow> auth_array) \<Rightarrow> nat \<Rightarrow> bool" where
  "abits_ok nP \<Delta> A n \<longleftrightarrow> list_all (auth_entry nP \<Delta> A) [0..<n]"

definition setup_cmpc ::
  "nat \<Rightarrow> BristolFormat \<Rightarrow> nat \<Rightarrow> (nat \<Rightarrow> block) \<Rightarrow> (nat \<Rightarrow> block arr) \<Rightarrow> (nat \<Rightarrow> auth_array)
   \<Rightarrow> (nat \<Rightarrow> auth_array) \<Rightarrow> (nat \<Rightarrow> cmpc) \<Rightarrow> nat \<Rightarrow> cmpc" where
  "setup_cmpc nP cf ssp \<Delta> labels ands pre heap =
     (\<lambda>p. function_independent nP cf (labels p) (ands p) (pre p) (CMPC_new p cf (\<Delta> p) ssp (heap p)))"

lemma setup_cmpc_fields [simp]:
  "cm_party (setup_cmpc nP cf ssp \<Delta> labels ands pre heap p) = p"
  "cm_Delta (setup_cmpc nP cf ssp \<Delta> labels ands pre heap p) = \<Delta> p"
  "num_in (setup_cmpc nP cf ssp \<Delta> labels ands pre heap p) = n1 cf + n2 cf"
  "num_ands (setup_cmpc nP cf ssp \<Delta> labels ands pre heap p) = count_ands cf (num_gate cf)"
  "ANDS_value (setup_cmpc nP cf ssp \<Delta> labels ands pre heap p) = fst (ands p)"
  "ANDS_mac (setup_cmpc nP cf ssp \<Delta> labels ands pre heap p) = fst (snd (ands p))"
  "ANDS_key (setup_cmpc nP cf ssp \<Delta> labels ands pre heap p) = snd (snd (ands p))"
  "preprocess_value (setup_cmpc nP cf ssp \<Delta> labels ands pre heap p) = fst (pre p)"
  "preprocess_mac (setup_cmpc nP cf ssp \<Delta> labels ands pre heap p) = fst (snd (pre p))"
  "preprocess_key (setup_cmpc nP cf ssp \<Delta> labels ands pre heap p) = snd (snd (pre p))"
  "w < n1 cf + n2 cf \<Longrightarrow> cm_value (setup_cmpc nP cf ssp \<Delta> labels ands pre heap p) w = fst (pre p) w"
  "w < n1 cf + n2 cf \<Longrightarrow> 1 \<le> j \<Longrightarrow> j \<le> nP \<Longrightarrow>
     cm_mac (setup_cmpc nP cf ssp \<Delta> labels ands pre heap p) j w = fst (snd (pre p)) j w"
  "w < n1 cf + n2 cf \<Longrightarrow> 1 \<le> j \<Longrightarrow> j \<le> nP \<Longrightarrow>
     cm_key (setup_cmpc nP cf ssp \<Delta> labels ands pre heap p) j w = snd (snd (pre p)) j w"
  by (cases "ands p", cases "pre p",
      simp add: setup_cmpc_def function_independent_def CMPC_new_def copy_parties_def Let_def)+

theorem setup_cmpc_preprocessed:
  assumes "2 \<le> nP" and "triples_ok nP \<Delta> ands (count_ands cf (num_gate cf))"
    and "abits_ok nP \<Delta> pre (n1 cf + n2 cf + count_ands cf (num_gate cf) + 3 * ssp)"
  shows "preprocessed nP cf (setup_cmpc nP cf ssp \<Delta> labels ands pre heap)"
proof -
  let ?W = "setup_cmpc nP cf ssp \<Delta> labels ands pre heap"
  have pre: "auth_entry nP \<Delta> pre k" if "k < n1 cf + n2 cf + count_ands cf (num_gate cf)" for k
    using assms(3) that by (auto simp: abits_ok_def list_all_iff)
  have "auth_wire nP ?W w" if "w < n1 cf + n2 cf" for w
    using pre [of w] that unfolding auth_wire_def auth_entry_def
    by (subst auth_bit_cong [where val' = "\<lambda>p. fst (pre p) w"
          and mac' = "\<lambda>p j. fst (snd (pre p)) j w" and key' = "\<lambda>p j. snd (snd (pre p)) j w"]) auto
  moreover have "auth_preprocess nP ?W (n1 cf + n2 cf + k) \<and> triple_ok nP ?W k"
    if "k < count_ands cf (num_gate cf)" for k
    using pre [of "n1 cf + n2 cf + k"] assms(2) that
    by (auto simp: auth_preprocess_def auth_entry_def triple_ok_def auth_ands_def triples_ok_def list_all_iff
        simp del: upt_Suc)
  ultimately show ?thesis
    using assms(1) by (auto simp: preprocessed_def)
qed

end
