(* ===== verification/Helper.thy ===== *)
theory Helper
  imports Shares
begin

text \<open>
  \<^verbatim>\<open>emp-agmpc/helper.h\<close> (inner products, packed bit vectors, joint coin tossing, the debugging
  checks, hexadecimal input) and \<^verbatim>\<open>emp-tool/utils/hash.h\<close>.  SHA-256 is OpenSSL's; it enters as a
  parameter \<open>sha\<close> from byte strings to byte strings.
\<close>

type_synonym bytes = "8 word list"

subsection \<open>hash.h\<close>

definition HASH_BUFFER_SIZE :: nat where "HASH_BUFFER_SIZE = 1024 * 8"
definition DIGEST_SIZE :: nat where "DIGEST_SIZE = 32"

text \<open>\<open>hs_absorbed\<close> is what \<^verbatim>\<open>EVP_DigestUpdate\<close> got since the last initialisation, \<open>hs_buffer\<close> the
  first \<open>size\<close> bytes of \<^verbatim>\<open>buffer\<close>.\<close>

record Hash =
  hs_absorbed :: bytes
  hs_buffer :: bytes

definition Hash_new :: Hash where
  "Hash_new = \<lparr>hs_absorbed = [], hs_buffer = []\<rparr>"

definition Hash_put :: "bytes \<Rightarrow> Hash \<Rightarrow> Hash" where
  "Hash_put data h =
     (if length data \<ge> HASH_BUFFER_SIZE then h\<lparr>hs_absorbed := hs_absorbed h @ data\<rparr>
      else if length (hs_buffer h) + length data < HASH_BUFFER_SIZE
      then h\<lparr>hs_buffer := hs_buffer h @ data\<rparr>
      else h\<lparr>hs_absorbed := hs_absorbed h @ hs_buffer h, hs_buffer := data\<rparr>)"

definition Hash_put_block :: "block list \<Rightarrow> Hash \<Rightarrow> Hash" where
  "Hash_put_block bs = Hash_put (concat (map bytes_of_block bs))"

definition Hash_reset :: "Hash \<Rightarrow> Hash" where
  "Hash_reset h = h\<lparr>hs_absorbed := [], hs_buffer := []\<rparr>"

definition Hash_digest :: "(bytes \<Rightarrow> bytes) \<Rightarrow> Hash \<Rightarrow> bytes \<times> Hash" where
  "Hash_digest sha h =
     (let h = (if length (hs_buffer h) > 0
               then h\<lparr>hs_absorbed := hs_absorbed h @ hs_buffer h, hs_buffer := []\<rparr> else h)
      in (sha (hs_absorbed h), Hash_reset h))"

definition hash_once :: "(bytes \<Rightarrow> bytes) \<Rightarrow> bytes \<Rightarrow> bytes" where
  "hash_once sha data = fst (Hash_digest sha (Hash_put data Hash_new))"

definition hash_for_block :: "(bytes \<Rightarrow> bytes) \<Rightarrow> bytes \<Rightarrow> block" where
  "hash_for_block sha data = block_of_bytes (take 16 (hash_once sha data))"

lemma hash_once_eq [simp]: "hash_once sha data = sha data"
  by (simp add: hash_once_def Hash_digest_def Hash_put_def Hash_new_def)

text \<open>Feeding chunks smaller than the buffer hashes their concatenation, whatever the chunking.\<close>

lemma Hash_put_small:
  "length data < HASH_BUFFER_SIZE \<Longrightarrow>
     hs_absorbed (Hash_put data h) @ hs_buffer (Hash_put data h) = hs_absorbed h @ hs_buffer h @ data"
  by (simp add: Hash_put_def)

lemma Hash_digest_eq: "Hash_digest sha h = (sha (hs_absorbed h @ hs_buffer h), Hash_reset h)"
  by (simp add: Hash_digest_def Hash_reset_def)

text \<open>
  C32.  \<^verbatim>\<open>Hash\<close>: however the input is cut into calls of \<^verbatim>\<open>put\<close> of fewer than 8192 bytes, the digest is that of the
  concatenation.
\<close>

theorem Hash_chunks:
  assumes "list_all (\<lambda>c. length c < HASH_BUFFER_SIZE) chunks"
  shows "fst (Hash_digest sha (fold Hash_put chunks Hash_new)) = sha (concat chunks)"
proof -
  have "hs_absorbed (fold Hash_put chunks h) @ hs_buffer (fold Hash_put chunks h)
      = hs_absorbed h @ hs_buffer h @ concat chunks" for h
    using assms by (induction chunks arbitrary: h) (simp_all add: Hash_put_small flip: append_assoc)
  then show ?thesis by (simp add: Hash_digest_eq Hash_new_def)
qed

theorem Hash_chunks_witness:
  "fst (Hash_digest (\<lambda>bs. bs) (fold Hash_put [replicate 5000 1, replicate 5000 2] Hash_new))
   = concat [replicate 5000 1, replicate 5000 2]"
  by (rule Hash_chunks) (simp add: HASH_BUFFER_SIZE_def)

text \<open>
  C37.  \<^verbatim>\<open>Hash::put\<close> of 8192 bytes or more goes straight to the digest, ahead of what is still in the buffer.
\<close>

theorem Hash_put_overtakes:
  assumes "length a < HASH_BUFFER_SIZE" and "HASH_BUFFER_SIZE \<le> length b"
  shows "fst (Hash_digest sha (Hash_put b (Hash_put a Hash_new))) = sha (b @ a)"
  using assms by (simp add: Hash_digest_eq Hash_put_def Hash_new_def)

theorem Hash_put_overtakes_witness:
  "fst (Hash_digest (\<lambda>bs. bs) (Hash_put (replicate 8192 2) (Hash_put [1] Hash_new))) = replicate 8192 2 @ [1]"
  by (rule Hash_put_overtakes) (simp_all add: HASH_BUFFER_SIZE_def)

subsection \<open>strncmp on digests\<close>

text \<open>The C function: bytes are compared as \<^verbatim>\<open>unsigned char\<close> up to the first difference, the
  terminating zero or \<open>n\<close> bytes.\<close>

fun strncmp :: "bytes \<Rightarrow> bytes \<Rightarrow> nat \<Rightarrow> int" where
  "strncmp a b 0 = 0"
| "strncmp (x # xs) (y # ys) (Suc n) =
     (if x \<noteq> y then uint x - uint y else if x = 0 then 0 else strncmp xs ys n)"
| "strncmp _ _ (Suc n) = 0"

lemma strncmp_refl [simp]: "strncmp a a n = 0"
proof (induction n arbitrary: a)
  case (Suc n)
  then show ?case by (cases a) auto
qed simp

text \<open>What equality under \<^verbatim>\<open>strncmp\<close> means: equal up to and including the first zero byte.\<close>

definition c_prefix :: "bytes \<Rightarrow> nat \<Rightarrow> bytes" where
  "c_prefix a n = takeWhile (\<lambda>x. x \<noteq> 0) (take n a)"

theorem strncmp_zero_iff:
  "length a = n \<Longrightarrow> length b = n \<Longrightarrow> strncmp a b n = 0 \<longleftrightarrow> c_prefix a n = c_prefix b n"
proof (induction a b n rule: strncmp.induct)
  case (2 x xs y ys n)
  then show ?case by (auto simp: c_prefix_def uint_0_iff simp flip: word_uint_eq_iff)
qed (auto simp: c_prefix_def)

theorem strncmp_full:
  assumes "length a = n" "length b = n" "0 \<notin> set a" "strncmp a b n = 0"
  shows "a = b"
proof -
  have "takeWhile (\<lambda>x. x \<noteq> 0) a = a"
    using assms(3) unfolding takeWhile_eq_all_conv by blast
  moreover have "takeWhile (\<lambda>x. x \<noteq> 0) a = takeWhile (\<lambda>x. x \<noteq> 0) b"
    using assms strncmp_zero_iff [OF assms(1,2)] by (simp add: c_prefix_def)
  ultimately have eq: "a = takeWhile (\<lambda>x. x \<noteq> 0) b" by metis
  then have "length (takeWhile (\<lambda>x. x \<noteq> 0) b) = length b" using assms by simp
  moreover have "takeWhile (\<lambda>x. x \<noteq> 0) b @ dropWhile (\<lambda>x. x \<noteq> 0) b = b" by simp
  ultimately have "takeWhile (\<lambda>x. x \<noteq> 0) b = b"
    using append_eq_append_conv [of "takeWhile (\<lambda>x. x \<noteq> 0) b" b "dropWhile (\<lambda>x. x \<noteq> 0) b" "[]"] by simp
  with eq show ?thesis by simp
qed

subsection \<open>Inner products\<close>

definition inProd_blk :: "bool arr \<Rightarrow> block arr \<Rightarrow> nat \<Rightarrow> block" where
  "inProd_blk b blk n = fold (\<lambda>i res. res XOR (select_mask (b i) AND blk i)) [0..<n] zero_block"

definition inProdhelp :: "nat \<Rightarrow> bool party_arr \<Rightarrow> block arr \<Rightarrow> nat \<Rightarrow> block arr \<Rightarrow> block arr" where
  "inProdhelp ssp tmp MAC i Ms =
     fold (\<lambda>j Ms. Ms(j := Ms j XOR (select_mask (tmp j i) AND MAC i))) [0..<ssp] Ms"

definition inProds :: "nat \<Rightarrow> bool party_arr \<Rightarrow> block arr \<Rightarrow> nat \<Rightarrow> block arr \<Rightarrow> block arr" where
  "inProds ssp tmp MAC n Ms =
     fold (inProdhelp ssp tmp MAC) [0..<n] (\<lambda>j. if j < ssp then 0 else Ms j)"

definition inProd_bool :: "bool arr \<Rightarrow> bool arr \<Rightarrow> nat \<Rightarrow> bool" where
  "inProd_bool b b2 n = fold (\<lambda>i res. bxor res (b i \<and> b2 i)) [0..<n] False"

lemma inProd_blk_xsum: "inProd_blk b blk n = xsum (\<lambda>i. gate_blk (b i) (blk i)) [0..<n]"
  by (simp add: inProd_blk_def fold_xor_xsum)

lemma inProd_bool_parity: "inProd_bool b b2 n = parity (\<lambda>i. b i \<and> b2 i) [0..<n]"
  by (simp add: inProd_bool_def fold_bxor_parity)

lemma inProdhelp_nth:
  "inProdhelp ssp tmp MAC i Ms j = (if j < ssp then Ms j XOR gate_blk (tmp j i) (MAC i) else Ms j)"
proof -
  have "fold (\<lambda>j Ms. Ms(j := Ms j XOR gate_blk (tmp j i) (MAC i))) [0..<s] Ms j
      = (if j < s then Ms j XOR gate_blk (tmp j i) (MAC i) else Ms j)" for s
    by (induction s) (auto simp: less_Suc_eq)
  then show ?thesis by (simp add: inProdhelp_def)
qed

theorem inProds_nth:
  "inProds ssp tmp MAC n Ms j = (if j < ssp then inProd_blk (tmp j) MAC n else Ms j)"
  by (induction n) (auto simp: inProds_def inProdhelp_nth inProd_blk_xsum)

text \<open>The inner product respects authentication: this is what the checks of \<^verbatim>\<open>ABitMP\<close> rest on.\<close>

theorem inProd_auth:
  assumes "\<And>i. i < n \<Longrightarrow> mac i = key i XOR gate_blk (x i) \<Delta>"
  shows "inProd_blk b mac n = inProd_blk b key n XOR gate_blk (inProd_bool b x n) \<Delta>"
proof -
  have "xsum (\<lambda>i. gate_blk (b i) (mac i)) [0..<n]
      = xsum (\<lambda>i. gate_blk (b i) (key i) XOR gate_blk (b i \<and> x i) \<Delta>) [0..<n]"
    using assms by (intro xsum_cong refl) (auto simp: gate_blk_xor_blk gate_blk_def)
  then show ?thesis by (simp add: inProd_blk_xsum inProd_bool_parity xsum_xor xsum_gate_blk)
qed

subsection \<open>Packed bit vectors\<close>

text \<open>\<^verbatim>\<open>send_bool\<close> and \<^verbatim>\<open>recv_bool\<close> with \<^verbatim>\<open>lan_network = false\<close>: 64 bits per word, least significant first.\<close>

definition lan_network :: bool where "lan_network = False"

definition pack_word :: "bool list \<Rightarrow> 64 word" where
  "pack_word bs = fold (\<lambda>j tmp. if bs ! j then tmp OR push_bit j 1 else tmp) [0..<min 64 (length bs)] 0"

fun send_bool :: "bool list \<Rightarrow> 64 word list" where
  "send_bool bs = (if bs = [] then [] else pack_word (take 64 bs) # send_bool (drop 64 bs))"

definition unpack_word :: "nat \<Rightarrow> 64 word \<Rightarrow> bool list" where
  "unpack_word n tmp = map (\<lambda>j. drop_bit j tmp AND 1 = 1) [0..<n]"

fun recv_bool :: "64 word list \<Rightarrow> nat \<Rightarrow> bool list" where
  "recv_bool ws n = (if n = 0 then [] else unpack_word (min 64 n) (hd ws) @ recv_bool (tl ws) (n - 64))"

declare send_bool.simps [simp del] recv_bool.simps [simp del]

lemma bit_pack_word: "bit (pack_word bs) k = (k < min 64 (length bs) \<and> bs ! k)"
proof -
  have "bit (fold (\<lambda>j tmp. if bs ! j then tmp OR push_bit j 1 else tmp) [0..<m] (0 :: 64 word)) k
      = (k < m \<and> bs ! k)" if "m \<le> 64" for m
    using that by (induction m) (auto simp: bit_simps less_Suc_eq)
  then show ?thesis by (simp add: pack_word_def)
qed

lemma unpack_pack: "length bs \<le> 64 \<Longrightarrow> unpack_word (length bs) (pack_word bs) = bs"
  by (rule nth_equalityI)
    (simp_all add: unpack_word_def bit_pack_word and_one_eq flip: bit_iff_odd_drop_bit odd_iff_mod_2_eq_one)

text \<open>
  C33.  \<^verbatim>\<open>recv_bool\<close> restores the bits \<^verbatim>\<open>send_bool\<close> packed into 64-bit words, for every length.
\<close>

theorem recv_send_bool: "recv_bool (send_bool bs) (length bs) = bs"
proof (induction bs rule: send_bool.induct)
  case (1 bs)
  show ?case
  proof (cases "bs = []")
    case False
    have "unpack_word (min 64 (length bs)) (pack_word (take 64 bs)) = take 64 bs"
      using unpack_pack [of "take 64 bs"] by (simp add: min.commute)
    then show ?thesis
      using 1 [OF False] False by (subst recv_bool.simps) (simp add: send_bool.simps [of bs])
  qed (simp add: recv_bool.simps)
qed

theorem send_bool_length: "length (send_bool bs) = (length bs + 63) div 64"
proof (induction bs rule: send_bool.induct)
  case (1 bs)
  then show ?case
    by (subst send_bool.simps) (cases "length bs \<le> 64", auto simp: div_if)
qed

subsection \<open>Joint coin tossing\<close>

text \<open>\<^verbatim>\<open>sampleRandom\<close> for one party: \<open>S\<close> its own block, \<open>dgst j\<close> and \<open>recv j\<close> what party \<open>j\<close> sends as
  commitment and as opening.  \<open>None\<close> is the \<^verbatim>\<open>exit\<close> on a failed check.\<close>

definition sampleRandom_check :: "(bytes \<Rightarrow> bytes) \<Rightarrow> nat \<Rightarrow> nat \<Rightarrow> (nat \<Rightarrow> bytes) \<Rightarrow> (nat \<Rightarrow> block) \<Rightarrow> bool" where
  "sampleRandom_check sha nP party dgst recv =
     list_ex (\<lambda>j. strncmp (hash_once sha (bytes_of_block (recv j))) (dgst j) DIGEST_SIZE \<noteq> 0) (others nP party)"

definition sampleRandom ::
  "(bytes \<Rightarrow> bytes) \<Rightarrow> nat \<Rightarrow> nat \<Rightarrow> block \<Rightarrow> (nat \<Rightarrow> bytes) \<Rightarrow> (nat \<Rightarrow> block) \<Rightarrow> block option" where
  "sampleRandom sha nP party S dgst recv =
     (if sampleRandom_check sha nP party dgst recv then None
      else let Ss = (\<lambda>j. if j = party then S else recv j)
           in Some (fold (\<lambda>i r. r XOR Ss i) [2..<Suc nP] (Ss 1)))"

definition run_sampleRandom :: "(bytes \<Rightarrow> bytes) \<Rightarrow> nat \<Rightarrow> (nat \<Rightarrow> block) \<Rightarrow> nat \<Rightarrow> block option" where
  "run_sampleRandom sha nP S p =
     sampleRandom sha nP p (S p) (\<lambda>j. hash_once sha (bytes_of_block (S j))) S"

lemma sampleRandom_sum:
  "1 \<le> nP \<Longrightarrow> fold (\<lambda>i r. r XOR f i) [2..<Suc nP] (f 1) = xsum f (parties nP)"
  unfolding fold_xor_xsum parties_Cons xsum_simps ..

lemma run_sampleRandom_Some:
  assumes "1 \<le> p" "p \<le> nP"
  shows "run_sampleRandom sha nP S p = Some (xsum S (parties nP))"
proof -
  have own: "(if j = p then S p else S j) = S j" for j by simp
  have "\<not> sampleRandom_check sha nP p (\<lambda>j. hash_once sha (bytes_of_block (S j))) S"
    by (simp add: sampleRandom_check_def list_ex_iff)
  then show ?thesis
    unfolding run_sampleRandom_def sampleRandom_def Let_def own
    using sampleRandom_sum [of nP S] assms by (simp del: upt_Suc)
qed

text \<open>
  C30.  The joint coin of \<^verbatim>\<open>sampleRandom\<close>: when everybody is honest, every party returns, with the exclusive or of
  all contributions.
\<close>

theorem sampleRandom_agree:
  assumes "1 \<le> p" "p \<le> nP"
  shows "run_sampleRandom sha nP S p = Some (xsum S (parties nP))"
  using assms by (rule run_sampleRandom_Some)

theorem sampleRandom_agree_witness:
  "run_sampleRandom (\<lambda>bs. bs @ bs) 3 of_nat 2 = Some (xsum of_nat (parties 3))"
  by (rule sampleRandom_agree) simp_all

text \<open>
  C31.  A party that returns from \<^verbatim>\<open>sampleRandom\<close> has checked every opening against its commitment, up to the first zero
  byte, where \<^verbatim>\<open>strncmp\<close> stops.
\<close>

theorem sampleRandom_binding:
  assumes "sampleRandom sha nP p S dgst recv = Some r" and "j \<in> set (others nP p)"
    and "length (sha (bytes_of_block (recv j))) = DIGEST_SIZE" and "length (dgst j) = DIGEST_SIZE"
  shows "c_prefix (sha (bytes_of_block (recv j))) DIGEST_SIZE = c_prefix (dgst j) DIGEST_SIZE"
proof -
  have "strncmp (sha (bytes_of_block (recv j))) (dgst j) DIGEST_SIZE = 0"
    using assms(1,2)
    by (auto simp: sampleRandom_def sampleRandom_check_def list_ex_iff simp del: set_others split: if_splits)
  then show ?thesis using strncmp_zero_iff [OF assms(3,4)] by blast
qed

theorem sampleRandom_binding_witness:
  "c_prefix (replicate 32 (1 :: 8 word)) DIGEST_SIZE = c_prefix (replicate 32 1) DIGEST_SIZE
   \<and> sampleRandom (\<lambda>_. replicate 32 1) 2 1 5 (\<lambda>_. replicate 32 1) (\<lambda>_. 6) = Some 3"
proof -
  have run: "sampleRandom (\<lambda>_. replicate 32 1) 2 1 5 (\<lambda>_. replicate 32 1) (\<lambda>_. 6) = Some 3"
    by (simp add: sampleRandom_def sampleRandom_check_def list_ex_iff upt_rec)
  from sampleRandom_binding [OF run, of 2] run show ?thesis by (simp add: DIGEST_SIZE_def)
qed

text \<open>
  C38.  The digest comparison uses \<^verbatim>\<open>strncmp\<close>, which stops at a zero byte: an opening whose digest starts with one
  passes the check of \<^verbatim>\<open>sampleRandom\<close> against every commitment that starts with one, whatever the other
  31 bytes are.
\<close>

theorem sampleRandom_check_confused:
  assumes "\<And>j. j \<in> set (others nP p) \<Longrightarrow> \<exists>d c. sha (bytes_of_block (recv j)) = 0 # d \<and> dgst j = 0 # c"
  shows "\<not> sampleRandom_check sha nP p dgst recv"
proof -
  have "strncmp (sha (bytes_of_block (recv j))) (dgst j) DIGEST_SIZE = 0" if "j \<in> set (others nP p)" for j
    using assms [OF that] by (auto simp: DIGEST_SIZE_def numeral_eq_Suc)
  then show ?thesis by (simp add: sampleRandom_check_def list_ex_iff del: set_others)
qed

theorem sampleRandom_check_confused_witness:
  "\<not> sampleRandom_check (\<lambda>_. 0 # replicate 31 1) 2 1 (\<lambda>_. 0 # replicate 31 2) (\<lambda>_. 0)"
  by (rule sampleRandom_check_confused) simp

subsection \<open>The debugging checks\<close>

text \<open>What party \<open>j\<close> verifies for party \<open>i < j\<close>, and the conjunction over all parties; \<open>A p\<close> is
  \<open>(r, MAC, KEY)\<close> of party \<open>p\<close>.\<close>

definition check_MAC_pair ::
  "block \<Rightarrow> block arr \<Rightarrow> bool arr \<Rightarrow> block arr \<Rightarrow> nat \<Rightarrow> bool" where
  "check_MAC_pair tD key r mac n =
     cmpBlock mac (\<lambda>k. if k < n then (if r k then key k XOR tD else key k) else key k) n"

definition check_MAC ::
  "nat \<Rightarrow> (nat \<Rightarrow> block) \<Rightarrow> (nat \<Rightarrow> bool arr \<times> block party_arr \<times> block party_arr) \<Rightarrow> nat \<Rightarrow> bool" where
  "check_MAC nP \<Delta> A n =
     list_all (\<lambda>i. list_all (\<lambda>j. check_MAC_pair (\<Delta> i) (snd (snd (A i)) j) (fst (A j)) (fst (snd (A j)) i) n)
       (filter (\<lambda>j. i < j) (parties nP))) (parties nP)"

definition check_correctness :: "nat \<Rightarrow> (nat \<Rightarrow> bool arr) \<Rightarrow> nat \<Rightarrow> bool" where
  "check_correctness nP r n =
     (let tmp1 = (\<lambda>k. fold (\<lambda>i b. bxor b (r i k)) [2..<Suc nP] (r 1 k))
      in list_all (\<lambda>k. (tmp1 (3 * k) \<and> tmp1 (3 * k + 1)) = tmp1 (3 * k + 2)) [0..<n])"

text \<open>
  \<^verbatim>\<open>check_MAC\<close> accepts exactly when every tag held by a party \<open>j\<close> for a party \<open>i < j\<close> is right; the tags of the
  other direction are not looked at.
\<close>

theorem check_MAC_iff:
  "check_MAC nP \<Delta> A n \<longleftrightarrow>
     (\<forall>i j k. 1 \<le> i \<and> i < j \<and> j \<le> nP \<and> k < n \<longrightarrow>
        fst (snd (A j)) i k = snd (snd (A i)) j k XOR gate_blk (fst (A j) k) (\<Delta> i))"
  unfolding check_MAC_def check_MAC_pair_def cmpBlock_iff list_all_iff
  by (auto simp: gate_blk_def simp del: upt_Suc)

theorem check_MAC_iff_witness:
  "check_MAC 2 (\<lambda>_. 1) (\<lambda>p. (\<lambda>_. True, \<lambda>_ _. 1, \<lambda>_ _. 0)) 3"
  by (simp add: check_MAC_iff)

theorem check_correctness_iff:
  assumes "1 \<le> nP"
  shows "check_correctness nP r n \<longleftrightarrow>
     (\<forall>k<n. parity (\<lambda>p. r p (3 * k + 2)) (parties nP)
          = (parity (\<lambda>p. r p (3 * k)) (parties nP) \<and> parity (\<lambda>p. r p (3 * k + 1)) (parties nP)))"
proof -
  have "fold (\<lambda>i b. bxor b (r i k)) [2..<Suc nP] (r 1 k) = parity (\<lambda>p. r p k) (parties nP)" for k
    unfolding parties_Cons [OF assms] fold_bxor_parity parity_simps ..
  then show ?thesis
    unfolding check_correctness_def Let_def list_all_iff by (auto simp del: upt_Suc)
qed

subsection \<open>Hexadecimal input\<close>

definition hex_char_to_bin :: "char \<Rightarrow> string" where
  "hex_char_to_bin c =
     (case map_of (zip ''0123456789ABCDEF''
            [''0000'', ''0001'', ''0010'', ''0011'', ''0100'', ''0101'', ''0110'', ''0111'',
             ''1000'', ''1001'', ''1010'', ''1011'', ''1100'', ''1101'', ''1110'', ''1111''])
          (if c \<in> set ''abcdef'' then char_of (of_char c - 32 :: nat) else c) of
        Some s \<Rightarrow> s | None \<Rightarrow> ''0'')"

definition hex_to_binary :: "string \<Rightarrow> string" where
  "hex_to_binary hex = fold (\<lambda>i bin. bin @ hex_char_to_bin (hex ! i)) [0..<length hex] []"

definition bin_value :: "string \<Rightarrow> nat" where
  "bin_value s = fold (\<lambda>c n. 2 * n + (if c = CHR ''1'' then 1 else 0)) s 0"

definition hex_value :: "char \<Rightarrow> nat" where
  "hex_value c = (let n = of_char c :: nat in if n \<le> 57 then n - 48 else if n \<le> 70 then n - 55 else n - 87)"

definition is_hex :: "char \<Rightarrow> bool" where
  "is_hex c = (c \<in> set ''0123456789ABCDEFabcdef'')"

lemma hex_to_binary_concat: "hex_to_binary hex = concat (map hex_char_to_bin hex)"
proof -
  have "fold (\<lambda>i bin. bin @ hex_char_to_bin (hex ! i)) [0..<n] [] = concat (map (\<lambda>i. hex_char_to_bin (hex ! i)) [0..<n])" for n
    by (induction n) auto
  moreover have "map (\<lambda>i. hex_char_to_bin (hex ! i)) [0..<length hex] = map hex_char_to_bin hex"
    by (rule nth_equalityI) auto
  ultimately show ?thesis by (simp add: hex_to_binary_def)
qed

lemma hex_char_digit: "is_hex c \<Longrightarrow> length (hex_char_to_bin c) = 4 \<and> bin_value (hex_char_to_bin c) = hex_value c"
proof -
  have "list_all (\<lambda>c. length (hex_char_to_bin c) = 4 \<and> bin_value (hex_char_to_bin c) = hex_value c)
          ''0123456789ABCDEFabcdef''"
    by code_simp
  then show "is_hex c \<Longrightarrow> ?thesis" unfolding is_hex_def list_all_iff by blast
qed

lemma fold_binary:
  "fold (\<lambda>c n. 2 * n + d c) t n = n * 2 ^ length t + fold (\<lambda>c n. 2 * n + d c) t (0::nat)"
proof (induction t arbitrary: n)
  case (Cons c t)
  show ?case using Cons [of "2 * n + d c"] Cons [of "d c"] by (simp add: algebra_simps)
qed simp

lemma bin_value_append: "bin_value (s @ t) = bin_value s * 2 ^ length t + bin_value t"
  unfolding bin_value_def by (subst fold_append, unfold comp_def, rule fold_binary)

text \<open>
  \<^verbatim>\<open>hex_to_binary\<close> turns a string of hexadecimal digits, in either case, into four binary digits each with the same value.
\<close>

theorem hex_to_binary_value:
  "list_all is_hex hex \<Longrightarrow>
     length (hex_to_binary hex) = 4 * length hex
     \<and> bin_value (hex_to_binary hex) = fold (\<lambda>c n. 16 * n + hex_value c) hex 0"
proof (induction hex rule: rev_induct)
  case (snoc c hex)
  then show ?case
    using hex_char_digit [of c] by (simp add: hex_to_binary_concat bin_value_append)
qed (simp add: hex_to_binary_def bin_value_def)

theorem hex_to_binary_value_witness:
  "length (hex_to_binary ''aF3'') = 4 * length ''aF3''
   \<and> bin_value (hex_to_binary ''aF3'') = fold (\<lambda>c n. 16 * n + hex_value c) ''aF3'' 0"
  by (rule hex_to_binary_value) (simp add: is_hex_def)

end
