(* ===== verification/OnlineRange.thy ===== *)
theory OnlineRange
  imports Online Helper
begin

text \<open>
  \<^verbatim>\<open>CMPC::online(bool * input, bool * output, int * start, int * end)\<close>: party \<open>p\<close> owns the input wires
  \<open>start p, \<dots>, end p - 1\<close>.  Every other party opens its share of their masks to \<open>p\<close>, with one
  digest of the tags; \<open>p\<close> masks its inputs; party 1 collects the masked inputs, broadcasts them and
  evaluates.  \<open>s\<close> and \<open>e\<close> are the arrays \<^verbatim>\<open>start\<close> and \<^verbatim>\<open>end\<close>.
\<close>

definition range_bits :: "cmpc \<Rightarrow> nat arr \<Rightarrow> nat arr \<Rightarrow> nat \<Rightarrow> bool list" where
  "range_bits st s e p = map (\<lambda>i. cm_value st (s p + i)) [0..<e p - s p]"

definition range_digest :: "(bytes \<Rightarrow> bytes) \<Rightarrow> cmpc \<Rightarrow> nat arr \<Rightarrow> nat arr \<Rightarrow> nat \<Rightarrow> bytes" where
  "range_digest sha st s e p =
     hash_once sha (concat (map (\<lambda>i. bytes_of_block (cm_mac st p (s p + i))) [0..<e p - s p]))"

definition range_expected :: "(bytes \<Rightarrow> bytes) \<Rightarrow> cmpc \<Rightarrow> nat arr \<Rightarrow> nat arr \<Rightarrow> nat \<Rightarrow> bool list \<Rightarrow> bytes" where
  "range_expected sha st s e j bits =
     (let p = cm_party st;
          tmp = map (\<lambda>i. if bits ! i then cm_key st j (i + s p) XOR cm_Delta st else cm_key st j (i + s p)) [0..<e p - s p]
      in hash_once sha (concat (map bytes_of_block tmp)))"

definition range_cheat ::
  "(bytes \<Rightarrow> bytes) \<Rightarrow> nat \<Rightarrow> cmpc \<Rightarrow> nat arr \<Rightarrow> nat arr \<Rightarrow> (nat \<Rightarrow> bool list) \<Rightarrow> (nat \<Rightarrow> bytes) \<Rightarrow> bool" where
  "range_cheat sha nP st s e bits dig =
     list_ex (\<lambda>j. strncmp (dig j) (range_expected sha st s e j (bits j)) DIGEST_SIZE \<noteq> 0) (others nP (cm_party st))"

text \<open>\<^verbatim>\<open>input_mask[0]\<close>: the party's inputs with all shares of the masks added.\<close>

definition range_masked :: "nat \<Rightarrow> cmpc \<Rightarrow> bool arr \<Rightarrow> nat arr \<Rightarrow> nat arr \<Rightarrow> (nat \<Rightarrow> bool list) \<Rightarrow> bool list" where
  "range_masked nP st input s e bits =
     (let p = cm_party st; bits = bits(p := range_bits st s e p) in
      map (\<lambda>j. fold (\<lambda>i b. bxor b (bits i ! j)) [1..<Suc nP] (input (s p + j))) [0..<e p - s p])"

definition write_at :: "nat \<Rightarrow> 'a list \<Rightarrow> 'a arr \<Rightarrow> 'a arr" where
  "write_at a xs A = (\<lambda>w. if a \<le> w \<and> w < a + length xs then xs ! (w - a) else A w)"

text \<open>Party 1: the received vectors go to \<^verbatim>\<open>mask_input + start[party2]\<close>, its own one to \<^verbatim>\<open>mask_input\<close>.\<close>

definition range_collect :: "nat \<Rightarrow> nat arr \<Rightarrow> (nat \<Rightarrow> bool list) \<Rightarrow> bool arr \<Rightarrow> bool arr" where
  "range_collect nP s masked garbage =
     write_at 0 (masked 1) (fold (\<lambda>i A. write_at (s i) (masked i) A) [2..<Suc nP] garbage)"

definition online_range_alice ::
  "nat \<Rightarrow> BristolFormat \<Rightarrow> cmpc \<Rightarrow> bool arr \<Rightarrow> (nat \<Rightarrow> block arr) \<Rightarrow> (nat \<Rightarrow> bool arr) \<Rightarrow> bool list \<times> nat list" where
  "online_range_alice nP cf st msk ls outs =
     (let (m, el, log) = evaluate nP cf st msk (receive_labels nP st ls)
      in (online_unmask nP cf st outs m, log))"

definition run_online_range ::
  "(bytes \<Rightarrow> bytes) \<Rightarrow> nat \<Rightarrow> BristolFormat \<Rightarrow> (nat \<Rightarrow> cmpc) \<Rightarrow> bool arr \<Rightarrow> (nat \<Rightarrow> bool arr) \<Rightarrow> nat arr \<Rightarrow> nat arr
   \<Rightarrow> (bool list \<times> nat list) option" where
  "run_online_range sha nP cf W garbage inputs s e =
     (if list_ex (\<lambda>p. range_cheat sha nP (W p) s e (\<lambda>j. range_bits (W j) s e p) (\<lambda>j. range_digest sha (W j) s e p))
           (parties nP)
      then None
      else
        let masked = (\<lambda>p. range_masked nP (W p) (inputs p) s e (\<lambda>j. range_bits (W j) s e p));
            msk = range_collect nP s masked garbage
        in Some (online_range_alice nP cf (W 1) msk (\<lambda>p. input_labels (W p) msk) (\<lambda>p. cm_value (W p))))"

subsection \<open>Correctness\<close>

text \<open>The ranges cover the input wires and do not overlap; in \<open>ranges_ok\<close> party 1's comes first.\<close>

definition ranges_split :: "nat \<Rightarrow> nat \<Rightarrow> nat arr \<Rightarrow> nat arr \<Rightarrow> bool" where
  "ranges_split nP n s e \<longleftrightarrow>
     list_all (\<lambda>w. list_ex (\<lambda>p. s p \<le> w \<and> w < e p) (parties nP)) [0..<n]
     \<and> list_all (\<lambda>p. s p \<le> e p \<and> e p \<le> n
          \<and> list_all (\<lambda>q. e p \<le> s q \<or> e q \<le> s p) (others nP p)) (parties nP)"

definition ranges_ok :: "nat \<Rightarrow> nat \<Rightarrow> nat arr \<Rightarrow> nat arr \<Rightarrow> bool" where
  "ranges_ok nP n s e \<longleftrightarrow> s 1 = 0 \<and> ranges_split nP n s e"

definition owner :: "nat \<Rightarrow> nat arr \<Rightarrow> nat arr \<Rightarrow> nat \<Rightarrow> nat" where
  "owner nP s e w = hd (filter (\<lambda>p. s p \<le> w \<and> w < e p) (parties nP))"

lemma owner_range:
  assumes "ranges_split nP n s e" and "w < n"
  shows "1 \<le> owner nP s e w" "owner nP s e w \<le> nP" "s (owner nP s e w) \<le> w" "w < e (owner nP s e w)"
proof -
  have "filter (\<lambda>p. s p \<le> w \<and> w < e p) (parties nP) \<noteq> []"
    using assms unfolding ranges_split_def list_all_iff list_ex_iff filter_empty_conv
    by (metis atLeast0LessThan atLeast_upt lessThan_iff)
  from hd_in_set [OF this]
  show "1 \<le> owner nP s e w" "owner nP s e w \<le> nP" "s (owner nP s e w) \<le> w" "w < e (owner nP s e w)"
    by (auto simp: owner_def simp del: upt_Suc)
qed

lemma owner_unique:
  assumes ok: "ranges_split nP n s e" and p: "1 \<le> p" "p \<le> nP" "s p \<le> w" "w < e p"
  shows "p = owner nP s e w"
proof (rule ccontr)
  have "e p \<le> n" using ok p by (auto simp: ranges_split_def list_all_iff)
  then have w: "w < n" using p by simp
  assume "p \<noteq> owner nP s e w"
  then have "e p \<le> s (owner nP s e w) \<or> e (owner nP s e w) \<le> s p"
  proof -
    have "p \<in> set (parties nP)" using p by (simp del: upt_Suc)
    then have "list_all (\<lambda>q. e p \<le> s q \<or> e q \<le> s p) (others nP p)"
      using ok unfolding ranges_split_def list_all_iff [of _ "parties nP"] by blast
    moreover have "owner nP s e w \<in> set (others nP p)"
      using owner_range [OF ok w] \<open>p \<noteq> owner nP s e w\<close> by auto
    ultimately show ?thesis unfolding list_all_iff by blast
  qed
  then show False using p owner_range [OF ok w] by simp
qed

lemma fold_write_at:
  assumes "\<And>i. i \<in> set is \<Longrightarrow> s i \<le> w \<and> w < s i + length (xs i) \<Longrightarrow> i = k"
  shows "fold (\<lambda>i A. write_at (s i) (xs i) A) is A w
       = (if k \<in> set is \<and> s k \<le> w \<and> w < s k + length (xs k) then xs k ! (w - s k) else A w)"
  using assms
proof (induction "is" arbitrary: A)
  case (Cons i "is")
  then show ?case by (auto simp: write_at_def)
qed simp

text \<open>
  The inputs on which the circuit is evaluated, wire by wire.  Party 1's vector lies at the beginning of \<^verbatim>\<open>mask_input\<close>; the other
  vectors lie in their ranges, except where party 1's covers them; the rest of party 1's range is uninitialised.
\<close>

definition range_input :: "nat \<Rightarrow> nat arr \<Rightarrow> nat arr \<Rightarrow> bool arr \<Rightarrow> bool arr \<Rightarrow> (nat \<Rightarrow> bool arr) \<Rightarrow> bool arr" where
  "range_input nP s e masks garbage inputs w =
     (if w < e 1 - s 1 then bxor (inputs 1 (s 1 + w)) (bxor (masks (s 1 + w)) (masks w))
      else if owner nP s e w = 1 then bxor (garbage w) (masks w) else inputs (owner nP s e w) w)"

lemma range_input_start_0:
  assumes "ranges_ok nP n s e" and "w < n" and "1 \<le> nP"
  shows "range_input nP s e masks garbage inputs w = inputs (owner nP s e w) w"
proof -
  have s1: "s 1 = 0" and sp: "ranges_split nP n s e" using assms(1) by (simp_all add: ranges_ok_def)
  have "w < e 1 \<Longrightarrow> owner nP s e w = 1" using owner_unique [OF sp, of 1 w] s1 assms(3) by simp
  then show ?thesis using owner_range(4) [OF sp assms(2)] s1 by (auto simp: range_input_def)
qed

lemma range_collect_eq:
  assumes ok: "ranges_split nP n s e" and len: "\<And>p. 1 \<le> p \<Longrightarrow> p \<le> nP \<Longrightarrow> length (xs p) = e p - s p"
    and w: "w < n" and nP: "1 \<le> nP"
  shows "range_collect nP s xs garbage w =
    (if w < e 1 - s 1 then xs 1 ! w
     else if owner nP s e w = 1 then garbage w else xs (owner nP s e w) ! (w - s (owner nP s e w)))"
proof -
  note o = owner_range [OF ok w]
  have uniq: "i = owner nP s e w" if "1 \<le> i" "i \<le> nP" "s i \<le> w" "w < s i + length (xs i)" for i
    using owner_unique [OF ok that(1,2,3)] that len by simp
  have rest: "fold (\<lambda>i A. write_at (s i) (xs i) A) [2..<Suc nP] garbage w
      = (if owner nP s e w \<in> set [2..<Suc nP] \<and> s (owner nP s e w) \<le> w
            \<and> w < s (owner nP s e w) + length (xs (owner nP s e w))
         then xs (owner nP s e w) ! (w - s (owner nP s e w)) else garbage w)"
    by (rule fold_write_at) (use uniq in auto)
  then show ?thesis
    using o len [OF o(1,2)] len [of 1] nP by (auto simp: range_collect_def write_at_def simp del: upt_Suc)
qed

lemma range_honest:
  assumes wf: "wf_circuit cf" and pre: "preprocessed nP cf W" and ok: "ranges_split nP (n1 cf + n2 cf) s e"
    and p: "1 \<le> p" "p \<le> nP"
  defines "R \<equiv> run_function_dependent nP cf W"
  shows "\<not> range_cheat sha nP (R p) s e (\<lambda>j. range_bits (R j) s e p) (\<lambda>j. range_digest sha (R j) s e p)"
proof -
  have party: "cm_party (R p) = p" using pre p by (auto simp: preprocessed_def R_def)
  have "p \<in> set (parties nP)" using p by (simp del: upt_Suc)
  then have e: "e p \<le> n1 cf + n2 cf" using ok unfolding ranges_split_def list_all_iff by blast
  have "range_digest sha (R j) s e p = range_expected sha (R p) s e j (range_bits (R j) s e p)"
    if j: "j \<in> set (others nP p)" for j
  proof -
    have "cm_mac (R j) p (s p + i)
        = (if cm_value (R j) (s p + i) then cm_key (R p) j (i + s p) XOR cm_Delta (R p) else cm_key (R p) j (i + s p))"
      if "i < e p - s p" for i
    proof -
      have "s p + i < n1 cf + n2 cf" using e that by linarith
      then have "defined_by cf (num_gate cf) (s p + i)" by (simp add: defined_by_def)
      from sigma_run_auth_wire [OF wf pre order_refl this] show ?thesis
        using p j auth_bitD [of nP _ _ _ _ j p]
        unfolding auth_wire_def R_def by (fastforce simp: gate_blk_def add.commute)
    qed
    then show ?thesis
      unfolding range_digest_def range_expected_def Let_def party range_bits_def
      by (auto intro!: arg_cong [where f = sha] arg_cong [where f = concat])
  qed
  then show ?thesis
    unfolding range_cheat_def party list_ex_iff by (auto simp del: set_others)
qed

lemma run_online_range_eq:
  assumes wf: "wf_circuit cf" and pre: "preprocessed nP cf W" and D: "cm_Delta (W 1) \<noteq> 0"
    and ok: "ranges_split nP (n1 cf + n2 cf) s e" and nP: "1 \<le> nP"
    and v: "\<And>w. w < n1 cf + n2 cf \<Longrightarrow> v w = range_input nP s e (wire_mask nP (sigma_run nP cf W)) garbage inputs w"
  shows "run_online_range sha nP cf (run_function_dependent nP cf W) garbage inputs s e
     = Some (output_wires cf (eval_circuit cf v), [])"
proof -
  let ?S = "sigma_run nP cf W" and ?R = "run_function_dependent nP cf W"
  define masked where "masked = (\<lambda>p. range_masked nP (?R p) (inputs p) s e (\<lambda>j. range_bits (?R j) s e p))"
  define msk where "msk = range_collect nP s masked garbage"
  have party: "cm_party (?R p) = p" if "1 \<le> p" "p \<le> nP" for p
    using pre that by (auto simp: preprocessed_def)
  have len: "length (masked p) = e p - s p" if "1 \<le> p" "p \<le> nP" for p
    using party [OF that] by (simp add: masked_def range_masked_def Let_def)
  have bits: "masked p ! i = bxor (inputs p (s p + i)) (wire_mask nP ?S (s p + i))"
    if p: "1 \<le> p" "p \<le> nP" and i: "i < e p - s p" for p i
  proof -
    have upd: "(\<lambda>j. range_bits (?R j) s e p)(p := range_bits (?R p) s e p) = (\<lambda>j. range_bits (?R j) s e p)"
      by auto
    have "masked p ! i = bxor (inputs p (s p + i)) (parity (\<lambda>j. range_bits (?R j) s e p ! i) (parties nP))"
      using i unfolding masked_def range_masked_def Let_def party [OF p] upd fold_bxor_parity by simp
    also have "(\<lambda>j. range_bits (?R j) s e p ! i) = (\<lambda>j. cm_value (?S j) (s p + i))"
      using i by (simp add: range_bits_def)
    finally show ?thesis unfolding wire_mask_def .
  qed
  have msk: "msk w = bxor (v w) (wire_mask nP ?S w)" if "w < n1 cf + n2 cf" for w
    using range_collect_eq [where xs = masked, OF ok len that nP] owner_range [OF ok that] nP
      bits [of "owner nP s e w" "w - s (owner nP s e w)"] bits [of 1 w] v [OF that]
    by (auto simp: msk_def range_input_def bxor_def)
  have "\<not> list_ex (\<lambda>p. range_cheat sha nP (?R p) s e (\<lambda>j. range_bits (?R j) s e p)
      (\<lambda>j. range_digest sha (?R j) s e p)) (parties nP)"
    using range_honest [OF wf pre ok] unfolding list_ex_iff by (auto simp del: upt_Suc)
  then have "run_online_range sha nP cf ?R garbage inputs s e
      = Some (online_range_alice nP cf (?R 1) msk (\<lambda>p. input_labels (?R p) msk) (\<lambda>p. cm_value (?R p)))"
    unfolding run_online_range_def Let_def masked_def msk_def by (simp only: if_False)
  also have "online_range_alice nP cf (?R 1) msk (\<lambda>p. input_labels (?R p) msk) (\<lambda>p. cm_value (?R p))
      = (output_wires cf (eval_circuit cf v), [])"
    unfolding online_range_alice_def Let_def
    using online_finish [OF wf pre D, where msk = msk and v = v] msk by blast
  finally show ?thesis .
qed

theorem run_online_range_ok:
  assumes "wf_circuit cf" and "preprocessed nP cf W" and "cm_Delta (W 1) \<noteq> 0"
    and "ranges_ok nP (n1 cf + n2 cf) s e" and "1 \<le> nP"
  shows "run_online_range sha nP cf (run_function_dependent nP cf W) garbage inputs s e
     = Some (output_wires cf (eval_circuit cf (\<lambda>w. inputs (owner nP s e w) w)), [])"
  using assms by (intro run_online_range_eq) (auto simp: range_input_start_0 ranges_ok_def)

end
