(* ===== verification/Bits.thy ===== *)
theory Bits
  imports Circuit
begin

text \<open>
  The class \<^verbatim>\<open>Bit\<close> (\<^verbatim>\<open>emp-tool/circuits/bit.hpp\<close>) over an arbitrary backend, and the contract
  \<open>circuit_backend\<close> between a backend and the circuits: wires represent bits, every gate
  computes on the represented bits and keeps the backend's invariant.  Circuits are verified
  once inside the locale, for every backend that interprets it.  A default-constructed \<^verbatim>\<open>Bit\<close>
  asks for the label of the public zero; where the code overwrites it unread, the request is
  not modelled.
\<close>

subsection \<open>Bit operations\<close>

definition bit_const :: "('s, 'w) circuit_execution \<Rightarrow> bool \<Rightarrow> ('s, 'w) state" where
  "bit_const E b = public_label E b"

definition bit_and :: "('s, 'w) circuit_execution \<Rightarrow> 'w \<Rightarrow> 'w \<Rightarrow> ('s, 'w) state" where
  "bit_and E a b = and_gate E a b"

definition bit_xor :: "('s, 'w) circuit_execution \<Rightarrow> 'w \<Rightarrow> 'w \<Rightarrow> ('s, 'w) state" where
  "bit_xor E a b = xor_gate E a b"

definition bit_not :: "('s, 'w) circuit_execution \<Rightarrow> 'w \<Rightarrow> ('s, 'w) state" where
  "bit_not E a = not_gate E a"

definition bit_or :: "('s, 'w) circuit_execution \<Rightarrow> 'w \<Rightarrow> 'w \<Rightarrow> ('s, 'w) state" where
  "bit_or E a b = do { x \<leftarrow> bit_xor E a b; y \<leftarrow> bit_and E a b; bit_xor E x y }"

definition bit_equals :: "('s, 'w) circuit_execution \<Rightarrow> 'w \<Rightarrow> 'w \<Rightarrow> ('s, 'w) state" where
  "bit_equals E a b = do { x \<leftarrow> bit_xor E a b; bit_not E x }"

definition bit_differs :: "('s, 'w) circuit_execution \<Rightarrow> 'w \<Rightarrow> 'w \<Rightarrow> ('s, 'w) state" where
  "bit_differs E a b = bit_xor E a b"

definition bit_select :: "('s, 'w) circuit_execution \<Rightarrow> 'w \<Rightarrow> 'w \<Rightarrow> 'w \<Rightarrow> ('s, 'w) state" where
  "bit_select E this sel new_v = do { t \<leftarrow> bit_xor E this new_v; t \<leftarrow> bit_and E t sel; bit_xor E this t }"

text \<open>\<open>If(select, o1, o2)\<close> of \<^verbatim>\<open>swappable.h\<close> at type \<open>Bit\<close>.\<close>

definition bit_If :: "('s, 'w) circuit_execution \<Rightarrow> 'w \<Rightarrow> 'w \<Rightarrow> 'w \<Rightarrow> ('s, 'w) state" where
  "bit_If E sel o1 o2 = bit_select E o2 sel o1"

definition bit_swap :: "('s, 'w) circuit_execution \<Rightarrow> 'w \<Rightarrow> 'w \<Rightarrow> 'w \<Rightarrow> ('s, 'w \<times> 'w) state" where
  "bit_swap E sw o1 o2 =
     do { t \<leftarrow> bit_If E sw o1 o2; t \<leftarrow> bit_xor E t o2; a \<leftarrow> bit_xor E o1 t; b \<leftarrow> bit_xor E o2 t;
          State_Monad.return (a, b) }"

subsection \<open>Running a circuit from every state of the backend\<close>

definition computes :: "('s \<Rightarrow> bool) \<Rightarrow> ('s, 'a) state \<Rightarrow> ('a \<Rightarrow> bool) \<Rightarrow> bool" where
  "computes ok m P \<longleftrightarrow> (\<forall>s. ok s \<longrightarrow> P (fst (run_state m s)) \<and> ok (snd (run_state m s)))"

lemma computesD:
  "computes ok m P \<Longrightarrow> ok s \<Longrightarrow> run_state m s = (x, s') \<Longrightarrow> P x \<and> ok s'"
  by (auto simp: computes_def)

lemma computes_fst: "computes ok m P \<Longrightarrow> ok s \<Longrightarrow> P (fst (run_state m s))"
  using computesD [of ok m P s] by (metis prod.collapse)

lemma computesI:
  "(\<And>s x s'. ok s \<Longrightarrow> run_state m s = (x, s') \<Longrightarrow> P x \<and> ok s') \<Longrightarrow> computes ok m P"
  unfolding computes_def by (metis prod.collapse)

lemma computes_return [circuit]: "P x \<Longrightarrow> computes ok (State_Monad.return x) P"
  by (simp add: computes_def State_Monad.return_def)

lemma computes_bind:
  assumes "computes ok m P" and "\<And>x. P x \<Longrightarrow> computes ok (f x) Q"
  shows "computes ok (m \<bind> f) Q"
proof (rule computesI)
  fix s x s'
  assume s: "ok s" and run: "run_state (m \<bind> f) s = (x, s')"
  obtain y t where y: "run_state m s = (y, t)" by fastforce
  with assms(1) s have "P y" and t: "ok t" by (auto dest: computesD)
  with assms(2) have "computes ok (f y) Q" by simp
  with t run y show "Q x \<and> ok s'"
    by (auto simp: State_Monad.bind_def dest: computesD)
qed

lemma computes_weaken:
  "computes ok m P \<Longrightarrow> (\<And>x. P x \<Longrightarrow> Q x) \<Longrightarrow> computes ok m Q"
  by (auto simp: computes_def)

lemma computes_for_gates:
  assumes "I 0 x" and "\<And>k y. k < length js \<Longrightarrow> I k y \<Longrightarrow> computes ok (body (js ! k) y) (I (Suc k))"
  shows "computes ok (for_gates js body x) (I (length js))"
  using assms
proof (induction js arbitrary: x I)
  case Nil then show ?case by (simp add: computes_return)
next
  case (Cons i js)
  have "computes ok (for_gates js body y) (\<lambda>z. I (Suc (length js)) z)" if "I 1 y" for y
    by (rule Cons.IH [of "\<lambda>k. I (Suc k)"]) (use that Cons.prems(2) [of "Suc _"] in auto)
  then show ?case
    using Cons.prems(1) Cons.prems(2) [of 0] by (auto intro: computes_bind)
qed

lemma computes_for_upt:
  assumes "I 0 x" and "\<And>k y. k < n \<Longrightarrow> I k y \<Longrightarrow> computes ok (body k y) (I (Suc k))"
  shows "computes ok (for_gates [0..<n] body x) (I n)"
  using computes_for_gates [of I x "[0..<n]" ok body] assms by simp

text \<open>A loop that follows a fold over plain values.\<close>

lemma computes_for_fold:
  assumes "R st X" and "\<And>i st X. i \<in> set js \<Longrightarrow> R st X \<Longrightarrow> computes ok (body i st) (\<lambda>st. R st (f i X))"
  shows "computes ok (for_gates js body st) (\<lambda>st. R st (fold f js X))"
  using assms
proof (induction js arbitrary: st X)
  case (Cons i js)
  have "computes ok (body i st) (\<lambda>st. R st (f i X))" using Cons.prems by simp
  then show ?case
    unfolding for_gates.simps fold_simps by (rule computes_bind) (rule Cons.IH, use Cons.prems in auto)
qed (simp add: computes_return)

text \<open>The elements of a list, one after the other.\<close>

primrec map_gates :: "('a \<Rightarrow> ('s, 'b) state) \<Rightarrow> 'a list \<Rightarrow> ('s, 'b list) state" where
  "map_gates f [] = State_Monad.return []"
| "map_gates f (x # xs) = do { y \<leftarrow> f x; ys \<leftarrow> map_gates f xs; State_Monad.return (y # ys) }"

lemma computes_map_gates:
  assumes "\<And>x. x \<in> set xs \<Longrightarrow> computes ok (f x) (P x)"
  shows "computes ok (map_gates f xs) (list_all2 P xs)"
  using assms
proof (induction xs)
  case (Cons x xs)
  have "computes ok (map_gates f xs) (list_all2 P xs)" using Cons by simp
  with Cons.prems [of x] show ?case
    by (auto intro!: computes_bind [of ok "f x" "P x"] computes_bind [of ok "map_gates f xs"] computes_return)
qed (simp add: computes_return)

subsection \<open>The contract of a backend\<close>

locale circuit_backend =
  fixes E :: "('s, 'w) circuit_execution"
    and ok :: "'s \<Rightarrow> bool"
    and rep :: "'w \<Rightarrow> bool \<Rightarrow> bool"
  assumes and_gate: "rep a x \<Longrightarrow> rep b y \<Longrightarrow> computes ok (and_gate E a b) (\<lambda>c. rep c (x \<and> y))"
    and xor_gate: "rep a x \<Longrightarrow> rep b y \<Longrightarrow> computes ok (xor_gate E a b) (\<lambda>c. rep c (x \<noteq> y))"
    and not_gate: "rep a x \<Longrightarrow> computes ok (not_gate E a) (\<lambda>c. rep c (\<not> x))"
    and public_label: "computes ok (public_label E v) (\<lambda>c. rep c v)"
begin

lemma bit_const [circuit]: "computes ok (bit_const E b) (\<lambda>c. rep c b)"
  unfolding bit_const_def by (rule public_label)

lemma bit_and [circuit]: "rep a x \<Longrightarrow> rep b y \<Longrightarrow> computes ok (bit_and E a b) (\<lambda>c. rep c (x \<and> y))"
  unfolding bit_and_def by (rule and_gate)

lemma bit_xor [circuit]: "rep a x \<Longrightarrow> rep b y \<Longrightarrow> computes ok (bit_xor E a b) (\<lambda>c. rep c (x \<noteq> y))"
  unfolding bit_xor_def by (rule xor_gate)

lemma bit_not [circuit]: "rep a x \<Longrightarrow> computes ok (bit_not E a) (\<lambda>c. rep c (\<not> x))"
  unfolding bit_not_def by (rule not_gate)

lemmas bit_bind [circuit] =
  computes_bind [OF bit_const] computes_bind [OF bit_and] computes_bind [OF bit_xor] computes_bind [OF bit_not]

lemma bit_or [circuit]: "rep a x \<Longrightarrow> rep b y \<Longrightarrow> computes ok (bit_or E a b) (\<lambda>c. rep c (x \<or> y))"
proof -
  assume "rep a x" "rep b y"
  then have "computes ok (bit_or E a b) (\<lambda>c. rep c ((x \<noteq> y) \<noteq> (x \<and> y)))"
    unfolding bit_or_def by - (rule bit_bind bit_xor | assumption)+
  moreover have "((x \<noteq> y) \<noteq> (x \<and> y)) = (x \<or> y)" by blast
  ultimately show ?thesis by simp
qed

lemma bit_equals [circuit]: "rep a x \<Longrightarrow> rep b y \<Longrightarrow> computes ok (bit_equals E a b) (\<lambda>c. rep c (x \<longleftrightarrow> y))"
  unfolding bit_equals_def using bit_not [of _ "x \<noteq> y"] by (auto intro: bit_bind)

lemma bit_differs [circuit]: "rep a x \<Longrightarrow> rep b y \<Longrightarrow> computes ok (bit_differs E a b) (\<lambda>c. rep c (x \<noteq> y))"
  unfolding bit_differs_def by (rule bit_xor)

lemma bit_select [circuit]:
  assumes "rep a x" and "rep sel b" and "rep c y"
  shows "computes ok (bit_select E a sel c) (\<lambda>d. rep d (if b then y else x))"
proof -
  have "computes ok (bit_select E a sel c) (\<lambda>d. rep d (x \<noteq> ((x \<noteq> y) \<and> b)))"
    unfolding bit_select_def using assms by - (rule bit_bind bit_xor | assumption)+
  moreover have "(x \<noteq> ((x \<noteq> y) \<and> b)) = (if b then y else x)" by auto
  ultimately show ?thesis by simp
qed

lemma bit_If [circuit]:
  assumes "rep sel b" and "rep o1 x" and "rep o2 y"
  shows "computes ok (bit_If E sel o1 o2) (\<lambda>d. rep d (if b then x else y))"
  unfolding bit_If_def by (rule bit_select [OF assms(3,1,2)])

lemma bit_swap [circuit]:
  assumes "rep sw b" and "rep o1 x" and "rep o2 y"
  shows "computes ok (bit_swap E sw o1 o2) (\<lambda>(p, q). rep p (if b then y else x) \<and> rep q (if b then x else y))"
proof -
  have "computes ok (bit_swap E sw o1 o2)
          (\<lambda>(p, q). rep p (x \<noteq> ((if b then x else y) \<noteq> y)) \<and> rep q (y \<noteq> ((if b then x else y) \<noteq> y)))"
    unfolding bit_swap_def using assms
    by - (rule bit_bind computes_bind [OF bit_If] computes_return | assumption | simp)+
  moreover have "(x \<noteq> ((if b then x else y) \<noteq> y)) = (if b then y else x)"
    and "(y \<noteq> ((if b then x else y) \<noteq> y)) = (if b then x else y)" by auto
  ultimately show ?thesis by simp
qed

subsection \<open>Bristol circuits on any backend\<close>

text \<open>After \<open>k\<close> gates every wire defined so far represents the bit of the plain evaluation.\<close>

definition wires_ok :: "BristolFormat \<Rightarrow> bool arr \<Rightarrow> nat \<Rightarrow> 'w arr \<Rightarrow> bool" where
  "wires_ok cf w k wires \<longleftrightarrow>
     (\<forall>v. defined_by cf k v \<longrightarrow> rep (wires v) (fold (eval_gate cf) [0..<k] w v))"

lemma wires_ok_step:
  assumes "wf_gate cf k" and "wires_ok cf w k wires"
    and "rep c (eval_gate cf k (fold (eval_gate cf) [0..<k] w) (gate_out cf k))"
  shows "wires_ok cf w (Suc k) (wires(gate_out cf k := c))"
  using assms by (auto simp: wires_ok_def defined_by_Suc eval_gate_def)

lemma gate_inputs_ok:
  assumes "wf_gate cf k" and "wires_ok cf w k wires"
  shows "rep (wires (gate_in1 cf k)) (fold (eval_gate cf) [0..<k] w (gate_in1 cf k))"
    and "gate_type cf k \<noteq> NOT_GATE \<Longrightarrow>
           rep (wires (gate_in2 cf k)) (fold (eval_gate cf) [0..<k] w (gate_in2 cf k))"
  using assms by (simp_all add: wires_ok_def wf_gate_def)

lemma compute_gate_ok:
  assumes "wf_gate cf k" and "wires_ok cf w k wires"
  shows "computes ok (compute_gate E cf k wires) (wires_ok cf w (Suc k))"
proof -
  note inp = gate_inputs_ok [OF assms]
  consider "gate_type cf k = AND_GATE" | "gate_type cf k = XOR_GATE" | "gate_type cf k = NOT_GATE"
    using assms(1) by (auto simp: wf_gate_def)
  then show ?thesis
  proof cases
    case 1 with inp show ?thesis
      by (auto simp: compute_gate_def gate_types eval_gate_def
          intro!: computes_bind [OF and_gate] computes_return wires_ok_step [OF assms])
  next
    case 2 with inp show ?thesis
      by (auto simp: compute_gate_def gate_types gate_types [symmetric] eval_gate_def bxor_def
          intro!: computes_bind [OF xor_gate] computes_return wires_ok_step [OF assms])
  next
    case 3 with inp show ?thesis
      by (auto simp: compute_gate_def gate_types [symmetric] eval_gate_def
          intro!: computes_bind [OF not_gate] computes_return wires_ok_step [OF assms])
  qed
qed

lemma execute_gate_compute_gate:
  assumes "wf_gate cf k"
  shows "execute_gate E cf k wires = compute_gate E cf k wires"
  using assms by (auto simp: execute_gate_def compute_gate_def wf_gate_def)

lemma gates_ok:
  assumes "wf_circuit cf" and "\<And>v. v < n1 cf + n2 cf \<Longrightarrow> rep (wires v) (w v)"
  shows "computes ok (for_gates [0..<num_gate cf] (compute_gate E cf) wires) (wires_ok cf w (num_gate cf))"
    and "computes ok (execute_circuit E cf wires) (wires_ok cf w (num_gate cf))"
proof -
  have 0: "wires_ok cf w 0 wires" using assms(2) by (simp add: wires_ok_def defined_by_def)
  show c: "computes ok (for_gates [0..<num_gate cf] (compute_gate E cf) wires) (wires_ok cf w (num_gate cf))"
    by (rule computes_for_upt [where I = "wires_ok cf w"]) (fact 0 compute_gate_ok [OF wf_gateD [OF assms(1)]])+
  have "for_gates is (execute_gate E cf) ws = for_gates is (compute_gate E cf) ws"
    if "set is \<subseteq> {..<num_gate cf}" for "is" ws
    using that by (induction "is" arbitrary: ws)
      (auto simp: execute_gate_compute_gate [OF wf_gateD [OF assms(1)]])
  with c show "computes ok (execute_circuit E cf wires) (wires_ok cf w (num_gate cf))"
    by (simp add: execute_circuit_def lessThan_atLeast0)
qed

lemma compute_ok:
  assumes "wf_circuit cf" and "\<And>v. v < n1 cf \<Longrightarrow> rep (in1 v) (x v)" and "\<And>v. v < n2 cf \<Longrightarrow> rep (in2 v) (y v)"
  shows "computes ok (compute E cf wires in1 in2)
           (\<lambda>out. list_all2 rep out (output_wires cf (eval_circuit cf (load_inputs cf w x y))))"
  unfolding compute_def
proof (rule computes_bind)
  show "computes ok (for_gates [0..<num_gate cf] (compute_gate E cf) (load_inputs cf wires in1 in2))
          (wires_ok cf (load_inputs cf w x y) (num_gate cf))"
    by (rule gates_ok(1) [OF assms(1)]) (use assms(2,3) in \<open>auto simp: load_inputs_def\<close>)
  show "computes ok (State_Monad.return (output_wires cf ws))
          (\<lambda>out. list_all2 rep out (output_wires cf (eval_circuit cf (load_inputs cf w x y))))"
    if "wires_ok cf (load_inputs cf w x y) (num_gate cf) ws" for ws
  proof (rule computes_return)
    have "defined_by cf (num_gate cf) v" if "num_wire cf - n3 cf \<le> v" "v < num_wire cf" for v
      using that assms(1) by (auto simp: wf_circuit_def list_all_iff)
    with that have "list_all2 (\<lambda>u v. rep (ws u) (eval_circuit cf (load_inputs cf w x y) v))
        [num_wire cf - n3 cf..<num_wire cf] [num_wire cf - n3 cf..<num_wire cf]"
      unfolding wires_ok_def eval_circuit_def by (intro list.rel_refl_strong) auto
    then show "list_all2 rep (output_wires cf ws) (output_wires cf (eval_circuit cf (load_inputs cf w x y)))"
      by (simp add: output_wires_def list.rel_map)
  qed
qed

end

subsection \<open>Inputs and outputs\<close>

definition PUBLIC :: int where "PUBLIC = 0"
definition ALICE :: int where "ALICE = 1"
definition BOB :: int where "BOB = 2"

record ('s, 'w) protocol_execution =
  feed :: "int \<Rightarrow> bool list \<Rightarrow> ('s, 'w list) state"
  reveal :: "int \<Rightarrow> 'w list \<Rightarrow> ('s, bool list) state"

definition Bit_new :: "('s, 'w) circuit_execution \<Rightarrow> ('s, 'w) protocol_execution \<Rightarrow> bool \<Rightarrow> int \<Rightarrow> ('s, 'w) state" where
  "Bit_new E P b party =
     (if party = PUBLIC then public_label E b
      else do { ws \<leftarrow> feed P party [b]; State_Monad.return (hd ws) })"

definition bit_reveal :: "('s, 'w) protocol_execution \<Rightarrow> 'w \<Rightarrow> int \<Rightarrow> ('s, bool) state" where
  "bit_reveal P w party = do { bs \<leftarrow> reveal P party [w]; State_Monad.return (hd bs) }"

definition bit_reveal_string :: "('s, 'w) protocol_execution \<Rightarrow> 'w \<Rightarrow> int \<Rightarrow> ('s, string) state" where
  "bit_reveal_string P w party =
     do { bs \<leftarrow> reveal P party [w]; State_Monad.return (if hd bs then ''true'' else ''false'') }"

locale protocol_backend = circuit_backend E ok rep
  for E :: "('s, 'w) circuit_execution" and ok :: "'s \<Rightarrow> bool" and rep :: "'w \<Rightarrow> bool \<Rightarrow> bool" +
  fixes P :: "('s, 'w) protocol_execution"
  assumes feed: "computes ok (feed P party bs) (\<lambda>ws. list_all2 rep ws bs)"
    and reveal: "list_all2 rep ws bs \<Longrightarrow> computes ok (reveal P party ws) (\<lambda>out. out = bs)"
begin

lemma Bit_new: "computes ok (Bit_new E P b party) (\<lambda>c. rep c b)"
  unfolding Bit_new_def
  by (auto simp: list_all2_Cons2 intro!: public_label computes_bind [OF feed] computes_return)

lemma bit_reveal: "rep w b \<Longrightarrow> computes ok (bit_reveal P w party) (\<lambda>r. r = b)"
  unfolding bit_reveal_def by (rule computes_bind [OF reveal [of "[w]" "[b]"]]) (auto intro: computes_return)

lemma bit_reveal_string:
  "rep w b \<Longrightarrow> computes ok (bit_reveal_string P w party) (\<lambda>r. r = (if b then ''true'' else ''false''))"
  unfolding bit_reveal_string_def
  by (rule computes_bind [OF reveal [of "[w]" "[b]"]]) (auto intro: computes_return)

end

end
