(* ===== verification/Integers.thy ===== *)
theory Integers
  imports Bits Blocks "HOL-Library.Signed_Division"
begin

text \<open>
  The class \<^verbatim>\<open>Integer\<close> of \<^verbatim>\<open>emp-tool/circuits/integer.h\<close> and \<^verbatim>\<open>integer.hpp\<close>: arithmetic circuits
  over a backend.  An \<^verbatim>\<open>Integer\<close> is the list of its bits, least significant first.
  \<open>int_wires rep ws v\<close> says that the wires \<open>ws\<close> hold the bits of the integer \<open>v\<close>, which two's
  complement determines modulo \<open>2 ^ length ws\<close>; the lemmas of the locale state each circuit as an
  operation on integers.  The assertion \<^verbatim>\<open>size() == rhs.size()\<close> of the operators is the hypothesis of
  equal lengths.  Loops write their destination at position \<open>i\<close> after the last read of position
  \<open>i\<close>, so calls whose destination is an operand are calls of the same function.
\<close>

subsection \<open>Bits of integers\<close>

fun int_wires :: "('w \<Rightarrow> bool \<Rightarrow> bool) \<Rightarrow> 'w list \<Rightarrow> int \<Rightarrow> bool" where
  "int_wires rep [] v = True"
| "int_wires rep (w # ws) v = (rep w (odd v) \<and> int_wires rep ws (v div 2))"

lemma int_wires_nth: "int_wires rep ws v \<longleftrightarrow> (\<forall>i<length ws. rep (ws ! i) (bit v i))"
proof (induction ws arbitrary: v)
  case (Cons w ws)
  then show ?case
    by (auto simp: bit_Suc bit_0 All_less_Suc2)
qed simp

lemma int_wires_cong:
  "(\<And>i. i < length ws \<Longrightarrow> bit v i = bit u i) \<Longrightarrow> int_wires rep ws v \<Longrightarrow> int_wires rep ws u"
  by (simp add: int_wires_nth)

lemma int_wires_mod:
  "take_bit (length ws) v = take_bit (length ws) u \<Longrightarrow> int_wires rep ws v \<Longrightarrow> int_wires rep ws u"
  by (erule int_wires_cong [rotated]) (metis bit_take_bit_iff)

lemma int_wires_append:
  "int_wires rep (us @ ws) v \<longleftrightarrow> int_wires rep us v \<and> int_wires rep ws (drop_bit (length us) v)"
  by (induction us arbitrary: v) (simp_all add: drop_bit_Suc)

lemma int_wires_snoc:
  "int_wires rep (us @ [w]) v \<longleftrightarrow> int_wires rep us v \<and> rep w (bit v (length us))"
  by (simp add: int_wires_append bit_iff_odd_drop_bit)

subsection \<open>add_full, sub_full, mul_full\<close>

fun add_loop :: "('s, 'w) circuit_execution \<Rightarrow> 'w list \<Rightarrow> 'w list \<Rightarrow> 'w \<Rightarrow> ('s, 'w list \<times> 'w) state" where
  "add_loop E (a # as) (b # bs) carry =
     do { axc \<leftarrow> bit_xor E a carry;
          bxc \<leftarrow> bit_xor E b carry;
          dest \<leftarrow> bit_xor E a bxc;
          t \<leftarrow> bit_and E axc bxc;
          carry \<leftarrow> bit_xor E carry t;
          (ds, c) \<leftarrow> add_loop E as bs carry;
          State_Monad.return (dest # ds, c) }"
| "add_loop E _ _ carry = State_Monad.return ([], carry)"

text \<open>\<open>carryOut\<close> tells whether the pointer is non-null; the second result is what is stored there.\<close>

definition add_full ::
  "('s, 'w) circuit_execution \<Rightarrow> bool \<Rightarrow> 'w list \<Rightarrow> 'w list \<Rightarrow> 'w option \<Rightarrow> ('s, 'w list \<times> 'w option) state" where
  "add_full E carryOut op1 op2 carryIn =
     (if op1 = [] then State_Monad.return ([], if carryOut then carryIn else None)
      else do {
        carry \<leftarrow> (case carryIn of Some c \<Rightarrow> State_Monad.return c | None \<Rightarrow> bit_const E False);
        if carryOut then do { (ds, c) \<leftarrow> add_loop E op1 op2 carry; State_Monad.return (ds, Some c) }
        else do {
          (ds, c) \<leftarrow> add_loop E (butlast op1) (butlast op2) carry;
          x \<leftarrow> bit_xor E c (last op2);
          d \<leftarrow> bit_xor E x (last op1);
          State_Monad.return (ds @ [d], None) } })"

fun sub_loop :: "('s, 'w) circuit_execution \<Rightarrow> 'w list \<Rightarrow> 'w list \<Rightarrow> 'w \<Rightarrow> ('s, 'w list \<times> 'w) state" where
  "sub_loop E (a # as) (b # bs) borrow =
     do { bxa \<leftarrow> bit_xor E a b;
          bxc \<leftarrow> bit_xor E borrow b;
          dest \<leftarrow> bit_xor E bxa borrow;
          t \<leftarrow> bit_and E bxa bxc;
          borrow \<leftarrow> bit_xor E borrow t;
          (ds, c) \<leftarrow> sub_loop E as bs borrow;
          State_Monad.return (dest # ds, c) }"
| "sub_loop E _ _ borrow = State_Monad.return ([], borrow)"

definition sub_full ::
  "('s, 'w) circuit_execution \<Rightarrow> bool \<Rightarrow> 'w list \<Rightarrow> 'w list \<Rightarrow> 'w option \<Rightarrow> ('s, 'w list \<times> 'w option) state" where
  "sub_full E borrowOut op1 op2 borrowIn =
     (if op1 = [] then State_Monad.return ([], if borrowOut then borrowIn else None)
      else do {
        borrow \<leftarrow> (case borrowIn of Some c \<Rightarrow> State_Monad.return c | None \<Rightarrow> bit_const E False);
        if borrowOut then do { (ds, c) \<leftarrow> sub_loop E op1 op2 borrow; State_Monad.return (ds, Some c) }
        else do {
          (ds, c) \<leftarrow> sub_loop E (butlast op1) (butlast op2) borrow;
          x \<leftarrow> bit_xor E (last op1) (last op2);
          d \<leftarrow> bit_xor E x c;
          State_Monad.return (ds @ [d], None) } })"

definition mul_full :: "('s, 'w) circuit_execution \<Rightarrow> 'w list \<Rightarrow> 'w list \<Rightarrow> ('s, 'w list) state" where
  "mul_full E op1 op2 =
     (let size = length op1 in do {
        sum \<leftarrow> map_gates (\<lambda>_. bit_const E False) [0..<size];
        for_gates [0..<size] (\<lambda>i sum. do {
          temp \<leftarrow> map_gates (\<lambda>k. bit_and E (op1 ! k) (op2 ! i)) [0..<size - i];
          (ds, _) \<leftarrow> add_full E False (drop i sum) temp None;
          State_Monad.return (take i sum @ ds) }) sum })"

subsection \<open>ifThenElse, condNeg, div_full\<close>

fun ifThenElse :: "('s, 'w) circuit_execution \<Rightarrow> 'w list \<Rightarrow> 'w list \<Rightarrow> 'w \<Rightarrow> ('s, 'w list) state" where
  "ifThenElse E (t # ts) (f # fs) cond =
     do { x \<leftarrow> bit_xor E t f; a \<leftarrow> bit_and E cond x; d \<leftarrow> bit_xor E a f;
          ds \<leftarrow> ifThenElse E ts fs cond; State_Monad.return (d # ds) }"
| "ifThenElse E _ _ cond = State_Monad.return []"

primrec condNeg_loop :: "('s, 'w) circuit_execution \<Rightarrow> 'w \<Rightarrow> 'w list \<Rightarrow> 'w \<Rightarrow> ('s, 'w list \<times> 'w) state" where
  "condNeg_loop E cond [] c = State_Monad.return ([], c)"
| "condNeg_loop E cond (s # ss) c =
     do { d \<leftarrow> bit_xor E s cond; t \<leftarrow> bit_xor E d c; c \<leftarrow> bit_and E c d;
          (ds, c) \<leftarrow> condNeg_loop E cond ss c; State_Monad.return (t # ds, c) }"

definition condNeg :: "('s, 'w) circuit_execution \<Rightarrow> 'w \<Rightarrow> 'w list \<Rightarrow> ('s, 'w list) state" where
  "condNeg E cond src =
     do { (ds, c) \<leftarrow> condNeg_loop E cond (butlast src) cond;
          x \<leftarrow> bit_xor E cond c; d \<leftarrow> bit_xor E x (last src);
          State_Monad.return (ds @ [d]) }"

definition div_overflow :: "('s, 'w) circuit_execution \<Rightarrow> 'w list \<Rightarrow> ('s, 'w list) state" where
  "div_overflow E op2 =
     do { z \<leftarrow> bit_const E False;
          for_gates [1..<length op2] (\<lambda>i ov. do {
            b \<leftarrow> bit_or E (ov ! (i - 1)) (op2 ! (length op2 - i)); State_Monad.return (ov @ [b]) }) [z] }"

definition div_step ::
  "('s, 'w) circuit_execution \<Rightarrow> 'w list \<Rightarrow> 'w list \<Rightarrow> nat \<Rightarrow> 'w list \<times> 'w list \<Rightarrow> ('s, 'w list \<times> 'w list) state" where
  "div_step E op2 overflow i = (\<lambda>(quot, rem). do {
     (temp, borrow) \<leftarrow> sub_full E True (drop i rem) (take (length op2 - i) op2) None;
     b \<leftarrow> bit_or E (the borrow) (overflow ! i);
     r \<leftarrow> ifThenElse E (drop i rem) temp b;
     q \<leftarrow> bit_not E b;
     State_Monad.return (q # quot, take i rem @ r) })"

text \<open>\<open>quot[i]\<close> is written from the top downwards, so the list is built at its front.\<close>

definition div_full :: "('s, 'w) circuit_execution \<Rightarrow> 'w list \<Rightarrow> 'w list \<Rightarrow> ('s, 'w list \<times> 'w list) state" where
  "div_full E op1 op2 =
     do { overflow \<leftarrow> div_overflow E op2;
          for_gates (rev [0..<length op2]) (div_step E op2 overflow) ([], op1) }"

subsection \<open>Carries and borrows\<close>

fun add_carry :: "nat \<Rightarrow> int \<Rightarrow> int \<Rightarrow> bool \<Rightarrow> bool" where
  "add_carry 0 x y k = k"
| "add_carry (Suc n) x y k = add_carry n (x div 2) (y div 2) (k \<noteq> ((odd x \<noteq> k) \<and> (odd y \<noteq> k)))"

fun sub_borrow :: "nat \<Rightarrow> int \<Rightarrow> int \<Rightarrow> bool \<Rightarrow> bool" where
  "sub_borrow 0 x y k = k"
| "sub_borrow (Suc n) x y k = sub_borrow n (x div 2) (y div 2) (k \<noteq> ((odd x \<noteq> odd y) \<and> (k \<noteq> odd y)))"

lemma add_halves:
  "(x + y + of_bool k) div 2 = x div 2 + y div 2 + of_bool (k \<noteq> ((odd x \<noteq> k) \<and> (odd y \<noteq> k)))" for x y :: int
  by (cases k; cases "odd x"; cases "odd y") (auto elim!: oddE evenE)

lemma sub_halves:
  "(x - y - of_bool k) div 2 = x div 2 - y div 2 - of_bool (k \<noteq> ((odd x \<noteq> odd y) \<and> (k \<noteq> odd y)))" for x y :: int
  by (cases k; cases "odd x"; cases "odd y") (auto elim!: oddE evenE)

lemma add_odd: "odd (x + y + of_bool k) \<longleftrightarrow> (odd x \<noteq> (odd y \<noteq> k))" for x y :: int
  by (cases k) auto

lemma sub_odd: "odd (x - y - of_bool k) \<longleftrightarrow> ((odd x \<noteq> odd y) \<noteq> k)" for x y :: int
  by (cases k) auto

lemma bit_add_carry: "bit (x + y + of_bool k) n \<longleftrightarrow> ((add_carry n x y k \<noteq> bit y n) \<noteq> bit x n)"
proof (induction n arbitrary: x y k)
  case 0 then show ?case by (auto simp: bit_0 add_odd)
next
  case (Suc n) then show ?case by (simp add: bit_Suc add_halves)
qed

lemma bit_sub_borrow: "bit (x - y - of_bool k) n \<longleftrightarrow> ((bit x n \<noteq> bit y n) \<noteq> sub_borrow n x y k)"
proof (induction n arbitrary: x y k)
  case 0 then show ?case by (auto simp: bit_0 sub_odd)
next
  case (Suc n) then show ?case by (simp add: bit_Suc sub_halves)
qed

lemma add_carry_iff: "add_carry n x y k \<longleftrightarrow> 2 ^ n \<le> take_bit n x + take_bit n y + of_bool k"
proof (induction n arbitrary: x y k)
  case (Suc n)
  show ?case
    by (cases k; cases "odd x"; cases "odd y")
      (auto simp: Suc take_bit_Suc mod_2_eq_odd)
qed simp

lemma sub_borrow_iff: "sub_borrow n x y k \<longleftrightarrow> take_bit n x < take_bit n y + of_bool k"
proof (induction n arbitrary: x y k)
  case (Suc n)
  show ?case
    by (cases k; cases "odd x"; cases "odd y")
      (auto simp: Suc take_bit_Suc mod_2_eq_odd)
qed simp

lemma not_halves: "(NOT x) div 2 = NOT (x div 2)" "odd (NOT x) = even x" for x :: int
  by (simp_all add: not_int_def)

lemma int_div_less_iff: "0 < d \<Longrightarrow> R div d < Y \<longleftrightarrow> R < d * Y" for R d Y :: int
proof -
  assume d: "0 < d"
  then have "R div d - Y = (R + (- Y) * d) div d" by (subst div_mult_self1) simp_all
  also have "\<dots> < 0 \<longleftrightarrow> R < d * Y" using d by (simp add: pos_imp_zdiv_neg_iff mult.commute)
  finally show ?thesis by simp
qed

lemma power_le_iff_bit:
  fixes Y :: int
  assumes "0 \<le> Y"
  shows "2 ^ m \<le> Y \<longleftrightarrow> 2 ^ Suc m \<le> Y \<or> bit Y m"
proof -
  have "2 ^ m \<le> Y \<longleftrightarrow> 1 \<le> Y div 2 ^ m" "2 ^ Suc m \<le> Y \<longleftrightarrow> 2 \<le> Y div 2 ^ m"
    using int_div_less_iff [of "2 ^ m" Y 1] int_div_less_iff [of "2 ^ m" Y 2] by (auto simp: not_less [symmetric] mult.commute)
  moreover have "1 \<le> z \<longleftrightarrow> 2 \<le> z \<or> odd z" if "0 \<le> z" for z :: int using that by presburger
  ultimately show ?thesis
    using assms by (simp add: bit_iff_odd pos_imp_zdiv_nonneg_iff)
qed

subsection \<open>Correctness on every backend\<close>

context circuit_backend
begin

lemma add_loop:
  assumes "length as = length bs" and "int_wires rep as x" and "int_wires rep bs y" and "rep c k"
  shows "computes ok (add_loop E as bs c) (\<lambda>(ds, c'). length ds = length as
           \<and> int_wires rep ds (x + y + of_bool k) \<and> rep c' (add_carry (length as) x y k))"
  using assms
proof (induction as bs arbitrary: x y k c rule: list_induct2)
  case (Cons a as b bs)
  then have "rep a (odd x)" "rep b (odd y)" by simp_all
  with Cons.prems(3) show ?case
    unfolding add_loop.simps
    by - ((rule bit_bind, assumption, assumption)+, rule computes_bind [OF Cons.IH], use Cons.prems in simp,
        use Cons.prems in simp, assumption, clarify, rule computes_return,
        simp only: split int_wires.simps add_carry.simps add_halves add_odd length_Cons simp_thms)
qed (auto intro: computes_return)

lemma sub_loop:
  assumes "length as = length bs" and "int_wires rep as x" and "int_wires rep bs y" and "rep c k"
  shows "computes ok (sub_loop E as bs c) (\<lambda>(ds, c'). length ds = length as
           \<and> int_wires rep ds (x - y - of_bool k) \<and> rep c' (sub_borrow (length as) x y k))"
  using assms
proof (induction as bs arbitrary: x y k c rule: list_induct2)
  case (Cons a as b bs)
  then have "rep a (odd x)" "rep b (odd y)" by simp_all
  with Cons.prems(3) show ?case
    unfolding sub_loop.simps
    by - ((rule bit_bind, assumption, assumption)+, rule computes_bind [OF Cons.IH], use Cons.prems in simp,
        use Cons.prems in simp, assumption, clarify, rule computes_return,
        simp only: split int_wires.simps sub_borrow.simps sub_halves sub_odd length_Cons simp_thms)
qed (auto intro: computes_return)

lemma snoc_pair:
  assumes "length as = length bs" and "as \<noteq> []"
  obtains as' a bs' b where "as = as' @ [a]" "bs = bs' @ [b]" "length as' = length bs'"
  using assms by (cases as rule: rev_cases; cases bs rule: rev_cases) auto

lemma add_full:
  assumes "length as = length bs" and "int_wires rep as x" and "int_wires rep bs y"
  shows "computes ok (add_full E False as bs None) (\<lambda>(ds, _). length ds = length as \<and> int_wires rep ds (x + y))"
proof (cases "as = []")
  case False
  then obtain as' a bs' b where e: "as = as' @ [a]" "bs = bs' @ [b]" "length as' = length bs'"
    using snoc_pair [OF assms(1)] by metis
  have "computes ok (do { (ds, c) \<leftarrow> add_loop E as' bs' z; x' \<leftarrow> bit_xor E c b; d \<leftarrow> bit_xor E x' a;
            State_Monad.return (ds @ [d], None :: 'b option) })
          (\<lambda>(ds, _). length ds = length as \<and> int_wires rep ds (x + y))" if "rep z False" for z
    using assms e that bit_add_carry [of x y False "length bs'"]
    by (auto simp: int_wires_snoc intro!: computes_bind [OF add_loop [where k = False]] bit_bind computes_return)
  then show ?thesis
    using e by (auto simp: add_full_def intro!: bit_bind)
qed (auto simp: add_full_def intro: computes_return)

lemma sub_full:
  assumes "length as = length bs" and "int_wires rep as x" and "int_wires rep bs y"
  shows "computes ok (sub_full E False as bs None) (\<lambda>(ds, _). length ds = length as \<and> int_wires rep ds (x - y))"
proof (cases "as = []")
  case False
  then obtain as' a bs' b where e: "as = as' @ [a]" "bs = bs' @ [b]" "length as' = length bs'"
    using snoc_pair [OF assms(1)] by metis
  have "computes ok (do { (ds, c) \<leftarrow> sub_loop E as' bs' z; x' \<leftarrow> bit_xor E a b; d \<leftarrow> bit_xor E x' c;
            State_Monad.return (ds @ [d], None :: 'b option) })
          (\<lambda>(ds, _). length ds = length as \<and> int_wires rep ds (x - y))" if "rep z False" for z
    using assms e that bit_sub_borrow [of x y False "length bs'"]
    by (auto simp: int_wires_snoc intro!: computes_bind [OF sub_loop [where k = False]] bit_bind computes_return)
  then show ?thesis
    using e by (auto simp: sub_full_def intro!: bit_bind)
qed (auto simp: sub_full_def intro: computes_return)

lemma mul_step:
  assumes "length op1 = length op2" and "int_wires rep op1 x" and "int_wires rep op2 y"
    and "i < length op1" and "length acc = length op1" and "int_wires rep acc (x * take_bit i y)"
  shows "computes ok (do {
          temp \<leftarrow> map_gates (\<lambda>k. bit_and E (op1 ! k) (op2 ! i)) [0..<length op1 - i];
          (ds, _) \<leftarrow> add_full E False (drop i acc) temp None;
          State_Monad.return (take i acc @ ds) })
        (\<lambda>acc. length acc = length op1 \<and> int_wires rep acc (x * take_bit (Suc i) y))"
proof (rule computes_bind)
  show "computes ok (map_gates (\<lambda>k. bit_and E (op1 ! k) (op2 ! i)) [0..<length op1 - i])
      (list_all2 (\<lambda>k c. rep c (bit x k \<and> bit y i)) [0..<length op1 - i])"
    using assms by (intro computes_map_gates bit_and) (auto simp: int_wires_nth)
  fix temp
  assume "list_all2 (\<lambda>k c. rep c (bit x k \<and> bit y i)) [0..<length op1 - i] temp"
  then have temp: "length temp = length op1 - i" "int_wires rep temp (x * of_bool (bit y i))"
    by (auto simp: list_all2_conv_all_nth int_wires_nth)
  have acc: "int_wires rep (take i acc) (x * take_bit i y)" "int_wires rep (drop i acc) (drop_bit i (x * take_bit i y))"
    using assms(4-6) int_wires_append [of rep "take i acc" "drop i acc"] by simp_all
  have next_val: "x * take_bit (Suc i) y = x * take_bit i y + push_bit i (x * of_bool (bit y i))"
    by (simp add: take_bit_Suc_from_most push_bit_eq_mult algebra_simps)
  have "take_bit i (x * take_bit (Suc i) y) = take_bit i (x * take_bit i y)"
    unfolding next_val by (simp add: push_bit_eq_mult take_bit_eq_mod)
  then have low: "int_wires rep (take i acc) (x * take_bit (Suc i) y)"
    using acc(1) assms(4,5) by (intro int_wires_mod [OF _ acc(1)]) simp
  have "drop_bit i (x * take_bit (Suc i) y) = drop_bit i (x * take_bit i y) + x * of_bool (bit y i)"
    unfolding next_val by (simp add: push_bit_eq_mult drop_bit_eq_div)
  then show "computes ok (do { (ds, _) \<leftarrow> add_full E False (drop i acc) temp None; State_Monad.return (take i acc @ ds) })
      (\<lambda>acc. length acc = length op1 \<and> int_wires rep acc (x * take_bit (Suc i) y))"
    using low temp assms(4,5)
    by (intro computes_bind [OF add_full [OF _ acc(2) temp(2)]])
      (auto simp: int_wires_append intro!: computes_return)
qed

lemma zero_wires: "computes ok (map_gates (\<lambda>_. bit_const E False) [0..<n]) (\<lambda>ws. length ws = n \<and> int_wires rep ws 0)"
  using computes_map_gates [of "[0..<n]" ok "\<lambda>_. bit_const E False" "\<lambda>_ c. rep c False"] bit_const
  by (auto simp: list_all2_conv_all_nth int_wires_nth elim!: computes_weaken)

lemma mul_full:
  assumes "length op1 = length op2" and "int_wires rep op1 x" and "int_wires rep op2 y"
  shows "computes ok (mul_full E op1 op2) (\<lambda>ds. length ds = length op1 \<and> int_wires rep ds (x * y))"
proof -
  let ?I = "\<lambda>k acc. length acc = length op1 \<and> int_wires rep acc (x * take_bit k y)"
  have "computes ok (mul_full E op1 op2) (?I (length op1))"
    unfolding mul_full_def Let_def
  proof (rule computes_bind [OF zero_wires])
    fix ws assume "length ws = length op1 \<and> int_wires rep ws 0"
    then show "computes ok (for_gates [0..<length op1] (\<lambda>i acc. do {
          temp \<leftarrow> map_gates (\<lambda>k. bit_and E (op1 ! k) (op2 ! i)) [0..<length op1 - i];
          (ds, _) \<leftarrow> add_full E False (drop i acc) temp None;
          State_Monad.return (take i acc @ ds) }) ws) (?I (length op1))"
      by (intro computes_for_upt [where I = ?I] mul_step [OF assms]) simp_all
  qed
  then show ?thesis
    by (rule computes_weaken) (auto intro: int_wires_mod [rotated] simp: take_bit_eq_mod mod_simps)
qed

lemma ifThenElse:
  assumes "length ts = length fs" and "int_wires rep ts x" and "int_wires rep fs y" and c: "rep cond b"
  shows "computes ok (ifThenElse E ts fs cond)
           (\<lambda>ds. length ds = length ts \<and> int_wires rep ds (if b then x else y))"
  using assms(1-3)
proof (induction ts fs arbitrary: x y rule: list_induct2)
  case (Cons t ts f fs)
  have "rep t (odd x)" "rep f (odd y)" using Cons.prems by simp_all
  with c show ?case
    unfolding ifThenElse.simps
    by - ((rule bit_bind, assumption, assumption)+, rule computes_bind [OF Cons.IH], use Cons.prems in simp,
        use Cons.prems in simp, rule computes_return, cases b; cases "odd x"; cases "odd y"; simp)
qed (auto intro: computes_return)

lemma condNeg_loop:
  assumes c: "rep cond b" and "int_wires rep ss x" and "rep c k"
  shows "computes ok (condNeg_loop E cond ss c) (\<lambda>(ds, c'). length ds = length ss
           \<and> int_wires rep ds ((if b then NOT x else x) + of_bool k)
           \<and> rep c' (add_carry (length ss) (if b then NOT x else x) 0 k))"
  using assms(2,3)
proof (induction ss arbitrary: x c k)
  case (Cons s ss)
  let ?x = "if b then NOT x else x"
  have odd: "(odd x \<noteq> b) = odd ?x" and half: "(if b then NOT (x div 2) else x div 2) = ?x div 2"
    by (auto simp: not_halves)
  have sum: "odd (?x + of_bool k) = (odd ?x \<noteq> k)"
    "(?x + of_bool k) div 2 = ?x div 2 + of_bool (k \<and> odd ?x)"
    using add_odd [of ?x 0 k] add_halves [of ?x 0 k] by (auto simp: conj_commute cong: if_cong)
  have "rep s (odd x)" using Cons.prems by simp
  with c Cons.prems(2) show ?case
    unfolding condNeg_loop.simps
    by - ((rule bit_bind, assumption, assumption)+, rule computes_bind [OF Cons.IH], use Cons.prems in simp, assumption,
        clarify, rule computes_return, cases b; cases k; cases "odd x"; simp add: not_halves sum)
qed (auto intro: computes_return)

lemma condNeg:
  assumes "rep cond b" and "int_wires rep src x" and "src \<noteq> []"
  shows "computes ok (condNeg E cond src)
           (\<lambda>ds. length ds = length src \<and> int_wires rep ds (if b then - x else x))"
proof -
  obtain ss s where src: "src = ss @ [s]" using assms(3) by (metis append_butlast_last_id)
  let ?x = "if b then NOT x else x"
  have "?x + of_bool b = (if b then - x else x)" by (simp add: not_int_def)
  moreover have "rep s (bit x (length ss))" using assms(2) src by (simp add: int_wires_snoc)
  moreover have "((b \<noteq> add_carry (length ss) ?x 0 b) \<noteq> bit x (length ss)) = bit (?x + of_bool b) (length ss)"
    using bit_add_carry [of ?x 0 b "length ss"] by (auto simp: bit_not_iff)
  ultimately show ?thesis
    unfolding condNeg_def using assms src
    by (auto simp: int_wires_snoc simp del: add_carry.simps
        intro!: computes_bind [OF condNeg_loop [OF assms(1)]] bit_bind computes_return cong del: if_weak_cong)
qed

lemma div_overflow:
  assumes "int_wires rep op2 Y" and "0 \<le> Y" and "Y < 2 ^ length op2"
  shows "computes ok (div_overflow E op2) (\<lambda>ov. \<forall>j<length op2. rep (ov ! j) (2 ^ (length op2 - j) \<le> Y))"
proof -
  let ?n = "length op2"
  let ?I = "\<lambda>k ov. length ov = Suc k \<and> (\<forall>j\<le>k. rep (ov ! j) (2 ^ (?n - j) \<le> Y))"
  have step: "computes ok (do { b \<leftarrow> bit_or E (ov ! ([1..<?n] ! k - 1)) (op2 ! (?n - [1..<?n] ! k));
                 State_Monad.return (ov @ [b]) }) (?I (Suc k))"
    if k: "k < length [1..<?n]" and ov: "?I k ov" for k ov
  proof -
    have "rep (op2 ! (?n - Suc k)) (bit Y (?n - Suc k))"
      using assms(1) k by (simp add: int_wires_nth)
    moreover have "?n - k = Suc (?n - Suc k)" using k by simp
    then have "2 ^ (?n - Suc k) \<le> Y \<longleftrightarrow> 2 ^ (?n - k) \<le> Y \<or> bit Y (?n - Suc k)"
      using power_le_iff_bit [OF assms(2), of "?n - Suc k"] by (simp only:)
    ultimately show ?thesis
      using ov k by (auto simp: nth_append le_Suc_eq intro!: computes_bind [OF bit_or] computes_return)
  qed
  have "computes ok (for_gates [1..<?n] (\<lambda>i ov. do {
            b \<leftarrow> bit_or E (ov ! (i - 1)) (op2 ! (?n - i)); State_Monad.return (ov @ [b]) }) [z]) (?I (?n - 1))"
    if "rep z False" for z
    using computes_for_gates [where I = ?I and js = "[1..<?n]" and x = "[z]" and ok = ok and body = "\<lambda>i ov. do {
            b \<leftarrow> bit_or E (ov ! (i - 1)) (op2 ! (?n - i)); State_Monad.return (ov @ [b]) }"] step that assms(3) by simp
  then show ?thesis
    unfolding div_overflow_def by - (rule bit_bind, rule computes_weaken, blast, fastforce)
qed

text \<open>After the bits \<open>n - 1, \<dots>, i\<close> of the quotient: the dividend is \<open>Q * 2 ^ i * Y + R\<close>.\<close>

definition div_inv :: "nat \<Rightarrow> int \<Rightarrow> int \<Rightarrow> nat \<Rightarrow> 'w list \<times> 'w list \<Rightarrow> bool" where
  "div_inv n X Y i = (\<lambda>(quot, rem). \<exists>Q R. length quot = n - i \<and> int_wires rep quot Q
     \<and> length rem = n \<and> int_wires rep rem R \<and> 0 \<le> R \<and> R < 2 ^ n
     \<and> X = Q * 2 ^ i * Y + R \<and> (0 < Y \<longrightarrow> R < 2 ^ i * Y) \<and> (Y = 0 \<longrightarrow> Q = 2 ^ (n - i) - 1))"

lemma div_step_arith:
  fixes R Y Q :: int
  assumes "0 \<le> R" and "0 < Y \<longrightarrow> R < 2 ^ Suc i * Y" and "0 \<le> Y" and b: "b \<longleftrightarrow> R div 2 ^ i < Y"
  defines "R' \<equiv> if b then R else R - 2 ^ i * Y" and "Q' \<equiv> 2 * Q + of_bool (\<not> b)"
  shows "0 \<le> R'" and "R' \<le> R" and "Q * 2 ^ Suc i * Y + R = Q' * 2 ^ i * Y + R'"
    and "0 < Y \<longrightarrow> R' < 2 ^ i * Y"
    and "drop_bit i R' = (if b then drop_bit i R else drop_bit i R - Y)" and "take_bit i R' = take_bit i R"
proof -
  have bb: "b \<longleftrightarrow> R < 2 ^ i * Y"
    unfolding b by (rule int_div_less_iff) simp
  show "0 \<le> R'" "R' \<le> R" using assms(1,3) bb by (auto simp: R'_def)
  show "Q * 2 ^ Suc i * Y + R = Q' * 2 ^ i * Y + R'" by (simp add: R'_def Q'_def algebra_simps)
  show "0 < Y \<longrightarrow> R' < 2 ^ i * Y" using assms(2) bb by (auto simp: R'_def algebra_simps)
  show "drop_bit i R' = (if b then drop_bit i R else drop_bit i R - Y)"
    using div_mult_self2 [of "2 ^ i" R "- Y"] by (simp add: R'_def drop_bit_eq_div)
  show "take_bit i R' = take_bit i R"
    using mod_mult_self2 [of R "2 ^ i" "- Y"] by (simp add: R'_def take_bit_eq_mod)
qed

lemma sub_full_borrow:
  assumes "length as = length bs" and "as \<noteq> []" and "int_wires rep as x" and "int_wires rep bs y"
  shows "computes ok (sub_full E True as bs None) (\<lambda>(ds, b). length ds = length as \<and> int_wires rep ds (x - y)
           \<and> (\<exists>w. b = Some w \<and> rep w (take_bit (length as) x < take_bit (length as) y)))"
  unfolding sub_full_def using assms sub_borrow_iff [of "length as" x y False]
  by (auto intro!: bit_bind computes_bind [OF sub_loop [where k = False]] computes_return)

lemma div_step:
  assumes "int_wires rep op2 Y" and Y: "0 \<le> Y" "Y < 2 ^ length op2" and i: "i < length op2"
    and ov: "rep (ov ! i) (2 ^ (length op2 - i) \<le> Y)"
    and "div_inv (length op2) X Y (Suc i) qr"
  shows "computes ok (div_step E op2 ov i qr) (div_inv (length op2) X Y i)"
proof -
  let ?n = "length op2"
  obtain quot rem Q R where qr: "qr = (quot, rem)"
    and q: "length quot = ?n - Suc i" "int_wires rep quot Q" "Y = 0 \<longrightarrow> Q = 2 ^ (?n - Suc i) - 1"
    and r: "length rem = ?n" "int_wires rep rem R" "0 \<le> R" "R < 2 ^ ?n"
    and X: "X = Q * 2 ^ Suc i * Y + R" "0 < Y \<longrightarrow> R < 2 ^ Suc i * Y"
    using assms(6) by (cases qr) (auto simp: div_inv_def)
  have rem: "int_wires rep (take i rem) R" "int_wires rep (drop i rem) (drop_bit i R)"
    using int_wires_append [of rep "take i rem" "drop i rem" R] r i by simp_all
  define b where "b \<longleftrightarrow> R div 2 ^ i < Y"
  note ar = div_step_arith [OF r(3) X(2) Y(1) b_def]
  have "R div 2 ^ i < 2 ^ (?n - i)"
    using r(4) i by (subst int_div_less_iff) (simp_all flip: power_add)
  then have "take_bit (?n - i) (drop_bit i R) = R div 2 ^ i"
    using r(3) by (simp add: drop_bit_eq_div take_bit_int_eq_self_iff pos_imp_zdiv_nonneg_iff)
  moreover have "take_bit (?n - i) Y = Y" if "\<not> 2 ^ (?n - i) \<le> Y"
    using that Y(1) by (simp add: take_bit_int_eq_self_iff)
  ultimately have b: "take_bit (?n - i) (drop_bit i R) < take_bit (?n - i) Y \<or> 2 ^ (?n - i) \<le> Y \<longleftrightarrow> b"
    using \<open>R div 2 ^ i < 2 ^ (?n - i)\<close> unfolding b_def by (cases "2 ^ (?n - i) \<le> Y") auto
  let ?R = "if b then R else R - 2 ^ i * Y" and ?Q = "2 * Q + of_bool (\<not> b)"
  have inv: "div_inv ?n X Y i (w # quot, take i rem @ r')"
    if "rep w (\<not> b)" and r': "length r' = ?n - i" "int_wires rep r' (if b then drop_bit i R else drop_bit i R - Y)" for w r'
  proof -
    have "int_wires rep (take i rem @ r') ?R"
      using r' ar(5) int_wires_mod [OF _ rem(1), of ?R] ar(6) r(1) i by (simp add: int_wires_append min_def)
    moreover have "int_wires rep (w # quot) ?Q" using that(1) q(2) by (cases b) simp_all
    moreover have "length (w # quot) = ?n - i" "length (take i rem @ r') = ?n" using q(1) r(1) r'(1) i by simp_all
    moreover have "Y = 0 \<longrightarrow> ?Q = 2 ^ (?n - i) - 1"
      using q(3) i r(3) by (auto simp: b_def Suc_diff_Suc pos_imp_zdiv_nonneg_iff not_less simp flip: power_Suc)
    moreover have "?R < 2 ^ ?n" using ar(2) r(4) by linarith
    ultimately show ?thesis
      unfolding div_inv_def split using ar(1,3,4) X(1) by blast
  qed
  have "int_wires rep (take (?n - i) op2) Y"
    using int_wires_append [of rep "take (?n - i) op2" "drop (?n - i) op2" Y] assms(1) by simp
  then have sub: "computes ok (sub_full E True (drop i rem) (take (?n - i) op2) None)
      (\<lambda>(ds, bo). length ds = ?n - i \<and> int_wires rep ds (drop_bit i R - Y)
         \<and> (\<exists>w. bo = Some w \<and> rep w (take_bit (?n - i) (drop_bit i R) < take_bit (?n - i) Y)))"
    using sub_full_borrow [OF _ _ rem(2), of "take (?n - i) op2" Y] r(1) i by simp
  show ?thesis
    unfolding div_step_def qr split
    by (rule computes_bind [OF sub], clarify, rule computes_bind [OF bit_or [OF _ ov]], simp,
        unfold b, rule computes_bind [OF ifThenElse [OF _ rem(2)]], use r(1) in simp, assumption, assumption,
        (rule bit_bind, assumption)+, rule computes_return, rule inv) (use r(1) in auto)
qed

lemma div_full:
  assumes "length op1 = length op2" and "int_wires rep op1 x" and "int_wires rep op2 y"
  defines "X \<equiv> take_bit (length op2) x" and "Y \<equiv> take_bit (length op2) y"
  shows "computes ok (div_full E op1 op2) (\<lambda>(q, r). length q = length op2 \<and> length r = length op2
           \<and> int_wires rep q (if Y = 0 then - 1 else X div Y) \<and> int_wires rep r (if Y = 0 then X else X mod Y))"
proof -
  let ?n = "length op2"
  have XY: "0 \<le> X" "X < 2 ^ ?n" "0 \<le> Y" "Y < 2 ^ ?n" by (simp_all add: X_def Y_def)
  have w: "int_wires rep op1 X" "int_wires rep op2 Y"
    using assms(1-3) by (auto simp: X_def Y_def elim!: int_wires_mod [rotated])
  have "X < 2 ^ ?n * Y" if "0 < Y"
  proof -
    note XY(2)
    also have "2 ^ ?n \<le> 2 ^ ?n * Y" using that by simp
    finally show ?thesis .
  qed
  then have 0: "div_inv ?n X Y ?n ([], op1)"
    unfolding div_inv_def split using XY w(1) assms(1) 
    by - (rule exI [of _ 0], rule exI [of _ X], auto)
  have step: "computes ok (div_step E op2 ov (rev [0..<?n] ! k) qr) (div_inv ?n X Y (?n - Suc k))"
    if "\<forall>j<?n. rep (ov ! j) (2 ^ (?n - j) \<le> Y)" "k < length (rev [0..<?n])" "div_inv ?n X Y (?n - k) qr" for ov k qr
  proof -
    have i: "?n - Suc k < ?n" and e: "Suc (?n - Suc k) = ?n - k" "rev [0..<?n] ! k = ?n - Suc k"
      using that(2) by (auto simp: rev_nth)
    show ?thesis
      using div_step [OF w(2) XY(3,4) i that(1) [rule_format, OF i], of X qr] that(3) unfolding e .
  qed
  have "computes ok (div_full E op1 op2) (div_inv ?n X Y (?n - length (rev [0..<?n])))"
    unfolding div_full_def
    by (rule computes_bind [OF div_overflow [OF w(2) XY(3,4)]],
        rule computes_for_gates [where I = "\<lambda>k. div_inv ?n X Y (?n - k)"]) (use 0 step in simp_all)
  then show ?thesis
  proof (rule computes_weaken)
    fix qr assume "div_inv ?n X Y (?n - length (rev [0..<?n])) qr"
    then obtain q r Q R where *: "qr = (q, r)" "length q = ?n" "int_wires rep q Q" "length r = ?n" "int_wires rep r R"
      "0 \<le> R" "X = Q * Y + R" "0 < Y \<longrightarrow> R < Y" "Y = 0 \<longrightarrow> Q = 2 ^ ?n - 1"
      by (auto simp: div_inv_def)
    have "take_bit ?n (2 ^ ?n - 1 :: int) = take_bit ?n (- 1)" by (simp flip: mask_eq_exp_minus_1)
    then have "Y = 0 \<Longrightarrow> int_wires rep q (- 1)"
      using *(2,3,9) by (auto elim!: int_wires_mod [rotated])
    moreover have "Q = X div Y \<and> R = X mod Y" if "Y \<noteq> 0"
      using int_div_pos_eq [of X Y Q R] int_mod_pos_eq [of X Y Q R] * that XY(3) by (simp add: mult.commute)
    ultimately show "case qr of (q, r) \<Rightarrow> length q = ?n \<and> length r = ?n
        \<and> int_wires rep q (if Y = 0 then - 1 else X div Y) \<and> int_wires rep r (if Y = 0 then X else X mod Y)"
      using * by auto
  qed
qed

end

end
