(* ===== verification/IntegerOps.thy ===== *)
theory IntegerOps
  imports Integers
begin

text \<open>
  The members of \<^verbatim>\<open>Integer\<close> (\<^verbatim>\<open>circuits/integer.hpp\<close>) on top of the arithmetic circuits of theory
  Integers: construction and output, logic, shifts, comparison, signed division and
  remainder, \<^verbatim>\<open>leading_zeros\<close>, \<^verbatim>\<open>hamming_weight\<close>, \<^verbatim>\<open>modExp\<close>, and the comparisons and swaps of
  \<^verbatim>\<open>comparable.h\<close> and \<^verbatim>\<open>swappable.h\<close>.  The lemmas state each operation on the integers that the
  wires hold.
\<close>

subsection \<open>Construction and output\<close>

definition int_init ::
  "('s, 'w) circuit_execution \<Rightarrow> ('s, 'w) protocol_execution \<Rightarrow> bool list \<Rightarrow> int \<Rightarrow> ('s, 'w list) state" where
  "int_init E P b party =
     (if party = PUBLIC then do {
        one \<leftarrow> public_label E True; zero \<leftarrow> public_label E False;
        State_Monad.return (map (\<lambda>v. if v then one else zero) b) }
      else feed P party b)"

definition Integer_new ::
  "('s, 'w) circuit_execution \<Rightarrow> ('s, 'w) protocol_execution \<Rightarrow> nat \<Rightarrow> 64 word \<Rightarrow> int \<Rightarrow> ('s, 'w list) state" where
  "Integer_new E P len input party =
     int_init E P (map (int_to_bool_s64 (\<lambda>_. False) input len) [0..<len]) party"

definition Integer_of_memory ::
  "('s, 'w) circuit_execution \<Rightarrow> ('s, 'w) protocol_execution \<Rightarrow> nat \<Rightarrow> 8 word arr \<Rightarrow> int \<Rightarrow> ('s, 'w list) state" where
  "Integer_of_memory E P len input party =
     int_init E P (map (to_bool (\<lambda>_. False) input len False) [0..<len]) party"

text \<open>A public constant: \<^verbatim>\<open>Integer(len, input, PUBLIC)\<close> needs no protocol.\<close>

definition int_public :: "('s, 'w) circuit_execution \<Rightarrow> nat \<Rightarrow> 64 word \<Rightarrow> ('s, 'w list) state" where
  "int_public E len input =
     do { one \<leftarrow> public_label E True; zero \<leftarrow> public_label E False;
          State_Monad.return (map (\<lambda>i. if int_to_bool_s64 (\<lambda>_. False) input len i then one else zero) [0..<len]) }"

definition int_index :: "'w list \<Rightarrow> nat \<Rightarrow> 'w" where
  "int_index ws index = ws ! min index (length ws - 1)"

definition reveal_u32 :: "('s, 'w) protocol_execution \<Rightarrow> 'w list \<Rightarrow> int \<Rightarrow> ('s, 32 word) state" where
  "reveal_u32 P ws party =
     do { b \<leftarrow> reveal P party ws;
          State_Monad.return (fold (\<lambda>i bs. if b ! i then set_bit i bs else unset_bit i bs) [0..<min 32 (length ws)] 0) }"

definition reveal_u64 :: "('s, 'w) protocol_execution \<Rightarrow> 'w list \<Rightarrow> int \<Rightarrow> ('s, 64 word) state" where
  "reveal_u64 P ws party =
     do { b \<leftarrow> reveal P party ws;
          State_Monad.return (fold (\<lambda>i bs. if b ! i then set_bit i bs else unset_bit i bs) [0..<min 64 (length ws)] 0) }"

definition reveal_string :: "('s, 'w) protocol_execution \<Rightarrow> 'w list \<Rightarrow> int \<Rightarrow> ('s, string) state" where
  "reveal_string P ws party =
     do { b \<leftarrow> reveal P party ws; State_Monad.return (fold (\<lambda>v res. res @ (if v then ''1'' else ''0'')) b []) }"

subsection \<open>Logic\<close>

definition int_select :: "('s, 'w) circuit_execution \<Rightarrow> 'w list \<Rightarrow> 'w \<Rightarrow> 'w list \<Rightarrow> ('s, 'w list) state" where
  "int_select E this sel a = map_gates (\<lambda>i. bit_select E (this ! i) sel (int_index a i)) [0..<length this]"

definition int_xor :: "('s, 'w) circuit_execution \<Rightarrow> 'w list \<Rightarrow> 'w list \<Rightarrow> ('s, 'w list) state" where
  "int_xor E this rhs = map_gates (\<lambda>i. bit_xor E (this ! i) (rhs ! i)) [0..<length this]"

definition int_or :: "('s, 'w) circuit_execution \<Rightarrow> 'w list \<Rightarrow> 'w list \<Rightarrow> ('s, 'w list) state" where
  "int_or E this rhs = map_gates (\<lambda>i. bit_or E (this ! i) (rhs ! i)) [0..<length this]"

definition int_and :: "('s, 'w) circuit_execution \<Rightarrow> 'w list \<Rightarrow> 'w list \<Rightarrow> ('s, 'w list) state" where
  "int_and E this rhs = map_gates (\<lambda>i. bit_and E (this ! i) (rhs ! i)) [0..<length this]"

definition falses :: "('s, 'w) circuit_execution \<Rightarrow> nat \<Rightarrow> ('s, 'w list) state" where
  "falses E n = map_gates (\<lambda>_. bit_const E False) [0..<n]"

definition int_shl_const :: "('s, 'w) circuit_execution \<Rightarrow> 'w list \<Rightarrow> nat \<Rightarrow> ('s, 'w list) state" where
  "int_shl_const E this shamt =
     (if shamt > length this then falses E (length this)
      else do { low \<leftarrow> falses E shamt; State_Monad.return (low @ take (length this - shamt) this) })"

definition int_shr_const :: "('s, 'w) circuit_execution \<Rightarrow> 'w list \<Rightarrow> nat \<Rightarrow> ('s, 'w list) state" where
  "int_shr_const E this shamt =
     (if shamt > length this then falses E (length this)
      else do { high \<leftarrow> falses E shamt; State_Monad.return (drop shamt this @ high) })"

text \<open>\<^verbatim>\<open>size_t(ceil(log2(n)))\<close>.\<close>

fun ceil_log2 :: "nat \<Rightarrow> nat" where
  "ceil_log2 n = (if n \<le> 1 then 0 else Suc (ceil_log2 ((n + 1) div 2)))"

definition int_shl :: "('s, 'w) circuit_execution \<Rightarrow> 'w list \<Rightarrow> 'w list \<Rightarrow> ('s, 'w list) state" where
  "int_shl E this shamt =
     for_gates [0..<min (ceil_log2 (length this)) (length shamt - 1)]
       (\<lambda>i res. do { t \<leftarrow> int_shl_const E res (2 ^ i); int_select E res (int_index shamt i) t }) this"

definition int_shr :: "('s, 'w) circuit_execution \<Rightarrow> 'w list \<Rightarrow> 'w list \<Rightarrow> ('s, 'w list) state" where
  "int_shr E this shamt =
     for_gates [0..<min (ceil_log2 (length this)) (length shamt - 1)]
       (\<lambda>i res. do { t \<leftarrow> int_shr_const E res (2 ^ i); int_select E res (int_index shamt i) t }) this"

subsection \<open>Arithmetic\<close>

definition int_add :: "('s, 'w) circuit_execution \<Rightarrow> 'w list \<Rightarrow> 'w list \<Rightarrow> ('s, 'w list) state" where
  "int_add E this rhs = do { (res, _) \<leftarrow> add_full E False this rhs None; State_Monad.return res }"

definition int_sub :: "('s, 'w) circuit_execution \<Rightarrow> 'w list \<Rightarrow> 'w list \<Rightarrow> ('s, 'w list) state" where
  "int_sub E this rhs = do { (res, _) \<leftarrow> sub_full E False this rhs None; State_Monad.return res }"

definition int_mul :: "('s, 'w) circuit_execution \<Rightarrow> 'w list \<Rightarrow> 'w list \<Rightarrow> ('s, 'w list) state" where
  "int_mul E this rhs = mul_full E this rhs"

definition int_neg :: "('s, 'w) circuit_execution \<Rightarrow> 'w list \<Rightarrow> ('s, 'w list) state" where
  "int_neg E this = do { z \<leftarrow> int_public E (length this) 0; int_sub E z this }"

definition int_abs :: "('s, 'w) circuit_execution \<Rightarrow> 'w list \<Rightarrow> ('s, 'w list) state" where
  "int_abs E this =
     (let res = replicate (length this) (this ! (length this - 1)) in
      do { t \<leftarrow> int_add E this res; int_xor E t res })"

definition int_resize :: "('s, 'w) circuit_execution \<Rightarrow> 'w list \<Rightarrow> nat \<Rightarrow> bool \<Rightarrow> ('s, 'w list) state" where
  "int_resize E bits len signed_extend =
     do { zero \<leftarrow> bit_const E False;
          let MSB = (if signed_extend then bits ! (length bits - 1) else zero) in
          State_Monad.return (take len bits @ replicate (len - length bits) MSB) }"

definition int_div :: "('s, 'w) circuit_execution \<Rightarrow> 'w list \<Rightarrow> 'w list \<Rightarrow> ('s, 'w list) state" where
  "int_div E this rhs =
     do { i1 \<leftarrow> int_abs E this;
          i2 \<leftarrow> int_abs E rhs;
          sign \<leftarrow> bit_xor E (this ! (length this - 1)) (int_index rhs (length this - 1));
          (res, _) \<leftarrow> div_full E i1 i2;
          condNeg E sign res }"

definition int_mod :: "('s, 'w) circuit_execution \<Rightarrow> 'w list \<Rightarrow> 'w list \<Rightarrow> ('s, 'w list) state" where
  "int_mod E this rhs =
     do { i1 \<leftarrow> int_abs E this;
          i2 \<leftarrow> int_abs E rhs;
          (_, res) \<leftarrow> div_full E i1 i2;
          condNeg E (this ! (length this - 1)) res }"

subsection \<open>Comparison\<close>

definition int_geq :: "('s, 'w) circuit_execution \<Rightarrow> 'w list \<Rightarrow> 'w list \<Rightarrow> ('s, 'w) state" where
  "int_geq E this rhs =
     do { thisExtend \<leftarrow> int_resize E this (length this + 1) True;
          rhsExtend \<leftarrow> int_resize E rhs (length this + 1) True;
          tmp \<leftarrow> int_sub E thisExtend rhsExtend;
          bit_not E (int_index tmp (length tmp - 1)) }"

definition int_equal :: "('s, 'w) circuit_execution \<Rightarrow> 'w list \<Rightarrow> 'w list \<Rightarrow> ('s, 'w) state" where
  "int_equal E this rhs =
     do { res \<leftarrow> bit_const E True;
          for_gates [0..<length this] (\<lambda>i res. do { e \<leftarrow> bit_equals E (this ! i) (int_index rhs i); bit_and E res e }) res }"

definition int_less :: "('s, 'w) circuit_execution \<Rightarrow> 'w list \<Rightarrow> 'w list \<Rightarrow> ('s, 'w) state" where
  "int_less E this rhs = do { g \<leftarrow> int_geq E this rhs; bit_not E g }"

definition int_leq :: "('s, 'w) circuit_execution \<Rightarrow> 'w list \<Rightarrow> 'w list \<Rightarrow> ('s, 'w) state" where
  "int_leq E this rhs = int_geq E rhs this"

definition int_greater :: "('s, 'w) circuit_execution \<Rightarrow> 'w list \<Rightarrow> 'w list \<Rightarrow> ('s, 'w) state" where
  "int_greater E this rhs = do { g \<leftarrow> int_geq E rhs this; bit_not E g }"

definition int_differs :: "('s, 'w) circuit_execution \<Rightarrow> 'w list \<Rightarrow> 'w list \<Rightarrow> ('s, 'w) state" where
  "int_differs E this rhs = do { e \<leftarrow> int_equal E this rhs; bit_not E e }"

definition int_If :: "('s, 'w) circuit_execution \<Rightarrow> 'w \<Rightarrow> 'w list \<Rightarrow> 'w list \<Rightarrow> ('s, 'w list) state" where
  "int_If E sel o1 o2 = int_select E o2 sel o1"

definition int_swap :: "('s, 'w) circuit_execution \<Rightarrow> 'w \<Rightarrow> 'w list \<Rightarrow> 'w list \<Rightarrow> ('s, 'w list \<times> 'w list) state" where
  "int_swap E sw o1 o2 =
     do { t \<leftarrow> int_If E sw o1 o2; t \<leftarrow> int_xor E t o2; a \<leftarrow> int_xor E o1 t; b \<leftarrow> int_xor E o2 t;
          State_Monad.return (a, b) }"

subsection \<open>Counting and exponentiation\<close>

fun pair_sums :: "('s, 'w) circuit_execution \<Rightarrow> 'w list list \<Rightarrow> ('s, 'w list list) state" where
  "pair_sums E (x # y # vec) = do { z \<leftarrow> int_add E x y; zs \<leftarrow> pair_sums E vec; State_Monad.return (z # zs) }"
| "pair_sums E vec = State_Monad.return vec"

text \<open>The \<^verbatim>\<open>while\<close> loop; \<open>n\<close> is \<^verbatim>\<open>vec.size()\<close>, which a round halves rounding up.\<close>

fun hamming_loop :: "('s, 'w) circuit_execution \<Rightarrow> nat \<Rightarrow> 'w list list \<Rightarrow> ('s, 'w list) state" where
  "hamming_loop E n vec =
     (if n > 1 then do {
        vec \<leftarrow> pair_sums E vec;
        vec \<leftarrow> map_gates (\<lambda>v. int_resize E v (length v + 1) False) vec;
        hamming_loop E ((n + 1) div 2) vec }
      else State_Monad.return (vec ! 0))"

definition hamming_weight :: "('s, 'w) circuit_execution \<Rightarrow> 'w list \<Rightarrow> ('s, 'w list) state" where
  "hamming_weight E bits =
     do { vec \<leftarrow> map_gates (\<lambda>b. do { tmp \<leftarrow> int_public E 2 0; State_Monad.return (tmp[0 := b]) }) bits;
          hamming_loop E (length vec) vec }"

definition leading_zeros :: "('s, 'w) circuit_execution \<Rightarrow> 'w list \<Rightarrow> ('s, 'w list) state" where
  "leading_zeros E bits =
     do { res \<leftarrow> for_gates (rev [0..<length bits - 1])
                   (\<lambda>i res. do { b \<leftarrow> bit_or E (res ! (i + 1)) (res ! i); State_Monad.return (res[i := b]) }) bits;
          res \<leftarrow> map_gates (bit_not E) res;
          hamming_weight E res }"

definition modExp :: "('s, 'w) circuit_execution \<Rightarrow> 'w list \<Rightarrow> 'w list \<Rightarrow> 'w list \<Rightarrow> ('s, 'w list) state" where
  "modExp E this p q =
     do { res \<leftarrow> int_public E (length this) 1;
          (res, base) \<leftarrow> for_gates [0..<length p] (\<lambda>i (res, base). do {
            t \<leftarrow> int_mul E res base;
            tmp \<leftarrow> int_mod E t q;
            res \<leftarrow> int_select E res (int_index p i) tmp;
            bb \<leftarrow> int_mul E base base;
            base \<leftarrow> int_mod E bb q;
            State_Monad.return (res, base) }) (res, this);
          State_Monad.return res }"

declare ceil_log2.simps [simp del] hamming_loop.simps [simp del]

subsection \<open>Signed values\<close>

definition in_range :: "nat \<Rightarrow> int \<Rightarrow> bool" where
  "in_range n x \<longleftrightarrow> 0 < n \<and> - (2 ^ (n - 1)) \<le> x \<and> x < 2 ^ (n - 1)"

lemma in_range_bit:
  assumes "in_range n x" and "n - 1 \<le> i"
  shows "bit x i \<longleftrightarrow> x < 0"
proof -
  have "signed_take_bit (n - 1) x = x"
    using assms(1) by (intro signed_take_bit_int_eq_self) (auto simp: in_range_def)
  then show ?thesis
    using assms(2) bit_signed_take_bit_iff [of "n - 1" x i] signed_take_bit_negative_iff [of "n - 1" x]
    by (simp add: min_def)
qed

lemma in_range_abs:
  assumes "in_range n x"
  shows "take_bit n \<bar>x\<bar> = \<bar>x\<bar>"
proof -
  obtain m where m: "n = Suc m" using assms by (cases n) (auto simp: in_range_def)
  have "(2 :: int) ^ m < 2 ^ Suc m" by simp
  with assms m have "\<bar>x\<bar> < 2 ^ n" by (auto simp: in_range_def)
  then show ?thesis by (simp add: take_bit_int_eq_self_iff)
qed

lemma bit_replicate_sign: "int_wires rep (replicate n w) (- of_bool b) \<longleftrightarrow> n = 0 \<or> rep w b"
  by (cases b) (auto simp: int_wires_nth)

lemma ceil_log2_less: "i < ceil_log2 n \<Longrightarrow> 2 ^ i < n"
proof (induction n arbitrary: i rule: ceil_log2.induct)
  case (1 n)
  show ?case
  proof (cases "n \<le> 1")
    case False
    show ?thesis
    proof (cases i)
      case (Suc j)
      then have "2 ^ j < (n + 1) div 2" using 1 False by (simp add: ceil_log2.simps [of n])
      then show ?thesis using Suc by simp
    qed (use False in simp)
  qed (use 1 in \<open>simp add: ceil_log2.simps [of n]\<close>)
qed

lemma le_ceil_log2: "n \<le> 2 ^ ceil_log2 n"
proof (induction n rule: ceil_log2.induct)
  case (1 n)
  show ?case
  proof (cases "n \<le> 1")
    case False
    then have "(n + 1) div 2 \<le> 2 ^ ceil_log2 ((n + 1) div 2)" using 1 by simp
    then show ?thesis using False by (simp add: ceil_log2.simps [of n])
  qed (metis le_trans one_le_numeral one_le_power)
qed

fun pair_vals :: "int list \<Rightarrow> int list" where
  "pair_vals (x # y # vs) = (x + y) # pair_vals vs"
| "pair_vals vs = vs"

lemma sum_pair_vals: "sum_list (pair_vals vs) = sum_list vs"
  by (induction vs rule: pair_vals.induct) simp_all

lemma length_pair_vals: "length (pair_vals vs) = (length vs + 1) div 2"
  by (induction vs rule: pair_vals.induct) simp_all

text \<open>The number of leading zeros of the \<open>n\<close>-bit value \<open>X\<close>.\<close>

definition zeros_above :: "nat \<Rightarrow> int \<Rightarrow> nat" where
  "zeros_above n X = length (filter (\<lambda>i. X < 2 ^ i) [0..<n])"

lemma zeros_above_bounds:
  assumes "0 \<le> X" and "X < 2 ^ n"
  shows "zeros_above n X \<le> n" and "X < 2 ^ (n - zeros_above n X)"
    and "zeros_above n X < n \<Longrightarrow> 2 ^ (n - zeros_above n X - 1) \<le> X"
proof -
  define L where "L = (LEAST i. X < 2 ^ i)"
  have L: "X < 2 ^ L" unfolding L_def by (rule LeastI [of _ n]) (rule assms(2))
  have less: "X < 2 ^ i \<longleftrightarrow> L \<le> i" for i
  proof
    assume "X < 2 ^ i" then show "L \<le> i" unfolding L_def by (rule Least_le)
  next
    assume "L \<le> i"
    then have "(2 :: int) ^ L \<le> 2 ^ i" by simp
    with L show "X < 2 ^ i" by linarith
  qed
  have "L \<le> n" using less assms(2) by simp
  have "filter (\<lambda>i. L \<le> i) [0..<n] = [L..<n]" for n by (induction n) auto
  then have z: "zeros_above n X = n - L" unfolding zeros_above_def less by simp
  show "zeros_above n X \<le> n" by (simp add: z)
  show "X < 2 ^ (n - zeros_above n X)" using z \<open>L \<le> n\<close> L by simp
  show "2 ^ (n - zeros_above n X - 1) \<le> X" if "zeros_above n X < n"
  proof (rule ccontr)
    assume "\<not> ?thesis"
    then have "X < 2 ^ (n - zeros_above n X - 1)" by simp
    then have "L \<le> n - zeros_above n X - 1" by (simp only: less)
    with z \<open>L \<le> n\<close> that show False by simp
  qed
qed

lemma high_bit_iff: "(\<exists>j. i \<le> j \<and> j < n \<and> bit x j) \<longleftrightarrow> \<not> take_bit n x < 2 ^ i" for x :: int
proof
  assume "\<exists>j. i \<le> j \<and> j < n \<and> bit x j"
  then obtain j where "i \<le> j" "j < n" "bit x j" by blast
  then have "\<not> j < i" "bit (take_bit n x) j" by (simp_all add: bit_take_bit_iff)
  then have "take_bit i (take_bit n x) \<noteq> take_bit n x" by (metis bit_take_bit_iff)
  then show "\<not> take_bit n x < 2 ^ i" by (metis take_bit_int_eq_self take_bit_nonnegative)
next
  assume "\<not> take_bit n x < 2 ^ i"
  then have "take_bit i (take_bit n x) \<noteq> take_bit n x" by (metis take_bit_int_less_exp)
  then obtain j where "bit (take_bit i (take_bit n x)) j \<noteq> bit (take_bit n x) j" by (metis bit_eqI)
  then have "\<not> j < i" "j < n" "bit x j" unfolding bit_take_bit_iff by blast+
  then show "\<exists>j. i \<le> j \<and> j < n \<and> bit x j" by (metis linorder_not_le)
qed

subsection \<open>Correctness on every backend\<close>

lemma bit_sint_min: "bit (sint (w :: 64 word)) i \<longleftrightarrow> bit w (min i 63)"
  by (auto simp: bit_sint_iff min_def dest: bit_imp_le_length)

lemma computes_map_upt:
  assumes "\<And>i. i < n \<Longrightarrow> computes ok (f i) (P i)"
  shows "computes ok (map_gates f [0..<n]) (\<lambda>ws. length ws = n \<and> (\<forall>i<n. P i (ws ! i)))"
  using computes_map_gates [of "[0..<n]" ok f P] assms
  by (auto simp: list_all2_conv_all_nth elim!: computes_weaken)

context circuit_backend
begin

lemma bitwise:
  assumes "\<And>i. i < length ws \<Longrightarrow> computes ok (f i) (\<lambda>c. rep c (bit v i))"
  shows "computes ok (map_gates f [0..<length ws]) (\<lambda>ds. length ds = length ws \<and> int_wires rep ds v)"
  using computes_map_upt [of "length ws" ok f "\<lambda>i c. rep c (bit v i)"] assms
  by (simp add: int_wires_nth computes_def)

lemma int_xor:
  assumes "length as = length bs" and "int_wires rep as x" and "int_wires rep bs y"
  shows "computes ok (int_xor E as bs) (\<lambda>ds. length ds = length as \<and> int_wires rep ds (x XOR y))"
  unfolding int_xor_def
proof (rule bitwise)
  fix i assume "i < length as"
  with assms have "rep (as ! i) (bit x i)" "rep (bs ! i) (bit y i)" by (simp_all add: int_wires_nth)
  then show "computes ok (bit_xor E (as ! i) (bs ! i)) (\<lambda>c. rep c (bit (x XOR y) i))"
    unfolding bit_xor_iff by (rule bit_xor)
qed

lemma int_and:
  assumes "length as = length bs" and "int_wires rep as x" and "int_wires rep bs y"
  shows "computes ok (int_and E as bs) (\<lambda>ds. length ds = length as \<and> int_wires rep ds (x AND y))"
  unfolding int_and_def
  using assms by (intro bitwise) (auto simp: int_wires_nth bit_and_iff intro: bit_and)

lemma int_or:
  assumes "length as = length bs" and "int_wires rep as x" and "int_wires rep bs y"
  shows "computes ok (int_or E as bs) (\<lambda>ds. length ds = length as \<and> int_wires rep ds (x OR y))"
  unfolding int_or_def
  using assms by (intro bitwise) (auto simp: int_wires_nth bit_or_iff intro: bit_or)

lemma int_select:
  assumes "length as = length bs" and "int_wires rep as x" and "int_wires rep bs y" and "rep sel b"
  shows "computes ok (int_select E as sel bs)
           (\<lambda>ds. length ds = length as \<and> int_wires rep ds (if b then y else x))"
  unfolding int_select_def
proof (rule bitwise)
  fix i assume "i < length as"
  with assms have "rep (as ! i) (bit x i)" "rep (int_index bs i) (bit y i)"
    by (auto simp: int_wires_nth int_index_def min_def)
  from bit_select [OF this(1) assms(4) this(2)]
  show "computes ok (bit_select E (as ! i) sel (int_index bs i)) (\<lambda>c. rep c (bit (if b then y else x) i))"
    by (simp add: if_distrib [of "\<lambda>v. bit v i"])
qed

lemma int_public: "computes ok (int_public E n w) (\<lambda>ds. length ds = n \<and> int_wires rep ds (sint w))"
proof -
  show ?thesis
    unfolding int_public_def
    by (intro computes_bind [OF public_label] computes_return) (auto simp: int_wires_nth int_to_bool_s64_nth bit_sint_min)
qed

lemma int_add:
  assumes "length as = length bs" and "int_wires rep as x" and "int_wires rep bs y"
  shows "computes ok (int_add E as bs) (\<lambda>ds. length ds = length as \<and> int_wires rep ds (x + y))"
  unfolding int_add_def by (rule computes_bind [OF add_full [OF assms]]) (auto intro: computes_return)

lemma int_sub:
  assumes "length as = length bs" and "int_wires rep as x" and "int_wires rep bs y"
  shows "computes ok (int_sub E as bs) (\<lambda>ds. length ds = length as \<and> int_wires rep ds (x - y))"
  unfolding int_sub_def by (rule computes_bind [OF sub_full [OF assms]]) (auto intro: computes_return)

lemma int_mul:
  assumes "length as = length bs" and "int_wires rep as x" and "int_wires rep bs y"
  shows "computes ok (int_mul E as bs) (\<lambda>ds. length ds = length as \<and> int_wires rep ds (x * y))"
  unfolding int_mul_def by (rule mul_full [OF assms])

lemma int_neg:
  assumes "int_wires rep as x"
  shows "computes ok (int_neg E as) (\<lambda>ds. length ds = length as \<and> int_wires rep ds (- x))"
  unfolding int_neg_def
  by (rule computes_bind [OF int_public]) (use int_sub [OF _ _ assms, where x = 0] in \<open>auto elim: computes_weaken\<close>)

lemma sign_wire:
  assumes "int_wires rep as x" and "in_range (length as) x"
  shows "rep (as ! (length as - 1)) (x < 0)"
proof -
  have "length as - 1 < length as" using assms(2) by (simp add: in_range_def)
  with assms(1) have "rep (as ! (length as - 1)) (bit x (length as - 1))" unfolding int_wires_nth by blast
  then show ?thesis using in_range_bit [OF assms(2) order_refl] by simp
qed

lemma int_abs:
  assumes "int_wires rep as x" and "in_range (length as) x"
  shows "computes ok (int_abs E as) (\<lambda>ds. length ds = length as \<and> int_wires rep ds \<bar>x\<bar>)"
proof -
  let ?res = "replicate (length as) (as ! (length as - 1))" and ?s = "- of_bool (x < 0) :: int"
  have res: "int_wires rep ?res ?s" using sign_wire [OF assms] by (simp add: bit_replicate_sign)
  have "(x + ?s) XOR ?s = \<bar>x\<bar>" by (cases "x < 0") (simp_all add: not_int_def)
  then show ?thesis
    unfolding int_abs_def Let_def
    by (intro computes_bind [OF int_add [OF _ assms(1) res]]) (use int_xor [OF _ _ res] in force)+
qed

lemma int_resize_signed:
  assumes "int_wires rep as x" and "in_range (length as) x" and "length as \<le> n"
  shows "computes ok (int_resize E as n True) (\<lambda>ds. length ds = n \<and> int_wires rep ds x)"
proof -
  have "int_wires rep (as @ replicate (n - length as) (as ! (length as - 1))) x"
    using assms(1) in_range_bit [OF assms(2)] sign_wire [OF assms(1,2)]
    by (auto simp: int_wires_nth nth_append)
  then show ?thesis
    unfolding int_resize_def Let_def using assms(3) by (intro bit_bind computes_return) auto
qed

lemma int_resize_unsigned:
  assumes "int_wires rep as x" and "0 \<le> x" and "x < 2 ^ length as" and "length as \<le> n"
  shows "computes ok (int_resize E as n False) (\<lambda>ds. length ds = n \<and> int_wires rep ds x)"
proof -
  have "\<not> bit x i" if "length as \<le> i" for i
    using assms(2,3) that by (metis bit_take_bit_iff leD take_bit_int_eq_self)
  then show ?thesis
    unfolding int_resize_def Let_def using assms(1,4)
    by (intro bit_bind computes_return) (auto simp: int_wires_nth nth_append)
qed

lemma div_abs:
  assumes "length as = n" "length bs = n" and "int_wires rep as \<bar>x\<bar>" and "int_wires rep bs \<bar>y\<bar>"
    and "in_range n x" and "in_range n y"
  shows "computes ok (div_full E as bs) (\<lambda>(q, r). length q = n \<and> length r = n
           \<and> int_wires rep q (if y = 0 then - 1 else \<bar>x\<bar> div \<bar>y\<bar>)
           \<and> int_wires rep r (if y = 0 then \<bar>x\<bar> else \<bar>x\<bar> mod \<bar>y\<bar>))"
  using div_full [OF _ assms(3,4)]
  unfolding assms(1,2) in_range_abs [OF assms(5)] in_range_abs [OF assms(6)] abs_eq_0 by simp

lemma int_div:
  assumes "length as = length bs" and "int_wires rep as x" and "int_wires rep bs y"
    and "in_range (length as) x" and "in_range (length as) y"
  shows "computes ok (int_div E as bs) (\<lambda>ds. length ds = length as
           \<and> int_wires rep ds (if y = 0 then (if x < 0 then 1 else - 1) else x sdiv y))"
proof -
  let ?n = "length as" and ?q = "if y = 0 then - 1 else \<bar>x\<bar> div \<bar>y\<bar>"
  have val: "(if (x < 0) \<noteq> (y < 0) then - ?q else ?q) = (if y = 0 then (if x < 0 then 1 else - 1) else x sdiv y)"
    by (cases "x = 0"; cases "y = 0"; cases "x < 0"; cases "y < 0") (simp_all add: signed_divide_int_def sgn_if)
  have n: "?n \<noteq> 0" using assms(4) by (auto simp: in_range_def)
  have sign: "rep (as ! (?n - 1)) (x < 0)" "rep (int_index bs (?n - 1)) (y < 0)"
    using sign_wire [OF assms(2,4)] sign_wire [OF assms(3)] assms(1,5) by (auto simp: int_index_def)
  show ?thesis
    unfolding int_div_def val [symmetric]
  proof (rule computes_bind [OF int_abs [OF assms(2,4)]], rule computes_bind [OF int_abs [OF assms(3)]],
      use assms(1,5) in simp, rule bit_bind, rule sign(1), rule sign(2), rule computes_bind [OF div_abs [OF _ _ _ _ assms(4,5)]])
    fix sgn qr assume "rep sgn ((x < 0) \<noteq> (y < 0))" and "case qr of (q, r) \<Rightarrow> length q = ?n \<and> length r = ?n
         \<and> int_wires rep q ?q \<and> int_wires rep r (if y = 0 then \<bar>x\<bar> else \<bar>x\<bar> mod \<bar>y\<bar>)"
    then show "computes ok (case qr of (res, x) \<Rightarrow> condNeg E sgn res)
        (\<lambda>ds. length ds = ?n \<and> int_wires rep ds (if (x < 0) \<noteq> (y < 0) then - ?q else ?q))"
      using condNeg [of sgn _ "fst qr" ?q] n by (cases qr) fastforce
  qed (use assms(1) in simp_all)
qed

lemma int_mod:
  assumes "length as = length bs" and "int_wires rep as x" and "int_wires rep bs y"
    and "in_range (length as) x" and "in_range (length as) y"
  shows "computes ok (int_mod E as bs) (\<lambda>ds. length ds = length as
           \<and> int_wires rep ds (if y = 0 then x else x smod y))"
proof -
  let ?n = "length as" and ?r = "if y = 0 then \<bar>x\<bar> else \<bar>x\<bar> mod \<bar>y\<bar>"
  have val: "(if x < 0 then - ?r else ?r) = (if y = 0 then x else x smod y)"
    by (cases "x = 0"; cases "x < 0") (simp_all add: signed_modulo_int_def sgn_if)
  have n: "?n \<noteq> 0" using assms(4) by (auto simp: in_range_def)
  show ?thesis
    unfolding int_mod_def val [symmetric]
  proof (rule computes_bind [OF int_abs [OF assms(2,4)]], rule computes_bind [OF int_abs [OF assms(3)]],
      use assms(1,5) in simp, rule computes_bind [OF div_abs [OF _ _ _ _ assms(4,5)]])
    fix qr assume "case qr of (q, r) \<Rightarrow> length q = ?n \<and> length r = ?n
         \<and> int_wires rep q (if y = 0 then - 1 else \<bar>x\<bar> div \<bar>y\<bar>) \<and> int_wires rep r ?r"
    then show "computes ok (case qr of (x, res) \<Rightarrow> condNeg E (as ! (?n - 1)) res)
        (\<lambda>ds. length ds = ?n \<and> int_wires rep ds (if x < 0 then - ?r else ?r))"
      using condNeg [OF sign_wire [OF assms(2,4)], of "snd qr" ?r] n by (cases qr) fastforce
  qed (use assms(1) in simp_all)
qed

lemma int_geq:
  assumes "length as = length bs" and "int_wires rep as x" and "int_wires rep bs y"
    and "in_range (length as) x" and "in_range (length as) y"
  shows "computes ok (int_geq E as bs) (\<lambda>c. rep c (x \<ge> y))"
proof -
  have "in_range (length as + 1) (x - y)"
    using assms(4,5) by (cases "length as") (auto simp: in_range_def)
  then have top: "bit (x - y) (length as) \<longleftrightarrow> \<not> y \<le> x"
    using in_range_bit [of "length as + 1" "x - y" "length as"] by (simp add: not_le)
  show ?thesis
    unfolding int_geq_def
    by (rule computes_bind [OF int_resize_signed [OF assms(2,4)]], simp,
        rule computes_bind [OF int_resize_signed [OF assms(3)]], use assms(1,5) in simp, use assms(1) in simp,
        rule computes_bind [OF int_sub [where x = x and y = y]], simp, simp, simp,
        rule computes_weaken, rule bit_not [where x = "bit (x - y) (length as)"])
      (auto simp: top int_wires_nth int_index_def)
qed

lemma int_less:
  assumes "length as = length bs" and "int_wires rep as x" and "int_wires rep bs y"
    and "in_range (length as) x" and "in_range (length as) y"
  shows "computes ok (int_less E as bs) (\<lambda>c. rep c (x < y))"
  unfolding int_less_def not_le [symmetric] by (rule computes_bind [OF int_geq [OF assms]]) (rule bit_not)

lemma int_leq:
  assumes "length as = length bs" and "int_wires rep as x" and "int_wires rep bs y"
    and "in_range (length as) x" and "in_range (length as) y"
  shows "computes ok (int_leq E as bs) (\<lambda>c. rep c (x \<le> y))"
  unfolding int_leq_def by (rule int_geq) (use assms in simp_all)

lemma int_greater:
  assumes "length as = length bs" and "int_wires rep as x" and "int_wires rep bs y"
    and "in_range (length as) x" and "in_range (length as) y"
  shows "computes ok (int_greater E as bs) (\<lambda>c. rep c (x > y))"
  unfolding int_greater_def not_le [symmetric]
  by (rule computes_bind [OF int_geq [of bs as y x]]) (use assms in \<open>simp_all add: bit_not\<close>)

lemma int_equal:
  assumes "length as = length bs" and "int_wires rep as x" and "int_wires rep bs y"
  shows "computes ok (int_equal E as bs) (\<lambda>c. rep c (take_bit (length as) x = take_bit (length as) y))"
proof -
  let ?I = "\<lambda>k c. rep c (\<forall>i<k. bit x i = bit y i)"
  have all: "(take_bit (length as) x = take_bit (length as) y) = (\<forall>i<length as. bit x i = bit y i)"
    by (auto simp: bit_eq_iff bit_take_bit_iff)
  have "computes ok (do { e \<leftarrow> bit_equals E (as ! i) (int_index bs i); bit_and E c e }) (?I (Suc i))"
    if "i < length as" "?I i c" for i c
  proof -
    have "rep (as ! i) (bit x i)" "rep (int_index bs i) (bit y i)"
      using assms that(1) by (auto simp: int_wires_nth int_index_def min_def)
    moreover have e: "(\<forall>j<Suc i. bit x j = bit y j) \<longleftrightarrow> (\<forall>j<i. bit x j = bit y j) \<and> (bit x i = bit y i)"
      by (auto simp: less_Suc_eq)
    ultimately show ?thesis
      unfolding e using that(2) by - (rule computes_bind [OF bit_equals], assumption, assumption, rule bit_and)
  qed
  then show ?thesis
    unfolding int_equal_def all
    by (intro bit_bind computes_for_upt [where I = ?I]) auto
qed

lemma int_differs:
  assumes "length as = length bs" and "int_wires rep as x" and "int_wires rep bs y"
  shows "computes ok (int_differs E as bs) (\<lambda>c. rep c (take_bit (length as) x \<noteq> take_bit (length as) y))"
  unfolding int_differs_def by (rule computes_bind [OF int_equal [OF assms]]) (rule bit_not)

lemma int_If:
  assumes "length as = length bs" and "int_wires rep as x" and "int_wires rep bs y" and "rep sel b"
  shows "computes ok (int_If E sel as bs) (\<lambda>ds. length ds = length as \<and> int_wires rep ds (if b then x else y))"
  unfolding int_If_def using int_select [OF assms(1) [symmetric] assms(3,2,4)] assms(1) by simp

lemma int_swap:
  assumes "length as = length bs" and "int_wires rep as x" and "int_wires rep bs y" and "rep sw b"
  shows "computes ok (int_swap E sw as bs) (\<lambda>(p, q). length p = length as \<and> length q = length as
           \<and> int_wires rep p (if b then y else x) \<and> int_wires rep q (if b then x else y))"
proof -
  let ?t = "(if b then x else y) XOR y"
  have "x XOR ?t = (if b then y else x)" "y XOR ?t = (if b then x else y)"
    by (simp_all add: xor.left_commute)
  then show ?thesis
    unfolding int_swap_def
    by (intro computes_bind [OF int_If [OF assms]] computes_bind [OF int_xor [OF _ _ assms(3), where x = "if b then x else y"]]
        computes_bind [OF int_xor [OF _ assms(2), where y = ?t]] computes_bind [OF int_xor [OF _ assms(3), where y = ?t]]
        computes_return)
      (use assms(1) in simp_all)
qed

subsection \<open>Shifts\<close>

lemma falses: "computes ok (falses E n) (\<lambda>ws. length ws = n \<and> int_wires rep ws 0)"
  unfolding falses_def by (rule zero_wires)

lemma int_wires_zero_nth: "int_wires rep ws 0 \<Longrightarrow> i < length ws \<Longrightarrow> rep (ws ! i) False"
  by (simp add: int_wires_nth)

lemma int_shl_const:
  assumes "int_wires rep as x"
  shows "computes ok (int_shl_const E as k) (\<lambda>ds. length ds = length as \<and> int_wires rep ds (push_bit k x))"
  unfolding int_shl_const_def
  using assms
  by (auto simp: int_wires_nth nth_append bit_push_bit_iff
      intro!: computes_weaken [OF falses] computes_bind [OF falses] computes_return)

lemma int_shr_const:
  assumes "int_wires rep as x" and "0 \<le> x" and "x < 2 ^ length as"
  shows "computes ok (int_shr_const E as k) (\<lambda>ds. length ds = length as \<and> int_wires rep ds (drop_bit k x))"
proof -
  have "\<not> bit x i" if "length as \<le> i" for i
    using assms(2,3) that by (metis bit_take_bit_iff leD take_bit_int_eq_self)
  then show ?thesis
    unfolding int_shr_const_def using assms(1)
    by (auto simp: int_wires_nth nth_append bit_drop_bit_eq
        intro!: computes_weaken [OF falses] computes_bind [OF falses] computes_return)
qed

lemma index_wire:
  assumes "int_wires rep bs s" and "i < length bs"
  shows "rep (int_index bs i) (bit s i)"
  using assms by (auto simp: int_wires_nth int_index_def min_def)

lemma select_step:
  assumes "length res = n" and "int_wires rep res v" and "rep sel b"
    and "computes ok m (\<lambda>t. length t = n \<and> int_wires rep t v')"
  shows "computes ok (do { t \<leftarrow> m; int_select E res sel t })
           (\<lambda>ds. length ds = n \<and> int_wires rep ds (if b then v' else v))"
proof (rule computes_bind [OF assms(4)])
  fix t assume "length t = n \<and> int_wires rep t v'"
  then show "computes ok (int_select E res sel t) (\<lambda>ds. length ds = n \<and> int_wires rep ds (if b then v' else v))"
    using int_select [OF _ assms(2) _ assms(3), of t v'] assms(1) by simp
qed

lemma nat_take_bit_Suc:
  "nat (take_bit (Suc k) s) = nat (take_bit k s) + of_bool (bit s k) * 2 ^ k" for s :: int
  by (simp add: take_bit_Suc_from_most nat_add_distrib nat_mult_distrib nat_power_eq)

lemma int_shl:
  assumes "int_wires rep as x" and "int_wires rep bs s"
  defines "m \<equiv> min (ceil_log2 (length as)) (length bs - 1)"
  shows "computes ok (int_shl E as bs)
           (\<lambda>ds. length ds = length as \<and> int_wires rep ds (push_bit (nat (take_bit m s)) x))"
proof -
  let ?v = "\<lambda>k. push_bit (nat (take_bit k s)) x"
  let ?I = "\<lambda>k ds. length ds = length as \<and> int_wires rep ds (?v k)"
  have "computes ok (do { t \<leftarrow> int_shl_const E res (2 ^ i); int_select E res (int_index bs i) t }) (?I (Suc i))"
    if "i < m" "?I i res" for i res
  proof -
    have v: "?v (Suc i) = (if bit s i then push_bit (2 ^ i) (?v i) else ?v i)"
      by (simp add: nat_take_bit_Suc add.commute)
    moreover have "rep (int_index bs i) (bit s i)" using that(1) assms(2) by (auto simp: m_def intro!: index_wire)
    ultimately show ?thesis
      unfolding v using that(2) int_shl_const [of res "?v i" "2 ^ i"] by (intro select_step) simp_all
  qed
  then show ?thesis
    unfolding int_shl_def m_def [symmetric]
    by (intro computes_for_upt [where I = ?I]) (use assms(1) in auto)
qed

lemma int_shr:
  assumes "int_wires rep as x" and "0 \<le> x" and "x < 2 ^ length as" and "int_wires rep bs s"
  defines "m \<equiv> min (ceil_log2 (length as)) (length bs - 1)"
  shows "computes ok (int_shr E as bs)
           (\<lambda>ds. length ds = length as \<and> int_wires rep ds (drop_bit (nat (take_bit m s)) x))"
proof -
  let ?v = "\<lambda>k. drop_bit (nat (take_bit k s)) x"
  let ?I = "\<lambda>k ds. length ds = length as \<and> int_wires rep ds (?v k)"
  have "computes ok (do { t \<leftarrow> int_shr_const E res (2 ^ i); int_select E res (int_index bs i) t }) (?I (Suc i))"
    if "i < m" "?I i res" for i res
  proof -
    have v: "?v (Suc i) = (if bit s i then drop_bit (2 ^ i) (?v i) else ?v i)"
      by (simp add: nat_take_bit_Suc add.commute)
    moreover have "rep (int_index bs i) (bit s i)" using that(1) assms(4) by (auto simp: m_def intro!: index_wire)
    moreover have "0 \<le> ?v i" "?v i < 2 ^ length as"
      using assms(2,3) zdiv_mono2 [of x 1 "2 ^ nat (take_bit i s)"]
      by (auto simp: drop_bit_eq_div pos_imp_zdiv_nonneg_iff)
    ultimately show ?thesis
      unfolding v using that(2) int_shr_const [of res "?v i" "2 ^ i"] by (intro select_step) simp_all
  qed
  then show ?thesis
    unfolding int_shr_def m_def [symmetric]
    by (intro computes_for_upt [where I = ?I]) (use assms(1) in auto)
qed

subsection \<open>Counting\<close>

definition counter :: "nat \<Rightarrow> int \<Rightarrow> 'w list \<Rightarrow> int \<Rightarrow> bool" where
  "counter w B ws v \<longleftrightarrow> length ws = w \<and> int_wires rep ws v \<and> 0 \<le> v \<and> v \<le> B"

lemma pair_sums:
  assumes "list_all2 (counter w B) vec vals" and "0 \<le> B"
  shows "computes ok (pair_sums E vec) (\<lambda>zs. list_all2 (counter w (2 * B)) zs (pair_vals vals))"
  using assms(1)
proof (induction vals arbitrary: vec rule: pair_vals.induct)
  case (1 x y vs)
  then obtain a b ws where vec: "vec = a # b # ws" "counter w B a x" "counter w B b y" "list_all2 (counter w B) ws vs"
    by (auto simp: list_all2_Cons2)
  have add: "computes ok (int_add E a b) (\<lambda>z. counter w (2 * B) z (x + y))"
    using vec(2,3) int_add [of a b x y] by (auto simp: counter_def elim!: computes_weaken)
  show ?case
    unfolding vec pair_sums.simps
    by (rule computes_bind [OF add], rule computes_bind [OF "1.IH" [OF vec(4)]]) (auto intro: computes_return)
qed (use assms(2) in \<open>auto simp: list_all2_Cons2 counter_def intro!: computes_return\<close>)

lemma counter_resize:
  assumes "list_all2 (counter w B) vec vals" and "B < 2 ^ w"
  shows "computes ok (map_gates (\<lambda>v. int_resize E v (length v + 1) False) vec)
           (\<lambda>zs. list_all2 (counter (Suc w) B) zs vals)"
  using assms(1)
proof (induction vec vals rule: list_all2_induct)
  case (Cons a as v vs)
  then have "computes ok (int_resize E a (length a + 1) False) (\<lambda>z. counter (Suc w) B z v)"
    using int_resize_unsigned [of a v "length a + 1"] assms(2)
    by (auto simp: counter_def elim!: computes_weaken)
  from this Cons.IH show ?case
    unfolding map_gates.simps
    by - (rule computes_bind, assumption, rule computes_bind, assumption, rule computes_return, simp)
qed (auto intro: computes_return)

lemma hamming_loop:
  assumes "list_all2 (counter (r + 2) (2 ^ r)) vec vals" and "length vals = n" and "0 < n"
  shows "computes ok (hamming_loop E n vec)
           (\<lambda>ds. int_wires rep ds (sum_list vals) \<and> 0 \<le> sum_list vals \<and> sum_list vals < 2 ^ length ds)"
  using assms
proof (induction n arbitrary: r vec vals rule: less_induct)
  case (less n)
  show ?case
  proof (cases "n > 1")
    case False
    then obtain a v where "vec = [a]" "vals = [v]" "counter (r + 2) (2 ^ r) a v"
      using less.prems by (cases vals) (auto simp: list_all2_Cons2)
    moreover have "v < 2 ^ (r + 2)" if "v \<le> 2 ^ r"
      using that by (rule order.strict_trans1) simp
    ultimately show ?thesis
      using False by (auto simp: hamming_loop.simps [of E n] counter_def intro!: computes_return)
  next
    case True
    have "(2 :: int) * 2 ^ r < 2 ^ (r + 2)" by simp
    note resize = counter_resize [OF _ this]
    have IH: "computes ok (hamming_loop E ((n + 1) div 2) zs)
        (\<lambda>ds. int_wires rep ds (sum_list vals) \<and> 0 \<le> sum_list vals \<and> sum_list vals < 2 ^ length ds)"
      if "list_all2 (counter (Suc (r + 2)) (2 * 2 ^ r)) zs (pair_vals vals)" for zs
      using less.IH [of "(n + 1) div 2" "Suc r" zs "pair_vals vals"] that True less.prems(2)
      by (simp add: sum_pair_vals length_pair_vals)
    show ?thesis
      unfolding hamming_loop.simps [of E n] if_P [OF True]
      by (rule computes_bind [OF pair_sums [OF less.prems(1)]], simp, rule computes_bind [OF resize], assumption, rule IH)
  qed
qed

lemma hamming_weight:
  assumes "list_all2 rep ws bs" and "ws \<noteq> []"
  defines "v \<equiv> sum_list (map of_bool bs) :: int"
  shows "computes ok (hamming_weight E ws) (\<lambda>ds. int_wires rep ds v \<and> v < 2 ^ length ds)"
proof -
  have one: "computes ok (do { tmp \<leftarrow> int_public E 2 0; State_Monad.return (tmp[0 := w]) }) (\<lambda>z. counter 2 1 z (of_bool b))"
    if "rep w b" for w b
    using that
    by (intro computes_bind [OF int_public] computes_return)
      (auto simp: counter_def int_wires_nth nth_list_update bit_0 less_2_cases_iff bit_1_iff)
  have "computes ok (map_gates (\<lambda>b. do { tmp \<leftarrow> int_public E 2 0; State_Monad.return (tmp[0 := b]) }) ws)
      (\<lambda>vec. list_all2 (counter 2 1) vec (map of_bool bs))"
    using assms(1)
  proof (induction ws bs rule: list_all2_induct)
    case (Cons w ws b bs)
    then show ?case
      unfolding map_gates.simps
      by (intro computes_bind [OF one [OF Cons(1)]] computes_bind [OF Cons.IH] computes_return) simp
  qed (auto intro: computes_return)
  then show ?thesis
    unfolding hamming_weight_def v_def
  proof (rule computes_bind)
    fix vec assume vec: "list_all2 (counter 2 1) vec (map of_bool bs)"
    then have "length vec = length bs" "0 < length bs"
      using assms(1,2) by (auto dest!: list_all2_lengthD)
    with hamming_loop [where r = 0, unfolded add_0 power_0, OF vec] show "computes ok (hamming_loop E (length vec) vec)
        (\<lambda>ds. int_wires rep ds (sum_list (map of_bool bs)) \<and> sum_list (map of_bool bs) < (2 :: int) ^ length ds)"
      by (auto elim!: computes_weaken)
  qed
qed

lemma smear_step:
  assumes "length res = n" and "\<forall>i<n. rep (res ! i) (if Suc m \<le> i then hi i else bit x i)" and "Suc m < n"
    and hi: "hi m \<longleftrightarrow> hi (Suc m) \<or> bit x m"
  shows "computes ok (do { b \<leftarrow> bit_or E (res ! (m + 1)) (res ! m); State_Monad.return (res[m := b]) })
           (\<lambda>res. length res = n \<and> (\<forall>i<n. rep (res ! i) (if m \<le> i then hi i else bit x i)))"
proof -
  have "rep (res ! (m + 1)) (hi (Suc m))" "rep (res ! m) (bit x m)"
    using assms(2) [rule_format, of "Suc m"] assms(2) [rule_format, of m] assms(3) by simp_all
  then show ?thesis
  proof (rule computes_bind [OF bit_or, OF _ _ computes_return])
    fix b assume b: "rep b (hi (Suc m) \<or> bit x m)"
    have "rep (res[m := b] ! i) (if m \<le> i then hi i else bit x i)" if "i < n" for i
      using assms(2) [rule_format, OF that] b assms(1,3) that by (cases "i = m") (auto simp: hi Suc_le_eq)
    then show "length (res[m := b]) = n \<and> (\<forall>i<n. rep (res[m := b] ! i) (if m \<le> i then hi i else bit x i))"
      using assms(1) by simp
  qed
qed

lemma not_all:
  assumes "list_all2 rep ws bs"
  shows "computes ok (map_gates (bit_not E) ws) (\<lambda>ns. list_all2 rep ns (map Not bs))"
  using assms
proof (induction ws bs rule: list_all2_induct)
  case (Cons w ws b bs)
  show ?case
    unfolding map_gates.simps
    by (rule computes_bind [OF bit_not [OF Cons(1)]], rule computes_bind [OF Cons.IH], rule computes_return) simp
qed (simp add: computes_return)

lemma leading_zeros:
  assumes "int_wires rep ws x" and "ws \<noteq> []"
  defines "v \<equiv> int (zeros_above (length ws) (take_bit (length ws) x))"
  shows "computes ok (leading_zeros E ws) (\<lambda>ds. int_wires rep ds v \<and> v < 2 ^ length ds)"
proof -
  define n where "n = length ws"
  have n: "0 < n" using assms(2) by (simp add: n_def)
  define hi where "hi i \<longleftrightarrow> \<not> take_bit n x < 2 ^ i" for i
  have hi: "hi i \<longleftrightarrow> hi (Suc i) \<or> bit x i" if "i < n" for i
    unfolding hi_def high_bit_iff [symmetric] using that by (metis Suc_le_eq le_neq_implies_less order_refl less_imp_le)
  have "\<not> hi n" by (simp add: hi_def)
  let ?I = "\<lambda>k res. length res = n \<and> (\<forall>i<n. rep (res ! i) (if n - 1 - k \<le> i then hi i else bit x i))"
  have "n - 1 \<le> i \<Longrightarrow> i < n \<Longrightarrow> hi i \<longleftrightarrow> bit x i" for i
    using hi [of i] \<open>\<not> hi n\<close> by (cases "i = n - 1") auto
  then have base: "?I 0 ws" using assms(1) by (simp add: int_wires_nth n_def)
  have step: "computes ok (do { b \<leftarrow> bit_or E (res ! (rev [0..<n - 1] ! k + 1)) (res ! (rev [0..<n - 1] ! k));
      State_Monad.return (res[rev [0..<n - 1] ! k := b]) }) (?I (Suc k))"
    if k: "k < length (rev [0..<n - 1])" and res: "?I k res" for k res
  proof -
    have e: "rev [0..<n - 1] ! k = n - 1 - Suc k" "n - 1 - k = Suc (n - 1 - Suc k)" using k by (simp_all add: rev_nth)
    show ?thesis
      unfolding e(1) by (rule smear_step) (use res k e(2) hi [of "n - 1 - Suc k"] in simp_all)
  qed
  have loop: "computes ok (for_gates (rev [0..<n - 1])
      (\<lambda>i res. do { b \<leftarrow> bit_or E (res ! (i + 1)) (res ! i); State_Monad.return (res[i := b]) }) ws)
      (?I (length (rev [0..<n - 1])))"
    by (rule computes_for_gates [where I = ?I]) (use base step in blast)+
  have "sum_list (map of_bool (map Not (map hi [0..<n]))) = v"
  proof -
    have "sum_list (map of_bool (map Not (map hi xs))) = int (length (filter (\<lambda>i. \<not> hi i) xs))" for xs
      by (induction xs) simp_all
    then show ?thesis by (simp add: v_def zeros_above_def hi_def n_def)
  qed
  moreover have "list_all2 rep res (map hi [0..<n])" if "?I (length (rev [0..<n - 1])) res" for res
    using that by (simp add: list_all2_conv_all_nth)
  ultimately show ?thesis
    unfolding leading_zeros_def n_def [symmetric]
    by - (rule computes_bind [OF loop], rule computes_bind [OF not_all], blast,
        use hamming_weight [of _ "map Not (map hi [0..<n])"] n in fastforce)
qed

subsection \<open>Modular exponentiation\<close>

text \<open>A modular product is exact as long as \<open>q * q\<close> fits the width.\<close>

lemma mod_product:
  assumes "length as = n" "length bs = n" "length qs = n"
    and "int_wires rep as x" and "int_wires rep bs y" and "int_wires rep qs q"
    and q: "1 < q" "q * q \<le> 2 ^ (n - 1)" and n: "0 < n"
    and x: "0 \<le> x" "x < q" and y: "0 \<le> y" "y < q"
  shows "computes ok (do { t \<leftarrow> int_mul E as bs; int_mod E t qs }) (\<lambda>ds. length ds = n \<and> int_wires rep ds (x * y mod q))"
proof (rule computes_bind)
  show "computes ok (int_mul E as bs) (\<lambda>t. length t = n \<and> int_wires rep t (x * y))"
    using int_mul [of as bs x y] assms(1-5) by simp
  fix t assume t: "length t = n \<and> int_wires rep t (x * y)"
  have xy: "0 \<le> x * y" "x * y < q * q" using x y by (auto intro: mult_strict_mono)
  have "q < q * q" using q(1) by simp
  moreover have "- (2 ^ (n - 1)) \<le> (0 :: int)" by simp
  ultimately have "in_range n (x * y)" "in_range n q"
    unfolding in_range_def using q xy n by linarith+
  moreover have "x * y smod q = x * y mod q"
    using xy(1) q(1) by (cases "x * y = 0") (auto simp: signed_modulo_int_def sgn_if)
  ultimately show "computes ok (int_mod E t qs) (\<lambda>ds. length ds = n \<and> int_wires rep ds (x * y mod q))"
    using int_mod [of t qs "x * y" q] t assms(3,6) q(1) by simp
qed

lemma modExp:
  assumes "length ws = n" "length qs = n" and "int_wires rep ws b" and "int_wires rep ps p" and "int_wires rep qs q"
    and q: "1 < q" "q * q \<le> 2 ^ (n - 1)" and b: "0 \<le> b" "b < q"
  shows "computes ok (modExp E ws ps qs)
           (\<lambda>ds. length ds = n \<and> int_wires rep ds (b ^ nat (take_bit (length ps) p) mod q))"
proof -
  let ?r = "\<lambda>k. b ^ nat (take_bit k p) mod q" and ?b = "\<lambda>k. b ^ (2 ^ k) mod q"
  let ?I = "\<lambda>k (res, base). length res = n \<and> int_wires rep res (?r k) \<and> length base = n \<and> int_wires rep base (?b k)"
  have n: "0 < n" using q(2) less_1_mult [OF q(1) q(1)] by (cases n) auto
  have rng: "0 \<le> c mod q" "c mod q < q" for c using q(1) by simp_all
  have step: "computes ok (do { t \<leftarrow> int_mul E res base; tmp \<leftarrow> int_mod E t qs; res \<leftarrow> int_select E res (int_index ps i) tmp;
        bb \<leftarrow> int_mul E base base; base \<leftarrow> int_mod E bb qs; State_Monad.return (res, base) }) (?I (Suc i))"
    if i: "i < length ps" and res: "length res = n" "int_wires rep res (?r i)" and base: "length base = n" "int_wires rep base (?b i)"
    for i res base
  proof -
    have r: "?r (Suc i) = (if bit p i then ?r i * ?b i mod q else ?r i)"
      by (simp add: nat_take_bit_Suc power_add mod_mult_eq)
    have b2: "?b (Suc i) = ?b i * ?b i mod q" by (simp add: power_add mult_2 mod_mult_eq)
    have first: "computes ok (do { t \<leftarrow> int_mul E res base; tmp \<leftarrow> int_mod E t qs; int_select E res (int_index ps i) tmp })
        (\<lambda>ds. length ds = n \<and> int_wires rep ds (?r (Suc i)))"
      using select_step [OF res index_wire [OF assms(4) i]
          mod_product [OF res(1) base(1) assms(2) res(2) base(2) assms(5) q n rng rng]]
      unfolding r by simp
    have second: "computes ok (do { bb \<leftarrow> int_mul E base base; int_mod E bb qs }) (\<lambda>ds. length ds = n \<and> int_wires rep ds (?b (Suc i)))"
      unfolding b2 by (rule mod_product [OF base(1) base(1) assms(2) base(2) base(2) assms(5) q n rng rng])
    have "computes ok (do { res \<leftarrow> do { t \<leftarrow> int_mul E res base; tmp \<leftarrow> int_mod E t qs; int_select E res (int_index ps i) tmp };
        base \<leftarrow> do { bb \<leftarrow> int_mul E base base; int_mod E bb qs }; State_Monad.return (res, base) }) (?I (Suc i))"
      by (rule computes_bind [OF first], rule computes_bind [OF second], rule computes_return) simp
    then show ?thesis by simp
  qed
  show ?thesis
    unfolding modExp_def
  proof (rule computes_bind [OF int_public], rule computes_bind)
    fix one assume "length one = length ws \<and> int_wires rep one (sint (1 :: 64 word))"
    then have "?I 0 (one, ws)" using assms(1,3) b q(1) by simp
    then show "computes ok (for_gates [0..<length ps] (\<lambda>i (res, base). do {
            t \<leftarrow> int_mul E res base; tmp \<leftarrow> int_mod E t qs; res \<leftarrow> int_select E res (int_index ps i) tmp;
            bb \<leftarrow> int_mul E base base; base \<leftarrow> int_mod E bb qs; State_Monad.return (res, base) }) (one, ws)) (?I (length ps))"
      by (rule computes_for_upt [where I = ?I]) (use step in auto)
  qed (auto intro: computes_return)
qed

end

subsection \<open>Inputs and outputs through a protocol\<close>

lemma fold_bitset:
  "bit (fold (\<lambda>i bs. if b ! i then set_bit i bs else unset_bit i bs) [0..<n] (0 :: 'a::len word)) k
     \<longleftrightarrow> k < n \<and> k < LENGTH('a) \<and> b ! k"
  by (induction n) (auto simp: bit_set_bit_iff bit_unset_bit_iff less_Suc_eq)

context protocol_backend
begin

lemma int_init: "computes ok (int_init E P b party) (\<lambda>ws. list_all2 rep ws b)"
proof (cases "party = PUBLIC")
  case True
  then show ?thesis
    by (auto simp: int_init_def list_all2_conv_all_nth intro!: computes_bind [OF public_label] computes_return)
qed (simp add: int_init_def feed)

lemma Integer_new: "computes ok (Integer_new E P n w party) (\<lambda>ws. length ws = n \<and> int_wires rep ws (sint w))"
  unfolding Integer_new_def
  by (rule computes_weaken [OF int_init])
    (auto simp: list_all2_conv_all_nth int_wires_nth int_to_bool_s64_nth bit_sint_min)

lemma Integer_of_memory:
  "computes ok (Integer_of_memory E P n m party)
     (\<lambda>ws. length ws = n \<and> (\<forall>i<n. rep (ws ! i) (bit (m (i div 8)) (i mod 8))))"
  unfolding Integer_of_memory_def
  by (rule computes_weaken [OF int_init]) (auto simp: list_all2_conv_all_nth to_bool_nth)

lemma reveal_wires:
  assumes "int_wires rep ws v"
  shows "computes ok (reveal P party ws) (\<lambda>bs. bs = map (bit v) [0..<length ws])"
  by (rule reveal) (use assms in \<open>simp add: int_wires_nth list_all2_conv_all_nth\<close>)

lemma reveal_u32:
  assumes "int_wires rep ws v"
  shows "computes ok (reveal_u32 P ws party) (\<lambda>u. u = word_of_int (take_bit (length ws) v))"
  unfolding reveal_u32_def
  by (rule computes_bind [OF reveal_wires [OF assms]])
    (auto intro!: computes_return bit_word_eqI simp: fold_bitset bit_take_bit_iff bit_word_of_int_iff)

lemma reveal_u64:
  assumes "int_wires rep ws v"
  shows "computes ok (reveal_u64 P ws party) (\<lambda>u. u = word_of_int (take_bit (length ws) v))"
  unfolding reveal_u64_def
  by (rule computes_bind [OF reveal_wires [OF assms]])
    (auto intro!: computes_return bit_word_eqI simp: fold_bitset bit_take_bit_iff bit_word_of_int_iff)

lemma reveal_string:
  assumes "int_wires rep ws v"
  shows "computes ok (reveal_string P ws party)
           (\<lambda>r. r = map (\<lambda>i. if bit v i then CHR ''1'' else CHR ''0'') [0..<length ws])"
proof -
  have "fold (\<lambda>v res. res @ (if v then ''1'' else ''0'')) bs acc = acc @ map (\<lambda>v. if v then CHR ''1'' else CHR ''0'') bs"
    for bs acc by (induction bs arbitrary: acc) auto
  then show ?thesis
    unfolding reveal_string_def
    by (intro computes_bind [OF reveal_wires [OF assms]] computes_return) simp
qed

end

end
