(* ===== verification/BitonicSort.thy ===== *)
theory BitonicSort
  imports IntegerOps "HOL-Library.Multiset"
begin

text \<open>
  Oblivious sorting, \<^verbatim>\<open>emp-tool/circuits/number.h\<close>: bitonic sort for arrays of any length over
  circuits.  \<open>pmerge\<close> and \<open>psort\<close> run the same network on plain values; they permute the entries
  and sort them by key, which is proved with the 0-1 principle: a network of compare-exchange
  steps commutes with every threshold.  The circuits refine them on every backend.
  Lengths and indices are natural numbers; the \<^verbatim>\<open>int\<close> of \<^verbatim>\<open>greatestPowerOfTwoLessThan\<close> overflows above \<open>2 ^ 30\<close> elements.
\<close>

subsection \<open>The circuit\<close>

definition cmp_swap ::
  "('s, 'w) circuit_execution \<Rightarrow> nat \<Rightarrow> nat \<Rightarrow> 'w \<Rightarrow> 'w list arr \<times> 'w list arr option \<Rightarrow>
     ('s, 'w list arr \<times> 'w list arr option) state" where
  "cmp_swap E i j acc = (\<lambda>(key, data). do {
     gt \<leftarrow> int_greater E (key i) (key j);
     to_swap \<leftarrow> bit_equals E gt acc;
     (a, b) \<leftarrow> int_swap E to_swap (key i) (key j);
     (case data of
        None \<Rightarrow> State_Monad.return (key(i := a, j := b), None)
      | Some d \<Rightarrow> do {
          (p, q) \<leftarrow> int_swap E to_swap (d i) (d j);
          State_Monad.return (key(i := a, j := b), Some (d(i := p, j := q))) }) })"

function pow2_loop :: "nat \<Rightarrow> nat \<Rightarrow> nat" where
  "pow2_loop k n = (if 0 < k \<and> k < n then pow2_loop (2 * k) n else k)"
  by pat_completeness auto
termination by (relation "measure (\<lambda>(k, n). n - k)") auto

declare pow2_loop.simps [simp del]

definition greatestPowerOfTwoLessThan :: "nat \<Rightarrow> nat" where
  "greatestPowerOfTwoLessThan n = pow2_loop 1 n div 2"

lemma pow2_loop_spec:
  assumes "2 ^ k \<le> n \<or> k = 0" and "0 < n"
  shows "\<exists>e. pow2_loop (2 ^ k) n = 2 ^ e \<and> n \<le> 2 ^ e \<and> (e = 0 \<or> 2 ^ (e - 1) < n)"
  using assms
proof (induction "n - 2 ^ k" arbitrary: k rule: less_induct)
  case less
  show ?case
  proof (cases "2 ^ k < n")
    case True
    show ?thesis
    proof (cases "2 ^ Suc k \<le> n")
      case le: True
      have "n - 2 ^ Suc k < n - 2 ^ k" using True le by (simp add: diff_less_mono2)
      from less.hyps [OF this] show ?thesis
        using le True less.prems(2) by (simp add: pow2_loop.simps [of "2 ^ k"])
    next
      case False
      then have "pow2_loop (2 ^ k) n = 2 ^ Suc k"
        using True by (simp add: pow2_loop.simps [of "2 ^ k"] pow2_loop.simps [of "2 * 2 ^ k"])
      then show ?thesis using True False by (intro exI [of _ "Suc k"]) auto
    qed
  next
    case False
    then have "pow2_loop (2 ^ k) n = 2 ^ k" by (simp add: pow2_loop.simps [of "2 ^ k"])
    moreover have "n = 2 ^ k \<or> k = 0 \<and> n = 1" using False less.prems by auto
    ultimately show ?thesis by (intro exI [of _ k]) (cases k; auto)
  qed
qed

lemma greatestPowerOfTwoLessThan_spec:
  assumes "1 < n"
  obtains e where "greatestPowerOfTwoLessThan n = 2 ^ e" "2 ^ e < n" "n \<le> 2 * 2 ^ e"
proof -
  obtain e where e: "pow2_loop 1 n = 2 ^ e" "n \<le> 2 ^ e" "e = 0 \<or> 2 ^ (e - 1) < n"
    using pow2_loop_spec [of 0 n] assms by auto
  then have "e \<noteq> 0" using assms by (cases e) auto
  then show ?thesis
    using e that [of "e - 1"] by (cases e) (simp_all add: greatestPowerOfTwoLessThan_def)
qed

lemma greatestPowerOfTwoLessThan_bounds:
  assumes "1 < n"
  shows "0 < greatestPowerOfTwoLessThan n" and "greatestPowerOfTwoLessThan n < n"
    and "n \<le> 2 * greatestPowerOfTwoLessThan n"
  using greatestPowerOfTwoLessThan_spec [OF assms] by (metis zero_less_numeral zero_less_power)+

function bitonic_merge ::
  "('s, 'w) circuit_execution \<Rightarrow> nat \<Rightarrow> nat \<Rightarrow> 'w \<Rightarrow> 'w list arr \<times> 'w list arr option \<Rightarrow>
     ('s, 'w list arr \<times> 'w list arr option) state" where
  "bitonic_merge E lo n acc st =
     (if n > 1 then
        let m = greatestPowerOfTwoLessThan n in do {
          st \<leftarrow> for_gates [lo..<lo + n - m] (\<lambda>i. cmp_swap E i (i + m) acc) st;
          st \<leftarrow> bitonic_merge E lo m acc st;
          bitonic_merge E (lo + m) (n - m) acc st }
      else State_Monad.return st)"
  by pat_completeness auto
termination
  by (relation "measure (\<lambda>(E, lo, n, acc, st). n)") (auto simp: greatestPowerOfTwoLessThan_bounds)

function bitonic_sort ::
  "('s, 'w) circuit_execution \<Rightarrow> nat \<Rightarrow> nat \<Rightarrow> 'w \<Rightarrow> 'w list arr \<times> 'w list arr option \<Rightarrow>
     ('s, 'w list arr \<times> 'w list arr option) state" where
  "bitonic_sort E lo n acc st =
     (if n > 1 then
        let m = n div 2 in do {
          nacc \<leftarrow> bit_not E acc;
          st \<leftarrow> bitonic_sort E lo m nacc st;
          st \<leftarrow> bitonic_sort E (lo + m) (n - m) acc st;
          bitonic_merge E lo n acc st }
      else State_Monad.return st)"
  by pat_completeness auto
termination by (relation "measure (\<lambda>(E, lo, n, acc, st). n)") auto

definition emp_sort ::
  "('s, 'w) circuit_execution \<Rightarrow> 'w list arr \<Rightarrow> nat \<Rightarrow> 'w list arr option \<Rightarrow> 'w \<Rightarrow>
     ('s, 'w list arr \<times> 'w list arr option) state" where
  "emp_sort E key len data acc = bitonic_sort E 0 len acc (key, data)"

declare bitonic_merge.simps [simp del] bitonic_sort.simps [simp del]

subsection \<open>The network on plain entries\<close>

text \<open>An entry is a key with its data.\<close>

definition pswap :: "bool \<Rightarrow> nat \<Rightarrow> nat \<Rightarrow> (int \<times> 'd) arr \<Rightarrow> (int \<times> 'd) arr" where
  "pswap acc i j X = (if (fst (X i) > fst (X j)) = acc then X(i := X j, j := X i) else X)"

function pmerge :: "bool \<Rightarrow> nat \<Rightarrow> nat \<Rightarrow> (int \<times> 'd) arr \<Rightarrow> (int \<times> 'd) arr" where
  "pmerge acc lo n X =
     (if n > 1 then
        let m = greatestPowerOfTwoLessThan n;
            X = fold (\<lambda>i. pswap acc i (i + m)) [lo..<lo + n - m] X
        in pmerge acc (lo + m) (n - m) (pmerge acc lo m X)
      else X)"
  by pat_completeness auto
termination
  by (relation "measure (\<lambda>(acc, lo, n, X). n)") (auto simp: greatestPowerOfTwoLessThan_bounds)

function psort :: "bool \<Rightarrow> nat \<Rightarrow> nat \<Rightarrow> (int \<times> 'd) arr \<Rightarrow> (int \<times> 'd) arr" where
  "psort acc lo n X =
     (if n > 1 then
        let m = n div 2 in pmerge acc lo n (psort acc (lo + m) (n - m) (psort (\<not> acc) lo m X))
      else X)"
  by pat_completeness auto
termination by (relation "measure (\<lambda>(acc, lo, n, X). n)") auto

declare pmerge.simps [simp del] psort.simps [simp del]

subsection \<open>Entries are permuted\<close>

definition entries :: "nat \<Rightarrow> 'a arr \<Rightarrow> 'a multiset" where
  "entries N X = mset (map X [0..<N])"

lemma entries_swap:
  assumes "i < N" and "j < N"
  shows "entries N (X(i := X j, j := X i)) = entries N X"
proof -
  have "map (X(i := X j, j := X i)) [0..<N] = (map X [0..<N])[i := map X [0..<N] ! j, j := map X [0..<N] ! i]"
    using assms by (auto intro!: nth_equalityI simp: nth_list_update)
  then show ?thesis unfolding entries_def using mset_swap [of j "map X [0..<N]" i] assms by (simp del: mset_map)
qed

lemma pswap_entries: "i < N \<Longrightarrow> j < N \<Longrightarrow> entries N (pswap acc i j X) = entries N X"
  by (simp add: pswap_def entries_swap)

lemma pmerge_entries: "lo + n \<le> N \<Longrightarrow> entries N (pmerge acc lo n X) = entries N X"
proof (induction acc lo n X rule: pmerge.induct)
  case (1 acc lo n X)
  show ?case
  proof (cases "n > 1")
    case True
    define m where "m = greatestPowerOfTwoLessThan n"
    have m: "m < n" using greatestPowerOfTwoLessThan_bounds [OF True] by (simp add: m_def)
    have "entries N (fold (\<lambda>i. pswap acc i (i + m)) js X) = entries N X"
      if "set js \<subseteq> {lo..<lo + n - m}" for js X
      using that m "1.prems" by (induction js arbitrary: X) (auto simp: pswap_entries)
    from this [of "[lo..<lo + n - m]"]
    have "entries N (fold (\<lambda>i. pswap acc i (i + m)) [lo..<lo + n - m] X) = entries N X" by simp
    then show ?thesis
      using "1.IH" True "1.prems" m by (simp add: pmerge.simps [of acc lo n] Let_def m_def [symmetric])
  qed (simp add: pmerge.simps [of acc lo n])
qed

lemma psort_entries: "lo + n \<le> N \<Longrightarrow> entries N (psort acc lo n X) = entries N X"
proof (induction acc lo n X rule: psort.induct)
  case (1 acc lo n X)
  then show ?case
    by (cases "n > 1") (simp_all add: psort.simps [of acc lo n] Let_def pmerge_entries)
qed

subsection \<open>Keys and thresholds\<close>

text \<open>Ascending merge on bits: the threshold image of the network.\<close>

definition bswaps :: "nat \<Rightarrow> nat \<Rightarrow> nat \<Rightarrow> bool arr \<Rightarrow> bool arr" where
  "bswaps lo c m w = (\<lambda>k.
     if lo \<le> k \<and> k < lo + c then w k \<and> w (k + m)
     else if lo + m \<le> k \<and> k < lo + m + c then w (k - m) \<or> w k
     else w k)"

function bmerge :: "nat \<Rightarrow> nat \<Rightarrow> bool arr \<Rightarrow> bool arr" where
  "bmerge lo n w =
     (if n > 1 then
        let m = greatestPowerOfTwoLessThan n in bmerge (lo + m) (n - m) (bmerge lo m (bswaps lo (n - m) m w))
      else w)"
  by pat_completeness auto
termination
  by (relation "measure (\<lambda>(lo, n, w). n)") (auto simp: greatestPowerOfTwoLessThan_bounds)

declare bmerge.simps [simp del]

text \<open>A threshold of the keys: \<open>t \<le> key\<close> for an ascending, \<open>key \<le> t\<close> for a descending network.\<close>

definition above :: "bool \<Rightarrow> int \<Rightarrow> (int \<times> 'd) arr \<Rightarrow> bool arr" where
  "above acc t X = (\<lambda>k. if acc then t \<le> fst (X k) else fst (X k) \<le> t)"

lemma above_pswap:
  assumes "i \<noteq> j"
  shows "above acc t (pswap acc i j X)
    = (above acc t X)(i := above acc t X i \<and> above acc t X j, j := above acc t X i \<or> above acc t X j)"
  using assms by (cases acc) (auto simp: above_def pswap_def fun_eq_iff)

lemma above_swaps:
  assumes "c \<le> m" and "0 < m"
  shows "above acc t (fold (\<lambda>i. pswap acc i (i + m)) [lo..<lo + c] X) = bswaps lo c m (above acc t X)"
  using assms(1)
proof (induction c)
  case 0 then show ?case by (auto simp: bswaps_def fun_eq_iff)
next
  case (Suc c)
  let ?w = "bswaps lo c m (above acc t X)"
  have "above acc t (fold (\<lambda>i. pswap acc i (i + m)) [lo..<lo + Suc c] X)
      = ?w(lo + c := ?w (lo + c) \<and> ?w (lo + c + m), lo + c + m := ?w (lo + c) \<or> ?w (lo + c + m))"
    using Suc assms(2) by (simp add: above_pswap)
  also have "\<dots> = bswaps lo (Suc c) m (above acc t X)"
  proof
    fix k
    consider "k = lo + c" | "k = lo + c + m" | "k \<noteq> lo + c" "k \<noteq> lo + c + m" by blast
    then show "(?w(lo + c := ?w (lo + c) \<and> ?w (lo + c + m), lo + c + m := ?w (lo + c) \<or> ?w (lo + c + m))) k
        = bswaps lo (Suc c) m (above acc t X) k"
    proof cases
      case 1 then show ?thesis using Suc.prems assms(2) by (simp add: bswaps_def)
    next
      case 2 then show ?thesis using Suc.prems assms(2) by (simp add: bswaps_def)
    next
      case 3
      then have e: "k < lo + Suc c \<longleftrightarrow> k < lo + c" "k < lo + m + Suc c \<longleftrightarrow> k < lo + m + c" by linarith+
      show ?thesis unfolding bswaps_def e using 3 by (simp only: fun_upd_apply if_False)
    qed
  qed
  finally show ?case .
qed

lemma above_pmerge: "above acc t (pmerge acc lo n X) = bmerge lo n (above acc t X)"
proof (induction acc lo n X rule: pmerge.induct)
  case (1 acc lo n X)
  show ?case
  proof (cases "n > 1")
    case True
    define m where "m = greatestPowerOfTwoLessThan n"
    have m: "n - m \<le> m" "0 < m" "lo + n - m = lo + (n - m)"
      using greatestPowerOfTwoLessThan_bounds [OF True] unfolding m_def [symmetric] by linarith+
    then show ?thesis
      using "1.IH" [OF True m_def refl] True above_swaps [OF m(1,2), of acc t lo X]
      by (simp add: pmerge.simps [of acc lo n] bmerge.simps [of lo n] Let_def m_def [symmetric])
  qed (simp add: pmerge.simps [of acc lo n] bmerge.simps [of lo n])
qed

subsection \<open>Merging bit sequences\<close>

text \<open>\<open>arc lo n w\<close>: on \<open>lo, \<dots>, lo + n - 1\<close> the bits change at most twice; \<open>valley\<close>: ones, zeros, ones.\<close>

definition valley :: "nat \<Rightarrow> nat \<Rightarrow> bool arr \<Rightarrow> bool" where
  "valley lo n w \<longleftrightarrow> (\<exists>a b. \<forall>i<n. w (lo + i) \<longleftrightarrow> \<not> (a \<le> i \<and> i < b))"

definition hill :: "nat \<Rightarrow> nat \<Rightarrow> bool arr \<Rightarrow> bool" where
  "hill lo n w \<longleftrightarrow> (\<exists>a b. \<forall>i<n. w (lo + i) \<longleftrightarrow> a \<le> i \<and> i < b)"

definition ascending :: "nat \<Rightarrow> nat \<Rightarrow> bool arr \<Rightarrow> bool" where
  "ascending lo n w \<longleftrightarrow> (\<exists>a. \<forall>i<n. w (lo + i) \<longleftrightarrow> a \<le> i)"

text \<open>One round of compare-exchange.\<close>

lemma bswaps_lower: "i < c \<Longrightarrow> bswaps lo c m w (lo + i) \<longleftrightarrow> w (lo + i) \<and> w (lo + (i + m))"
  by (simp add: bswaps_def add.assoc)

lemma bswaps_upper: "c \<le> m \<Longrightarrow> i < c \<Longrightarrow> bswaps lo c m w (lo + m + i) \<longleftrightarrow> w (lo + i) \<or> w (lo + (i + m))"
  by (simp add: bswaps_def) (simp add: ac_simps)

lemma bswaps_middle: "c \<le> i \<Longrightarrow> i < m \<Longrightarrow> bswaps lo c m w (lo + i) \<longleftrightarrow> w (lo + i)"
  by (simp add: bswaps_def)

lemma bswaps_outside: "k < lo \<or> lo + m + c \<le> k \<Longrightarrow> bswaps lo c m w k = w k"
  by (auto simp: bswaps_def)

lemma bmerge_outside: "k < lo \<or> lo + n \<le> k \<Longrightarrow> bmerge lo n w k = w k"
proof (induction lo n w rule: bmerge.induct)
  case (1 lo n w)
  show ?case
  proof (cases "n > 1")
    case True
    define m where "m = greatestPowerOfTwoLessThan n"
    note b = greatestPowerOfTwoLessThan_bounds [OF True, folded m_def]
    have k: "k < lo \<or> lo + m \<le> k" "k < lo + m \<or> lo + m + (n - m) \<le> k" "k < lo \<or> lo + m + (n - m) \<le> k"
      using "1.prems" b by auto
    show ?thesis
      using "1.IH"(2) [OF True m_def k(2)] "1.IH"(1) [OF True m_def k(1)] bswaps_outside [OF k(3)] True
      by (simp add: bmerge.simps [of lo n] Let_def m_def [symmetric])
  qed (simp add: bmerge.simps [of lo n])
qed

lemma half_clean_hill:
  assumes "hill lo (2 * m) w"
  shows "hill lo m (bswaps lo m m w) \<and> (hill (lo + m) m (bswaps lo m m w) \<or> valley (lo + m) m (bswaps lo m m w))
     \<and> ((\<forall>i<m. \<not> bswaps lo m m w (lo + i)) \<or> (\<forall>i<m. bswaps lo m m w (lo + m + i)))"
proof -
  obtain a b' where "i < 2 * m \<Longrightarrow> w (lo + i) \<longleftrightarrow> a \<le> i \<and> i < b'" for i
    using assms unfolding hill_def by blast
  then obtain b where w: "i < 2 * m \<Longrightarrow> w (lo + i) \<longleftrightarrow> a \<le> i \<and> i < b" and b: "b \<le> 2 * m" for i
    using that [of "min b' (2 * m)"] by auto
  have lo: "bswaps lo m m w (lo + i) \<longleftrightarrow> a \<le> i \<and> i + m < b" if "i < m" for i
    using that w [of i] w [of "i + m"] by (simp add: bswaps_lower) linarith
  have up: "bswaps lo m m w (lo + m + i) \<longleftrightarrow> a \<le> i \<and> i < b \<or> a \<le> i + m \<and> i + m < b" if "i < m" for i
    using that w [of i] w [of "i + m"] by (simp add: bswaps_upper)
  have "hill lo m (bswaps lo m m w)"
    unfolding hill_def using lo by (intro exI [of _ a] exI [of _ "b - m"]) auto
  moreover have "hill (lo + m) m (bswaps lo m m w) \<or> valley (lo + m) m (bswaps lo m m w)"
  proof -
    consider "b \<le> m" | "m \<le> a" | "a < m" "m < b" by linarith
    then show ?thesis
    proof cases
      case 1 then have "hill (lo + m) m (bswaps lo m m w)"
        unfolding hill_def using up by (intro exI [of _ a] exI [of _ b]) auto
      then show ?thesis ..
    next
      case 2 then have "hill (lo + m) m (bswaps lo m m w)"
        unfolding hill_def using up by (intro exI [of _ "a - m"] exI [of _ "b - m"]) auto
      then show ?thesis ..
    next
      case 3 then have "valley (lo + m) m (bswaps lo m m w)"
        unfolding valley_def using up by (intro exI [of _ "b - m"] exI [of _ a]) auto
      then show ?thesis ..
    qed
  qed
  moreover have "(\<forall>i<m. \<not> bswaps lo m m w (lo + i)) \<or> (\<forall>i<m. bswaps lo m m w (lo + m + i))"
  proof (cases "b \<le> a + m")
    case True then have "\<forall>i<m. \<not> bswaps lo m m w (lo + i)" using lo by auto
    then show ?thesis ..
  next
    case False
    then have "bswaps lo m m w (lo + m + i)" if "i < m" for i
      unfolding up [OF that] using b that by linarith
    then show ?thesis by blast
  qed
  ultimately show ?thesis by blast
qed

lemma hill_dual: "(\<And>i. i < n \<Longrightarrow> v (lo + i) = (\<not> u (lo' + i))) \<Longrightarrow> hill lo n v \<Longrightarrow> valley lo' n u"
  unfolding hill_def valley_def by (metis (no_types, lifting))

lemma valley_dual: "(\<And>i. i < n \<Longrightarrow> v (lo + i) = (\<not> u (lo' + i))) \<Longrightarrow> valley lo n v \<Longrightarrow> hill lo' n u"
  unfolding hill_def valley_def by (metis (no_types, lifting))

lemma half_clean_valley:
  assumes "valley lo (2 * m) w"
  shows "valley (lo + m) m (bswaps lo m m w) \<and> (hill lo m (bswaps lo m m w) \<or> valley lo m (bswaps lo m m w))
     \<and> ((\<forall>i<m. \<not> bswaps lo m m w (lo + i)) \<or> (\<forall>i<m. bswaps lo m m w (lo + m + i)))"
proof -
  let ?w = "\<lambda>k. \<not> w k"
  have "hill lo (2 * m) ?w" using assms by (auto simp: hill_def valley_def)
  note h = half_clean_hill [OF this]
  have lo: "bswaps lo m m ?w (lo + i) \<longleftrightarrow> \<not> bswaps lo m m w (lo + m + i)" if "i < m" for i
    using that by (simp add: bswaps_lower bswaps_upper)
  have up: "bswaps lo m m ?w (lo + m + i) \<longleftrightarrow> \<not> bswaps lo m m w (lo + i)" if "i < m" for i
    using that by (simp add: bswaps_lower bswaps_upper)
  have "valley (lo + m) m (bswaps lo m m w)" using h hill_dual [where v = "bswaps lo m m ?w" and u = "bswaps lo m m w" and lo' = "lo + m"] lo by blast
  moreover have "hill lo m (bswaps lo m m w) \<or> valley lo m (bswaps lo m m w)"
    using h up hill_dual [where v = "bswaps lo m m ?w" and u = "bswaps lo m m w" and lo = "lo + m" and lo' = lo]
      valley_dual [where v = "bswaps lo m m ?w" and u = "bswaps lo m m w" and lo = "lo + m" and lo' = lo] by blast
  moreover have "(\<forall>i<m. \<not> bswaps lo m m w (lo + i)) \<or> (\<forall>i<m. bswaps lo m m w (lo + m + i))"
    using h lo up by metis
  ultimately show ?thesis by blast
qed

lemma bmerge_const:
  assumes "\<forall>i<n. w (lo + i) = v"
  shows "\<forall>i<n. bmerge lo n w (lo + i) = v"
  using assms
proof (induction lo n w rule: bmerge.induct)
  case (1 lo n w)
  show ?case
  proof (cases "n > 1")
    case True
    define m where "m = greatestPowerOfTwoLessThan n"
    note b = greatestPowerOfTwoLessThan_bounds [OF True, folded m_def]
    let ?s = "bswaps lo (n - m) m w"
    have s: "?s (lo + i) = v" if i: "i < n" for i
    proof -
      consider "i < n - m" | "n - m \<le> i" "i < m" | "m \<le> i" by linarith
      then consider "i < n - m" | "n - m \<le> i" "i < m" | j where "i = m + j" "j < n - m"
      proof cases
        case 3 then show ?thesis using that(3) [of "i - m"] i by simp
      qed (use that in blast)+
      then show ?thesis
      proof cases
        case 3
        then have "?s (lo + m + j) \<longleftrightarrow> w (lo + j) \<or> w (lo + (j + m))" using b by (intro bswaps_upper) simp_all
        then show ?thesis using 3 "1.prems" b by (simp add: add.assoc)
      qed (use i "1.prems" b in \<open>simp_all add: bswaps_lower bswaps_middle\<close>)
    qed
    have l: "\<forall>i<m. bmerge lo m ?s (lo + i) = v" using "1.IH"(1) [OF True m_def] s b by simp
    have "bmerge lo m ?s (lo + i) = v" if "i < n" for i
      using l that s bmerge_outside [of "lo + i" lo m ?s] by (cases "i < m") auto
    then have u: "\<forall>i<n - m. bmerge (lo + m) (n - m) (bmerge lo m ?s) (lo + m + i) = v"
      using "1.IH"(2) [OF True m_def] by (simp add: add.assoc)
    have "bmerge (lo + m) (n - m) (bmerge lo m ?s) (lo + i) = v" if "i < n" for i
      using l u [rule_format, of "i - m"] that bmerge_outside [of "lo + i" "lo + m" "n - m"] by (cases "i < m") auto
    then show ?thesis using True by (simp add: bmerge.simps [of lo n] Let_def m_def [symmetric])
  qed (use "1.prems" in \<open>simp add: bmerge.simps [of lo n]\<close>)
qed

lemma ascending_join:
  assumes "ascending lo m u" and "ascending (lo + m) c u"
    and "(\<forall>i<m. \<not> u (lo + i)) \<or> (\<forall>i<c. u (lo + m + i))"
  shows "ascending lo (m + c) u"
proof -
  obtain a where a: "i < m \<Longrightarrow> u (lo + i) \<longleftrightarrow> a \<le> i" for i using assms(1) by (auto simp: ascending_def)
  obtain d where d: "i < c \<Longrightarrow> u (lo + m + i) \<longleftrightarrow> d \<le> i" for i using assms(2) by (auto simp: ascending_def)
  have split: "u (lo + i) \<longleftrightarrow> (if i < m then a \<le> i else d \<le> i - m)" if "i < m + c" for i
    using that a [of i] d [of "i - m"] by (cases "i < m") auto
  show ?thesis
  proof (cases "\<forall>i<m. \<not> u (lo + i)")
    case True
    then have "i < m \<Longrightarrow> \<not> a \<le> i" for i using a by blast
    then show ?thesis
      unfolding ascending_def using split by (intro exI [of _ "m + d"]) auto
  next
    case False
    then have "i < c \<Longrightarrow> d \<le> i" for i using assms(3) d by blast
    moreover have "a < m" using False a by (metis le_less_trans)
    ultimately show ?thesis
      unfolding ascending_def using split by (intro exI [of _ a]) auto
  qed
qed

text \<open>Both halves sorted after a round of compare-exchange that separates them.\<close>

lemma bmerge_halves:
  assumes n: "1 < n" and m: "m = greatestPowerOfTwoLessThan n" and s: "s = bswaps lo (n - m) m w"
    and "ascending lo m (bmerge lo m s)"
    and "ascending (lo + m) (n - m) (bmerge (lo + m) (n - m) (bmerge lo m s))"
    and "(\<forall>i<m. \<not> s (lo + i)) \<or> (\<forall>i<n - m. s (lo + m + i))"
  shows "ascending lo n (bmerge lo n w)"
proof -
  let ?u = "bmerge (lo + m) (n - m) (bmerge lo m s)"
  have low: "?u (lo + i) = bmerge lo m s (lo + i)" if "i < m" for i
    using that by (simp add: bmerge_outside)
  have high: "bmerge lo m s (lo + m + i) = s (lo + m + i)" for i
    by (simp add: bmerge_outside)
  have "ascending lo m ?u" using assms(4) low unfolding ascending_def by auto
  moreover have "(\<forall>i<m. \<not> ?u (lo + i)) \<or> (\<forall>i<n - m. ?u (lo + m + i))"
    using assms(6) bmerge_const [of m s lo False] bmerge_const [of "n - m" "bmerge lo m s" "lo + m" True] low high by auto
  ultimately have "ascending lo (m + (n - m)) ?u" using assms(5) by (intro ascending_join)
  then show ?thesis
    using n greatestPowerOfTwoLessThan_bounds [OF n] by (simp add: bmerge.simps [of lo n] Let_def m s)
qed

lemma hill_cong: "(\<And>i. i < n \<Longrightarrow> u (lo + i) = w (lo + i)) \<Longrightarrow> hill lo n u = hill lo n w"
  by (simp add: hill_def)

lemma valley_cong: "(\<And>i. i < n \<Longrightarrow> u (lo + i) = w (lo + i)) \<Longrightarrow> valley lo n u = valley lo n w"
  by (simp add: valley_def)

lemma bmerge_pow2:
  assumes "hill lo (2 ^ k) w \<or> valley lo (2 ^ k) w"
  shows "ascending lo (2 ^ k) (bmerge lo (2 ^ k) w)"
  using assms
proof (induction k arbitrary: lo w)
  case 0
  have "ascending lo 1 w" unfolding ascending_def by (intro exI [of _ "of_bool (\<not> w lo)"]) auto
  then show ?case by (simp add: bmerge.simps [of lo])
next
  case (Suc k)
  let ?m = "2 ^ k :: nat"
  let ?s = "bswaps lo ?m ?m w"
  have one: "1 < (2 ^ Suc k :: nat)" by (rule one_less_power) simp_all
  obtain e where e: "greatestPowerOfTwoLessThan (2 ^ Suc k) = 2 ^ e" "2 ^ e < (2 ^ Suc k :: nat)" "2 ^ Suc k \<le> 2 * (2 ^ e :: nat)"
    by (rule greatestPowerOfTwoLessThan_spec [OF one])
  then have "e = k" by (metis Suc_le_mono le_antisym less_Suc_eq_le one_less_numeral_iff power_Suc power_increasing_iff power_strict_increasing_iff semiring_norm(76))
  then have gp: "?m = greatestPowerOfTwoLessThan (2 ^ Suc k)" using e(1) by simp
  have w: "hill lo (2 * ?m) w \<or> valley lo (2 * ?m) w" using Suc.prems by simp
  have halves: "hill lo ?m ?s \<or> valley lo ?m ?s" "hill (lo + ?m) ?m ?s \<or> valley (lo + ?m) ?m ?s"
    "(\<forall>i<?m. \<not> ?s (lo + i)) \<or> (\<forall>i<?m. ?s (lo + ?m + i))"
    using w half_clean_hill [of lo ?m w] half_clean_valley [of lo ?m w] by blast+
  have high: "bmerge lo ?m ?s (lo + ?m + i) = ?s (lo + ?m + i)" for i by (simp add: bmerge_outside)
  have up: "hill (lo + ?m) ?m (bmerge lo ?m ?s) \<or> valley (lo + ?m) ?m (bmerge lo ?m ?s)"
    using halves(2) high hill_cong [of ?m "bmerge lo ?m ?s" "lo + ?m" ?s]
      valley_cong [of ?m "bmerge lo ?m ?s" "lo + ?m" ?s] by blast
  show ?case
    by (rule bmerge_halves [OF one gp refl]) (use Suc.IH [OF halves(1)] Suc.IH [OF up] halves(3) in simp_all)
qed

lemma bmerge_valley:
  assumes "valley lo n w"
  shows "ascending lo n (bmerge lo n w)"
  using assms
proof (induction n arbitrary: lo w rule: less_induct)
  case (less n)
  show ?case
  proof (cases "n > 1")
    case False
    then consider "n = 0" | "n = 1" by linarith
    then have "ascending lo n w"
      unfolding ascending_def by cases (auto intro!: exI [of _ "of_bool (\<not> w lo)"])
    then show ?thesis using False by (simp add: bmerge.simps [of lo])
  next
    case True
    obtain e where e: "greatestPowerOfTwoLessThan n = 2 ^ e" "2 ^ e < n" "n \<le> 2 * 2 ^ e"
      by (rule greatestPowerOfTwoLessThan_spec [OF True])
    define m c where "m = (2 :: nat) ^ e" and "c = n - m"
    have mc: "c \<le> m" "0 < c" "n = m + c" "m = greatestPowerOfTwoLessThan n"
      using e by (simp_all add: m_def c_def)
    define W where "W = (\<lambda>k. if k < lo + n then w k else True)"
    let ?s = "bswaps lo c m w" and ?S = "bswaps lo m m W"
    obtain a b where ab: "i < n \<Longrightarrow> w (lo + i) \<longleftrightarrow> \<not> (a \<le> i \<and> i < b)" for i
      using less.prems unfolding valley_def by blast
    have "valley lo (2 * m) W"
      unfolding valley_def W_def by (intro exI [of _ a] exI [of _ "min b n"]) (use ab in auto)
    note S = half_clean_valley [OF this]
    have low: "?s (lo + i) = ?S (lo + i)" if "i < m" for i
      using that mc(1,3) by (cases "i < c") (simp_all add: bswaps_lower bswaps_middle W_def)
    have high: "?s (lo + m + i) = ?S (lo + m + i)" if "i < c" for i
      using that mc(1,3) by (simp add: bswaps_upper W_def)
    have "valley (lo + m) m ?S" using S by blast
    then have "valley (lo + m) c ?S" using mc(1) unfolding valley_def by (meson less_le_trans)
    then have v: "valley (lo + m) c (bmerge lo m ?s)"
      by (subst valley_cong [where w = ?S]) (simp_all add: high bmerge_outside)
    have h: "hill lo m ?s \<or> valley lo m ?s" using S low hill_cong [of m ?s lo ?S] valley_cong [of m ?s lo ?S] by blast
    show ?thesis
    proof (rule bmerge_halves [OF True mc(4) refl], fold c_def)
      show "ascending lo m (bmerge lo m ?s)" using bmerge_pow2 [of lo e ?s] h by (simp add: m_def)
      show "ascending (lo + m) c (bmerge (lo + m) c (bmerge lo m ?s))"
        by (rule less.IH [OF _ v]) (use mc(2,3) in \<open>simp add: m_def\<close>)
      show "(\<forall>i<m. \<not> ?s (lo + i)) \<or> (\<forall>i<c. ?s (lo + m + i))"
        using S low high mc(1) by auto
    qed
  qed
qed

subsection \<open>The network sorts\<close>

definition ordered :: "bool \<Rightarrow> nat \<Rightarrow> nat \<Rightarrow> (int \<times> 'd) arr \<Rightarrow> bool" where
  "ordered acc lo n X \<longleftrightarrow> (\<forall>i j. i \<le> j \<and> j < n \<longrightarrow>
     (if acc then fst (X (lo + i)) \<le> fst (X (lo + j)) else fst (X (lo + j)) \<le> fst (X (lo + i))))"

lemma mono_ascending:
  assumes "\<And>i j. i \<le> j \<Longrightarrow> j < n \<Longrightarrow> w (lo + i) \<Longrightarrow> w (lo + j)"
  shows "ascending lo n w"
  using assms
proof (induction n)
  case (Suc n)
  then have "ascending lo n w" by simp
  then obtain a where a: "i < n \<Longrightarrow> w (lo + i) \<longleftrightarrow> a \<le> i" for i by (auto simp: ascending_def)
  show ?case
  proof (cases "w (lo + n)")
    case True then show ?thesis
      unfolding ascending_def using a by (intro exI [of _ "min a n"]) (auto simp: less_Suc_eq)
  next
    case False
    then have "\<not> w (lo + i)" if "i < n" for i using Suc.prems [of i n] that by auto
    with False show ?thesis
      unfolding ascending_def by (intro exI [of _ "Suc n"]) (auto simp: less_Suc_eq)
  qed
qed (simp add: ascending_def)

lemma ordered_ascending: "ordered acc lo n X \<longleftrightarrow> (\<forall>t. ascending lo n (above acc t X))"
proof (intro iffI allI)
  fix t assume "ordered acc lo n X"
  then show "ascending lo n (above acc t X)"
    by (intro mono_ascending) (auto simp: ordered_def above_def split: if_splits intro: order_trans)
next
  assume asc: "\<forall>t. ascending lo n (above acc t X)"
  show "ordered acc lo n X"
    unfolding ordered_def
  proof (intro allI impI)
    fix i j assume ij: "i \<le> j \<and> j < n"
    obtain a where a: "k < n \<Longrightarrow> above acc (fst (X (lo + i))) X (lo + k) \<longleftrightarrow> a \<le> k" for k
      using asc by (auto simp: ascending_def)
    have "above acc (fst (X (lo + i))) X (lo + i)" by (simp add: above_def)
    then have "above acc (fst (X (lo + i))) X (lo + j)" using a [of i] a [of j] ij by auto
    then show "if acc then fst (X (lo + i)) \<le> fst (X (lo + j)) else fst (X (lo + j)) \<le> fst (X (lo + i))"
      by (simp add: above_def)
  qed
qed

lemma ordered_below:
  assumes "ordered (\<not> acc) lo m X"
  obtains a where "a \<le> m" "\<And>i. i < m \<Longrightarrow> above acc t X (lo + i) \<longleftrightarrow> i < a"
proof -
  have "ascending lo m (\<lambda>k. \<not> above acc t X k)"
    using assms by (intro mono_ascending) (auto simp: ordered_def above_def split: if_splits intro: order_trans)
  then obtain a where "i < m \<Longrightarrow> \<not> above acc t X (lo + i) \<longleftrightarrow> a \<le> i" for i by (auto simp: ascending_def)
  then show ?thesis by (intro that [of "min a m"]) (simp, fastforce)
qed

lemma pmerge_outside: "k < lo \<or> lo + n \<le> k \<Longrightarrow> pmerge acc lo n X k = X k"
proof (induction acc lo n X rule: pmerge.induct)
  case (1 acc lo n X)
  show ?case
  proof (cases "n > 1")
    case True
    define m where "m = greatestPowerOfTwoLessThan n"
    note b = greatestPowerOfTwoLessThan_bounds [OF True, folded m_def]
    have k: "k < lo \<or> lo + m \<le> k" "k < lo + m \<or> lo + m + (n - m) \<le> k" using "1.prems" b by auto
    have "fold (\<lambda>i. pswap acc i (i + m)) js X k = X k" if "set js \<subseteq> {lo..<lo + n - m}" for js X
      using that "1.prems" b by (induction js arbitrary: X) (auto simp: pswap_def)
    from this [of "[lo..<lo + n - m]"]
    have f: "fold (\<lambda>i. pswap acc i (i + m)) [lo..<lo + n - m] X k = X k" by simp
    show ?thesis
      using "1.IH"(2) [OF True m_def refl k(2)] "1.IH"(1) [OF True m_def refl k(1)] f True
      by (simp add: pmerge.simps [of acc lo n] Let_def m_def [symmetric])
  qed (simp add: pmerge.simps [of acc lo n])
qed

lemma psort_outside: "k < lo \<or> lo + n \<le> k \<Longrightarrow> psort acc lo n X k = X k"
proof (induction acc lo n X rule: psort.induct)
  case (1 acc lo n X)
  show ?case
  proof (cases "n > 1")
    case True
    have k: "k < lo \<or> lo + n div 2 \<le> k" "k < lo + n div 2 \<or> lo + n div 2 + (n - n div 2) \<le> k" using "1.prems" by auto
    show ?thesis
      using "1.IH"(1) [OF True refl k(1)] "1.IH"(2) [OF True refl k(2)] True
      by (simp add: psort.simps [of acc lo n] Let_def pmerge_outside [OF "1.prems"])
  qed (simp add: psort.simps [of acc lo n])
qed

theorem psort_ordered: "ordered acc lo n (psort acc lo n X)"
proof (induction acc lo n X rule: psort.induct)
  case (1 acc lo n X)
  show ?case
  proof (cases "n > 1")
    case True
    define m where "m = n div 2"
    define Y where "Y = psort (\<not> acc) lo m X"
    define Z where "Z = psort acc (lo + m) (n - m) Y"
    have Y: "ordered (\<not> acc) lo m Y" and Z: "ordered acc (lo + m) (n - m) Z"
      using "1.IH" [OF True refl, folded m_def] by (simp_all add: Y_def Z_def)
    have "Z (lo + i) = Y (lo + i)" if "i < m" for i
      using that by (simp add: Z_def psort_outside)
    then have ZY: "ordered (\<not> acc) lo m Z" using Y by (auto simp: ordered_def)
    have "valley lo n (above acc t Z)" for t
    proof -
      obtain a where a: "a \<le> m" "i < m \<Longrightarrow> above acc t Z (lo + i) \<longleftrightarrow> i < a" for i
        using ordered_below [OF ZY, of t] by metis
      obtain d where d: "i < n - m \<Longrightarrow> above acc t Z (lo + m + i) \<longleftrightarrow> d \<le> i" for i
        using Z unfolding ordered_ascending ascending_def by metis
      have "above acc t Z (lo + i) \<longleftrightarrow> \<not> (a \<le> i \<and> i < m + d)" if "i < n" for i
        using a(1) a(2) [of i] d [of "i - m"] that by (cases "i < m") auto
      then show ?thesis unfolding valley_def by blast
    qed
    then have "ordered acc lo n (pmerge acc lo n Z)"
      unfolding ordered_ascending above_pmerge by (blast intro: bmerge_valley)
    then show ?thesis using True by (simp add: psort.simps [of acc lo n] Let_def m_def Y_def Z_def)
  next
    case False
    show ?thesis
      unfolding ordered_def
    proof (intro allI impI)
      fix i j assume "i \<le> j \<and> j < n"
      with False have "i = j" by linarith
      then show "if acc then fst (psort acc lo n X (lo + i)) \<le> fst (psort acc lo n X (lo + j))
          else fst (psort acc lo n X (lo + j)) \<le> fst (psort acc lo n X (lo + i))" by simp
    qed
  qed
qed

subsection \<open>The circuit refines the network\<close>

definition entry_rep ::
  "('w \<Rightarrow> bool \<Rightarrow> bool) \<Rightarrow> nat \<Rightarrow> nat \<Rightarrow> nat \<Rightarrow> 'w list arr \<times> 'w list arr option \<Rightarrow> (int \<times> int) arr \<Rightarrow> bool" where
  "entry_rep rep wk wd N = (\<lambda>(key, data) X. \<forall>i<N.
     length (key i) = wk \<and> int_wires rep (key i) (fst (X i)) \<and> in_range wk (fst (X i))
     \<and> (\<forall>d. data = Some d \<longrightarrow> length (d i) = wd \<and> int_wires rep (d i) (snd (X i))))"

context circuit_backend
begin

lemma cmp_swap:
  assumes "entry_rep rep wk wd N st X" and "i < N" and "j < N" and "rep acc a"
  shows "computes ok (cmp_swap E i j acc st) (\<lambda>st. entry_rep rep wk wd N st (pswap a i j X))"
proof -
  obtain key data where st: "st = (key, data)" by fastforce
  have key: "length (key k) = wk" "int_wires rep (key k) (fst (X k))" "in_range wk (fst (X k))" if "k < N" for k
    using assms(1) that by (auto simp: st entry_rep_def)
  have dat: "length (d k) = wd" "int_wires rep (d k) (snd (X k))" if "k < N" "data = Some d" for k d
    using assms(1) that by (auto simp: st entry_rep_def)
  let ?b = "(fst (X i) > fst (X j)) = a"
  have res: "entry_rep rep wk wd N (key(i := p, j := q), data') (pswap a i j X)"
    if "length p = wk" "length q = wk" "int_wires rep p (if ?b then fst (X j) else fst (X i))"
      "int_wires rep q (if ?b then fst (X i) else fst (X j))"
      and "\<And>d'. data' = Some d' \<Longrightarrow> \<exists>d u v. data = Some d \<and> d' = d(i := u, j := v) \<and> length u = wd \<and> length v = wd
             \<and> int_wires rep u (if ?b then snd (X j) else snd (X i)) \<and> int_wires rep v (if ?b then snd (X i) else snd (X j))"
    for p q data'
    using that key dat assms(2,3) by (fastforce simp: entry_rep_def pswap_def)
  have gt: "computes ok (int_greater E (key i) (key j)) (\<lambda>c. rep c (fst (X i) > fst (X j)))"
    using int_greater [of "key i" "key j" "fst (X i)" "fst (X j)"] key assms(2,3) by simp
  have ks: "computes ok (int_swap E sw (key i) (key j)) (\<lambda>(p, q). length p = wk \<and> length q = wk
      \<and> int_wires rep p (if ?b then fst (X j) else fst (X i)) \<and> int_wires rep q (if ?b then fst (X i) else fst (X j)))"
    if "rep sw ?b" for sw
    using int_swap [of "key i" "key j" "fst (X i)" "fst (X j)" sw ?b] key assms(2,3) that by simp
  have ds: "computes ok (int_swap E sw (d i) (d j)) (\<lambda>(u, v). length u = wd \<and> length v = wd
      \<and> int_wires rep u (if ?b then snd (X j) else snd (X i)) \<and> int_wires rep v (if ?b then snd (X i) else snd (X j)))"
    if "rep sw ?b" "data = Some d" for sw d
    using int_swap [of "d i" "d j" "snd (X i)" "snd (X j)" sw ?b] dat [OF _ that(2)] assms(2,3) that(1) by simp
  show ?thesis
    unfolding cmp_swap_def st split
  proof (rule computes_bind [OF gt], rule computes_bind [OF bit_equals [OF _ assms(4)]], assumption,
      rule computes_bind [OF ks], assumption)
    fix sw rr
    assume sw: "rep sw ?b" and rr: "case rr of (p, q) \<Rightarrow> length p = wk \<and> length q = wk
      \<and> int_wires rep p (if ?b then fst (X j) else fst (X i)) \<and> int_wires rep q (if ?b then fst (X i) else fst (X j))"
    obtain p q where pq': "rr = (p, q)" by fastforce
    have pq: "length p = wk" "length q = wk" "int_wires rep p (if ?b then fst (X j) else fst (X i))"
      "int_wires rep q (if ?b then fst (X i) else fst (X j))"
      using rr [unfolded pq' split] by blast+
    have "computes ok (case data of None \<Rightarrow> State_Monad.return (key(i := p, j := q), None)
        | Some d \<Rightarrow> int_swap E sw (d i) (d j) \<bind> (\<lambda>(pa, qa). State_Monad.return (key(i := p, j := q), Some (d(i := pa, j := qa)))))
        (\<lambda>st. entry_rep rep wk wd N st (pswap a i j X))"
    proof (cases data)
      case None
      show ?thesis unfolding None option.case by (rule computes_return, rule res [OF pq]) simp
    next
      case (Some d)
      show ?thesis
        unfolding Some option.case
      proof (rule computes_bind [OF ds [OF sw Some]])
        fix r assume r: "case r of (u, v) \<Rightarrow> length u = wd \<and> length v = wd
          \<and> int_wires rep u (if ?b then snd (X j) else snd (X i)) \<and> int_wires rep v (if ?b then snd (X i) else snd (X j))"
        obtain u v where uv: "r = (u, v)" by fastforce
        show "computes ok (case r of (pa, qa) \<Rightarrow> State_Monad.return (key(i := p, j := q), Some (d(i := pa, j := qa))))
            (\<lambda>st. entry_rep rep wk wd N st (pswap a i j X))"
          unfolding uv split
          using r [unfolded uv split] Some by (intro computes_return res [OF pq]) blast
      qed
    qed
    then show "computes ok (case rr of (a, b) \<Rightarrow> case data of
          None \<Rightarrow> State_Monad.return (key(i := a, j := b), None)
        | Some d \<Rightarrow> do { (p, q) \<leftarrow> int_swap E sw (d i) (d j); State_Monad.return (key(i := a, j := b), Some (d(i := p, j := q))) })
        (\<lambda>st. entry_rep rep wk wd N st (pswap a i j X))"
      unfolding pq' split .
  qed
qed

lemma bitonic_merge:
  assumes "entry_rep rep wk wd N st X" and "lo + n \<le> N" and "rep acc a"
  shows "computes ok (bitonic_merge E lo n acc st) (\<lambda>st. entry_rep rep wk wd N st (pmerge a lo n X))"
  using assms(1,2)
proof (induction n arbitrary: lo st X rule: less_induct)
  case (less n)
  show ?case
  proof (cases "n > 1")
    case True
    define m where "m = greatestPowerOfTwoLessThan n"
    note b = greatestPowerOfTwoLessThan_bounds [OF True, folded m_def]
    have loop: "computes ok (for_gates [lo..<lo + n - m] (\<lambda>i. cmp_swap E i (i + m) acc) st)
        (\<lambda>st. entry_rep rep wk wd N st (fold (\<lambda>i. pswap a i (i + m)) [lo..<lo + n - m] X))"
      by (rule computes_for_fold [where R = "entry_rep rep wk wd N", OF less.prems(1)], rule cmp_swap)
        (use less.prems(2) b assms(3) in auto)
    show ?thesis
      unfolding bitonic_merge.simps [of E lo n] pmerge.simps [of a lo n] if_P [OF True] Let_def m_def [symmetric]
      by (rule computes_bind [OF loop], rule computes_bind [OF less.IH], use b in simp, assumption,
          use b less.prems(2) in simp, rule less.IH, use b in simp, assumption, use b less.prems(2) in simp)
  next
    case False
    then show ?thesis using less.prems(1) by (simp add: bitonic_merge.simps [of E lo n] pmerge.simps [of a lo n] computes_return)
  qed
qed

lemma bitonic_sort:
  assumes "entry_rep rep wk wd N st X" and "lo + n \<le> N" and "rep acc a"
  shows "computes ok (bitonic_sort E lo n acc st) (\<lambda>st. entry_rep rep wk wd N st (psort a lo n X))"
  using assms
proof (induction n arbitrary: lo st X acc a rule: less_induct)
  case (less n)
  show ?case
  proof (cases "n > 1")
    case True
    have half: "n div 2 < n" "n - n div 2 < n" "lo + n div 2 \<le> N" "lo + n div 2 + (n - n div 2) \<le> N"
      using True less.prems(2) by auto
    show ?thesis
      unfolding bitonic_sort.simps [of E lo n] psort.simps [of a lo n] if_P [OF True] Let_def
      by (rule computes_bind [OF bit_not [OF less.prems(3)]], rule computes_bind [OF less.IH], rule half,
          rule less.prems, rule half, assumption, rule computes_bind [OF less.IH], rule half, assumption, rule half,
          rule less.prems, rule bitonic_merge, assumption, rule less.prems, rule less.prems)
  next
    case False
    then show ?thesis using less.prems(1) by (simp add: bitonic_sort.simps [of E lo n] psort.simps [of a lo n] computes_return)
  qed
qed

lemma emp_sort:
  assumes "entry_rep rep wk wd n (key, data) X" and "rep acc a"
  shows "computes ok (emp_sort E key n data acc)
           (\<lambda>st. \<exists>Y. entry_rep rep wk wd n st Y \<and> entries n Y = entries n X \<and> ordered a 0 n Y)"
proof -
  have "computes ok (emp_sort E key n data acc) (\<lambda>st. entry_rep rep wk wd n st (psort a 0 n X))"
    unfolding emp_sort_def using bitonic_sort [OF assms(1) _ assms(2), of 0 n] by simp
  then show ?thesis
    by (rule computes_weaken) (use psort_entries [of 0 n n a X] psort_ordered [of a 0 n X] in auto)
qed

end

end
