(* ===== verification/PlainExec.thy ===== *)
theory PlainExec
  imports BitonicSort
begin

text \<open>
  The backend that evaluates in the clear and can print the circuit it runs:
  \<^verbatim>\<open>PlainCircExec\<close> (\<^verbatim>\<open>emp-tool/execution/plain_circ.h\<close>) and \<^verbatim>\<open>PlainProt\<close>
  (\<^verbatim>\<open>plain_prot.h\<close>).  A wire is a block whose lower half is one of the tags \<open>P1\<close>, \<open>P0\<close> (public)
  or \<open>S0\<close>, \<open>S1\<close> (secret) and whose upper half is the number of the gate that made it.  The
  output file is the list of its lines.
\<close>

subsection \<open>PlainCircExec\<close>

definition P1 :: "64 word" where "P1 = 1"
definition P0 :: "64 word" where "P0 = 2"
definition S0 :: "64 word" where "S0 = 3"
definition S1 :: "64 word" where "S1 = 4"

datatype circuit_line =
    Placeholder
  | Gate_AND "64 word" "64 word" "64 word"
  | Gate_XOR "64 word" "64 word" "64 word"
  | Gate_INV "64 word" "64 word"
  | Header "64 word" "64 word" "64 word" "64 word" "64 word"

record plain_exec =
  pe_gid :: "64 word"
  pe_print :: bool
  pe_public_one :: block
  pe_public_zero :: block
  pe_gates :: "64 word"
  pe_ands :: "64 word"
  pe_fout :: "circuit_line list"

record plain_prot = plain_exec +
  pp_n1 :: "64 word"
  pp_n2 :: "64 word"
  pp_n3 :: "64 word"
  pp_output_vec :: "64 word list"

text \<open>\<^verbatim>\<open>arr[0]\<close>, \<^verbatim>\<open>arr[1]\<close> of \<^verbatim>\<open>uint64_t *arr = (uint64_t*) &b\<close>.\<close>

definition arr0 :: "block \<Rightarrow> 64 word" where "arr0 b = ucast b"
definition arr1 :: "block \<Rightarrow> 64 word" where "arr1 b = ucast (drop_bit 64 b)"

definition setup_plain_prot :: "bool \<Rightarrow> plain_prot" where
  "setup_plain_prot pr =
     \<lparr>pe_gid = 0, pe_print = pr, pe_public_one = makeBlock 0 P1, pe_public_zero = makeBlock 0 P0,
      pe_gates = 0, pe_ands = 0, pe_fout = (if pr then [Placeholder] else []),
      pp_n1 = 0, pp_n2 = 0, pp_n3 = 0, pp_output_vec = []\<rparr>"

definition pe_is_public :: "block \<Rightarrow> bool" where
  "pe_is_public b \<longleftrightarrow> arr0 b = P0 \<or> arr0 b = P1"

definition compute_and :: "64 word \<Rightarrow> 64 word \<Rightarrow> 64 word" where
  "compute_and a b = (if a = S0 \<or> b = S0 then S0 else S1)"

definition compute_xor :: "64 word \<Rightarrow> 64 word \<Rightarrow> 64 word" where
  "compute_xor a b = (if a = b then S0 else S1)"

definition emit :: "circuit_line \<Rightarrow> plain_prot \<Rightarrow> plain_prot" where
  "emit l s = (if pe_print s then s\<lparr>pe_fout := pe_fout s @ [l]\<rparr> else s)"

definition pe_public_label :: "bool \<Rightarrow> (plain_prot, block) state" where
  "pe_public_label b = State (\<lambda>s. (if b then pe_public_one s else pe_public_zero s, s))"

definition pe_and_gate :: "block \<Rightarrow> block \<Rightarrow> (plain_prot, block) state" where
  "pe_and_gate a b = State (\<lambda>s.
     if arr0 a = P1 then (b, s)
     else if arr0 b = P1 then (a, s)
     else if arr0 a = P0 \<or> arr0 b = P0 then (pe_public_zero s, s)
     else (makeBlock (pe_gid s) (compute_and (arr0 a) (arr0 b)),
           (emit (Gate_AND (arr1 a) (arr1 b) (pe_gid s)) s)
             \<lparr>pe_gid := pe_gid s + 1, pe_gates := pe_gates s + 1, pe_ands := pe_ands s + 1\<rparr>))"

definition pe_not_gate :: "block \<Rightarrow> (plain_prot, block) state" where
  "pe_not_gate a = State (\<lambda>s.
     if arr0 a = P1 then (pe_public_zero s, s)
     else if arr0 a = P0 then (pe_public_one s, s)
     else (makeBlock (pe_gid s) (if arr0 a = S0 then S1 else S0),
           (emit (Gate_INV (arr1 a) (pe_gid s)) s)\<lparr>pe_gid := pe_gid s + 1, pe_gates := pe_gates s + 1\<rparr>))"

definition pe_xor_gate :: "block \<Rightarrow> block \<Rightarrow> (plain_prot, block) state" where
  "pe_xor_gate a b = State (\<lambda>s.
     if arr0 a = P1 then run_state (pe_not_gate b) s
     else if arr0 b = P1 then run_state (pe_not_gate a) s
     else if arr0 a = P0 then (b, s)
     else if arr0 b = P0 then (a, s)
     else (makeBlock (pe_gid s) (compute_xor (arr0 a) (arr0 b)),
           (emit (Gate_XOR (arr1 a) (arr1 b) (pe_gid s)) s)\<lparr>pe_gates := pe_gates s + 1, pe_gid := pe_gid s + 1\<rparr>))"

definition pe_private_label :: "bool \<Rightarrow> (plain_prot, block) state" where
  "pe_private_label b = State (\<lambda>s. (makeBlock (pe_gid s) (if b then S1 else S0), s\<lparr>pe_gid := pe_gid s + 1\<rparr>))"

definition pe_get_value :: "block \<Rightarrow> bool" where
  "pe_get_value a = (if arr0 a = S0 \<or> arr0 a = P0 then False else True)"

definition plain_circ_exec :: "(plain_prot, block) circuit_execution" where
  "plain_circ_exec = \<lparr>and_gate = pe_and_gate, xor_gate = pe_xor_gate, not_gate = pe_not_gate,
                      public_label = pe_public_label\<rparr>"

text \<open>The invariant of the state and the bit a wire stands for.\<close>

definition plain_ok :: "plain_prot \<Rightarrow> bool" where
  "plain_ok s \<longleftrightarrow> pe_public_one s = makeBlock 0 P1 \<and> pe_public_zero s = makeBlock 0 P0
     \<and> (pe_print s \<longrightarrow> of_nat (length (pe_fout s)) = pe_gates s + 1)"

definition plain_rep :: "block \<Rightarrow> bool \<Rightarrow> bool" where
  "plain_rep w b \<longleftrightarrow> arr0 w \<in> (if b then {P1, S1} else {P0, S0})"

lemma arr0_makeBlock [simp]: "arr0 (makeBlock h l) = l"
  by (rule bit_word_eqI) (simp add: arr0_def bit_simps bit_makeBlock)

lemma arr1_makeBlock [simp]: "arr1 (makeBlock h l) = h"
  by (rule bit_word_eqI) (simp add: arr1_def bit_simps bit_makeBlock)

lemmas plain_tags = P0_def P1_def S0_def S1_def

lemma plain_tags_distinct [simp]:
  "P0 \<noteq> P1" "P0 \<noteq> S0" "P0 \<noteq> S1" "P1 \<noteq> S0" "P1 \<noteq> S1" "S0 \<noteq> S1"
  "P1 \<noteq> P0" "S0 \<noteq> P0" "S1 \<noteq> P0" "S0 \<noteq> P1" "S1 \<noteq> P1" "S1 \<noteq> S0"
  by (simp_all add: plain_tags)

lemma get_value_rep: "plain_rep w b \<Longrightarrow> pe_get_value w = b"
  by (auto simp: plain_rep_def pe_get_value_def split: if_splits)

lemma emit_count:
  assumes "plain_ok s"
  shows "plain_ok ((emit l s)\<lparr>pe_gid := g, pe_gates := pe_gates s + 1\<rparr>)"
    and "plain_ok ((emit l s)\<lparr>pe_gid := g, pe_gates := pe_gates s + 1, pe_ands := a\<rparr>)"
  using assms by (auto simp: plain_ok_def emit_def ac_simps)

lemma plain_ok_new: "plain_ok (setup_plain_prot pr)"
  by (simp add: plain_ok_def setup_plain_prot_def)

interpretation plain: circuit_backend plain_circ_exec plain_ok plain_rep
proof unfold_locales
  fix a b :: block and x y v :: bool
  show "computes plain_ok (and_gate plain_circ_exec a b) (\<lambda>c. plain_rep c (x \<and> y))"
    if "plain_rep a x" "plain_rep b y"
    using that emit_count(2)
    by (auto simp: computes_def plain_circ_exec_def pe_and_gate_def plain_rep_def compute_and_def plain_ok_def
        split: if_splits)
  have n: "computes plain_ok (pe_not_gate a) (\<lambda>c. plain_rep c (\<not> x))" if "plain_rep a x" for a x
    using that emit_count(1)
    by (auto simp: computes_def pe_not_gate_def plain_rep_def plain_ok_def split: if_splits)
  then show "computes plain_ok (not_gate plain_circ_exec a) (\<lambda>c. plain_rep c (\<not> x))"
    if "plain_rep a x" using that by (simp add: plain_circ_exec_def)
  show "computes plain_ok (xor_gate plain_circ_exec a b) (\<lambda>c. plain_rep c (x \<noteq> y))"
    if "plain_rep a x" "plain_rep b y"
  proof -
    have "computes plain_ok (pe_xor_gate a b) (\<lambda>c. plain_rep c (x \<noteq> y))"
      using that n [OF that(1)] n [OF that(2)] emit_count(1)
      by (auto simp: computes_def pe_xor_gate_def plain_rep_def compute_xor_def plain_ok_def split: if_splits)
    then show ?thesis by (simp add: plain_circ_exec_def)
  qed
  show "computes plain_ok (public_label plain_circ_exec v) (\<lambda>c. plain_rep c v)"
    by (simp add: computes_def plain_circ_exec_def pe_public_label_def plain_rep_def plain_ok_def)
qed

subsection \<open>PlainProt\<close>

definition pp_feed :: "int \<Rightarrow> bool list \<Rightarrow> (plain_prot, block list) state" where
  "pp_feed party b =
     (if party = PUBLIC then map_gates pe_public_label b
      else do {
        labels \<leftarrow> map_gates pe_private_label b;
        State (\<lambda>s. ((), if party = ALICE then s\<lparr>pp_n1 := pp_n1 s + of_nat (length b)\<rparr>
                        else s\<lparr>pp_n2 := pp_n2 s + of_nat (length b)\<rparr>));
        State_Monad.return labels })"

definition pp_reveal :: "int \<Rightarrow> block list \<Rightarrow> (plain_prot, bool list) state" where
  "pp_reveal party labels = State (\<lambda>s.
     (map pe_get_value labels,
      s\<lparr>pp_output_vec := pp_output_vec s @ map arr1 labels, pp_n3 := pp_n3 s + of_nat (length labels)\<rparr>))"

definition plain_prot_exec :: "(plain_prot, block) protocol_execution" where
  "plain_prot_exec = \<lparr>feed = pp_feed, reveal = pp_reveal\<rparr>"

text \<open>\<^verbatim>\<open>finalize_plain_prot\<close> appends a gate that makes a zero wire and one copy of every output,
  then writes the header over the place holder.\<close>

definition finalize_plain_prot :: "plain_prot \<Rightarrow> circuit_line list \<times> plain_prot" where
  "finalize_plain_prot s =
     (let z = pe_gid s;
          outs = pp_output_vec s;
          s1 = s\<lparr>pe_gid := z + 1 + of_nat (length outs),
                 pe_fout := pe_fout s @ Gate_XOR 0 0 z
                   # map (\<lambda>(k, v). Gate_XOR z v (z + 1 + of_nat k)) (zip [0..<length outs] outs),
                 pe_gates := pe_gates s + (1 + of_nat (length outs))\<rparr>
      in (if pe_print s
          then Header (pe_gates s1) (pe_gid s1) (pp_n1 s1) (pp_n2 s1) (pp_n3 s1) # tl (pe_fout s1)
          else [], s1))"

lemma plain_private_label: "computes plain_ok (pe_private_label b) (\<lambda>c. plain_rep c b)"
  by (simp add: computes_def pe_private_label_def plain_rep_def plain_ok_def)

interpretation plain_prot: protocol_backend plain_circ_exec plain_ok plain_rep plain_prot_exec
proof unfold_locales
  have m: "computes plain_ok (map_gates f bs) (\<lambda>ws. list_all2 plain_rep ws bs)"
    if "\<And>b. computes plain_ok (f b) (\<lambda>c. plain_rep c b)" for f :: "bool \<Rightarrow> (plain_prot, block) state" and bs
    using computes_map_gates [of bs plain_ok f "\<lambda>b c. plain_rep c b"] that
    by (simp add: list_all2_conv_all_nth computes_def)
  have pub: "computes plain_ok (pe_public_label b) (\<lambda>c. plain_rep c b)" for b
    using plain.public_label [of b] by (simp add: plain_circ_exec_def)
  have "computes plain_ok (pp_feed party bs) (\<lambda>ws. list_all2 plain_rep ws bs)" for party bs
  proof -
    have count: "computes plain_ok (State (\<lambda>s. ((), if party = ALICE then s\<lparr>pp_n1 := pp_n1 s + of_nat (length bs)\<rparr>
        else s\<lparr>pp_n2 := pp_n2 s + of_nat (length bs)\<rparr>))) (\<lambda>_. True)"
      by (simp add: computes_def plain_ok_def)
    show ?thesis
      unfolding pp_feed_def
      by (simp add: m pub computes_bind [OF m [OF plain_private_label]] computes_bind [OF count] computes_return)
  qed
  then show "computes plain_ok (feed plain_prot_exec party bs) (\<lambda>ws. list_all2 plain_rep ws bs)" for party bs
    by (simp add: plain_prot_exec_def)
  show "computes plain_ok (reveal plain_prot_exec party ws) (\<lambda>out. out = bs)"
    if "list_all2 plain_rep ws bs" for ws bs party
    using that by (auto simp: computes_def plain_prot_exec_def pp_reveal_def plain_ok_def
        list_all2_conv_all_nth get_value_rep intro!: nth_equalityI)
qed

end
