(* ===== verification/AesOpt.thy ===== *)
theory AesOpt
  imports Cipher
begin

text \<open>
  \<^verbatim>\<open>emp-tool/utils/aes_opt.h\<close>: the batched key schedule that replaces the key generation
  instruction by the last round of AES, and the encryption of several blocks under each of
  several keys; \<^verbatim>\<open>mitccrh.h\<close>: the hash of the half-gates scheme, which re-keys after every batch.
  The lemmas show that the batched schedule is the schedule of \<^verbatim>\<open>aes.h\<close> key by key and that a hash
  call encrypts block by block.
\<close>

subsection \<open>Instructions\<close>

definition mm_set_epi32 :: "32 word \<Rightarrow> 32 word \<Rightarrow> 32 word \<Rightarrow> 32 word \<Rightarrow> block" where
  "mm_set_epi32 e3 e2 e1 e0 =
     ucast e0 OR push_bit 32 (ucast e1) OR push_bit 64 (ucast e2) OR push_bit 96 (ucast e3)"

definition mm_shuffle_epi8 :: "block \<Rightarrow> block \<Rightarrow> block" where
  "mm_shuffle_epi8 a m = block_of_bytes (map (\<lambda>c. if bit c 7 then 0 else bytes_of_block a ! unat (c AND 15)) (bytes_of_block m))"

definition mm_slli_epi64 :: "block \<Rightarrow> nat \<Rightarrow> block" where
  "mm_slli_epi64 a n = makeBlock (push_bit n (ucast (drop_bit 64 a))) (push_bit n (ucast a))"

definition mm_slli_epi32 :: "block \<Rightarrow> nat \<Rightarrow> block" where
  "mm_slli_epi32 a n =
     mm_set_epi32 (push_bit n (ucast (lane32 a 3))) (push_bit n (ucast (lane32 a 2)))
       (push_bit n (ucast (lane32 a 1))) (push_bit n (ucast (lane32 a 0)))"

subsection \<open>Key schedule\<close>

definition ks_round :: "block \<Rightarrow> block \<Rightarrow> block \<Rightarrow> block \<Rightarrow> block" where
  "ks_round con con3 m key =
     (let x2 = mm_shuffle_epi8 key m;
          aux = mm_aesenclast x2 con;
          globAux = mm_slli_epi64 key 32;
          key = globAux XOR key;
          globAux = mm_shuffle_epi8 key con3;
          key = globAux XOR key
      in aux XOR key)"

definition ks_rounds :: "block \<Rightarrow> block \<Rightarrow> block \<Rightarrow> nat \<Rightarrow> AES_KEY list \<Rightarrow> AES_KEY list" where
  "ks_rounds con con3 m r keys =
     map (\<lambda>k. k\<lparr>rd_key := (rd_key k)[r := ks_round con con3 m (rd_key k ! (r - 1))]\<rparr>) keys"

definition AES_opt_key_schedule :: "block list \<Rightarrow> AES_KEY list" where
  "AES_opt_key_schedule user_key =
     (let con = mm_set_epi32 1 1 1 1;
          con2 = mm_set_epi32 0x1b 0x1b 0x1b 0x1b;
          con3 = mm_set_epi32 0x07060504 0x07060504 0x0ffffffff 0x0ffffffff;
          m = mm_set_epi32 0x0c0f0e0d 0x0c0f0e0d 0x0c0f0e0d 0x0c0f0e0d;
          keys = map (\<lambda>k. \<lparr>rd_key = k # replicate 10 0, rounds = 10\<rparr>) user_key;
          (con, keys) = fold (\<lambda>r (con, keys). (mm_slli_epi32 con 1, ks_rounds con con3 m r keys)) [1..<8] (con, keys);
          keys = ks_rounds con con3 m 8 keys;
          keys = ks_rounds con2 con3 m 9 keys
      in ks_rounds (mm_slli_epi32 con2 1) con3 m 10 keys)"

definition ParaEnc_step :: "nat \<Rightarrow> (block \<Rightarrow> block \<Rightarrow> block) \<Rightarrow> nat \<Rightarrow> AES_KEY list \<Rightarrow> block list \<Rightarrow> block list" where
  "ParaEnc_step numEncs f r keys blks =
     map2 (\<lambda>b i. f b (rd_key (keys ! (i div numEncs)) ! r)) blks [0..<length blks]"

text \<open>\<open>numKeys * numEncs\<close> blocks; key \<open>i\<close> encrypts the blocks \<open>i * numEncs, \<dots>, (i + 1) * numEncs - 1\<close>.\<close>

definition ParaEnc :: "nat \<Rightarrow> block list \<Rightarrow> AES_KEY list \<Rightarrow> block list" where
  "ParaEnc numEncs blks keys =
     (let b0 = ParaEnc_step numEncs (XOR) 0 keys blks;
          b1 = fold (\<lambda>r bs. ParaEnc_step numEncs mm_aesenc r keys bs) [1..<10] b0
      in ParaEnc_step numEncs mm_aesenclast 10 keys b1)"

subsection \<open>mitccrh.h\<close>

record MITCCRH =
  mi_scheduled_key :: "AES_KEY list"
  mi_key_used :: nat
  mi_start_point :: block
  mi_gid :: "64 word"

definition MITCCRH_new :: "nat \<Rightarrow> MITCCRH" where
  "MITCCRH_new BatchSize = \<lparr>mi_scheduled_key = [], mi_key_used = BatchSize, mi_start_point = 0, mi_gid = 0\<rparr>"

definition setS :: "block \<Rightarrow> MITCCRH \<Rightarrow> MITCCRH" where
  "setS sin h = h\<lparr>mi_start_point := sin\<rparr>"

definition renew_ks :: "nat \<Rightarrow> MITCCRH \<Rightarrow> MITCCRH" where
  "renew_ks BatchSize h =
     h\<lparr>mi_scheduled_key := AES_opt_key_schedule
         (map (\<lambda>i. mi_start_point h XOR makeBlock (mi_gid h + of_nat i) 0) [0..<BatchSize]),
       mi_gid := mi_gid h + of_nat BatchSize, mi_key_used := 0\<rparr>"

definition renew_ks_at :: "nat \<Rightarrow> 64 word \<Rightarrow> MITCCRH \<Rightarrow> MITCCRH" where
  "renew_ks_at BatchSize gid h = renew_ks BatchSize (h\<lparr>mi_gid := gid\<rparr>)"

text \<open>\<open>hash<K, H>\<close> on \<open>K * H\<close> blocks; the assertions on \<open>K\<close> are checked when the model is used.\<close>

definition mi_hash :: "nat \<Rightarrow> nat \<Rightarrow> nat \<Rightarrow> block list \<Rightarrow> MITCCRH \<Rightarrow> block list \<times> MITCCRH" where
  "mi_hash BatchSize K H blks h =
     (let h = (if mi_key_used h = BatchSize then renew_ks BatchSize h else h);
          tmp = ParaEnc H blks (drop (mi_key_used h) (mi_scheduled_key h))
      in (map2 (XOR) blks tmp, h\<lparr>mi_key_used := mi_key_used h + K\<rparr>))"

definition mi_hash_cir :: "nat \<Rightarrow> nat \<Rightarrow> nat \<Rightarrow> block list \<Rightarrow> MITCCRH \<Rightarrow> block list \<times> MITCCRH" where
  "mi_hash_cir BatchSize K H blks h = mi_hash BatchSize K H (map sigma blks) h"

subsection \<open>Bytes of the instructions\<close>

lemma nth_bytes_of_block: "i < 16 \<Longrightarrow> bytes_of_block b ! i = ucast (drop_bit (8 * i) b)"
  by (simp add: bytes_of_block_def)

lemma bit_nth_bytes: "i < 16 \<Longrightarrow> bit (bytes_of_block b ! i) n \<longleftrightarrow> n < 8 \<and> bit b (8 * i + n)"
  by (auto simp: nth_bytes_of_block bit_simps)

lemma bytes_xor: "i < 16 \<Longrightarrow> bytes_of_block (a XOR b) ! i = bytes_of_block a ! i XOR bytes_of_block b ! i"
  by (rule bit_word_eqI) (simp add: bit_nth_bytes bit_xor_iff)

lemma bit_lanes4:
  assumes "n < 128"
  shows "bit (lane32 a i OR push_bit 32 (lane32 b j) OR push_bit 64 (lane32 c k) OR push_bit 96 (lane32 d l)) n
    = bit (if n < 32 then a else if n < 64 then b else if n < 96 then c else d)
        (32 * (if n < 32 then i else if n < 64 then j else if n < 96 then k else l) + n mod 32)"
proof -
  have m: "n mod 32 = (if n < 32 then n else if n < 64 then n - 32 else if n < 96 then n - 64 else n - 96)"
    using assms by (auto simp: le_mod_geq)
  show ?thesis
    unfolding m using assms by (auto simp: bit_or_iff bit_push_bit_iff bit_lane32)
qed

lemma block_eq_bytes: "(\<And>i. i < 16 \<Longrightarrow> bytes_of_block a ! i = bytes_of_block b ! i) \<Longrightarrow> a = b"
  by (metis block_of_bytes_of_block length_bytes_of_block nth_equalityI)

lemma byte_bit_index:
  fixes i n :: nat
  assumes "n < 8"
  shows "8 * i + n = 8 * (i mod 4) + n + 32 * (i div 4)" and "8 * (i mod 4) + n < 32"
    and "(8 * i + n) mod 32 = 8 * (i mod 4) + n"
proof -
  show 1: "8 * i + n = 8 * (i mod 4) + n + 32 * (i div 4)" using mult_div_mod_eq [of 4 i] by linarith
  show 2: "8 * (i mod 4) + n < 32" using assms mod_less_divisor [of 4 i] by linarith
  show "(8 * i + n) mod 32 = 8 * (i mod 4) + n" unfolding 1 using 2 by (metis mod_less mod_mult_self2)
qed

lemma bytes_lanes4:
  assumes "i < 16" and "j < 4" "k < 4" "l < 4" "m < 4"
  shows "bytes_of_block (lane32 a j OR push_bit 32 (lane32 b k) OR push_bit 64 (lane32 c l) OR push_bit 96 (lane32 d m)) ! i
    = bytes_of_block (if i < 4 then a else if i < 8 then b else if i < 12 then c else d)
        ! (4 * (if i < 4 then j else if i < 8 then k else if i < 12 then l else m) + i mod 4)"
proof (rule bit_word_eqI)
  fix n assume n: "n < LENGTH(8)"
  have less: "8 * i + n < 128" "8 * i + n < 32 \<longleftrightarrow> i < 4" "8 * i + n < 64 \<longleftrightarrow> i < 8" "8 * i + n < 96 \<longleftrightarrow> i < 12"
    using n assms(1) by auto
  let ?lanes = "lane32 a j OR push_bit 32 (lane32 b k) OR push_bit 64 (lane32 c l) OR push_bit 96 (lane32 d m)"
  let ?x = "if i < 4 then a else if i < 8 then b else if i < 12 then c else d"
  let ?s = "if i < 4 then j else if i < 8 then k else if i < 12 then l else m"
  have idx: "4 * ?s + i mod 4 < 16" using assms mod_less_divisor [of 4 i] by auto
  have "bit (bytes_of_block ?lanes ! i) n = bit ?lanes (8 * i + n)"
    using bit_nth_bytes [OF assms(1)] n by simp
  also have "\<dots> = bit ?x (32 * ?s + (8 * (i mod 4) + n))"
    using n by (simp only: bit_lanes4 [OF less(1)] less byte_bit_index(3) [of n i] len_bit0 len_num1)
  also have "\<dots> = bit (bytes_of_block ?x ! (4 * ?s + i mod 4)) n"
    using bit_nth_bytes [OF idx] n by (simp add: algebra_simps)
  finally show "bit (bytes_of_block ?lanes ! i) n = bit (bytes_of_block ?x ! (4 * ?s + i mod 4)) n" .
qed

lemma bytes_shuffle_ps:
  assumes "i < 16"
  shows "bytes_of_block (mm_shuffle_ps a b imm) ! i = bytes_of_block (if i < 8 then a else b)
    ! (4 * (if i < 4 then imm mod 4 else if i < 8 then imm div 4 mod 4 else if i < 12 then imm div 16 mod 4
            else imm div 64 mod 4) + i mod 4)"
  unfolding mm_shuffle_ps_def using assms by (subst bytes_lanes4) auto

lemma bytes_shuffle_epi32:
  assumes "i < 16"
  shows "bytes_of_block (mm_shuffle_epi32 a imm) ! i = bytes_of_block a
    ! (4 * (if i < 4 then imm mod 4 else if i < 8 then imm div 4 mod 4 else if i < 12 then imm div 16 mod 4
            else imm div 64 mod 4) + i mod 4)"
  unfolding mm_shuffle_epi32_def using assms by (subst bytes_lanes4) auto

lemma bytes_slli_epi64_32:
  assumes "i < 16"
  shows "bytes_of_block (mm_slli_epi64 a 32) ! i = (if i mod 8 < 4 then 0 else bytes_of_block a ! (i - 4))"
proof (rule bit_word_eqI)
  fix n assume n: "n < LENGTH(8)"
  show "bit (bytes_of_block (mm_slli_epi64 a 32) ! i) n = bit (if i mod 8 < 4 then 0 else bytes_of_block a ! (i - 4)) n"
  proof (cases "i < 8")
    case True
    then show ?thesis
      using n assms by (auto simp: bit_nth_bytes mm_slli_epi64_def bit_makeBlock bit_push_bit_iff bit_ucast_iff algebra_simps
          split: if_splits)
  next
    case False
    then obtain j where j: "i = j + 8" "j < 8" using assms by (metis add.commute le_Suc_ex nat_add_left_cancel_less not_less numeral_Bit0)
    then show ?thesis
      using n by (auto simp: bit_nth_bytes mm_slli_epi64_def bit_makeBlock bit_push_bit_iff bit_ucast_iff bit_drop_bit_eq algebra_simps
          split: if_splits)
  qed
qed

lemma bytes_shuffle_epi8:
  assumes "i < 16"
  shows "bytes_of_block (mm_shuffle_epi8 a m) ! i =
    (if bit (bytes_of_block m ! i) 7 then 0 else bytes_of_block a ! unat (bytes_of_block m ! i AND 15))"
  unfolding mm_shuffle_epi8_def using assms by simp

lemma bit_set_epi32:
  assumes "k < 128"
  shows "bit (mm_set_epi32 e3 e2 e1 e0) k
      = bit (if k < 32 then e0 else if k < 64 then e1 else if k < 96 then e2 else e3) (k mod 32)"
proof -
  have m: "k mod 32 = (if k < 32 then k else if k < 64 then k - 32 else if k < 96 then k - 64 else k - 96)"
    using assms by (auto simp: le_mod_geq)
  have "\<not> bit e k" if "32 \<le> k" for e :: "32 word" and k using that bit_imp_le_length [of e k] by auto
  then show ?thesis
    unfolding m using assms by (auto simp: mm_set_epi32_def bit_or_iff bit_push_bit_iff bit_ucast_iff)
qed

lemma slli_set_epi32:
  "mm_slli_epi32 (mm_set_epi32 e3 e2 e1 e0) n = mm_set_epi32 (push_bit n e3) (push_bit n e2) (push_bit n e1) (push_bit n e0)"
proof -
  have "ucast (lane32 (mm_set_epi32 e3 e2 e1 e0) k) = (if k = 0 then e0 else if k = 1 then e1 else if k = 2 then e2 else e3)"
    if "k < 4" for k
  proof (rule bit_word_eqI)
    fix i assume "i < LENGTH(32)"
    moreover have "k = 0 \<or> k = 1 \<or> k = 2 \<or> k = 3" using that by auto
    ultimately show "bit (ucast (lane32 (mm_set_epi32 e3 e2 e1 e0) k) :: 32 word) i
        = bit (if k = 0 then e0 else if k = 1 then e1 else if k = 2 then e2 else e3) i"
      by (auto simp: bit_ucast_iff bit_lane32 bit_set_epi32 le_mod_geq)
  qed
  then show ?thesis by (simp add: mm_slli_epi32_def)
qed

lemma bytes_set_epi32:
  assumes "i < 16"
  shows "bytes_of_block (mm_set_epi32 e3 e2 e1 e0) ! i
    = ucast (drop_bit (8 * (i mod 4)) (if i < 4 then e0 else if i < 8 then e1 else if i < 12 then e2 else e3))"
proof (rule bit_word_eqI)
  fix n assume n: "n < LENGTH(8)"
  have less: "8 * i + n < 128" "8 * i + n < 32 \<longleftrightarrow> i < 4" "8 * i + n < 64 \<longleftrightarrow> i < 8" "8 * i + n < 96 \<longleftrightarrow> i < 12"
    using n assms by auto
  show "bit (bytes_of_block (mm_set_epi32 e3 e2 e1 e0) ! i) n
    = bit (ucast (drop_bit (8 * (i mod 4)) (if i < 4 then e0 else if i < 8 then e1 else if i < 12 then e2 else e3)) :: 8 word) n"
    using n assms by (simp add: bit_nth_bytes bit_set_epi32 less byte_bit_index(3) bit_ucast_iff bit_drop_bit_eq)
qed

subsection \<open>The batched schedule is the schedule of each key\<close>

lemma mask_bytes: "bytes_of_block (mm_set_epi32 0x0c0f0e0d 0x0c0f0e0d 0x0c0f0e0d 0x0c0f0e0d) = [13,14,15,12,13,14,15,12,13,14,15,12,13,14,15,12]"
  by code_simp
lemma con3_bytes: "bytes_of_block (mm_set_epi32 0x07060504 0x07060504 0x0ffffffff 0x0ffffffff) = [255,255,255,255,255,255,255,255,4,5,6,7,4,5,6,7]"
  by code_simp

lemma less_16: "i < 16 \<longleftrightarrow> i \<in> set [0, 1, 2, 3, 4, 5, 6, 7, 8, 9, 10, 11, 12, 13, 14, 15]" for i :: nat
  by simp arith

lemma bytes_aesenclast:
  "i < 16 \<Longrightarrow> bytes_of_block (mm_aesenclast a k) ! i
     = sub_byte (shift_rows (bytes_of_block a) ! i) XOR bytes_of_block k ! i"
  by (simp add: mm_aesenclast_def bytes_xor shift_rows_def)

lemma shift_rows_nth: "i < 16 \<Longrightarrow> shift_rows s ! i = s ! (4 * ((i div 4 + i mod 4) mod 4) + i mod 4)"
  by (simp add: shift_rows_def)

lemma word_bytes_eq:
  assumes "k < 4"
  shows "word_bytes a k = map (\<lambda>j. bytes_of_block a ! (4 * k + j)) [0, 1, 2, 3]"
proof -
  have "word_bytes a k = map (\<lambda>j. bytes_of_block a ! (4 * k + j)) [0..<4]"
    using assms by (auto simp: word_bytes_def intro: nth_equalityI)
  then show ?thesis by (simp add: upt_rec [of _ 4] numeral_3_eq_3)
qed

lemma keygenassist_bytes:
  assumes "12 \<le> i" and "i < 16"
  shows "bytes_of_block (mm_aeskeygenassist a c) ! i
     = sub_byte (bytes_of_block a ! (12 + (i - 11) mod 4)) XOR (if i = 12 then c else 0)"
  using assms unfolding less_16 mm_aeskeygenassist_def Let_def
  by (auto simp: word_bytes_eq rot_bytes_def xor_low_byte_def)

definition con_of :: "8 word \<Rightarrow> block" where
  "con_of c = mm_set_epi32 (ucast c) (ucast c) (ucast c) (ucast c)"

lemma con_of_bytes: "i < 16 \<Longrightarrow> bytes_of_block (con_of c) ! i = (if i mod 4 = 0 then c else 0)"
proof -
  assume i: "i < 16"
  have "\<not> bit c k" if "8 \<le> k" for k using that bit_imp_le_length [of c k] by auto
  then show ?thesis
    unfolding con_of_def bytes_set_epi32 [OF i]
    by (auto intro!: bit_word_eqI simp: bit_ucast_iff bit_drop_bit_eq)
qed

lemma nth_2: "xs ! Suc (Suc 0) = xs ! 2"
  by (simp add: numeral_2_eq_2)

lemmas key_bytes = bytes_xor bytes_shuffle_ps bytes_shuffle_epi32 bytes_slli_epi64_32 bytes_shuffle_epi8
  bytes_aesenclast shift_rows_nth con_of_bytes mask_bytes con3_bytes keygenassist_bytes

lemma ks_round_expand:
  assumes "\<And>i. i < 4 \<Longrightarrow> bytes_of_block v3 ! i = 0"
  shows "ks_round (con_of c) (mm_set_epi32 0x07060504 0x07060504 0x0ffffffff 0x0ffffffff)
      (mm_set_epi32 0x0c0f0e0d 0x0c0f0e0d 0x0c0f0e0d 0x0c0f0e0d) key = fst (EXPAND_ASSIST 255 c (key, v3))"
proof (rule block_eq_bytes)
  fix i :: nat assume "i < 16"
  then show "bytes_of_block (ks_round (con_of c) (mm_set_epi32 0x07060504 0x07060504 0x0ffffffff 0x0ffffffff)
      (mm_set_epi32 0x0c0f0e0d 0x0c0f0e0d 0x0c0f0e0d 0x0c0f0e0d) key) ! i = bytes_of_block (fst (EXPAND_ASSIST 255 c (key, v3))) ! i"
    using assms unfolding less_16 ks_round_def EXPAND_ASSIST_def Let_def
    by (auto simp: key_bytes nth_2 xor.assoc xor.commute xor.left_commute)
qed


definition low_zero :: "block \<Rightarrow> bool" where
  "low_zero v \<longleftrightarrow> (\<forall>i<4. bytes_of_block v ! i = 0)"

lemma expand_low_zero: "low_zero (snd x) \<Longrightarrow> low_zero (snd (EXPAND_ASSIST 255 c x))"
  by (cases x) (simp add: low_zero_def EXPAND_ASSIST_def Let_def key_bytes)

lemma ks_round_fst:
  "low_zero (snd x) \<Longrightarrow> ks_round (con_of c) (mm_set_epi32 0x07060504 0x07060504 0x0ffffffff 0x0ffffffff)
      (mm_set_epi32 0x0c0f0e0d 0x0c0f0e0d 0x0c0f0e0d 0x0c0f0e0d) (fst x) = fst (EXPAND_ASSIST 255 c x)"
  using ks_round_expand [of "snd x" c "fst x"] by (simp add: low_zero_def)

lemma low_zero_0: "low_zero 0"
  by (simp add: low_zero_def nth_bytes_of_block)

lemma con_shift:
  "mm_slli_epi32 (con_of 1) 1 = con_of 2" "mm_slli_epi32 (con_of 2) 1 = con_of 4" "mm_slli_epi32 (con_of 4) 1 = con_of 8"
  "mm_slli_epi32 (con_of 8) 1 = con_of 16" "mm_slli_epi32 (con_of 16) 1 = con_of 32" "mm_slli_epi32 (con_of 32) 1 = con_of 64"
  "mm_slli_epi32 (con_of 64) 1 = con_of 128" "mm_slli_epi32 (con_of 27) 1 = con_of 54"
  "mm_set_epi32 1 1 1 1 = con_of 1" "mm_set_epi32 0x1b 0x1b 0x1b 0x1b = con_of 27"
  by (simp_all add: con_of_def slli_set_epi32)

lemma ks_rounds_map: "ks_rounds con c3 m r (map f ks) = map (\<lambda>k. let a = f k in a\<lparr>rd_key := (rd_key a)[r := ks_round con c3 m (rd_key a ! (r - 1))]\<rparr>) ks"
  by (simp add: ks_rounds_def Let_def)

lemma AES_opt_key_schedule_map: "AES_opt_key_schedule ks = map AES_set_encrypt_key ks"
proof -
  let ?c3 = "mm_set_epi32 0x07060504 0x07060504 0x0ffffffff 0x0ffffffff"
  let ?m = "mm_set_epi32 0x0c0f0e0d 0x0c0f0e0d 0x0c0f0e0d 0x0c0f0e0d"
  have up: "[1..<8] = [1, 2, 3, 4, 5, 6, 7 :: nat]" by (simp add: upt_rec [of _ 8])
  have rep10: "replicate 10 x = [x, x, x, x, x, x, x, x, x, x]" for x :: block
    by (simp add: numeral_eq_Suc)
  define e :: "8 word \<Rightarrow> block \<times> block \<Rightarrow> block \<times> block" where "e = EXPAND_ASSIST 255"
  have r0: "ks_round (con_of 1) ?c3 ?m k = fst (e 1 (k, 0))" for k
    using ks_round_fst [of "(k, 0)" 1] low_zero_0 by (simp add: e_def)
  have r: "low_zero (snd x) \<Longrightarrow> ks_round (con_of c) ?c3 ?m (fst x) = fst (e c x)" for c x
    unfolding e_def by (rule ks_round_fst)
  have z: "low_zero (snd x) \<Longrightarrow> low_zero (snd (e c x))" for c x
    unfolding e_def by (rule expand_low_zero)
  show ?thesis
    unfolding AES_opt_key_schedule_def AES_set_encrypt_key_def Let_def up e_def [symmetric]
    by (simp add: con_shift [unfolded One_nat_def] rep10 ks_rounds_map Let_def r0 r z low_zero_0)
qed

subsection \<open>Encryption and hashing block by block\<close>

lemma length_ParaEnc_step [simp]: "length (ParaEnc_step n f r keys blks) = length blks"
  by (simp add: ParaEnc_step_def)

lemma ParaEnc_step_nth [simp]:
  "i < length blks \<Longrightarrow> ParaEnc_step n f r keys blks ! i = f (blks ! i) (rd_key (keys ! (i div n)) ! r)"
  by (simp add: ParaEnc_step_def)

lemma ParaEnc_fold:
  "length (fold (\<lambda>r bs. ParaEnc_step n f r keys bs) rs blks) = length blks"
  "i < length blks \<Longrightarrow> fold (\<lambda>r bs. ParaEnc_step n f r keys bs) rs blks ! i
     = fold (\<lambda>r b. f b (rd_key (keys ! (i div n)) ! r)) rs (blks ! i)"
  by (induction rs arbitrary: blks) simp_all

lemma length_ParaEnc [simp]: "length (ParaEnc n blks keys) = length blks"
  by (simp add: ParaEnc_def Let_def ParaEnc_fold)

lemma ParaEnc_nth:
  assumes "i < length blks" and "rounds (keys ! (i div n)) = 10"
  shows "ParaEnc n blks keys ! i = aes_encrypt (keys ! (i div n)) (blks ! i)"
  using assms by (simp add: ParaEnc_def Let_def ParaEnc_fold aes_encrypt_def)

lemma rounds_set_encrypt_key [simp]: "rounds (AES_set_encrypt_key k) = 10"
  by (simp add: AES_set_encrypt_key_def Let_def)

text \<open>The keys of a batch.  \<open>mi_fun\<close> is the function the next hash call applies with its \<open>j\<close>-th key.\<close>

definition mi_ready :: "nat \<Rightarrow> MITCCRH \<Rightarrow> bool" where
  "mi_ready BatchSize h \<longleftrightarrow> mi_key_used h \<le> BatchSize
     \<and> (mi_key_used h < BatchSize \<longrightarrow> mi_scheduled_key h = map (\<lambda>i. AES_set_encrypt_key
          (mi_start_point h XOR makeBlock (mi_gid h - of_nat BatchSize + of_nat i) 0)) [0..<BatchSize])"

definition mi_renewed :: "nat \<Rightarrow> MITCCRH \<Rightarrow> MITCCRH" where
  "mi_renewed BatchSize h = (if mi_key_used h = BatchSize then renew_ks BatchSize h else h)"

definition mi_fun :: "nat \<Rightarrow> MITCCRH \<Rightarrow> nat \<Rightarrow> block \<Rightarrow> block" where
  "mi_fun BatchSize h j x =
     x XOR aes_encrypt (AES_set_encrypt_key (mi_start_point h XOR
       makeBlock (mi_gid (mi_renewed BatchSize h) - of_nat BatchSize
                  + of_nat (mi_key_used (mi_renewed BatchSize h) + j)) 0)) x"

lemma mi_ready_renewed:
  assumes "mi_ready B h" and "0 < B"
  shows "mi_key_used (mi_renewed B h) < B" and "mi_start_point (mi_renewed B h) = mi_start_point h"
    and "mi_scheduled_key (mi_renewed B h) = map (\<lambda>i. AES_set_encrypt_key
          (mi_start_point h XOR makeBlock (mi_gid (mi_renewed B h) - of_nat B + of_nat i) 0)) [0..<B]"
  using assms
  by (auto simp: mi_ready_def mi_renewed_def renew_ks_def AES_opt_key_schedule_map comp_def)

lemma mi_hash_eq:
  assumes "mi_ready B h" and "0 < B" and "K dvd B" and "K dvd mi_key_used h" and "length blks = K * H"
  shows "fst (mi_hash B K H blks h) = map (\<lambda>i. mi_fun B h (i div H) (blks ! i)) [0..<K * H]"
    and "mi_ready B (snd (mi_hash B K H blks h))" and "K dvd mi_key_used (snd (mi_hash B K H blks h))"
    and "mi_start_point (snd (mi_hash B K H blks h)) = mi_start_point h"
    and "snd (mi_hash B K H' blks' h) = snd (mi_hash B K H blks h)"
proof -
  let ?h = "mi_renewed B h"
  note r = mi_ready_renewed [OF assms(1,2)]
  have hash: "mi_hash B K H blks h
      = (map2 (XOR) blks (ParaEnc H blks (drop (mi_key_used ?h) (mi_scheduled_key ?h))), ?h\<lparr>mi_key_used := mi_key_used ?h + K\<rparr>)"
    for H blks by (simp add: mi_hash_def mi_renewed_def Let_def)
  have dvd: "K dvd mi_key_used ?h" using assms(4) by (auto simp: mi_renewed_def renew_ks_def)
  have fits: "mi_key_used ?h + K \<le> B"
  proof -
    obtain a b where ab: "B = K * a" "mi_key_used ?h = K * b" using assms(3) dvd by (auto elim!: dvdE)
    with r(1) have "Suc b \<le> a" by simp
    then have "K * Suc b \<le> K * a" by (rule mult_le_mono2)
    then show ?thesis using ab by simp
  qed
  show "fst (mi_hash B K H blks h) = map (\<lambda>i. mi_fun B h (i div H) (blks ! i)) [0..<K * H]"
  proof (rule nth_equalityI)
    fix i assume "i < length (fst (mi_hash B K H blks h))"
    then have i: "i < K * H" using assms(5) by (simp add: hash)
    then have "i div H < K" by (simp add: less_mult_imp_div_less)
    then have "mi_key_used ?h + i div H < B" using fits by simp
    then show "fst (mi_hash B K H blks h) ! i = map (\<lambda>i. mi_fun B h (i div H) (blks ! i)) [0..<K * H] ! i"
      using i assms(5) by (simp add: hash r(3) ParaEnc_nth mi_fun_def)
  qed (use assms(5) in \<open>simp add: hash\<close>)
  show "mi_ready B (snd (mi_hash B K H blks h))" using fits r by (auto simp: hash mi_ready_def)
  show "K dvd mi_key_used (snd (mi_hash B K H blks h))" using dvd by (simp add: hash)
  show "mi_start_point (snd (mi_hash B K H blks h)) = mi_start_point h" by (simp add: hash r(2))
  show "snd (mi_hash B K H' blks' h) = snd (mi_hash B K H blks h)" by (simp add: hash)
qed

end
