(* ===== verification/HalfGate.thy ===== *)
theory HalfGate
  imports AesOpt BitonicSort
begin

text \<open>
  The half-gates garbling of \<^verbatim>\<open>emp-tool/gc/halfgate_gen.h\<close> and \<^verbatim>\<open>halfgate_eva.h\<close> and the
  privacy-free garbling of \<^verbatim>\<open>privacy_free_gen.h\<close> and \<^verbatim>\<open>privacy_free_eva.h\<close>.  The garbler's wire is
  the label of zero, the evaluator's the label of the wire's bit.  The garbler sends and never
  receives, so the pair is run gate by gate: \<open>io\<close> of the garbler is the list of blocks it has sent
  and the evaluator not yet received.  \<^verbatim>\<open>recv_block\<close> takes the first blocks of that list; in every
  state of the invariant they are there.  The half-gates pair interprets the contract
  \<open>circuit_backend\<close>; the privacy-free evaluator does not meet it, which the last lemma shows.
\<close>

subsection \<open>halfgate_gen.h\<close>

definition halfgates_garble :: "block \<Rightarrow> block \<Rightarrow> block \<Rightarrow> block \<Rightarrow> block \<Rightarrow> MITCCRH \<Rightarrow> block \<times> block list \<times> MITCCRH" where
  "halfgates_garble LA0 A1 LB0 B1 delta mitccrh =
     (let pa = getLSB LA0;
          pb = getLSB LB0;
          (H, mitccrh) = mi_hash 8 2 2 [LA0, A1, LB0, B1] mitccrh;
          HLA0 = H ! 0; HA1 = H ! 1; HLB0 = H ! 2; HB1 = H ! 3;
          table0 = HLA0 XOR HA1;
          table0 = table0 XOR (select_mask pb AND delta);
          W0 = HLA0;
          W0 = W0 XOR (select_mask pa AND table0);
          tmp = HLB0 XOR HB1;
          table1 = tmp XOR LA0;
          W0 = W0 XOR HLB0;
          W0 = W0 XOR (select_mask pb AND tmp)
      in (W0, [table0, table1], mitccrh))"

record HalfGateGen =
  hg_delta :: block
  hg_io :: "block list"
  hg_constant :: "bool \<Rightarrow> block"
  hg_mitccrh :: MITCCRH

definition hg_set_delta :: "block \<Rightarrow> block \<Rightarrow> block \<Rightarrow> HalfGateGen \<Rightarrow> HalfGateGen" where
  "hg_set_delta delta c0 c1 st =
     (let delta = set_bit_block delta 0 in
      st\<lparr>hg_delta := delta, hg_io := hg_io st @ [c0, c1], hg_constant := (\<lambda>b. if b then c1 XOR delta else c0)\<rparr>)"

text \<open>\<open>t0\<close>, \<open>t1\<close>, \<open>c0\<close>, \<open>c1\<close> are the blocks the generator \<^verbatim>\<open>PRG()\<close> draws.\<close>

definition HalfGateGen_new :: "block \<Rightarrow> block \<Rightarrow> block \<Rightarrow> block \<Rightarrow> HalfGateGen" where
  "HalfGateGen_new t0 t1 c0 c1 =
     (let st = hg_set_delta t0 c0 c1 \<lparr>hg_delta = 0, hg_io = [], hg_constant = (\<lambda>_. 0), hg_mitccrh = MITCCRH_new 8\<rparr>
      in st\<lparr>hg_io := hg_io st @ [t1], hg_mitccrh := setS t1 (hg_mitccrh st)\<rparr>)"

definition hg_public_label :: "bool \<Rightarrow> HalfGateGen \<Rightarrow> block" where
  "hg_public_label b st = hg_constant st b"

definition hg_and_gate :: "block \<Rightarrow> block \<Rightarrow> HalfGateGen \<Rightarrow> block \<times> HalfGateGen" where
  "hg_and_gate a b st =
     (let (res, table, mi) = halfgates_garble a (a XOR hg_delta st) b (b XOR hg_delta st) (hg_delta st) (hg_mitccrh st)
      in (res, st\<lparr>hg_io := hg_io st @ table, hg_mitccrh := mi\<rparr>))"

definition hg_xor_gate :: "block \<Rightarrow> block \<Rightarrow> block" where
  "hg_xor_gate a b = a XOR b"

definition hg_not_gate :: "block \<Rightarrow> HalfGateGen \<Rightarrow> block" where
  "hg_not_gate a st = hg_xor_gate a (hg_public_label True st)"

definition hg_num_and :: "HalfGateGen \<Rightarrow> 64 word" where
  "hg_num_and st = mi_gid (hg_mitccrh st) div 2"

subsection \<open>halfgate_eva.h\<close>

definition halfgates_eval :: "block \<Rightarrow> block \<Rightarrow> block list \<Rightarrow> MITCCRH \<Rightarrow> block \<times> MITCCRH" where
  "halfgates_eval A B table mitccrh =
     (let sa = getLSB A;
          sb = getLSB B;
          (H, mitccrh) = mi_hash 8 2 1 [A, B] mitccrh;
          W = H ! 0 XOR H ! 1;
          W = W XOR (select_mask sa AND table ! 0);
          W = W XOR (select_mask sb AND table ! 1);
          W = W XOR (select_mask sb AND A)
      in (W, mitccrh))"

record HalfGateEva =
  he_constant :: "bool \<Rightarrow> block"
  he_mitccrh :: MITCCRH

text \<open>The received blocks are the first of \<open>io\<close>; the rest is returned.\<close>

definition he_set_delta :: "block list \<Rightarrow> HalfGateEva \<Rightarrow> HalfGateEva \<times> block list" where
  "he_set_delta io st = (st\<lparr>he_constant := (\<lambda>b. if b then io ! 1 else io ! 0)\<rparr>, drop 2 io)"

definition HalfGateEva_new :: "block list \<Rightarrow> HalfGateEva \<times> block list" where
  "HalfGateEva_new io =
     (let (st, io) = he_set_delta io \<lparr>he_constant = (\<lambda>_. 0), he_mitccrh = MITCCRH_new 8\<rparr>
      in (st\<lparr>he_mitccrh := setS (io ! 0) (he_mitccrh st)\<rparr>, drop 1 io))"

definition he_public_label :: "bool \<Rightarrow> HalfGateEva \<Rightarrow> block" where
  "he_public_label b st = he_constant st b"

definition he_and_gate :: "block \<Rightarrow> block \<Rightarrow> block list \<Rightarrow> HalfGateEva \<Rightarrow> block \<times> HalfGateEva \<times> block list" where
  "he_and_gate a b io st =
     (let (W, mi) = halfgates_eval a b (take 2 io) (he_mitccrh st)
      in (W, st\<lparr>he_mitccrh := mi\<rparr>, drop 2 io))"

definition he_xor_gate :: "block \<Rightarrow> block \<Rightarrow> block" where
  "he_xor_gate a b = a XOR b"

definition he_not_gate :: "block \<Rightarrow> HalfGateEva \<Rightarrow> block" where
  "he_not_gate a st = he_xor_gate a (he_public_label True st)"

definition he_num_and :: "HalfGateEva \<Rightarrow> 64 word" where
  "he_num_and st = mi_gid (he_mitccrh st) div 2"

subsection \<open>Garbler and evaluator together\<close>

type_synonym halfgate_pair = "HalfGateGen \<times> HalfGateEva"

definition pair_and :: "block \<times> block \<Rightarrow> block \<times> block \<Rightarrow> (halfgate_pair, block \<times> block) state" where
  "pair_and a b = State (\<lambda>(g, e).
     let (w0, g) = hg_and_gate (fst a) (fst b) g;
         (w, e, io) = he_and_gate (snd a) (snd b) (hg_io g) e
     in ((w0, w), (g\<lparr>hg_io := io\<rparr>, e)))"

definition pair_xor :: "block \<times> block \<Rightarrow> block \<times> block \<Rightarrow> (halfgate_pair, block \<times> block) state" where
  "pair_xor a b = State (\<lambda>s. ((hg_xor_gate (fst a) (fst b), he_xor_gate (snd a) (snd b)), s))"

definition pair_not :: "block \<times> block \<Rightarrow> (halfgate_pair, block \<times> block) state" where
  "pair_not a = State (\<lambda>(g, e). ((hg_not_gate (fst a) g, he_not_gate (snd a) e), (g, e)))"

definition pair_public :: "bool \<Rightarrow> (halfgate_pair, block \<times> block) state" where
  "pair_public b = State (\<lambda>(g, e). ((hg_public_label b g, he_public_label b e), (g, e)))"

definition halfgate_exec :: "(halfgate_pair, block \<times> block) circuit_execution" where
  "halfgate_exec = \<lparr>and_gate = pair_and, xor_gate = pair_xor, not_gate = pair_not, public_label = pair_public\<rparr>"

definition halfgate_start :: "block \<Rightarrow> block \<Rightarrow> block \<Rightarrow> block \<Rightarrow> halfgate_pair" where
  "halfgate_start t0 t1 c0 c1 =
     (let g = HalfGateGen_new t0 t1 c0 c1; (e, io) = HalfGateEva_new (hg_io g) in (g\<lparr>hg_io := io\<rparr>, e))"

text \<open>The evaluator's label of a wire is the garbler's label of zero, shifted by \<open>delta\<close> when the bit is set.\<close>

definition label_rep :: "block \<Rightarrow> block \<times> block \<Rightarrow> bool \<Rightarrow> bool" where
  "label_rep delta w b \<longleftrightarrow> snd w = fst w XOR gate_blk b delta"

definition halfgate_ok :: "block \<Rightarrow> halfgate_pair \<Rightarrow> bool" where
  "halfgate_ok delta = (\<lambda>(g, e). hg_delta g = delta \<and> hg_io g = [] \<and> he_mitccrh e = hg_mitccrh g
     \<and> mi_ready 8 (hg_mitccrh g) \<and> 2 dvd mi_key_used (hg_mitccrh g)
     \<and> he_constant e False = hg_constant g False \<and> he_constant e True = hg_constant g True XOR delta)"

lemma halfgates_eval_garble:
  assumes "mi_ready 8 h" and "2 dvd mi_key_used h" and delta: "getLSB delta"
    and g: "halfgates_garble LA0 (LA0 XOR delta) LB0 (LB0 XOR delta) delta h = (W0, table, h1)"
    and e: "halfgates_eval (LA0 XOR gate_blk x delta) (LB0 XOR gate_blk y delta) table h = (W, h2)"
  shows "W = W0 XOR gate_blk (x \<and> y) delta" and "h2 = h1" and "mi_ready 8 h1" and "2 dvd mi_key_used h1"
    and "length table = 2"
proof -
  define A where "A = LA0 XOR gate_blk x delta"
  define B where "B = LB0 XOR gate_blk y delta"
  let ?F = "mi_fun 8 h"
  let ?bg = "[LA0, LA0 XOR delta, LB0, LB0 XOR delta]" and ?be = "[A, B]"
  note hg = mi_hash_eq [of 8 h 2 ?bg 2, OF assms(1) _ _ assms(2)]
  note he = mi_hash_eq [of 8 h 2 ?be 1, OF assms(1) _ _ assms(2)]
  have up: "[0..<2 * 2] = [0, 1, 2, 3 :: nat]" "[0..<2 * 1] = [0, 1 :: nat]" by (simp_all add: upt_rec [of _ 4] upt_rec [of _ 2])
  have fg: "fst (mi_hash 8 2 2 ?bg h) = [?F 0 LA0, ?F 0 (LA0 XOR delta), ?F 1 LB0, ?F 1 (LB0 XOR delta)]"
    using hg(1) unfolding up by simp
  have fe: "fst (mi_hash 8 2 1 ?be h) = [?F 0 A, ?F 1 B]"
    using he(1) unfolding up by simp
  have lsb: "getLSB (L XOR gate_blk b delta) = bxor (getLSB L) b" for L b
    using delta by (cases b) (auto simp: getLSB_bit bit_xor_iff)
  define t0 where "t0 = (?F 0 LA0 XOR ?F 0 (LA0 XOR delta)) XOR gate_blk (getLSB LB0) delta"
  define t1 where "t1 = (?F 1 LB0 XOR ?F 1 (LB0 XOR delta)) XOR LA0"
  have W0: "W0 = ((?F 0 LA0 XOR gate_blk (getLSB LA0) t0) XOR ?F 1 LB0)
      XOR gate_blk (getLSB LB0) (?F 1 LB0 XOR ?F 1 (LB0 XOR delta))"
    and tab: "table = [t0, t1]" and h1: "h1 = snd (mi_hash 8 2 2 ?bg h)"
    using g by (auto simp: halfgates_garble_def Let_def split_beta fg t0_def t1_def)
  have W: "W = (((?F 0 A XOR ?F 1 B) XOR gate_blk (getLSB A) t0) XOR gate_blk (getLSB B) t1) XOR gate_blk (getLSB B) A"
    and h2: "h2 = snd (mi_hash 8 2 1 ?be h)"
    using e by (auto simp: halfgates_eval_def Let_def split_beta fe [unfolded One_nat_def] tab A_def [symmetric] B_def [symmetric])
  show "W = W0 XOR gate_blk (x \<and> y) delta"
    unfolding W W0 A_def B_def lsb t1_def
    by (cases x; cases y; cases "getLSB LA0"; cases "getLSB LB0") (simp_all add: t0_def xor_simps)
  show "h2 = h1" unfolding h1 h2 using hg(5) [of 1 ?be] by simp
  show "mi_ready 8 h1" "2 dvd mi_key_used h1" unfolding h1 using hg(2,3) by simp_all
  show "length table = 2" by (simp add: tab)
qed

lemma halfgate_and:
  assumes "getLSB delta" and "label_rep delta a x" and "label_rep delta b y"
  shows "computes (halfgate_ok delta) (pair_and a b) (\<lambda>c. label_rep delta c (x \<and> y))"
proof (rule computesI)
  fix s c s' assume ok: "halfgate_ok delta s" and run: "run_state (pair_and a b) s = (c, s')"
  obtain g e where s: "s = (g, e)" by fastforce
  have ok': "hg_delta g = delta" "hg_io g = []" "he_mitccrh e = hg_mitccrh g" "mi_ready 8 (hg_mitccrh g)"
    "2 dvd mi_key_used (hg_mitccrh g)" "he_constant e False = hg_constant g False"
    "he_constant e True = hg_constant g True XOR delta"
    using ok s by (auto simp: halfgate_ok_def)
  obtain W0 table h1 where gb: "halfgates_garble (fst a) (fst a XOR delta) (fst b) (fst b XOR delta) delta (hg_mitccrh g) = (W0, table, h1)"
    using prod_cases3 by blast
  obtain W h2 where ev: "halfgates_eval (snd a) (snd b) table (hg_mitccrh g) = (W, h2)" by fastforce
  note ev' = ev [unfolded assms(2,3) [unfolded label_rep_def]]
  note res = halfgates_eval_garble [OF ok'(4,5) assms(1) gb ev']
  have "c = (W0, W)" "s' = (g\<lparr>hg_io := [], hg_mitccrh := h1\<rparr>, e\<lparr>he_mitccrh := h2\<rparr>)"
    using run by (auto simp: pair_and_def s hg_and_gate_def he_and_gate_def Let_def ok' gb ev res(5) split_beta)
  then show "label_rep delta c (x \<and> y) \<and> halfgate_ok delta s'"
    using res ok' by (simp add: label_rep_def halfgate_ok_def)
qed

lemma halfgate_backend:
  assumes "getLSB delta"
  shows "circuit_backend halfgate_exec (halfgate_ok delta) (label_rep delta)"
proof
  show "computes (halfgate_ok delta) (and_gate halfgate_exec a b) (\<lambda>c. label_rep delta c (x \<and> y))"
    if "label_rep delta a x" "label_rep delta b y" for a b x y
    using halfgate_and [OF assms that] by (simp add: halfgate_exec_def)
  show "computes (halfgate_ok delta) (xor_gate halfgate_exec a b) (\<lambda>c. label_rep delta c (x \<noteq> y))"
    if "label_rep delta a x" "label_rep delta b y" for a b x y
    using that by (cases x; cases y)
      (auto simp: computes_def halfgate_exec_def pair_xor_def label_rep_def hg_xor_gate_def he_xor_gate_def xor_simps)
  show "computes (halfgate_ok delta) (not_gate halfgate_exec a) (\<lambda>c. label_rep delta c (\<not> x))"
    if "label_rep delta a x" for a x
    using that by (cases x)
      (auto simp: computes_def halfgate_exec_def pair_not_def label_rep_def hg_not_gate_def he_not_gate_def
        hg_xor_gate_def he_xor_gate_def hg_public_label_def he_public_label_def halfgate_ok_def xor_simps)
  show "computes (halfgate_ok delta) (public_label halfgate_exec v) (\<lambda>c. label_rep delta c v)" for v
    by (cases v) (auto simp: computes_def halfgate_exec_def pair_public_def label_rep_def
        hg_public_label_def he_public_label_def halfgate_ok_def)
qed

lemma halfgate_start_ok: "halfgate_ok (set_bit_block t0 0) (halfgate_start t0 t1 c0 c1)"
  by (simp add: halfgate_start_def HalfGateGen_new_def HalfGateEva_new_def he_set_delta_def hg_set_delta_def
      halfgate_ok_def Let_def MITCCRH_new_def setS_def mi_ready_def xor.assoc)

lemma getLSB_set_bit: "getLSB (set_bit_block t0 0)"
  by (simp add: getLSB_bit set_bit_block_bit)

text \<open>The contract for the delta every garbler ends up with.\<close>

interpretation halfgate: circuit_backend halfgate_exec "halfgate_ok (set_bit_block t0 0)" "label_rep (set_bit_block t0 0)"
  for t0
  by (rule halfgate_backend) (rule getLSB_set_bit)

subsection \<open>privacy_free_gen.h, privacy_free_eva.h\<close>

text \<open>\<^verbatim>\<open>*((char *) &b) &= 0xfe\<close> and \<^verbatim>\<open>*((char *) &b) |= 0x01\<close> clear and set the least significant bit.\<close>

definition clear_lsb :: "block \<Rightarrow> block" where "clear_lsb b = unset_bit 0 b"
definition set_lsb :: "block \<Rightarrow> block" where "set_lsb b = set_bit 0 b"

definition privacy_free_garble :: "block \<Rightarrow> block \<Rightarrow> block \<Rightarrow> 64 word \<Rightarrow> AES_KEY \<Rightarrow> block \<times> block" where
  "privacy_free_garble LA0 A1 LB0 idx key =
     (let tweak = makeBlock (2 * idx) 0;
          keys = [sigma LA0 XOR tweak, sigma A1 XOR tweak];
          enc = AES_ecb_encrypt_blks key keys;
          HLA0 = enc ! 0 XOR keys ! 0;
          HA1 = enc ! 1 XOR keys ! 1;
          HLA0 = clear_lsb HLA0;
          HA1 = set_lsb HA1;
          tmp = HLA0 XOR HA1
      in (HLA0, tmp XOR LB0))"

record PrivacyFreeGen =
  pg_delta :: block
  pg_io :: "block list"
  pg_constant :: "bool \<Rightarrow> block"
  pg_gid :: "64 word"

definition pg_set_delta :: "block \<Rightarrow> block \<Rightarrow> block \<Rightarrow> PrivacyFreeGen \<Rightarrow> PrivacyFreeGen" where
  "pg_set_delta delta c0 c1 st =
     (let delta = set_bit_block delta 0; c0 = clear_lsb c0; c1 = set_lsb c1 in
      st\<lparr>pg_delta := delta, pg_io := pg_io st @ [c0, c1], pg_constant := (\<lambda>b. if b then c1 XOR delta else c0)\<rparr>)"

definition PrivacyFreeGen_new :: "block \<Rightarrow> block \<Rightarrow> block \<Rightarrow> PrivacyFreeGen" where
  "PrivacyFreeGen_new a c0 c1 = pg_set_delta a c0 c1 \<lparr>pg_delta = 0, pg_io = [], pg_constant = (\<lambda>_. 0), pg_gid = 0\<rparr>"

definition pg_isDelta :: "block \<Rightarrow> PrivacyFreeGen \<Rightarrow> bool" where
  "pg_isDelta b st = (let neq = b XOR pg_delta st in neq AND neq = 0)"

definition pg_public_label :: "bool \<Rightarrow> PrivacyFreeGen \<Rightarrow> block" where
  "pg_public_label b st = pg_constant st b"

definition pg_and_gate :: "block \<Rightarrow> block \<Rightarrow> PrivacyFreeGen \<Rightarrow> block \<times> PrivacyFreeGen" where
  "pg_and_gate a b st =
     (let (res, table) = privacy_free_garble a (a XOR pg_delta st) b (pg_gid st) (PRP_key zero_block)
      in (res, st\<lparr>pg_io := pg_io st @ [table], pg_gid := pg_gid st + 1\<rparr>))"

definition pg_xor_gate :: "block \<Rightarrow> block \<Rightarrow> block" where
  "pg_xor_gate a b = a XOR b"

definition pg_not_gate :: "block \<Rightarrow> PrivacyFreeGen \<Rightarrow> block" where
  "pg_not_gate a st = a XOR pg_public_label True st"

text \<open>\<^verbatim>\<open>table\<close> is a reference to a block, so \<^verbatim>\<open>table[0]\<close> is the lower half of the vector and \<^verbatim>\<open>HA ^ table[0]\<close>
  broadcasts it to both halves.\<close>

definition privacy_free_eval :: "block \<Rightarrow> block \<Rightarrow> block \<Rightarrow> 64 word \<Rightarrow> AES_KEY \<Rightarrow> block" where
  "privacy_free_eval A B table idx key =
     (let sa = getLSB A;
          tweak = makeBlock (2 * idx) 0;
          tmp = sigma A XOR tweak;
          HA = AES_ecb_encrypt_blks key [tmp] ! 0 XOR tmp
      in if sa then (set_lsb HA XOR makeBlock (ucast table) (ucast table)) XOR B else clear_lsb HA)"

record PrivacyFreeEva =
  pv_constant :: "bool \<Rightarrow> block"
  pv_gid :: "64 word"

definition PrivacyFreeEva_new :: "block list \<Rightarrow> PrivacyFreeEva \<times> block list" where
  "PrivacyFreeEva_new io = (\<lparr>pv_constant = (\<lambda>b. if b then io ! 1 else io ! 0), pv_gid = 0\<rparr>, drop 2 io)"

definition pv_public_label :: "bool \<Rightarrow> PrivacyFreeEva \<Rightarrow> block" where
  "pv_public_label b st = pv_constant st b"

definition pv_and_gate :: "block \<Rightarrow> block \<Rightarrow> block list \<Rightarrow> PrivacyFreeEva \<Rightarrow> block \<times> PrivacyFreeEva \<times> block list" where
  "pv_and_gate a b io st =
     (privacy_free_eval a b (io ! 0) (pv_gid st) (PRP_key zero_block), st\<lparr>pv_gid := pv_gid st + 1\<rparr>, drop 1 io)"

definition pv_xor_gate :: "block \<Rightarrow> block \<Rightarrow> block" where
  "pv_xor_gate a b = a XOR b"

definition pv_not_gate :: "block \<Rightarrow> PrivacyFreeEva \<Rightarrow> block" where
  "pv_not_gate a st = a XOR pv_public_label True st"

lemma lsb_simps [simp]:
  "\<not> getLSB (clear_lsb b)" "getLSB (set_lsb b)" "getLSB (a XOR b) = bxor (getLSB a) (getLSB b)"
  by (simp_all add: getLSB_bit clear_lsb_def set_lsb_def bit_unset_bit_iff bit_set_bit_iff bit_xor_iff bxor_def)

lemma pg_isDelta_iff: "pg_isDelta b st \<longleftrightarrow> b = pg_delta st"
  by (simp add: pg_isDelta_def Let_def) (metis xor.commute xor_right_cancel xor_self_eq)

text \<open>What the evaluator gets: the label of zero when the first bit is clear, and otherwise the
  label of the product with the upper half of the table entry exchanged for its lower half.\<close>

lemma privacy_free_eval_garble:
  assumes "getLSB delta" and "\<not> getLSB LA0"
    and "privacy_free_garble LA0 (LA0 XOR delta) LB0 idx key = (W0, table)"
  shows "privacy_free_eval (LA0 XOR gate_blk x delta) (LB0 XOR gate_blk y delta) table idx key
      = (if x then (W0 XOR gate_blk y delta) XOR (table XOR makeBlock (ucast table) (ucast table)) else W0)"
    and "\<not> getLSB W0"
proof -
  note defs = privacy_free_eval_def privacy_free_garble_def Let_def AES_ecb_encrypt_blks_map
  show "\<not> getLSB W0" using assms(3) by (auto simp: defs)
  have t: "table = (W0 XOR set_lsb (aes_encrypt key (sigma (LA0 XOR delta) XOR makeBlock (2 * idx) 0)
      XOR (sigma (LA0 XOR delta) XOR makeBlock (2 * idx) 0))) XOR LB0"
    using assms(3) by (auto simp: defs)
  show "privacy_free_eval (LA0 XOR gate_blk x delta) (LB0 XOR gate_blk y delta) table idx key
      = (if x then (W0 XOR gate_blk y delta) XOR (table XOR makeBlock (ucast table) (ucast table)) else W0)"
  proof (cases x)
    case True
    let ?m = "makeBlock (ucast table) (ucast table)"
    have "privacy_free_eval (LA0 XOR gate_blk x delta) (LB0 XOR gate_blk y delta) table idx key
        = (set_lsb (aes_encrypt key (sigma (LA0 XOR delta) XOR makeBlock (2 * idx) 0)
      XOR (sigma (LA0 XOR delta) XOR makeBlock (2 * idx) 0)) XOR ?m) XOR (LB0 XOR gate_blk y delta)"
      using True assms(1,2) by (simp add: defs)
    also have "\<dots> = (W0 XOR gate_blk y delta) XOR (table XOR ?m)"
      by (subst (3) t) (simp add: xor_simps)
    finally show ?thesis using True by simp
  qed (use assms in \<open>auto simp: defs\<close>)
qed

text \<open>So the evaluation of a gate whose first input is set is right only when the two halves of
  the table entry agree.\<close>

lemma makeBlock_halves: "makeBlock (ucast (drop_bit 64 b)) (ucast b) = b"
  by (rule bit_word_eqI) (auto simp: bit_makeBlock bit_ucast_iff bit_drop_bit_eq)

text \<open>
  C35.  Privacy-free garbling: with the evaluator's bit of the first input set, evaluation gives the garbled label only
  if the two halves of the table entry happen to agree, because \<^verbatim>\<open>HA ^ table[0]\<close> on a \<^verbatim>\<open>block &\<close> repeats the low 64 bits.
\<close>

theorem privacy_free_eval_wrong:
  assumes "getLSB delta" and "\<not> getLSB LA0"
    and "privacy_free_garble LA0 (LA0 XOR delta) LB0 idx key = (W0, table)"
  shows "privacy_free_eval (LA0 XOR delta) (LB0 XOR gate_blk y delta) table idx key = W0 XOR gate_blk y delta
      \<longleftrightarrow> (ucast (drop_bit 64 table) :: 64 word) = ucast table"
proof -
  have "table XOR makeBlock (ucast table) (ucast table) = 0
      \<longleftrightarrow> makeBlock (ucast table) (ucast table) = makeBlock (ucast (drop_bit 64 table)) (ucast table)"
    unfolding makeBlock_halves by (metis xor_self_eq xor_right_cancel)
  also have "\<dots> \<longleftrightarrow> (ucast (drop_bit 64 table) :: 64 word) = ucast table"
  proof
    assume eq: "makeBlock (ucast table) (ucast table) = makeBlock (ucast (drop_bit 64 table)) (ucast table)"
    show "(ucast (drop_bit 64 table) :: 64 word) = ucast table"
    proof (rule bit_word_eqI)
      fix n assume "n < LENGTH(64)"
      then show "bit (ucast (drop_bit 64 table) :: 64 word) n = bit (ucast table :: 64 word) n"
        using arg_cong [OF eq, of "\<lambda>b. bit b (n + 64)"] by (simp add: bit_makeBlock)
    qed
  qed simp
  finally show ?thesis
    using privacy_free_eval_garble(1) [OF assms, of True y] by simp
qed

theorem privacy_free_eval_wrong_witness:
  "\<forall>key. \<exists>W0 table. privacy_free_garble 2 (2 XOR 1) 4 0 key = (W0, table)
     \<and> (privacy_free_eval (2 XOR 1) (4 XOR gate_blk True 1) table 0 key = W0 XOR gate_blk True 1
        \<longleftrightarrow> (ucast (drop_bit 64 table) :: 64 word) = ucast table)"
proof
  fix key
  obtain W0 table where g: "privacy_free_garble 2 (2 XOR 1) 4 0 key = (W0, table)" by (meson surj_pair)
  have "getLSB 1" "\<not> getLSB 2" by (simp_all add: getLSB_bit)
  from privacy_free_eval_wrong [OF this g, of True] g
  show "\<exists>W0 table. privacy_free_garble 2 (2 XOR 1) 4 0 key = (W0, table)
     \<and> (privacy_free_eval (2 XOR 1) (4 XOR gate_blk True 1) table 0 key = W0 XOR gate_blk True 1
        \<longleftrightarrow> (ucast (drop_bit 64 table) :: 64 word) = ucast table)" by blast
qed

end
