(* ===== verification/FlexIO.thy ===== *)
theory FlexIO
  imports Shares
begin

text \<open>
  \<^verbatim>\<open>emp-agmpc/flexible_input_output.h\<close>: how a circuit's input wires get their masked values and
  how its output wires are opened.  An input position belongs to one party (\<open>k > 0\<close>), to
  everybody (0), is an authenticated share (-1) or an unauthenticated one (-2); an output
  position goes to one party, to everybody, or stays an authenticated share.

  Each exchange of the protocol is a pair of functions: what a party sends to party \<open>j\<close>, and what
  it makes of the vectors it received, \<open>recv j\<close> coming from party \<open>j\<close>.  The functions \<open>fi_input\<close> and
  \<open>fo_output\<close> take arbitrary received vectors, so their theorems also speak about cheating
  parties; \<open>run_input\<close> and \<open>run_output\<close> are the honest runs.
\<close>

record AuthBitShare =
  bit_share :: bool
  ab_key :: "nat \<Rightarrow> block"
  ab_mac :: "nat \<Rightarrow> block"

record BitWithMac =
  mb_bit :: bool
  mb_mac :: block

datatype flex_error =
    Assert_failed
  | Out_of_range
  | Cheat_plaintext_mask
  | Cheat_authenticated_mask
  | Cheat_public_mask
  | Label_mismatch
  | Cheat_output_mask

definition empty_abit :: AuthBitShare where
  "empty_abit = \<lparr>bit_share = False, ab_key = (\<lambda>_. 0), ab_mac = (\<lambda>_. 0)\<rparr>"

definition empty_mbit :: BitWithMac where
  "empty_mbit = \<lparr>mb_bit = False, mb_mac = 0\<rparr>"

text \<open>A write to a \<^verbatim>\<open>std::vector\<close>; past the end it is undefined behaviour, here an error.\<close>

definition vec_set :: "nat \<Rightarrow> 'a \<Rightarrow> 'a list \<Rightarrow> flex_error + 'a list" where
  "vec_set pos v xs = (if pos < length xs then Inr (xs[pos := v]) else Inl Out_of_range)"

text \<open>\<^verbatim>\<open>joinNcleanCheat\<close> over the tasks that verify the bits opened by each other party: position
  \<open>i\<close> is checked when \<open>sel i\<close>, against the key \<open>key j i\<close>.\<close>

definition verify_opened ::
  "nat \<Rightarrow> nat \<Rightarrow> nat \<Rightarrow> block \<Rightarrow> (nat \<Rightarrow> bool) \<Rightarrow> block party_arr \<Rightarrow> (nat \<Rightarrow> BitWithMac list) \<Rightarrow> bool" where
  "verify_opened nP party len Delta sel key recv =
     list_ex (\<lambda>j. list_ex (\<lambda>i. sel i \<and>
        (let supposed_mac = (Delta AND select_mask (mb_bit (recv j ! i))) XOR key j i;
             provided_mac = mb_mac (recv j ! i)
         in \<not> cmpBlock (\<lambda>_. supposed_mac) (\<lambda>_. provided_mac) 1)) [0..<len]) (others nP party)"

subsection \<open>FlexIn\<close>

record FlexIn =
  fi_len :: nat
  fi_party :: nat
  fi_associated :: bool
  fi_value :: "bool arr"
  fi_key :: "block party_arr"
  fi_mac :: "block party_arr"
  fi_Delta :: block
  fi_party_assignment :: "int list"
  fi_plaintext_assignment :: "bool list"
  fi_authenticated_share_assignment :: "AuthBitShare list"

definition FlexIn_new :: "nat \<Rightarrow> nat \<Rightarrow> FlexIn \<Rightarrow> FlexIn" where
  "FlexIn_new len party heap =
     heap\<lparr>fi_len := len, fi_party := party, fi_associated := False,
          fi_party_assignment := replicate len 0, fi_plaintext_assignment := replicate len False,
          fi_authenticated_share_assignment := replicate len empty_abit\<rparr>"

definition fi_associate_cmpc ::
  "nat \<Rightarrow> bool arr \<Rightarrow> block party_arr \<Rightarrow> block party_arr \<Rightarrow> block \<Rightarrow> FlexIn \<Rightarrow> FlexIn" where
  "fi_associate_cmpc nP value mac key Delta st =
     st\<lparr>fi_associated := True, fi_value := value,
        fi_mac := (\<lambda>j. if 1 \<le> j \<and> j \<le> nP then mac j else fi_mac st j),
        fi_key := (\<lambda>j. if 1 \<le> j \<and> j \<le> nP then key j else fi_key st j), fi_Delta := Delta\<rparr>"

definition fi_assign_party :: "nat \<Rightarrow> int \<Rightarrow> FlexIn \<Rightarrow> flex_error + FlexIn" where
  "fi_assign_party pos which st =
     map_sum id (\<lambda>v. st\<lparr>fi_party_assignment := v\<rparr>) (vec_set pos which (fi_party_assignment st))"

definition assign_plaintext_bit :: "nat \<Rightarrow> bool \<Rightarrow> FlexIn \<Rightarrow> flex_error + FlexIn" where
  "assign_plaintext_bit pos cur_bit st =
     (if length (fi_party_assignment st) \<le> pos then Inl Out_of_range
      else if fi_party_assignment st ! pos = int (fi_party st) \<or> fi_party_assignment st ! pos = -2
         \<or> fi_party_assignment st ! pos = 0
      then map_sum id (\<lambda>v. st\<lparr>fi_plaintext_assignment := v\<rparr>)
             (vec_set pos cur_bit (fi_plaintext_assignment st))
      else Inl Assert_failed)"

definition assign_authenticated_bitshare :: "nat \<Rightarrow> AuthBitShare \<Rightarrow> FlexIn \<Rightarrow> flex_error + FlexIn" where
  "assign_authenticated_bitshare pos abit st =
     (if length (fi_party_assignment st) \<le> pos then Inl Out_of_range
      else if fi_party_assignment st ! pos = -1
      then map_sum id (\<lambda>v. st\<lparr>fi_authenticated_share_assignment := v\<rparr>)
             (vec_set pos abit (fi_authenticated_share_assignment st))
      else Inl Assert_failed)"

text \<open>The array \<^verbatim>\<open>input_mask\<close>; the entries at the party's own index are never written.\<close>

definition input_mask :: "nat \<Rightarrow> AuthBitShare \<Rightarrow> FlexIn \<Rightarrow> AuthBitShare list" where
  "input_mask nP garbage st = map (\<lambda>i.
     \<lparr>bit_share = fi_value st i,
      ab_key = (\<lambda>j. if 1 \<le> j \<and> j \<le> nP \<and> j \<noteq> fi_party st then fi_key st j i else ab_key garbage j),
      ab_mac = (\<lambda>j. if 1 \<le> j \<and> j \<le> nP \<and> j \<noteq> fi_party st then fi_mac st j i else ab_mac garbage j)\<rparr>)
     [0..<fi_len st]"

text \<open>The bits opened towards party \<open>j\<close>: of the positions that satisfy \<open>sel\<close>, from the shares \<open>xs\<close>.\<close>

definition open_bit_shares :: "nat \<Rightarrow> (nat \<Rightarrow> bool) \<Rightarrow> AuthBitShare list \<Rightarrow> nat \<Rightarrow> BitWithMac list" where
  "open_bit_shares len sel xs j = map (\<lambda>i.
     if sel i then \<lparr>mb_bit = bit_share (xs ! i), mb_mac = ab_mac (xs ! i) j\<rparr> else empty_mbit) [0..<len]"

definition masked_input_sent ::
  "nat \<Rightarrow> FlexIn \<Rightarrow> AuthBitShare list \<Rightarrow> (nat \<Rightarrow> BitWithMac list) \<Rightarrow> 8 word list" where
  "masked_input_sent nP st im recv = map (\<lambda>i.
     if fi_party_assignment st ! i = int (fi_party st) then
       fold (\<lambda>j x. x XOR of_bool (mb_bit (recv j ! i))) (others nP (fi_party st))
         (of_bool (bxor (fi_plaintext_assignment st ! i) (bit_share (im ! i))))
     else 0) [0..<fi_len st]"

definition masked_by_party ::
  "FlexIn \<Rightarrow> 8 word list \<Rightarrow> (nat \<Rightarrow> 8 word list) \<Rightarrow> bool list" where
  "masked_by_party st sent recv = map (\<lambda>i.
     if fi_party_assignment st ! i > 0 then
       (if fi_party_assignment st ! i = int (fi_party st) then sent ! i \<noteq> 0
        else recv (nat (fi_party_assignment st ! i)) ! i \<noteq> 0)
     else False) [0..<fi_len st]"

definition authenticated_bitshares_new_circuit :: "nat \<Rightarrow> FlexIn \<Rightarrow> AuthBitShare list \<Rightarrow> AuthBitShare list" where
  "authenticated_bitshares_new_circuit nP st im = map (\<lambda>i.
     if fi_party_assignment st ! i = -1 then
       \<lparr>bit_share = bxor (bit_share (fi_authenticated_share_assignment st ! i)) (bit_share (im ! i)),
        ab_key = (\<lambda>j. if 1 \<le> j \<and> j \<le> nP
           then ab_key (fi_authenticated_share_assignment st ! i) j XOR ab_key (im ! i) j else 0),
        ab_mac = (\<lambda>j. if 1 \<le> j \<and> j \<le> nP
           then ab_mac (fi_authenticated_share_assignment st ! i) j XOR ab_mac (im ! i) j else 0)\<rparr>
     else empty_abit) [0..<fi_len st]"

text \<open>\<open>masked_input[i] = own share; for j: masked_input[i] ^= recv[j][i]\<close> at the selected positions.\<close>

definition reconstruct ::
  "nat \<Rightarrow> FlexIn \<Rightarrow> (nat \<Rightarrow> bool) \<Rightarrow> (nat \<Rightarrow> bool) \<Rightarrow> (nat \<Rightarrow> nat \<Rightarrow> bool) \<Rightarrow> bool list \<Rightarrow> bool list" where
  "reconstruct nP st sel own recv masked = map (\<lambda>i.
     if sel i then fold (\<lambda>j b. bxor b (recv j i)) (others nP (fi_party st)) (own i) else masked ! i)
     [0..<fi_len st]"

definition unauthenticated_sent :: "FlexIn \<Rightarrow> AuthBitShare list \<Rightarrow> 8 word list" where
  "unauthenticated_sent st im = map (\<lambda>i.
     if fi_party_assignment st ! i = -2
     then of_bool (bxor (fi_plaintext_assignment st ! i) (bit_share (im ! i))) else 0) [0..<fi_len st]"

text \<open>The five vectors a party receives, by sender.\<close>

record fi_inbox =
  plaintext_recv :: "nat \<Rightarrow> BitWithMac list"
  masked_recv :: "nat \<Rightarrow> 8 word list"
  authenticated_recv :: "nat \<Rightarrow> BitWithMac list"
  unauthenticated_recv :: "nat \<Rightarrow> 8 word list"
  public_recv :: "nat \<Rightarrow> BitWithMac list"

definition fi_input :: "nat \<Rightarrow> AuthBitShare \<Rightarrow> FlexIn \<Rightarrow> fi_inbox \<Rightarrow> flex_error + bool list" where
  "fi_input nP garbage st inbox =
     (let len = fi_len st; party = fi_party st; asg = (\<lambda>i. fi_party_assignment st ! i);
          im = input_mask nP garbage st;
          mask_keys = (\<lambda>j i. ab_key (im ! i) j)
      in if \<not> fi_associated st then Inl Assert_failed
         else if verify_opened nP party len (fi_Delta st) (\<lambda>i. asg i = int party) mask_keys (plaintext_recv inbox)
         then Inl Cheat_plaintext_mask
         else
           let sent = masked_input_sent nP st im (plaintext_recv inbox);
               masked = masked_by_party st sent (masked_recv inbox);
               nc = authenticated_bitshares_new_circuit nP st im
           in if verify_opened nP party len (fi_Delta st) (\<lambda>i. asg i = -1) (\<lambda>j i. ab_key (nc ! i) j)
                   (authenticated_recv inbox)
              then Inl Cheat_authenticated_mask
              else
                let masked = reconstruct nP st (\<lambda>i. asg i = -1) (\<lambda>i. bit_share (nc ! i))
                               (\<lambda>j i. mb_bit (authenticated_recv inbox j ! i)) masked;
                    un = unauthenticated_sent st im;
                    masked = reconstruct nP st (\<lambda>i. asg i = -2) (\<lambda>i. un ! i \<noteq> 0)
                               (\<lambda>j i. unauthenticated_recv inbox j ! i = 1) masked
                in if verify_opened nP party len (fi_Delta st) (\<lambda>i. asg i = 0) mask_keys (public_recv inbox)
                   then Inl Cheat_public_mask
                   else Inr (reconstruct nP st (\<lambda>i. asg i = 0)
                               (\<lambda>i. bxor (fi_plaintext_assignment st ! i) (bit_share (im ! i)))
                               (\<lambda>j i. mb_bit (public_recv inbox j ! i)) masked))"

text \<open>The honest run: what the other parties \<open>F j\<close> send to party \<open>p\<close>.\<close>

definition fi_plaintext_send :: "nat \<Rightarrow> AuthBitShare \<Rightarrow> FlexIn \<Rightarrow> nat \<Rightarrow> BitWithMac list" where
  "fi_plaintext_send nP garbage st p =
     open_bit_shares (fi_len st) (\<lambda>i. fi_party_assignment st ! i = int p) (input_mask nP garbage st) p"

definition fi_authenticated_send :: "nat \<Rightarrow> AuthBitShare \<Rightarrow> FlexIn \<Rightarrow> nat \<Rightarrow> BitWithMac list" where
  "fi_authenticated_send nP garbage st p =
     open_bit_shares (fi_len st) (\<lambda>i. fi_party_assignment st ! i = -1)
       (authenticated_bitshares_new_circuit nP st (input_mask nP garbage st)) p"

definition fi_public_send :: "nat \<Rightarrow> AuthBitShare \<Rightarrow> FlexIn \<Rightarrow> nat \<Rightarrow> BitWithMac list" where
  "fi_public_send nP garbage st p =
     open_bit_shares (fi_len st) (\<lambda>i. fi_party_assignment st ! i = 0) (input_mask nP garbage st) p"

definition fi_honest_inbox :: "nat \<Rightarrow> AuthBitShare \<Rightarrow> (nat \<Rightarrow> FlexIn) \<Rightarrow> nat \<Rightarrow> fi_inbox" where
  "fi_honest_inbox nP garbage F p =
     \<lparr>plaintext_recv = (\<lambda>j. fi_plaintext_send nP garbage (F j) p),
      masked_recv = (\<lambda>j. masked_input_sent nP (F j) (input_mask nP garbage (F j))
                           (\<lambda>k. fi_plaintext_send nP garbage (F k) j)),
      authenticated_recv = (\<lambda>j. fi_authenticated_send nP garbage (F j) p),
      unauthenticated_recv = (\<lambda>j. unauthenticated_sent (F j) (input_mask nP garbage (F j))),
      public_recv = (\<lambda>j. fi_public_send nP garbage (F j) p)\<rparr>"

definition run_input :: "nat \<Rightarrow> AuthBitShare \<Rightarrow> (nat \<Rightarrow> FlexIn) \<Rightarrow> nat \<Rightarrow> flex_error + bool list" where
  "run_input nP garbage F p = fi_input nP garbage (F p) (fi_honest_inbox nP garbage F p)"

subsection \<open>What FlexIn accepts and returns\<close>

lemma verify_opened_iff:
  "verify_opened nP party len D sel key recv \<longleftrightarrow>
     (\<exists>j\<in>set (others nP party). \<exists>i<len. sel i \<and> mb_mac (recv j ! i) \<noteq> gate_blk (mb_bit (recv j ! i)) D XOR key j i)"
  unfolding verify_opened_def Let_def One_nat_def cmpBlock_single list_ex_iff select_mask_and
  by (simp only: atLeast_upt [symmetric] Bex_def lessThan_iff eq_commute [of "mb_mac _"])

lemma input_mask_nth [simp]:
  assumes "i < fi_len st"
  shows "bit_share (input_mask nP g st ! i) = fi_value st i"
    and "j \<in> set (others nP (fi_party st)) \<Longrightarrow> ab_key (input_mask nP g st ! i) j = fi_key st j i"
    and "j \<in> set (others nP (fi_party st)) \<Longrightarrow> ab_mac (input_mask nP g st ! i) j = fi_mac st j i"
  using assms by (simp_all add: input_mask_def)

lemma new_circuit_nth [simp]:
  fixes nP i :: nat and g :: AuthBitShare and st :: FlexIn
  assumes "i < fi_len st" and "fi_party_assignment st ! i = -1"
  defines "nc \<equiv> authenticated_bitshares_new_circuit nP st (input_mask nP g st)"
    and "a \<equiv> fi_authenticated_share_assignment st ! i"
  shows "bit_share (nc ! i) = bxor (bit_share a) (fi_value st i)"
    and "j \<in> set (others nP (fi_party st)) \<Longrightarrow> ab_key (nc ! i) j = ab_key a j XOR fi_key st j i"
    and "j \<in> set (others nP (fi_party st)) \<Longrightarrow> ab_mac (nc ! i) j = ab_mac a j XOR fi_mac st j i"
  unfolding nc_def a_def authenticated_bitshares_new_circuit_def
  using assms(1,2) input_mask_nth [OF assms(1), where nP = nP and g = g] by auto

lemma open_bit_shares_nth [simp]:
  "i < len \<Longrightarrow> sel i \<Longrightarrow> mb_bit (open_bit_shares len sel xs j ! i) = bit_share (xs ! i)"
  "i < len \<Longrightarrow> sel i \<Longrightarrow> mb_mac (open_bit_shares len sel xs j ! i) = ab_mac (xs ! i) j"
  by (simp_all add: open_bit_shares_def)

lemma fold_xor_char:
  "fold (\<lambda>j x. x XOR of_bool (b j)) js (of_bool c) = (of_bool (bxor c (parity b js)) :: 8 word)"
proof (induction js arbitrary: c)
  case (Cons j js)
  have "of_bool c XOR of_bool (b j) = (of_bool (bxor c (b j)) :: 8 word)"
    by (cases c; cases "b j") simp_all
  then show ?case by (simp add: Cons bxor_assoc del: of_bool_eq_iff)
qed simp

text \<open>The bit an accepting party computes for position \<open>i\<close>.\<close>

definition masked_bit :: "nat \<Rightarrow> FlexIn \<Rightarrow> fi_inbox \<Rightarrow> nat \<Rightarrow> bool" where
  "masked_bit nP st inbox i =
     (let a = fi_party_assignment st ! i; os = others nP (fi_party st) in
      if a = 0 then bxor (bxor (fi_plaintext_assignment st ! i) (fi_value st i))
                      (parity (\<lambda>j. mb_bit (public_recv inbox j ! i)) os)
      else if a = -2 then bxor (bxor (fi_plaintext_assignment st ! i) (fi_value st i))
                            (parity (\<lambda>j. unauthenticated_recv inbox j ! i = 1) os)
      else if a = -1 then
        bxor (bxor (bit_share (fi_authenticated_share_assignment st ! i)) (fi_value st i))
          (parity (\<lambda>j. mb_bit (authenticated_recv inbox j ! i)) os)
      else if a = int (fi_party st) then bxor (bxor (fi_plaintext_assignment st ! i) (fi_value st i))
          (parity (\<lambda>j. mb_bit (plaintext_recv inbox j ! i)) os)
      else a > 0 \<and> masked_recv inbox (nat a) ! i \<noteq> 0)"

lemma input_accepted:
  assumes "1 \<le> fi_party st"
  shows "fi_input nP g st inbox = Inr masked \<longleftrightarrow>
     fi_associated st
     \<and> \<not> verify_opened nP (fi_party st) (fi_len st) (fi_Delta st) (\<lambda>i. fi_party_assignment st ! i = int (fi_party st))
         (\<lambda>j i. ab_key (input_mask nP g st ! i) j) (plaintext_recv inbox)
     \<and> \<not> verify_opened nP (fi_party st) (fi_len st) (fi_Delta st) (\<lambda>i. fi_party_assignment st ! i = -1)
         (\<lambda>j i. ab_key (authenticated_bitshares_new_circuit nP st (input_mask nP g st) ! i) j) (authenticated_recv inbox)
     \<and> \<not> verify_opened nP (fi_party st) (fi_len st) (fi_Delta st) (\<lambda>i. fi_party_assignment st ! i = 0)
         (\<lambda>j i. ab_key (input_mask nP g st ! i) j) (public_recv inbox)
     \<and> masked = map (masked_bit nP st inbox) [0..<fi_len st]"
proof -
  have "reconstruct nP st (\<lambda>i. fi_party_assignment st ! i = 0)
          (\<lambda>i. bxor (fi_plaintext_assignment st ! i) (bit_share (input_mask nP g st ! i)))
          (\<lambda>j i. mb_bit (public_recv inbox j ! i))
          (reconstruct nP st (\<lambda>i. fi_party_assignment st ! i = -2)
             (\<lambda>i. unauthenticated_sent st (input_mask nP g st) ! i \<noteq> 0)
             (\<lambda>j i. unauthenticated_recv inbox j ! i = 1)
             (reconstruct nP st (\<lambda>i. fi_party_assignment st ! i = -1)
                (\<lambda>i. bit_share (authenticated_bitshares_new_circuit nP st (input_mask nP g st) ! i))
                (\<lambda>j i. mb_bit (authenticated_recv inbox j ! i))
                (masked_by_party st (masked_input_sent nP st (input_mask nP g st) (plaintext_recv inbox)) (masked_recv inbox))))
     = map (masked_bit nP st inbox) [0..<fi_len st]"
    using assms
    by (auto simp: masked_bit_def Let_def reconstruct_def unauthenticated_sent_def masked_by_party_def
        masked_input_sent_def fold_bxor_parity fold_xor_char)
  then show ?thesis
    unfolding fi_input_def Let_def by auto
qed

subsection \<open>Correctness of FlexIn\<close>

text \<open>The parties \<open>F 1, \<dots>, F nP\<close> before \<^verbatim>\<open>input\<close>: they agree on the assignment, their masks and the
  authenticated shares they feed in are authenticated under the same offsets.\<close>

definition fi_mask_auth :: "nat \<Rightarrow> (nat \<Rightarrow> FlexIn) \<Rightarrow> nat \<Rightarrow> bool" where
  "fi_mask_auth nP F i \<longleftrightarrow> auth_bit nP (\<lambda>p. fi_Delta (F p)) (\<lambda>p. fi_value (F p) i)
     (\<lambda>p j. fi_mac (F p) j i) (\<lambda>p j. fi_key (F p) j i)"

definition fi_share_auth :: "nat \<Rightarrow> (nat \<Rightarrow> FlexIn) \<Rightarrow> nat \<Rightarrow> bool" where
  "fi_share_auth nP F i \<longleftrightarrow> auth_bit nP (\<lambda>p. fi_Delta (F p))
     (\<lambda>p. bit_share (fi_authenticated_share_assignment (F p) ! i))
     (\<lambda>p j. ab_mac (fi_authenticated_share_assignment (F p) ! i) j)
     (\<lambda>p j. ab_key (fi_authenticated_share_assignment (F p) ! i) j)"

definition fi_ready :: "nat \<Rightarrow> nat \<Rightarrow> int list \<Rightarrow> (nat \<Rightarrow> FlexIn) \<Rightarrow> bool" where
  "fi_ready nP len asg F \<longleftrightarrow>
     list_all (\<lambda>p. fi_party (F p) = p \<and> fi_len (F p) = len \<and> fi_associated (F p)
                 \<and> fi_party_assignment (F p) = asg) (parties nP)
     \<and> list_all (\<lambda>i. - 2 \<le> asg ! i \<and> asg ! i \<le> int nP \<and> fi_mask_auth nP F i
                 \<and> (asg ! i = -1 \<longrightarrow> fi_share_auth nP F i)) [0..<len]"

lemma fi_readyD:
  assumes "fi_ready nP len asg F" and "1 \<le> p" "p \<le> nP"
  shows "fi_party (F p) = p" "fi_len (F p) = len" "fi_associated (F p)" "fi_party_assignment (F p) = asg"
  using assms by (auto simp: fi_ready_def list_all_iff)

lemma fi_ready_pos:
  assumes "fi_ready nP len asg F" and "i < len"
  shows "- 2 \<le> asg ! i" "asg ! i \<le> int nP" "fi_mask_auth nP F i" "asg ! i = -1 \<Longrightarrow> fi_share_auth nP F i"
  using assms by (auto simp: fi_ready_def list_all_iff)

text \<open>The input bit of position \<open>i\<close>, as party \<open>p\<close> sees it (only a public input is each party's own
  claim), and the mask of the wire.\<close>

definition fi_secret :: "nat \<Rightarrow> int list \<Rightarrow> (nat \<Rightarrow> FlexIn) \<Rightarrow> nat \<Rightarrow> nat \<Rightarrow> bool" where
  "fi_secret nP asg F p i =
     (if asg ! i = 0 then fi_plaintext_assignment (F p) ! i
      else if asg ! i = -2 then parity (\<lambda>q. fi_plaintext_assignment (F q) ! i) (parties nP)
      else if asg ! i = -1 then parity (\<lambda>q. bit_share (fi_authenticated_share_assignment (F q) ! i)) (parties nP)
      else fi_plaintext_assignment (F (nat (asg ! i))) ! i)"

definition fi_mask :: "nat \<Rightarrow> (nat \<Rightarrow> FlexIn) \<Rightarrow> nat \<Rightarrow> bool" where
  "fi_mask nP F i = parity (\<lambda>q. fi_value (F q) i) (parties nP)"

lemma fi_new_auth:
  assumes "fi_ready nP len asg F" and "i < len" and "asg ! i = -1"
  shows "auth_bit nP (\<lambda>p. fi_Delta (F p))
     (\<lambda>p. bxor (bit_share (fi_authenticated_share_assignment (F p) ! i)) (fi_value (F p) i))
     (\<lambda>p j. ab_mac (fi_authenticated_share_assignment (F p) ! i) j XOR fi_mac (F p) j i)
     (\<lambda>p j. ab_key (fi_authenticated_share_assignment (F p) ! i) j XOR fi_key (F p) j i)"
  using fi_ready_pos [OF assms(1,2)] assms(3) unfolding fi_mask_auth_def fi_share_auth_def
  by (intro auth_bit_xor) auto

text \<open>The honest messages pass every check.\<close>

lemma fi_honest_plaintext:
  assumes ready: "fi_ready nP len asg F" and p: "1 \<le> p" "p \<le> nP"
  shows "\<not> verify_opened nP p len (fi_Delta (F p)) (\<lambda>i. asg ! i = int p)
     (\<lambda>j i. ab_key (input_mask nP g (F p) ! i) j) (\<lambda>j. fi_plaintext_send nP g (F j) p)"
proof -
  have "mb_mac (fi_plaintext_send nP g (F j) p ! i)
      = gate_blk (mb_bit (fi_plaintext_send nP g (F j) p ! i)) (fi_Delta (F p)) XOR ab_key (input_mask nP g (F p) ! i) j"
    if j: "j \<in> set (others nP p)" and i: "i < len" "asg ! i = int p" for j i
    using opening_honest [OF fi_ready_pos(3) [OF ready i(1), unfolded fi_mask_auth_def] p j] i j p
    by (simp add: fi_plaintext_send_def fi_readyD [OF ready])
  then show ?thesis unfolding verify_opened_iff by blast
qed

lemma fi_honest_public:
  assumes ready: "fi_ready nP len asg F" and p: "1 \<le> p" "p \<le> nP"
  shows "\<not> verify_opened nP p len (fi_Delta (F p)) (\<lambda>i. asg ! i = 0)
     (\<lambda>j i. ab_key (input_mask nP g (F p) ! i) j) (\<lambda>j. fi_public_send nP g (F j) p)"
proof -
  have "mb_mac (fi_public_send nP g (F j) p ! i)
      = gate_blk (mb_bit (fi_public_send nP g (F j) p ! i)) (fi_Delta (F p)) XOR ab_key (input_mask nP g (F p) ! i) j"
    if j: "j \<in> set (others nP p)" and i: "i < len" "asg ! i = 0" for j i
    using opening_honest [OF fi_ready_pos(3) [OF ready i(1), unfolded fi_mask_auth_def] p j] i j p
    by (simp add: fi_public_send_def fi_readyD [OF ready])
  then show ?thesis unfolding verify_opened_iff by blast
qed

lemma fi_honest_authenticated:
  assumes ready: "fi_ready nP len asg F" and p: "1 \<le> p" "p \<le> nP"
  shows "\<not> verify_opened nP p len (fi_Delta (F p)) (\<lambda>i. asg ! i = -1)
     (\<lambda>j i. ab_key (authenticated_bitshares_new_circuit nP (F p) (input_mask nP g (F p)) ! i) j)
     (\<lambda>j. fi_authenticated_send nP g (F j) p)"
proof -
  have "mb_mac (fi_authenticated_send nP g (F j) p ! i)
      = gate_blk (mb_bit (fi_authenticated_send nP g (F j) p ! i)) (fi_Delta (F p))
        XOR ab_key (authenticated_bitshares_new_circuit nP (F p) (input_mask nP g (F p)) ! i) j"
    if j: "j \<in> set (others nP p)" and i: "i < len" "asg ! i = -1" for j i
    using opening_honest [OF fi_new_auth [OF ready i] p j] i j p
    by (simp add: fi_authenticated_send_def fi_readyD [OF ready])
  then show ?thesis unfolding verify_opened_iff by blast
qed

theorem flexin_honest:
  assumes ready: "fi_ready nP len asg F" and p: "1 \<le> p" "p \<le> nP"
  shows "run_input nP g F p = Inr (map (\<lambda>i. bxor (fi_secret nP asg F p i) (fi_mask nP F i)) [0..<len])"
proof -
  have bits: "masked_bit nP (F p) (fi_honest_inbox nP g F p) i = bxor (fi_secret nP asg F p i) (fi_mask nP F i)"
    if i: "i < len" for i
  proof -
    have open_to: "mb_bit (fi_plaintext_send nP g (F j) k ! i) = fi_value (F j) i"
      if "1 \<le> j" "j \<le> nP" "asg ! i = int k" for j k
      using that i by (simp add: fi_plaintext_send_def fi_readyD [OF ready])
    have own: "parity (\<lambda>l. mb_bit (fi_plaintext_send nP g (F l) k ! i)) (others nP k)
        = parity (\<lambda>q. fi_value (F q) i) (others nP k)" if "1 \<le> k" "k \<le> nP" "asg ! i = int k" for k
      by (intro parity_cong refl open_to) (use that in auto)
    have pub: "parity (\<lambda>j. mb_bit (fi_public_send nP g (F j) p ! i)) (others nP p)
        = parity (\<lambda>q. fi_value (F q) i) (others nP p)" if "asg ! i = 0"
      using that i by (intro parity_cong refl) (simp add: fi_public_send_def fi_readyD [OF ready])
    have auth: "parity (\<lambda>j. mb_bit (fi_authenticated_send nP g (F j) p ! i)) (others nP p)
        = parity (\<lambda>j. bxor (bit_share (fi_authenticated_share_assignment (F j) ! i)) (fi_value (F j) i)) (others nP p)"
      if "asg ! i = -1"
      using that i by (intro parity_cong refl) (simp add: fi_authenticated_send_def fi_readyD [OF ready])
    have un: "parity (\<lambda>j. unauthenticated_sent (F j) (input_mask nP g (F j)) ! i = 1) (others nP p)
        = parity (\<lambda>j. bxor (fi_plaintext_assignment (F j) ! i) (fi_value (F j) i)) (others nP p)"
      if "asg ! i = -2"
      using that i by (intro parity_cong refl) (simp add: unauthenticated_sent_def fi_readyD [OF ready])
    have sent: "(masked_input_sent nP (F k) (input_mask nP g (F k)) (\<lambda>l. fi_plaintext_send nP g (F l) k) ! i \<noteq> 0)
        = bxor (fi_plaintext_assignment (F k) ! i) (fi_mask nP F i)"
      if k: "1 \<le> k" "k \<le> nP" "asg ! i = int k" for k
      using k i own [OF k] unfolding fi_mask_def parity_parties [OF k(1,2)]
      by (simp add: masked_input_sent_def fi_readyD [OF ready] fold_xor_char bxor_assoc)
    consider "asg ! i = 0" | "asg ! i = -2" | "asg ! i = -1" | k where "1 \<le> k" "k \<le> nP" "asg ! i = int k"
    proof -
      have "asg ! i = 0 \<or> asg ! i = -2 \<or> asg ! i = -1 \<or> (asg ! i = int (nat (asg ! i)) \<and> 1 \<le> nat (asg ! i) \<and> nat (asg ! i) \<le> nP)"
        using fi_ready_pos(1,2) [OF ready i] by linarith
      with that show thesis by blast
    qed
    then show ?thesis
    proof cases
      case 1
      then show ?thesis
        using p i pub unfolding fi_mask_def parity_parties [OF p]
        by (simp add: masked_bit_def Let_def fi_honest_inbox_def fi_secret_def fi_readyD [OF ready] bxor_ac)
    next
      case 2
      then show ?thesis
        using p i un unfolding fi_mask_def fi_secret_def parity_parties [OF p]
        by (simp add: masked_bit_def Let_def fi_honest_inbox_def fi_readyD [OF ready] parity_bxor bxor_ac)
    next
      case 3
      then show ?thesis
        using p i auth unfolding fi_mask_def fi_secret_def parity_parties [OF p]
        by (simp add: masked_bit_def Let_def fi_honest_inbox_def fi_readyD [OF ready] parity_bxor bxor_ac)
    next
      case 4
      show ?thesis
      proof (cases "k = p")
        case True
        then show ?thesis
          using 4 p i own [OF 4] unfolding fi_mask_def fi_secret_def parity_parties [OF p]
          by (simp add: masked_bit_def Let_def fi_honest_inbox_def fi_readyD [OF ready] bxor_ac)
      next
        case False
        then show ?thesis
          using 4 p i sent [OF 4]
          by (simp add: masked_bit_def Let_def fi_honest_inbox_def fi_secret_def fi_readyD [OF ready])
      qed
    qed
  qed
  have "run_input nP g F p = Inr (map (masked_bit nP (F p) (fi_honest_inbox nP g F p)) [0..<len])"
    unfolding run_input_def using p fi_honest_plaintext [OF ready p] fi_honest_public [OF ready p] fi_honest_authenticated [OF ready p]
    by (subst input_accepted) (simp_all add: fi_readyD [OF ready p] fi_honest_inbox_def)
  with bits show ?thesis by simp
qed

text \<open>Against cheating parties: whatever party \<open>p\<close> receives, if it does not abort then each position
  it verifies has the right masked value, or some tag it accepted is the honest one shifted by
  \<open>p\<close>'s secret offset.\<close>

definition fi_forged :: "int list \<Rightarrow> (nat \<Rightarrow> FlexIn) \<Rightarrow> fi_inbox \<Rightarrow> nat \<Rightarrow> nat \<Rightarrow> nat \<Rightarrow> bool" where
  "fi_forged asg F inbox p j i \<longleftrightarrow>
     (if asg ! i = -1 then mb_mac (authenticated_recv inbox j ! i)
        = (ab_mac (fi_authenticated_share_assignment (F j) ! i) p XOR fi_mac (F j) p i) XOR fi_Delta (F p)
      else if asg ! i = 0 then mb_mac (public_recv inbox j ! i) = fi_mac (F j) p i XOR fi_Delta (F p)
      else mb_mac (plaintext_recv inbox j ! i) = fi_mac (F j) p i XOR fi_Delta (F p))"

text \<open>
  C5.  \<^verbatim>\<open>FlexIn::input\<close> against cheating parties: whatever party \<open>p\<close> receives, if it does not abort then each
  position it verifies (its own inputs, public ones, authenticated shares) has the right masked value,
  or some tag it accepted is the honest one shifted by \<open>p\<close>'s secret offset.
\<close>

theorem flexin_sound:
  assumes ready: "fi_ready nP len asg F" and p: "1 \<le> p" "p \<le> nP"
    and ok: "fi_input nP g (F p) inbox = Inr masked"
    and i: "i < len" "asg ! i = 0 \<or> asg ! i = -1 \<or> asg ! i = int p"
  shows "masked ! i = bxor (fi_secret nP asg F p i) (fi_mask nP F i)
       \<or> (\<exists>j\<in>set (others nP p). fi_forged asg F inbox p j i)"
proof -
  note st = fi_readyD [OF ready p]
  have p1: "1 \<le> fi_party (F p)" using p st by simp
  note acc = ok [unfolded input_accepted [OF p1] st]
  have m: "masked ! i = masked_bit nP (F p) inbox i" using acc i by (simp add: st)
  note mask_auth = fi_ready_pos(3) [OF ready i(1), unfolded fi_mask_auth_def]
  consider "asg ! i = 0" | "asg ! i = -1" | "asg ! i = int p" using i by blast
  then show ?thesis
  proof cases
    case 1
    have "mb_mac (public_recv inbox j ! i)
        = gate_blk (mb_bit (public_recv inbox j ! i)) (fi_Delta (F p)) XOR fi_key (F p) j i"
      if "j \<in> set (others nP p)" for j
      using acc that i(1) 1 input_mask_nth(2) [of i "F p" j nP g] unfolding verify_opened_iff st by metis
    from opening_sound [OF mask_auth p this] show ?thesis
      using 1 unfolding m fi_mask_def
      by (auto simp: masked_bit_def Let_def st fi_secret_def fi_forged_def bxor_assoc simp del: upt_Suc set_others)
  next
    case 2
    have "mb_mac (authenticated_recv inbox j ! i)
        = gate_blk (mb_bit (authenticated_recv inbox j ! i)) (fi_Delta (F p))
          XOR (ab_key (fi_authenticated_share_assignment (F p) ! i) j XOR fi_key (F p) j i)"
      if "j \<in> set (others nP p)" for j
      using acc that i(1) 2 new_circuit_nth(2) [of i "F p" j nP g] unfolding verify_opened_iff st by metis
    from opening_sound [OF fi_new_auth [OF ready i(1) 2] p this] show ?thesis
      using 2 unfolding m fi_mask_def fi_secret_def parity_bxor
      by (auto simp: masked_bit_def Let_def st fi_forged_def simp del: upt_Suc set_others)
  next
    case 3
    have "mb_mac (plaintext_recv inbox j ! i)
        = gate_blk (mb_bit (plaintext_recv inbox j ! i)) (fi_Delta (F p)) XOR fi_key (F p) j i"
      if "j \<in> set (others nP p)" for j
      using acc that i(1) 3 input_mask_nth(2) [of i "F p" j nP g] unfolding verify_opened_iff st by metis
    from opening_sound [OF mask_auth p this] show ?thesis
      using 3 p unfolding m fi_mask_def
      by (auto simp: masked_bit_def Let_def st fi_secret_def fi_forged_def bxor_assoc simp del: upt_Suc set_others)
  qed
qed

definition sample_flex_in :: "nat \<Rightarrow> FlexIn" where
  "sample_flex_in p = \<lparr>fi_len = 2, fi_party = p, fi_associated = True, fi_value = (\<lambda>i. p = Suc i),
     fi_key = (\<lambda>j i. 0), fi_mac = (\<lambda>j i. gate_blk (p = Suc i) (of_nat j)), fi_Delta = of_nat p,
     fi_party_assignment = [1, -1], fi_plaintext_assignment = [True, False],
     fi_authenticated_share_assignment = [empty_abit, empty_abit]\<rparr>"

lemma sample_flex_in_ready: "fi_ready 2 2 [1, -1] sample_flex_in"
  by (simp add: fi_ready_def fi_mask_auth_def fi_share_auth_def auth_bit_def sample_flex_in_def empty_abit_def
      numeral_2_eq_2)

theorem flexin_sound_witness:
  "\<exists>masked. fi_input 2 empty_abit (sample_flex_in 1) (fi_honest_inbox 2 empty_abit sample_flex_in 1) = Inr masked
     \<and> (masked ! 0 = bxor True (fi_mask 2 sample_flex_in 0)
        \<or> (\<exists>j\<in>set (others 2 1). fi_forged [1, -1] sample_flex_in
              (fi_honest_inbox 2 empty_abit sample_flex_in 1) 1 j 0))"
proof -
  obtain masked where "fi_input 2 empty_abit (sample_flex_in 1) (fi_honest_inbox 2 empty_abit sample_flex_in 1) = Inr masked"
    using flexin_honest [OF sample_flex_in_ready, of 1 empty_abit] unfolding run_input_def by simp
  moreover have "fi_secret 2 [1, -1] sample_flex_in 1 0"
    by (simp add: fi_secret_def sample_flex_in_def)
  ultimately show ?thesis
    using flexin_sound [OF sample_flex_in_ready, of 1 empty_abit "fi_honest_inbox 2 empty_abit sample_flex_in 1" masked 0]
    by simp
qed

section \<open>FlexOut\<close>

record FlexOut =
  fo_len :: nat
  fo_party :: nat
  fo_associated :: bool
  fo_value :: "bool arr"
  fo_key :: "block party_arr"
  fo_mac :: "block party_arr"
  fo_eval_labels :: "block party_arr"
  fo_Delta :: block
  fo_labels :: "block arr"
  fo_party_assignment :: "int list"
  fo_plaintext_results :: "bool list"
  fo_authenticated_share_results :: "AuthBitShare list"

definition FlexOut_new :: "nat \<Rightarrow> nat \<Rightarrow> FlexOut \<Rightarrow> FlexOut" where
  "FlexOut_new len party heap =
     heap\<lparr>fo_len := len, fo_party := party, fo_associated := False,
          fo_party_assignment := replicate len 0, fo_plaintext_results := replicate len False,
          fo_authenticated_share_results := replicate len empty_abit\<rparr>"

definition fo_associate_cmpc ::
  "nat \<Rightarrow> bool arr \<Rightarrow> block party_arr \<Rightarrow> block party_arr \<Rightarrow> block party_arr \<Rightarrow> block arr \<Rightarrow> block
   \<Rightarrow> FlexOut \<Rightarrow> FlexOut" where
  "fo_associate_cmpc nP value mac key eval_labels labels Delta st =
     st\<lparr>fo_associated := True, fo_value := value, fo_labels := labels,
        fo_mac := (\<lambda>j. if 1 \<le> j \<and> j \<le> nP then mac j else fo_mac st j),
        fo_key := (\<lambda>j. if 1 \<le> j \<and> j \<le> nP then key j else fo_key st j),
        fo_eval_labels := (\<lambda>j. if fo_party st = 1 \<and> 2 \<le> j \<and> j \<le> nP then eval_labels j else fo_eval_labels st j),
        fo_Delta := Delta\<rparr>"

definition fo_assign_party :: "nat \<Rightarrow> int \<Rightarrow> FlexOut \<Rightarrow> flex_error + FlexOut" where
  "fo_assign_party pos which st =
     map_sum id (\<lambda>v. st\<lparr>fo_party_assignment := v\<rparr>) (vec_set pos which (fo_party_assignment st))"

definition get_plaintext_bit :: "nat \<Rightarrow> FlexOut \<Rightarrow> flex_error + bool" where
  "get_plaintext_bit pos st =
     (if length (fo_party_assignment st) \<le> pos \<or> length (fo_plaintext_results st) \<le> pos then Inl Out_of_range
      else if fo_party_assignment st ! pos = int (fo_party st) \<or> fo_party_assignment st ! pos = 0
      then Inr (fo_plaintext_results st ! pos) else Inl Assert_failed)"

definition get_authenticated_bitshare :: "nat \<Rightarrow> FlexOut \<Rightarrow> flex_error + AuthBitShare" where
  "get_authenticated_bitshare pos st =
     (if length (fo_party_assignment st) \<le> pos \<or> length (fo_authenticated_share_results st) \<le> pos
      then Inl Out_of_range
      else if fo_party_assignment st ! pos = -1 then Inr (fo_authenticated_share_results st ! pos)
      else Inl Assert_failed)"

text \<open>Party 1 sends the output labels; the others compare them with the two labels of the wire.\<close>

definition output_wire_label_send :: "FlexOut \<Rightarrow> nat \<Rightarrow> nat \<Rightarrow> block list" where
  "output_wire_label_send st shift j = map (\<lambda>i. fo_eval_labels st j (shift + i)) [0..<fo_len st]"

primrec decode_label_list :: "FlexOut \<Rightarrow> nat \<Rightarrow> block list \<Rightarrow> nat list \<Rightarrow> flex_error + bool list" where
  "decode_label_list st shift recv [] = Inr []"
| "decode_label_list st shift recv (i # is) =
     (let cur_label = recv ! i; zero_label = fo_labels st (i + shift);
          one_label = zero_label XOR fo_Delta st
      in if cmpBlock (\<lambda>_. cur_label) (\<lambda>_. zero_label) 1 then map_sum id (Cons False) (decode_label_list st shift recv is)
         else if cmpBlock (\<lambda>_. cur_label) (\<lambda>_. one_label) 1 then map_sum id (Cons True) (decode_label_list st shift recv is)
         else Inl Label_mismatch)"

definition decode_labels :: "FlexOut \<Rightarrow> nat \<Rightarrow> block list \<Rightarrow> flex_error + bool list" where
  "decode_labels st shift recv = decode_label_list st shift recv [0..<fo_len st]"

definition output_mask_send :: "FlexOut \<Rightarrow> nat \<Rightarrow> nat \<Rightarrow> BitWithMac list" where
  "output_mask_send st shift j = map (\<lambda>i.
     if fo_party_assignment st ! i = -1 then empty_mbit
     else if fo_party_assignment st ! i = 0 \<or> fo_party_assignment st ! i = int j
     then \<lparr>mb_bit = fo_value st (shift + i), mb_mac = fo_mac st j (shift + i)\<rparr>
     else empty_mbit) [0..<fo_len st]"

definition authenticated_result :: "nat \<Rightarrow> FlexOut \<Rightarrow> nat \<Rightarrow> bool list \<Rightarrow> nat \<Rightarrow> AuthBitShare" where
  "authenticated_result nP st shift masked i =
     (let old = fo_authenticated_share_results st ! i; party = fo_party st; w = shift + i in
      if fo_party_assignment st ! i \<noteq> -1 then old
      else if party = 1 then
        \<lparr>bit_share = bxor (fo_value st w) (masked ! i),
         ab_key = (\<lambda>j. if 1 \<le> j \<and> j \<le> nP \<and> j \<noteq> party then fo_key st j w else ab_key old j),
         ab_mac = (\<lambda>j. if 1 \<le> j \<and> j \<le> nP \<and> j \<noteq> party then fo_mac st j w else ab_mac old j)\<rparr>
      else
        \<lparr>bit_share = fo_value st w,
         ab_key = (\<lambda>j. if 1 \<le> j \<and> j \<le> nP \<and> j \<noteq> party then
             (if j = 1 then fo_key st j w XOR (fo_Delta st AND select_mask (masked ! i)) else fo_key st j w)
           else ab_key old j),
         ab_mac = (\<lambda>j. if 1 \<le> j \<and> j \<le> nP \<and> j \<noteq> party then fo_mac st j w else ab_mac old j)\<rparr>)"

definition plaintext_result ::
  "nat \<Rightarrow> FlexOut \<Rightarrow> nat \<Rightarrow> bool list \<Rightarrow> (nat \<Rightarrow> BitWithMac list) \<Rightarrow> nat \<Rightarrow> bool" where
  "plaintext_result nP st shift masked recv i =
     (if fo_party_assignment st ! i = 0 \<or> fo_party_assignment st ! i = int (fo_party st)
      then fold (\<lambda>j b. bxor b (mb_bit (recv j ! i))) (others nP (fo_party st))
             (bxor (fo_value st (shift + i)) (masked ! i))
      else fo_plaintext_results st ! i)"

definition fo_output ::
  "nat \<Rightarrow> FlexOut \<Rightarrow> bool arr \<Rightarrow> nat \<Rightarrow> block list \<Rightarrow> (nat \<Rightarrow> BitWithMac list) \<Rightarrow> flex_error + FlexOut" where
  "fo_output nP st masked_input_ret shift label_recv mask_recv =
     (if \<not> fo_associated st then Inl Assert_failed
      else
        case (if fo_party st = 1 then Inr (map (\<lambda>i. masked_input_ret (shift + i)) [0..<fo_len st])
              else decode_labels st shift label_recv) of
          Inl e \<Rightarrow> Inl e
        | Inr masked \<Rightarrow>
            if verify_opened nP (fo_party st) (fo_len st) (fo_Delta st)
                 (\<lambda>i. fo_party_assignment st ! i = int (fo_party st) \<or> fo_party_assignment st ! i = 0)
                 (\<lambda>j i. fo_key st j (shift + i)) mask_recv
            then Inl Cheat_output_mask
            else Inr (st\<lparr>fo_authenticated_share_results := map (authenticated_result nP st shift masked) [0..<fo_len st],
                         fo_plaintext_results := map (plaintext_result nP st shift masked mask_recv) [0..<fo_len st]\<rparr>))"

definition run_output ::
  "nat \<Rightarrow> (nat \<Rightarrow> FlexOut) \<Rightarrow> (nat \<Rightarrow> bool arr) \<Rightarrow> nat \<Rightarrow> nat \<Rightarrow> flex_error + FlexOut" where
  "run_output nP G masked shift p =
     fo_output nP (G p) (masked p) shift (output_wire_label_send (G 1) shift p)
       (\<lambda>j. output_mask_send (G j) shift p)"

subsection \<open>Correctness of FlexOut\<close>

lemma decode_label_list_Inr:
  "decode_label_list st shift recv is = Inr bs \<Longrightarrow>
     length bs = length is
     \<and> (\<forall>k<length is. recv ! (is ! k) = fo_labels st (is ! k + shift) XOR gate_blk (bs ! k) (fo_Delta st))"
proof (induction "is" arbitrary: bs)
  case (Cons i "is")
  have "\<exists>b bs'. bs = b # bs' \<and> recv ! i = fo_labels st (i + shift) XOR gate_blk b (fo_Delta st)
      \<and> decode_label_list st shift recv is = Inr bs'"
    using Cons.prems
    by (cases "decode_label_list st shift recv is") (auto simp: Let_def gate_blk_def split: if_splits)
  then obtain b bs' where bs: "bs = b # bs'" "recv ! i = fo_labels st (i + shift) XOR gate_blk b (fo_Delta st)"
    and tl: "decode_label_list st shift recv is = Inr bs'" by blast
  from Cons.IH [OF tl] show ?case unfolding bs(1) using bs(2) by (auto simp: nth_Cons split: nat.splits)
qed simp

lemma decode_labels_Inr:
  assumes "decode_labels st shift recv = Inr bs"
  shows "length bs = fo_len st"
    and "i < fo_len st \<Longrightarrow> recv ! i = fo_labels st (i + shift) XOR gate_blk (bs ! i) (fo_Delta st)"
  using decode_label_list_Inr [OF assms [unfolded decode_labels_def]] by auto

lemma decode_label_list_honest:
  assumes "fo_Delta st \<noteq> 0"
    and "\<forall>i\<in>set is. recv ! i = fo_labels st (i + shift) XOR gate_blk (m i) (fo_Delta st)"
  shows "decode_label_list st shift recv is = Inr (map m is)"
  using assms by (induction "is") (auto simp: Let_def gate_blk_def)

lemma decode_labels_honest:
  assumes "fo_Delta st \<noteq> 0"
    and "\<And>i. i < fo_len st \<Longrightarrow> recv ! i = fo_labels st (i + shift) XOR gate_blk (m i) (fo_Delta st)"
  shows "decode_labels st shift recv = Inr (map m [0..<fo_len st])"
  unfolding decode_labels_def using assms by (intro decode_label_list_honest) auto

text \<open>The parties before \<^verbatim>\<open>output\<close>: \<open>z i\<close> is the value of output wire \<open>shift + i\<close>; party 1 holds it masked
  and the labels of the masked value.\<close>

definition fo_mask_auth :: "nat \<Rightarrow> (nat \<Rightarrow> FlexOut) \<Rightarrow> nat \<Rightarrow> bool" where
  "fo_mask_auth nP G w \<longleftrightarrow> auth_bit nP (\<lambda>p. fo_Delta (G p)) (\<lambda>p. fo_value (G p) w)
     (\<lambda>p j. fo_mac (G p) j w) (\<lambda>p j. fo_key (G p) j w)"

definition fo_masked :: "nat \<Rightarrow> (nat \<Rightarrow> FlexOut) \<Rightarrow> nat \<Rightarrow> (nat \<Rightarrow> bool) \<Rightarrow> nat \<Rightarrow> bool" where
  "fo_masked nP G shift z i = bxor (z i) (parity (\<lambda>q. fo_value (G q) (shift + i)) (parties nP))"

definition fo_ready :: "nat \<Rightarrow> nat \<Rightarrow> nat \<Rightarrow> int list \<Rightarrow> (nat \<Rightarrow> FlexOut) \<Rightarrow> bool" where
  "fo_ready nP len shift asg G \<longleftrightarrow>
     list_all (\<lambda>p. fo_party (G p) = p \<and> fo_len (G p) = len \<and> fo_associated (G p)
                 \<and> fo_party_assignment (G p) = asg \<and> fo_Delta (G p) \<noteq> 0) (parties nP)
     \<and> list_all (\<lambda>i. - 1 \<le> asg ! i \<and> asg ! i \<le> int nP \<and> fo_mask_auth nP G (shift + i)) [0..<len]"

lemma fo_readyD:
  assumes "fo_ready nP len shift asg G" and "1 \<le> p" "p \<le> nP"
  shows "fo_party (G p) = p" "fo_len (G p) = len" "fo_associated (G p)" "fo_party_assignment (G p) = asg"
    "fo_Delta (G p) \<noteq> 0"
  using assms by (auto simp: fo_ready_def list_all_iff)

lemma fo_ready_pos:
  assumes "fo_ready nP len shift asg G" and "i < len"
  shows "- 1 \<le> asg ! i" "asg ! i \<le> int nP" "fo_mask_auth nP G (shift + i)"
  using assms by (auto simp: fo_ready_def list_all_iff)

text \<open>Party 1's evaluation result, and the labels it holds for the others.\<close>

definition fo_evaluated :: "nat \<Rightarrow> nat \<Rightarrow> nat \<Rightarrow> (nat \<Rightarrow> FlexOut) \<Rightarrow> bool arr \<Rightarrow> (nat \<Rightarrow> bool) \<Rightarrow> bool" where
  "fo_evaluated nP len shift G m z \<longleftrightarrow>
     list_all (\<lambda>i. m (shift + i) = fo_masked nP G shift z i
        \<and> list_all (\<lambda>p. fo_eval_labels (G 1) p (shift + i)
             = fo_labels (G p) (shift + i) XOR gate_blk (m (shift + i)) (fo_Delta (G p))) [2..<Suc nP]) [0..<len]"

lemma fo_evaluatedD:
  assumes "fo_evaluated nP len shift G m z" and "i < len"
  shows "m (shift + i) = fo_masked nP G shift z i"
    and "2 \<le> p \<Longrightarrow> p \<le> nP \<Longrightarrow> fo_eval_labels (G 1) p (shift + i)
           = fo_labels (G p) (shift + i) XOR gate_blk (fo_masked nP G shift z i) (fo_Delta (G p))"
  using assms by (auto simp: fo_evaluated_def list_all_iff simp del: upt_Suc)

lemma output_accepted:
  "fo_output nP st m shift labels recv = Inr st' \<longleftrightarrow>
     fo_associated st
     \<and> (\<exists>masked. (if fo_party st = 1 then masked = map (\<lambda>i. m (shift + i)) [0..<fo_len st]
                  else decode_labels st shift labels = Inr masked)
         \<and> \<not> verify_opened nP (fo_party st) (fo_len st) (fo_Delta st)
              (\<lambda>i. fo_party_assignment st ! i = int (fo_party st) \<or> fo_party_assignment st ! i = 0)
              (\<lambda>j i. fo_key st j (shift + i)) recv
         \<and> st' = st\<lparr>fo_authenticated_share_results := map (authenticated_result nP st shift masked) [0..<fo_len st],
                    fo_plaintext_results := map (plaintext_result nP st shift masked recv) [0..<fo_len st]\<rparr>)"
  unfolding fo_output_def
  by (cases "decode_labels st shift labels") auto

theorem flexout_honest:
  assumes ready: "fo_ready nP len shift asg G" and ev: "fo_evaluated nP len shift G (m 1) z"
    and p: "1 \<le> p" "p \<le> nP"
  defines "masked \<equiv> map (fo_masked nP G shift z) [0..<len]"
  shows "run_output nP G m shift p = Inr ((G p)
     \<lparr>fo_authenticated_share_results := map (authenticated_result nP (G p) shift masked) [0..<len],
      fo_plaintext_results := map (\<lambda>i. if asg ! i = 0 \<or> asg ! i = int p then z i
                                       else fo_plaintext_results (G p) ! i) [0..<len]\<rparr>)"
proof -
  note st = fo_readyD [OF ready p]
  note st' = fo_readyD [OF ready]
  have send: "output_mask_send (G j) shift p ! i = \<lparr>mb_bit = fo_value (G j) (shift + i), mb_mac = fo_mac (G j) p (shift + i)\<rparr>"
    if "j \<in> set (others nP p)" "i < len" "asg ! i = int p \<or> asg ! i = 0" for j i
    using that p by (auto simp: output_mask_send_def st')
  have verified: "\<not> verify_opened nP p len (fo_Delta (G p)) (\<lambda>i. asg ! i = int p \<or> asg ! i = 0)
      (\<lambda>j i. fo_key (G p) j (shift + i)) (\<lambda>j. output_mask_send (G j) shift p)"
    unfolding verify_opened_iff
    using opening_honest [OF fo_ready_pos(3) [OF ready, unfolded fo_mask_auth_def] p] send by force
  have decoded: "if p = 1 then masked = map (\<lambda>i. m 1 (shift + i)) [0..<len]
      else decode_labels (G p) shift (output_wire_label_send (G 1) shift p) = Inr masked"
  proof (cases "p = 1")
    case True
    then show ?thesis using fo_evaluatedD(1) [OF ev] by (simp add: masked_def)
  next
    case False
    then have p2: "2 \<le> p" "1 \<le> nP" using p by auto
    have "decode_labels (G p) shift (output_wire_label_send (G 1) shift p)
        = Inr (map (fo_masked nP G shift z) [0..<fo_len (G p)])"
      using st fo_evaluatedD(2) [OF ev _ p2(1) p(2)]
      by (intro decode_labels_honest)
        (simp_all add: output_wire_label_send_def st' [OF order_refl p2(2), unfolded One_nat_def] add.commute [of _ shift])
    then show ?thesis using False st by (simp add: masked_def)
  qed
  have plain: "plaintext_result nP (G p) shift masked (\<lambda>j. output_mask_send (G j) shift p) i = z i"
    if i: "i < len" "asg ! i = 0 \<or> asg ! i = int p" for i
  proof -
    have "parity (\<lambda>j. mb_bit (output_mask_send (G j) shift p ! i)) (others nP p)
        = parity (\<lambda>j. fo_value (G j) (shift + i)) (others nP p)"
      using send i by (intro parity_cong refl) auto
    moreover have "masked ! i = bxor (z i) (bxor (fo_value (G p) (shift + i))
        (parity (\<lambda>j. fo_value (G j) (shift + i)) (others nP p)))"
      using i(1) unfolding masked_def fo_masked_def parity_parties [OF p] by simp
    ultimately show ?thesis
      using i by (auto simp: plaintext_result_def st fold_bxor_parity bxor_ac)
  qed
  have other: "plaintext_result nP (G p) shift masked (\<lambda>j. output_mask_send (G j) shift p) i = fo_plaintext_results (G p) ! i"
    if "\<not> (asg ! i = 0 \<or> asg ! i = int p)" for i
    using that by (simp add: plaintext_result_def st)
  have "map (plaintext_result nP (G p) shift masked (\<lambda>j. output_mask_send (G j) shift p)) [0..<len]
      = map (\<lambda>i. if asg ! i = 0 \<or> asg ! i = int p then z i else fo_plaintext_results (G p) ! i) [0..<len]"
    using plain other by (intro map_cong refl) auto
  then show ?thesis
    unfolding run_output_def output_accepted st
    using st(3) verified decoded by (intro conjI exI [of _ masked]) (auto split: if_splits)
qed

text \<open>The authenticated shares that \<^verbatim>\<open>output\<close> leaves are again authenticated, and share the output bit:
  they can be fed to a later circuit through \<^verbatim>\<open>FlexIn\<close>.\<close>

theorem flexout_shares:
  fixes z :: "nat \<Rightarrow> bool"
  assumes ready: "fo_ready nP len shift asg G" and "1 \<le> nP" and i: "i < len" "asg ! i = -1"
  defines "R \<equiv> \<lambda>p. authenticated_result nP (G p) shift (map (fo_masked nP G shift z) [0..<len]) i"
  shows "auth_bit nP (\<lambda>p. fo_Delta (G p)) (\<lambda>p. bit_share (R p)) (\<lambda>p j. ab_mac (R p) j) (\<lambda>p j. ab_key (R p) j)"
    and "parity (\<lambda>p. bit_share (R p)) (parties nP) = z i"
proof -
  define c where "c = fo_masked nP G shift z i"
  note st = fo_readyD [OF ready]
  have bit: "bit_share (R p) = bxor (fo_value (G p) (shift + i)) (c \<and> p = 1)" if "1 \<le> p" "p \<le> nP" for p
    using that i by (auto simp: R_def authenticated_result_def Let_def st c_def)
  have "auth_bit nP (\<lambda>p. fo_Delta (G p)) (\<lambda>p. bxor (fo_value (G p) (shift + i)) (c \<and> p = 1))
      (\<lambda>p j. fo_mac (G p) j (shift + i))
      (\<lambda>p j. fo_key (G p) j (shift + i) XOR gate_blk (c \<and> j = 1) (fo_Delta (G p)))"
    using fo_ready_pos(3) [OF ready i(1)] unfolding fo_mask_auth_def by (rule auth_bit_correct)
  then show "auth_bit nP (\<lambda>p. fo_Delta (G p)) (\<lambda>p. bit_share (R p)) (\<lambda>p j. ab_mac (R p) j) (\<lambda>p j. ab_key (R p) j)"
    by (rule auth_bit_cong [THEN iffD1, rotated -1])
      (use i in \<open>auto simp: bit R_def authenticated_result_def Let_def st c_def\<close>)
  have "parity (\<lambda>p. bit_share (R p)) (parties nP)
      = parity (\<lambda>p. bxor (fo_value (G p) (shift + i)) (c \<and> p = 1)) (parties nP)"
    using bit by (intro parity_cong refl) auto
  also have "\<dots> = bxor (parity (\<lambda>p. fo_value (G p) (shift + i)) (parties nP)) c"
    unfolding parity_bxor parity_conj_left using parity_first [OF assms(2)] by simp
  finally show "parity (\<lambda>p. bit_share (R p)) (parties nP) = z i"
    unfolding c_def fo_masked_def by (simp add: bxor_ac del: upt_Suc)
qed

text \<open>
  C6.  \<^verbatim>\<open>FlexOut::output\<close> against cheating parties: if party \<open>p\<close> returns, each plain output bit it gets is the value
  of the wire, unless a tag it accepted is the honest one shifted by \<open>p\<close>'s offset or the label it accepted is the
  other label of the wire.
\<close>

theorem flexout_sound:
  assumes ready: "fo_ready nP len shift asg G" and p: "1 \<le> p" "p \<le> nP"
    and ok: "fo_output nP (G p) m shift labels recv = Inr st'"
    and own: "p = 1 \<Longrightarrow> m (shift + i) = fo_masked nP G shift z i"
    and i: "i < len" "asg ! i = 0 \<or> asg ! i = int p"
  shows "fo_plaintext_results st' ! i = z i
       \<or> (\<exists>j\<in>set (others nP p). mb_mac (recv j ! i) = fo_mac (G j) p (shift + i) XOR fo_Delta (G p))
       \<or> (p \<noteq> 1 \<and> labels ! i = (fo_labels (G p) (shift + i)
             XOR gate_blk (fo_masked nP G shift z i) (fo_Delta (G p))) XOR fo_Delta (G p))"
proof -
  note st = fo_readyD [OF ready p]
  from ok [unfolded output_accepted st] obtain masked where
    dec: "if p = 1 then masked = map (\<lambda>i. m (shift + i)) [0..<len] else decode_labels (G p) shift labels = Inr masked"
    and ver: "\<not> verify_opened nP p len (fo_Delta (G p)) (\<lambda>i. asg ! i = int p \<or> asg ! i = 0)
        (\<lambda>j i. fo_key (G p) j (shift + i)) recv"
    and st': "fo_plaintext_results st' = map (plaintext_result nP (G p) shift masked recv) [0..<len]"
    by auto
  have "mb_mac (recv j ! i) = gate_blk (mb_bit (recv j ! i)) (fo_Delta (G p)) XOR fo_key (G p) j (shift + i)"
    if "j \<in> set (others nP p)" for j
    using ver that i unfolding verify_opened_iff by metis
  from opening_sound [OF fo_ready_pos(3) [OF ready i(1), unfolded fo_mask_auth_def] p this]
  consider "\<exists>j\<in>set (others nP p). mb_mac (recv j ! i) = fo_mac (G j) p (shift + i) XOR fo_Delta (G p)"
    | (opened) "bxor (fo_value (G p) (shift + i)) (parity (\<lambda>j. mb_bit (recv j ! i)) (others nP p))
        = parity (\<lambda>q. fo_value (G q) (shift + i)) (parties nP)"
    by blast
  then show ?thesis
  proof cases
    case opened
    show ?thesis
    proof (cases "masked ! i = fo_masked nP G shift z i")
      case True
      have "fo_plaintext_results st' ! i = bxor (bxor (fo_value (G p) (shift + i)) (parity (\<lambda>j. mb_bit (recv j ! i)) (others nP p))) (masked ! i)"
        using i by (auto simp: st' plaintext_result_def st fold_bxor_parity bxor_ac)
      then show ?thesis unfolding opened True fo_masked_def by (simp add: bxor_ac del: upt_Suc)
    next
      case False
      then have "p \<noteq> 1" using dec own i by auto
      then have "labels ! i = fo_labels (G p) (i + shift) XOR gate_blk (masked ! i) (fo_Delta (G p))"
        using dec decode_labels_Inr(2) [of "G p" shift labels masked i] st i by simp
      moreover have "masked ! i = (\<not> fo_masked nP G shift z i)" using False by blast
      ultimately show ?thesis
        using \<open>p \<noteq> 1\<close> by (simp add: gate_blk_not add.commute [of i] xor_ac)
    qed
  qed blast
qed

definition sample_flex_out :: "nat \<Rightarrow> FlexOut" where
  "sample_flex_out p = \<lparr>fo_len = 1, fo_party = p, fo_associated = True, fo_value = (\<lambda>i. p = 1),
     fo_key = (\<lambda>j i. 0), fo_mac = (\<lambda>j i. gate_blk (p = 1) (of_nat j)),
     fo_eval_labels = (\<lambda>j i. 0), fo_Delta = of_nat p, fo_labels = (\<lambda>i. 0),
     fo_party_assignment = [0], fo_plaintext_results = [False],
     fo_authenticated_share_results = [empty_abit]\<rparr>"

lemma sample_flex_out_ready: "fo_ready 2 1 0 [0] sample_flex_out"
  by (simp add: fo_ready_def fo_mask_auth_def auth_bit_def sample_flex_out_def numeral_2_eq_2)

lemma sample_flex_out_evaluated: "fo_evaluated 2 1 0 sample_flex_out (\<lambda>_. False) (\<lambda>_. True)"
  by (simp add: fo_evaluated_def fo_masked_def sample_flex_out_def numeral_2_eq_2)

theorem flexout_sound_witness:
  "\<exists>st'. fo_output 2 (sample_flex_out 2) (\<lambda>_. False) 0 [0] (\<lambda>j. output_mask_send (sample_flex_out j) 0 2) = Inr st'
     \<and> (fo_plaintext_results st' ! 0
        \<or> (\<exists>j\<in>set (others 2 2). mb_mac (output_mask_send (sample_flex_out j) 0 2 ! 0)
              = fo_mac (sample_flex_out j) 2 0 XOR fo_Delta (sample_flex_out 2)))"
proof -
  let ?recv = "\<lambda>j. output_mask_send (sample_flex_out j) 0 2"
  have sent: "output_wire_label_send (sample_flex_out 1) 0 2 = [0]"
    by (simp add: output_wire_label_send_def sample_flex_out_def)
  obtain st' where st': "fo_output 2 (sample_flex_out 2) (\<lambda>_. False) 0 [0] ?recv = Inr st'"
    using flexout_honest [OF sample_flex_out_ready sample_flex_out_evaluated, of 2]
    unfolding run_output_def sent by simp
  have "(fo_labels (sample_flex_out 2) 0 XOR gate_blk (fo_masked 2 sample_flex_out 0 (\<lambda>_. True) 0) (fo_Delta (sample_flex_out 2)))
      XOR fo_Delta (sample_flex_out 2) \<noteq> 0"
    by (simp add: fo_masked_def sample_flex_out_def numeral_2_eq_2)
  then show ?thesis
    using st' flexout_sound [OF sample_flex_out_ready _ _ st', of "\<lambda>_. True" 0] by auto
qed

end
