(* ===== verification/CmpcFlex.thy ===== *)
theory CmpcFlex
  imports Online FlexIO
begin

text \<open>
  \<^verbatim>\<open>CMPC::online(FlexIn *, FlexOut *)\<close>: the circuit evaluated between \<^verbatim>\<open>FlexIn::input\<close> and
  \<^verbatim>\<open>FlexOut::output\<close>.  This is the entry point the applications use (passcode comparison on shared
  inputs, AES on shared keys); its correctness joins those of \<open>Online\<close> and \<open>FlexIO\<close>.
\<close>

text \<open>\<^verbatim>\<open>mask_input\<close> after \<^verbatim>\<open>input(mask_input)\<close>: the allocation \<open>garbage\<close> with its first entries written.\<close>

definition write_prefix :: "'a list \<Rightarrow> 'a arr \<Rightarrow> 'a arr" where
  "write_prefix xs garbage = (\<lambda>w. if w < length xs then xs ! w else garbage w)"

definition flex_in_of :: "nat \<Rightarrow> cmpc \<Rightarrow> FlexIn \<Rightarrow> FlexIn" where
  "flex_in_of nP st fi = fi_associate_cmpc nP (cm_value st) (cm_mac st) (cm_key st) (cm_Delta st) fi"

definition flex_out_of :: "nat \<Rightarrow> cmpc \<Rightarrow> block party_arr \<Rightarrow> FlexOut \<Rightarrow> FlexOut" where
  "flex_out_of nP st el fo =
     fo_associate_cmpc nP (cm_value st) (cm_mac st) (cm_key st) el (cm_labels st) (cm_Delta st) fo"

text \<open>The method for one party.  \<open>inbox\<close> is what \<^verbatim>\<open>input\<close> receives; party 1 then receives the labels
  \<open>ls\<close> and evaluates; \<open>olabels\<close> and \<open>omasks\<close> is what \<^verbatim>\<open>output\<close> receives.\<close>

definition online_flex_eval ::
  "nat \<Rightarrow> BristolFormat \<Rightarrow> cmpc \<Rightarrow> bool arr \<Rightarrow> (nat \<Rightarrow> block arr) \<Rightarrow> bool arr \<times> block party_arr \<times> nat list" where
  "online_flex_eval nP cf st msk ls =
     (if cm_party st \<noteq> 1 then (msk, eval_labels st, []) else evaluate nP cf st msk (receive_labels nP st ls))"

definition online_flex ::
  "nat \<Rightarrow> BristolFormat \<Rightarrow> cmpc \<Rightarrow> AuthBitShare \<Rightarrow> bool arr \<Rightarrow> FlexIn \<Rightarrow> FlexOut \<Rightarrow> fi_inbox \<Rightarrow> (nat \<Rightarrow> block arr)
   \<Rightarrow> block list \<Rightarrow> (nat \<Rightarrow> BitWithMac list) \<Rightarrow> flex_error + FlexOut \<times> nat list" where
  "online_flex nP cf st g garbage fi fo inbox ls olabels omasks =
     (case fi_input nP g (flex_in_of nP st fi) inbox of
        Inl e \<Rightarrow> Inl e
      | Inr xs \<Rightarrow>
          (let (m, el, log) = online_flex_eval nP cf st (write_prefix xs garbage) ls
           in map_sum id (\<lambda>r. (r, log))
                (fo_output nP (flex_out_of nP st el fo) m (num_wire cf - n3 cf) olabels omasks)))"

text \<open>The honest run.\<close>

definition flex_masked ::
  "nat \<Rightarrow> AuthBitShare \<Rightarrow> bool arr \<Rightarrow> (nat \<Rightarrow> cmpc) \<Rightarrow> (nat \<Rightarrow> FlexIn) \<Rightarrow> nat \<Rightarrow> bool arr" where
  "flex_masked nP g garbage W FI p =
     (case run_input nP g (\<lambda>q. flex_in_of nP (W q) (FI q)) p of
        Inl e \<Rightarrow> garbage | Inr xs \<Rightarrow> write_prefix xs garbage)"

definition flex_evaluated ::
  "nat \<Rightarrow> BristolFormat \<Rightarrow> AuthBitShare \<Rightarrow> bool arr \<Rightarrow> (nat \<Rightarrow> cmpc) \<Rightarrow> (nat \<Rightarrow> FlexIn) \<Rightarrow> nat
   \<Rightarrow> bool arr \<times> block party_arr \<times> nat list" where
  "flex_evaluated nP cf g garbage W FI p =
     online_flex_eval nP cf (W p) (flex_masked nP g garbage W FI p)
       (\<lambda>q. input_labels (W q) (flex_masked nP g garbage W FI q))"

definition run_online_flex ::
  "nat \<Rightarrow> BristolFormat \<Rightarrow> (nat \<Rightarrow> cmpc) \<Rightarrow> AuthBitShare \<Rightarrow> bool arr \<Rightarrow> (nat \<Rightarrow> FlexIn) \<Rightarrow> (nat \<Rightarrow> FlexOut)
   \<Rightarrow> nat \<Rightarrow> flex_error + FlexOut \<times> nat list" where
  "run_online_flex nP cf W g garbage FI FO p =
     (let F = (\<lambda>q. flex_in_of nP (W q) (FI q));
          G = (\<lambda>q. flex_out_of nP (W q) (fst (snd (flex_evaluated nP cf g garbage W FI q))) (FO q));
          shift = num_wire cf - n3 cf
      in online_flex nP cf (W p) g garbage (FI p) (FO p) (fi_honest_inbox nP g F p)
           (\<lambda>q. input_labels (W q) (flex_masked nP g garbage W FI q))
           (output_wire_label_send (G 1) shift p) (\<lambda>j. output_mask_send (G j) shift p))"

subsection \<open>Correctness\<close>

lemma flex_in_of_fields [simp]:
  "fi_len (flex_in_of nP st fi) = fi_len fi" "fi_party (flex_in_of nP st fi) = fi_party fi"
  "fi_associated (flex_in_of nP st fi)" "fi_value (flex_in_of nP st fi) = cm_value st"
  "fi_Delta (flex_in_of nP st fi) = cm_Delta st"
  "fi_party_assignment (flex_in_of nP st fi) = fi_party_assignment fi"
  "fi_plaintext_assignment (flex_in_of nP st fi) = fi_plaintext_assignment fi"
  "fi_authenticated_share_assignment (flex_in_of nP st fi) = fi_authenticated_share_assignment fi"
  "1 \<le> j \<Longrightarrow> j \<le> nP \<Longrightarrow> fi_mac (flex_in_of nP st fi) j = cm_mac st j"
  "1 \<le> j \<Longrightarrow> j \<le> nP \<Longrightarrow> fi_key (flex_in_of nP st fi) j = cm_key st j"
  by (simp_all add: flex_in_of_def fi_associate_cmpc_def)

lemma flex_out_of_fields [simp]:
  "fo_len (flex_out_of nP st el fo) = fo_len fo" "fo_party (flex_out_of nP st el fo) = fo_party fo"
  "fo_associated (flex_out_of nP st el fo)" "fo_value (flex_out_of nP st el fo) = cm_value st"
  "fo_Delta (flex_out_of nP st el fo) = cm_Delta st" "fo_labels (flex_out_of nP st el fo) = cm_labels st"
  "fo_party_assignment (flex_out_of nP st el fo) = fo_party_assignment fo"
  "1 \<le> j \<Longrightarrow> j \<le> nP \<Longrightarrow> fo_mac (flex_out_of nP st el fo) j = cm_mac st j"
  "1 \<le> j \<Longrightarrow> j \<le> nP \<Longrightarrow> fo_key (flex_out_of nP st el fo) j = cm_key st j"
  "fo_party fo = 1 \<Longrightarrow> 2 \<le> j \<Longrightarrow> j \<le> nP \<Longrightarrow> fo_eval_labels (flex_out_of nP st el fo) j = el j"
  by (simp_all add: flex_out_of_def fo_associate_cmpc_def)

text \<open>The parties' objects before the call: lengths, owners and assignments agree, authenticated
  inputs are authenticated under the circuit's offsets, public inputs are the same everywhere.\<close>

definition flex_input_ok :: "nat \<Rightarrow> int list \<Rightarrow> (nat \<Rightarrow> block) \<Rightarrow> (nat \<Rightarrow> FlexIn) \<Rightarrow> nat \<Rightarrow> bool" where
  "flex_input_ok nP asg \<Delta> FI i \<longleftrightarrow>
     - 2 \<le> asg ! i \<and> asg ! i \<le> int nP
     \<and> (asg ! i = -1 \<longrightarrow> auth_bit nP \<Delta> (\<lambda>p. bit_share (fi_authenticated_share_assignment (FI p) ! i))
          (\<lambda>p j. ab_mac (fi_authenticated_share_assignment (FI p) ! i) j)
          (\<lambda>p j. ab_key (fi_authenticated_share_assignment (FI p) ! i) j))
     \<and> (asg ! i = 0 \<longrightarrow> list_all (\<lambda>p. fi_plaintext_assignment (FI p) ! i = fi_plaintext_assignment (FI 1) ! i) (parties nP))"

definition flex_setup ::
  "nat \<Rightarrow> BristolFormat \<Rightarrow> int list \<Rightarrow> int list \<Rightarrow> (nat \<Rightarrow> block) \<Rightarrow> (nat \<Rightarrow> FlexIn) \<Rightarrow> (nat \<Rightarrow> FlexOut) \<Rightarrow> bool" where
  "flex_setup nP cf asgI asgO \<Delta> FI FO \<longleftrightarrow>
     list_all (\<lambda>p. fi_party (FI p) = p \<and> fi_len (FI p) = n1 cf + n2 cf \<and> fi_party_assignment (FI p) = asgI
        \<and> fo_party (FO p) = p \<and> fo_len (FO p) = n3 cf \<and> fo_party_assignment (FO p) = asgO) (parties nP)
     \<and> list_all (flex_input_ok nP asgI \<Delta> FI) [0..<n1 cf + n2 cf]
     \<and> list_all (\<lambda>i. - 1 \<le> asgO ! i \<and> asgO ! i \<le> int nP) [0..<n3 cf]"

lemma flex_setupD:
  assumes "flex_setup nP cf asgI asgO \<Delta> FI FO" and "1 \<le> p" "p \<le> nP"
  shows "fi_party (FI p) = p" "fi_len (FI p) = n1 cf + n2 cf" "fi_party_assignment (FI p) = asgI"
    "fo_party (FO p) = p" "fo_len (FO p) = n3 cf" "fo_party_assignment (FO p) = asgO"
  using assms by (auto simp: flex_setup_def list_all_iff)

lemma flex_setup_pos:
  assumes "flex_setup nP cf asgI asgO \<Delta> FI FO"
  shows "i < n1 cf + n2 cf \<Longrightarrow> flex_input_ok nP asgI \<Delta> FI i"
    and "i < n3 cf \<Longrightarrow> - 1 \<le> asgO ! i \<and> asgO ! i \<le> int nP"
  using assms by (auto simp: flex_setup_def list_all_iff)

text \<open>The bit on input wire \<open>i\<close>.\<close>

definition flex_input_bit :: "nat \<Rightarrow> int list \<Rightarrow> (nat \<Rightarrow> FlexIn) \<Rightarrow> nat \<Rightarrow> bool" where
  "flex_input_bit nP asg FI i =
     (if asg ! i = 0 then fi_plaintext_assignment (FI 1) ! i
      else if asg ! i = -2 then parity (\<lambda>q. fi_plaintext_assignment (FI q) ! i) (parties nP)
      else if asg ! i = -1 then parity (\<lambda>q. bit_share (fi_authenticated_share_assignment (FI q) ! i)) (parties nP)
      else fi_plaintext_assignment (FI (nat (asg ! i))) ! i)"

lemma flex_in_ready:
  assumes wf: "wf_circuit cf" and pre: "preprocessed nP cf W"
    and su: "flex_setup nP cf asgI asgO (\<lambda>p. cm_Delta (W p)) FI FO"
  defines "R \<equiv> run_function_dependent nP cf W"
  shows "fi_ready nP (n1 cf + n2 cf) asgI (\<lambda>q. flex_in_of nP (R q) (FI q))"
proof -
  have "fi_mask_auth nP (\<lambda>q. flex_in_of nP (R q) (FI q)) i" if "i < n1 cf + n2 cf" for i
  proof -
    have "defined_by cf (num_gate cf) i" using that by (simp add: defined_by_def)
    from sigma_run_auth_wire [OF wf pre order_refl this] show ?thesis
      unfolding fi_mask_auth_def auth_wire_def R_def flex_in_of_fields(5) run_fd_frame(5) sigma_run_frame(2)
      by (rule auth_bit_cong [THEN iffD1, rotated -1]) auto
  qed
  moreover have "fi_share_auth nP (\<lambda>q. flex_in_of nP (R q) (FI q)) i"
    if "i < n1 cf + n2 cf" "asgI ! i = -1" for i
    using flex_setup_pos(1) [OF su that(1)] that(2) by (simp add: flex_input_ok_def fi_share_auth_def R_def)
  ultimately show ?thesis
    using flex_setupD [OF su] flex_setup_pos(1) [OF su]
    by (auto simp: fi_ready_def list_all_iff flex_input_ok_def)
qed

lemma flex_masked_eq:
  assumes wf: "wf_circuit cf" and pre: "preprocessed nP cf W"
    and su: "flex_setup nP cf asgI asgO (\<lambda>p. cm_Delta (W p)) FI FO" and p: "1 \<le> p" "p \<le> nP"
  defines "R \<equiv> run_function_dependent nP cf W"
  shows "run_input nP g (\<lambda>q. flex_in_of nP (R q) (FI q)) p
      = Inr (map (\<lambda>i. bxor (flex_input_bit nP asgI FI i) (wire_mask nP (sigma_run nP cf W) i)) [0..<n1 cf + n2 cf])"
proof -
  have "fi_secret nP asgI (\<lambda>q. flex_in_of nP (R q) (FI q)) p i = flex_input_bit nP asgI FI i"
    if "i < n1 cf + n2 cf" for i
  proof -
    have "p \<in> set (parties nP)" using p by (simp del: upt_Suc)
    then have "asgI ! i = 0 \<Longrightarrow> fi_plaintext_assignment (FI p) ! i = fi_plaintext_assignment (FI 1) ! i"
      using flex_setup_pos(1) [OF su that] unfolding flex_input_ok_def list_all_iff by blast
    then show ?thesis
      unfolding fi_secret_def flex_input_bit_def flex_in_of_fields by presburger
  qed
  then show ?thesis
    unfolding flexin_honest [OF flex_in_ready [OF wf pre su] p, folded R_def]
    by (simp add: fi_mask_def wire_mask_def R_def del: upt_Suc)
qed

text \<open>After the evaluation party 1 holds the masked outputs and the labels of the others.\<close>

lemma flex_evaluated_ok:
  assumes wf: "wf_circuit cf" and pre: "preprocessed nP cf W" and D: "cm_Delta (W 1) \<noteq> 0"
    and su: "flex_setup nP cf asgI asgO (\<lambda>p. cm_Delta (W p)) FI FO"
  defines "R \<equiv> run_function_dependent nP cf W"
  obtains m el where "flex_evaluated nP cf g garbage R FI 1 = (m, el, [])"
    and "\<And>w. defined_by cf (num_gate cf) w \<Longrightarrow>
           m w = bxor (eval_circuit cf (flex_input_bit nP asgI FI) w) (wire_mask nP (sigma_run nP cf W) w)
           \<and> labels_ok nP (sigma_run nP cf W) m el w"
proof -
  let ?S = "sigma_run nP cf W"
  have nP: "1 \<le> nP" and party: "cm_party (W 1) = 1" and in1: "num_in (W 1) = n1 cf + n2 cf"
    using pre by (auto simp: preprocessed_def)
  have D': "cm_Delta (?S 1) \<noteq> 0" using D by simp
  have msk: "flex_masked nP g garbage R FI p w = bxor (flex_input_bit nP asgI FI w) (wire_mask nP ?S w)"
    if "1 \<le> p" "p \<le> nP" "w < n1 cf + n2 cf" for p w
    using that unfolding flex_masked_def R_def flex_masked_eq [OF wf pre su that(1,2)]
    by (simp add: write_prefix_def)
  have start: "flex_masked nP g garbage R FI 1 w = bxor (flex_input_bit nP asgI FI w) (wire_mask nP ?S w)
      \<and> labels_ok nP ?S (flex_masked nP g garbage R FI 1)
          (receive_labels nP (R 1) (\<lambda>q. input_labels (R q) (flex_masked nP g garbage R FI q))) w"
    if "w < n1 cf + n2 cf" for w
    using msk [OF _ _ that] nP that in1
    by (auto simp: labels_ok_def receive_labels_def input_labels_def gate_blk_def R_def)
  have "flex_evaluated nP cf g garbage R FI 1 = evaluate nP cf (R 1) (flex_masked nP g garbage R FI 1)
      (receive_labels nP (R 1) (\<lambda>q. input_labels (R q) (flex_masked nP g garbage R FI q)))"
    using party unfolding flex_evaluated_def online_flex_eval_def R_def by (simp del: One_nat_def)
  moreover obtain m el where "evaluate nP cf (R 1) (flex_masked nP g garbage R FI 1)
      (receive_labels nP (R 1) (\<lambda>q. input_labels (R q) (flex_masked nP g garbage R FI q))) = (m, el, [])"
    and "\<And>w. defined_by cf (num_gate cf) w \<Longrightarrow>
           m w = bxor (eval_circuit cf (flex_input_bit nP asgI FI) w) (wire_mask nP ?S w) \<and> labels_ok nP ?S m el w"
    by (rule evaluate_garbled [OF wf run_fd_garbled [OF wf pre, folded R_def] D',
          where v = "flex_input_bit nP asgI FI" and msk = "flex_masked nP g garbage R FI 1"
            and el = "receive_labels nP (R 1) (\<lambda>q. input_labels (R q) (flex_masked nP g garbage R FI q))"])
      (use start in \<open>blast+\<close>)
  ultimately show thesis using that by simp
qed

theorem online_flex_ok:
  assumes wf: "wf_circuit cf" and pre: "preprocessed nP cf W"
    and D: "\<And>p. 1 \<le> p \<Longrightarrow> p \<le> nP \<Longrightarrow> cm_Delta (W p) \<noteq> 0"
    and su: "flex_setup nP cf asgI asgO (\<lambda>p. cm_Delta (W p)) FI FO"
  defines "R \<equiv> run_function_dependent nP cf W"
    and "out \<equiv> \<lambda>i. eval_circuit cf (flex_input_bit nP asgI FI) (num_wire cf - n3 cf + i)"
  obtains Q where "\<And>p. 1 \<le> p \<Longrightarrow> p \<le> nP \<Longrightarrow> run_online_flex nP cf R g garbage FI FO p = Inr (Q p, [])"
    and "\<And>p i. 1 \<le> p \<Longrightarrow> p \<le> nP \<Longrightarrow> i < n3 cf \<Longrightarrow> asgO ! i = 0 \<or> asgO ! i = int p \<Longrightarrow>
           fo_plaintext_results (Q p) ! i = out i"
    and "\<And>i. i < n3 cf \<Longrightarrow> asgO ! i = -1 \<Longrightarrow>
           auth_bit nP (\<lambda>p. cm_Delta (W p)) (\<lambda>p. bit_share (fo_authenticated_share_results (Q p) ! i))
             (\<lambda>p j. ab_mac (fo_authenticated_share_results (Q p) ! i) j)
             (\<lambda>p j. ab_key (fo_authenticated_share_results (Q p) ! i) j)
           \<and> parity (\<lambda>p. bit_share (fo_authenticated_share_results (Q p) ! i)) (parties nP) = out i"
proof -
  let ?S = "sigma_run nP cf W" and ?shift = "num_wire cf - n3 cf"
  have nP: "1 \<le> nP" and party: "\<And>p. 1 \<le> p \<Longrightarrow> p \<le> nP \<Longrightarrow> cm_party (W p) = p"
    using pre by (auto simp: preprocessed_def)
  obtain m el where ev: "flex_evaluated nP cf g garbage R FI 1 = (m, el, [])"
    and m: "\<And>w. defined_by cf (num_gate cf) w \<Longrightarrow>
           m w = bxor (eval_circuit cf (flex_input_bit nP asgI FI) w) (wire_mask nP ?S w) \<and> labels_ok nP ?S m el w"
    using flex_evaluated_ok [OF wf pre D [OF order_refl nP] su, folded R_def] by blast
  define G where "G = (\<lambda>q. flex_out_of nP (R q) (fst (snd (flex_evaluated nP cf g garbage R FI q))) (FO q))"
  define M where "M = (\<lambda>q. fst (flex_evaluated nP cf g garbage R FI q))"
  have def: "defined_by cf (num_gate cf) (?shift + i)" if "i < n3 cf" for i
  proof -
    have "?shift + i \<in> set [?shift..<num_wire cf]" using wf that by (auto simp: wf_circuit_def)
    then show ?thesis using wf unfolding wf_circuit_def list_all_iff by blast
  qed
  have G: "fo_value (G q) = cm_value (?S q)" "fo_Delta (G q) = cm_Delta (W q)" "fo_labels (G q) = cm_labels (?S q)" for q
    by (simp_all add: G_def R_def)
  have el1: "fo_eval_labels (G 1) j = el j" if "2 \<le> j" "j \<le> nP" for j
    using that flex_setupD(4) [OF su order_refl nP] by (simp add: G_def ev [unfolded One_nat_def])
  have masked: "fo_masked nP G ?shift out i = m (?shift + i)" if "i < n3 cf" for i
    using m [OF def [OF that]] by (simp add: fo_masked_def G out_def wire_mask_def bxor_ac del: upt_Suc)
  have ready: "fo_ready nP (n3 cf) ?shift asgO G"
  proof -
    have "fo_mask_auth nP G (?shift + i)" if "i < n3 cf" for i
      using sigma_run_auth_wire [OF wf pre order_refl def [OF that]]
      unfolding fo_mask_auth_def auth_wire_def G sigma_run_frame(2)
      by (rule auth_bit_cong [THEN iffD1, rotated -1]) (auto simp: G_def R_def)
    then show ?thesis
      using flex_setupD [OF su] flex_setup_pos(2) [OF su] D
      by (auto simp: fo_ready_def list_all_iff G_def R_def simp del: upt_Suc)
  qed
  have evald: "fo_evaluated nP (n3 cf) ?shift G (M 1) out"
    using m def el1 masked unfolding fo_evaluated_def list_all_iff M_def ev
    by (auto simp: labels_ok_def G simp del: upt_Suc)
  define Q where "Q = (\<lambda>p. (G p)\<lparr>fo_authenticated_share_results := map (authenticated_result nP (G p) ?shift
        (map (fo_masked nP G ?shift out) [0..<n3 cf])) [0..<n3 cf],
      fo_plaintext_results := map (\<lambda>i. if asgO ! i = 0 \<or> asgO ! i = int p then out i
                                       else fo_plaintext_results (G p) ! i) [0..<n3 cf]\<rparr>)"
  have out: "run_output nP G M ?shift p = Inr (Q p)" if "1 \<le> p" "p \<le> nP" for p
    unfolding Q_def by (rule flexout_honest [where m = M, OF ready evald that])
  have log: "snd (snd (flex_evaluated nP cf g garbage R FI p)) = []" if "1 \<le> p" "p \<le> nP" for p
    using ev party [OF that] that
    by (cases "p = 1") (simp_all add: flex_evaluated_def online_flex_eval_def R_def)
  have run: "run_online_flex nP cf R g garbage FI FO p = Inr (Q p, [])" if p: "1 \<le> p" "p \<le> nP" for p
  proof -
    define xs where "xs = map (\<lambda>i. bxor (flex_input_bit nP asgI FI i) (wire_mask nP ?S i)) [0..<n1 cf + n2 cf]"
    have inp: "fi_input nP g (flex_in_of nP (R p) (FI p)) (fi_honest_inbox nP g (\<lambda>q. flex_in_of nP (R q) (FI q)) p) = Inr xs"
      using flex_masked_eq [OF wf pre su p, of g] unfolding run_input_def R_def xs_def .
    then have "flex_masked nP g garbage R FI p = write_prefix xs garbage"
      by (simp add: flex_masked_def run_input_def)
    then have fe: "online_flex_eval nP cf (R p) (write_prefix xs garbage)
        (\<lambda>q. input_labels (R q) (flex_masked nP g garbage R FI q)) = flex_evaluated nP cf g garbage R FI p"
      by (simp add: flex_evaluated_def)
    show ?thesis
      using out [OF p] log [OF p]
      unfolding run_online_flex_def Let_def online_flex_def inp sum.case fe run_output_def M_def G_def
      by (cases "flex_evaluated nP cf g garbage R FI p") simp
  qed
  show thesis
  proof (rule that [of Q])
    show "run_online_flex nP cf R g garbage FI FO p = Inr (Q p, [])" if "1 \<le> p" "p \<le> nP" for p
      by (rule run [OF that])
    show "fo_plaintext_results (Q p) ! i = out i" if "i < n3 cf" "asgO ! i = 0 \<or> asgO ! i = int p" for p i
      using that by (auto simp: Q_def)
    show "auth_bit nP (\<lambda>p. cm_Delta (W p)) (\<lambda>p. bit_share (fo_authenticated_share_results (Q p) ! i))
             (\<lambda>p j. ab_mac (fo_authenticated_share_results (Q p) ! i) j)
             (\<lambda>p j. ab_key (fo_authenticated_share_results (Q p) ! i) j)
           \<and> parity (\<lambda>p. bit_share (fo_authenticated_share_results (Q p) ! i)) (parties nP) = out i"
      if "i < n3 cf" "asgO ! i = -1" for i
      using flexout_shares [OF ready nP that, of out] that by (simp add: Q_def G(2) del: upt_Suc)
  qed
qed

end
