(* ===== verification/AuthShare.thy ===== *)
theory AuthShare
  imports FlexIO Helper
begin

text \<open>
  \<^verbatim>\<open>utils/authshare_builder.h\<close>: a dealer splits bits into authenticated shares, and the shares
  travel as byte vectors.  Randomness (the keys, the offsets, the share bits) is an argument.
\<close>

record AuthShareBuilder =
  asb_len :: nat
  asb_keys :: "nat \<Rightarrow> nat \<Rightarrow> block arr"
  asb_macs :: "nat \<Rightarrow> nat \<Rightarrow> block arr"
  asb_Deltas :: "nat \<Rightarrow> block"
  asb_auth_shares :: "nat \<Rightarrow> AuthBitShare list"

definition init_macs_and_keys ::
  "nat \<Rightarrow> (nat \<Rightarrow> nat \<Rightarrow> block arr) \<Rightarrow> AuthShareBuilder \<Rightarrow> AuthShareBuilder" where
  "init_macs_and_keys nP rnd st =
     st\<lparr>asb_keys := (\<lambda>i j k. if 1 \<le> i \<and> i \<le> nP \<and> 1 \<le> j \<and> j \<le> nP \<and> k < asb_len st then rnd i j k else asb_keys st i j k)\<rparr>"

definition gen_deltas :: "nat \<Rightarrow> (nat \<Rightarrow> block) \<Rightarrow> AuthShareBuilder \<Rightarrow> AuthShareBuilder" where
  "gen_deltas nP rnd st =
     st\<lparr>asb_Deltas := (\<lambda>i. if 1 \<le> i \<and> i \<le> nP then rnd i else asb_Deltas st i)\<rparr>"

text \<open>The constructor with given offsets.\<close>

definition AuthShareBuilder_new ::
  "nat \<Rightarrow> nat \<Rightarrow> (nat \<Rightarrow> block) \<Rightarrow> (nat \<Rightarrow> nat \<Rightarrow> block arr) \<Rightarrow> AuthShareBuilder \<Rightarrow> AuthShareBuilder" where
  "AuthShareBuilder_new nP len deltas rnd heap =
     (let st = init_macs_and_keys nP rnd (heap\<lparr>asb_len := len, asb_auth_shares := (\<lambda>_. [])\<rparr>)
      in st\<lparr>asb_Deltas := (\<lambda>i. if i < nP + 1 then deltas i else asb_Deltas st i)\<rparr>)"

text \<open>\<open>shares[0]\<close> becomes the input with the random \<open>shares[1], \<dots>, shares[nP-1]\<close> added.\<close>

definition to_xor_shares :: "nat \<Rightarrow> nat \<Rightarrow> (nat \<Rightarrow> bool arr) \<Rightarrow> bool arr \<Rightarrow> (nat \<Rightarrow> bool arr) \<Rightarrow> nat \<Rightarrow> bool arr" where
  "to_xor_shares nP len rnd input heap =
     (let shares = heap(0 := (\<lambda>k. if k < len then input k else heap 0 k))
      in fold (\<lambda>i sh.
           let sh = sh(i := (\<lambda>k. if k < len then rnd i k else sh i k))
           in sh(0 := (\<lambda>k. if k < len then bxor (sh 0 k) (sh i k) else sh 0 k))) [1..<nP] shares)"

text \<open>\<open>ga\<close> is the uninitialised local \<^verbatim>\<open>abit\<close>, of which entry 0 is never written.\<close>

definition gen_auth_share ::
  "nat \<Rightarrow> AuthBitShare \<Rightarrow> (nat \<Rightarrow> bool arr) \<Rightarrow> (nat \<Rightarrow> bool arr) \<Rightarrow> bool arr \<Rightarrow> AuthShareBuilder \<Rightarrow> AuthShareBuilder" where
  "gen_auth_share nP ga rnd heap plaintext_bits st =
     (let len = asb_len st;
          shares = to_xor_shares nP len rnd plaintext_bits heap;
          st = st\<lparr>asb_macs := (\<lambda>i j k. if 1 \<le> i \<and> i \<le> nP \<and> 1 \<le> j \<and> j \<le> nP \<and> k < len
                 then asb_keys st j i k XOR (select_mask (shares (i - 1) k) AND asb_Deltas st j)
                 else asb_macs st i j k)\<rparr>
      in st\<lparr>asb_auth_shares := (\<lambda>i. if 1 \<le> i \<and> i \<le> nP
             then asb_auth_shares st i @ map (\<lambda>k.
               \<lparr>bit_share = shares (i - 1) k,
                ab_key = (\<lambda>j. if 1 \<le> j \<and> j \<le> nP then asb_keys st i j k else ab_key ga j),
                ab_mac = (\<lambda>j. if 1 \<le> j \<and> j \<le> nP then asb_macs st i j k else ab_mac ga j)\<rparr>) [0..<len]
             else asb_auth_shares st i)\<rparr>)"

subsection \<open>The dealt shares are authenticated and share the plaintext\<close>

lemma to_xor_shares_bits:
  assumes "1 \<le> nP" and "k < len"
  shows "to_xor_shares nP len rnd input heap 0 k = bxor (input k) (parity (\<lambda>i. rnd i k) [1..<nP])"
    and "1 \<le> i \<Longrightarrow> i < nP \<Longrightarrow> to_xor_shares nP len rnd input heap i k = rnd i k"
proof -
  let ?f = "\<lambda>i sh. let sh = sh(i := (\<lambda>k. if k < len then rnd i k else sh i k))
           in sh(0 := (\<lambda>k. if k < len then bxor (sh 0 k) (sh i k) else sh 0 k))"
  have "fold ?f [1..<n] sh 0 k = bxor (sh 0 k) (parity (\<lambda>i. rnd i k) [1..<n])
      \<and> (\<forall>i. 1 \<le> i \<and> i < n \<longrightarrow> fold ?f [1..<n] sh i k = rnd i k)" for n sh
  proof (induction n)
    case (Suc n)
    then show ?case
      using assms(2) by (cases "n = 0") (auto simp: Let_def less_Suc_eq bxor_assoc)
  qed simp
  from this [of nP] show "to_xor_shares nP len rnd input heap 0 k = bxor (input k) (parity (\<lambda>i. rnd i k) [1..<nP])"
    and "1 \<le> i \<Longrightarrow> i < nP \<Longrightarrow> to_xor_shares nP len rnd input heap i k = rnd i k"
    using assms(2) unfolding to_xor_shares_def by simp_all
qed

text \<open>The exclusive or of all shares is the input bit.\<close>

theorem to_xor_shares_sum:
  assumes "1 \<le> nP" and "k < len"
  shows "parity (\<lambda>i. to_xor_shares nP len rnd input heap (i - 1) k) (parties nP) = input k"
proof -
  have shift: "parity (\<lambda>i. f (i - 1)) [Suc a..<Suc b] = parity f [a..<b]" for f and a b :: nat
  proof -
    have "[Suc a..<Suc b] = map Suc [a..<b]" by (simp add: map_Suc_upt)
    then show ?thesis by (simp add: parity_def foldr_map comp_def)
  qed
  have "parity (\<lambda>i. to_xor_shares nP len rnd input heap (i - 1) k) (parties nP)
      = parity (\<lambda>i. to_xor_shares nP len rnd input heap i k) [0..<nP]"
    using shift [of "\<lambda>i. to_xor_shares nP len rnd input heap i k" 0 nP] by simp
  also have "[0..<nP] = 0 # [1..<nP]" using assms(1) by (simp add: upt_rec)
  also have "parity (\<lambda>i. to_xor_shares nP len rnd input heap i k) (0 # [1..<nP])
      = bxor (to_xor_shares nP len rnd input heap 0 k) (parity (\<lambda>i. rnd i k) [1..<nP])"
    using to_xor_shares_bits(2) [OF assms] unfolding parity_simps
    by (intro arg_cong2 [where f = bxor] refl parity_cong) auto
  finally show ?thesis by (simp add: to_xor_shares_bits(1) [OF assms] bxor_assoc)
qed

lemma gen_auth_share_dealt:
  fixes bits :: "bool arr" and heap rnd :: "nat \<Rightarrow> bool arr" and ga :: AuthBitShare
  assumes "1 \<le> nP" and "k < asb_len st"
    and fresh: "\<And>p. 1 \<le> p \<Longrightarrow> p \<le> nP \<Longrightarrow> asb_auth_shares st p = []"
  defines "A \<equiv> \<lambda>p. asb_auth_shares (gen_auth_share nP ga rnd heap bits st) p"
  shows "auth_bit nP (asb_Deltas st) (\<lambda>p. bit_share (A p ! k)) (\<lambda>p j. ab_mac (A p ! k) j) (\<lambda>p j. ab_key (A p ! k) j)"
    and "parity (\<lambda>p. bit_share (A p ! k)) (parties nP) = bits k"
proof -
  have nth: "A p ! k = \<lparr>bit_share = to_xor_shares nP (asb_len st) rnd bits heap (p - 1) k,
       ab_key = (\<lambda>j. if 1 \<le> j \<and> j \<le> nP then asb_keys st p j k else ab_key ga j),
       ab_mac = (\<lambda>j. if 1 \<le> j \<and> j \<le> nP then asb_keys st j p k XOR
           gate_blk (to_xor_shares nP (asb_len st) rnd bits heap (p - 1) k) (asb_Deltas st j) else ab_mac ga j)\<rparr>"
    if "1 \<le> p" "p \<le> nP" for p
    using that assms(2) fresh [OF that] by (auto simp: A_def gen_auth_share_def Let_def)
  show "auth_bit nP (asb_Deltas st) (\<lambda>p. bit_share (A p ! k)) (\<lambda>p j. ab_mac (A p ! k) j) (\<lambda>p j. ab_key (A p ! k) j)"
    by (rule auth_bitI) (simp add: nth)
  have "parity (\<lambda>p. bit_share (A p ! k)) (parties nP)
      = parity (\<lambda>p. to_xor_shares nP (asb_len st) rnd bits heap (p - 1) k) (parties nP)"
    by (intro parity_cong refl) (auto simp: nth)
  then show "parity (\<lambda>p. bit_share (A p ! k)) (parties nP) = bits k"
    by (simp only: to_xor_shares_sum [OF assms(1,2)])
qed

text \<open>
  C26.  \<^verbatim>\<open>gen_auth_share\<close> deals shares that add up to the plaintext bits, every share authenticated to every
  party under that party's offset.  The builder has dealt nothing before.
\<close>

theorem gen_auth_share_ok:
  assumes "1 \<le> nP" and "k < asb_len st" and "\<And>p. 1 \<le> p \<Longrightarrow> p \<le> nP \<Longrightarrow> asb_auth_shares st p = []"
  shows "let A = asb_auth_shares (gen_auth_share nP ga rnd heap bits st) in
     auth_bit nP (asb_Deltas st) (\<lambda>p. bit_share (A p ! k)) (\<lambda>p j. ab_mac (A p ! k) j) (\<lambda>p j. ab_key (A p ! k) j)
     \<and> parity (\<lambda>p. bit_share (A p ! k)) (parties nP) = bits k"
  using gen_auth_share_dealt [OF assms] by (simp add: Let_def)

definition sample_builder :: AuthShareBuilder where
  "sample_builder = AuthShareBuilder_new 3 2 of_nat (\<lambda>i j k. of_nat (i + j + k)) undefined"

theorem gen_auth_share_ok_witness:
  "let A = asb_auth_shares (gen_auth_share 3 empty_abit (\<lambda>_ _. True) (\<lambda>_ _. False) (\<lambda>k. k = 1) sample_builder) in
   auth_bit 3 (asb_Deltas sample_builder) (\<lambda>p. bit_share (A p ! 1)) (\<lambda>p j. ab_mac (A p ! 1) j) (\<lambda>p j. ab_key (A p ! 1) j)
   \<and> parity (\<lambda>p. bit_share (A p ! 1)) (parties 3) = (1 = (1 :: nat))"
  by (rule gen_auth_share_ok)
    (simp_all add: sample_builder_def AuthShareBuilder_new_def init_macs_and_keys_def Let_def)

subsection \<open>Serialisation\<close>

text \<open>The object representation of a \<^verbatim>\<open>size_t\<close>, little endian.\<close>

definition bytes_of_size :: "nat \<Rightarrow> bytes" where
  "bytes_of_size n = map (\<lambda>i. ucast (drop_bit (8 * i) (of_nat n :: 64 word))) [0..<8]"

definition size_of_bytes :: "bytes \<Rightarrow> nat" where
  "size_of_bytes bs = unat (foldr (\<lambda>x w. ucast x OR push_bit 8 w) bs (0 :: 64 word))"

definition serializeAuthBitShare :: "nat \<Rightarrow> AuthBitShare \<Rightarrow> bytes" where
  "serializeAuthBitShare nP obj =
     (let buffer = [of_bool (bit_share obj)];
          buffer = fold (\<lambda>i b. b @ bytes_of_block (ab_key obj i)) [0..<nP + 1] buffer
      in fold (\<lambda>i b. b @ bytes_of_block (ab_mac obj i)) [0..<nP + 1] buffer)"

definition serialize :: "nat \<Rightarrow> AuthBitShare list \<Rightarrow> bytes" where
  "serialize nP vec = fold (\<lambda>obj b. b @ serializeAuthBitShare nP obj) vec (bytes_of_size (length vec))"

text \<open>Reading past the end of the vector is undefined behaviour in the code; here it is \<open>None\<close>.\<close>

definition read_bytes :: "bytes \<Rightarrow> nat \<Rightarrow> nat \<Rightarrow> bytes option" where
  "read_bytes buffer offset n =
     (if offset + n \<le> length buffer then Some (take n (drop offset buffer)) else None)"

primrec read_blocks :: "bytes \<Rightarrow> nat list \<Rightarrow> (nat \<Rightarrow> block) \<times> nat \<Rightarrow> ((nat \<Rightarrow> block) \<times> nat) option" where
  "read_blocks buffer [] s = Some s"
| "read_blocks buffer (i # is) s =
     (case s of (A, offset) \<Rightarrow>
        (case read_bytes buffer offset 16 of
           None \<Rightarrow> None
         | Some bs \<Rightarrow> read_blocks buffer is (A(i := block_of_bytes bs), offset + 16)))"

definition deserializeAuthBitShare ::
  "nat \<Rightarrow> AuthBitShare \<Rightarrow> bytes \<Rightarrow> nat \<Rightarrow> (AuthBitShare \<times> nat) option" where
  "deserializeAuthBitShare nP obj buffer offset =
     (case read_bytes buffer offset 1 of
        None \<Rightarrow> None
      | Some b \<Rightarrow>
          (case read_blocks buffer [0..<nP + 1] (ab_key obj, offset + 1) of
             None \<Rightarrow> None
           | Some (key, offset) \<Rightarrow>
               (case read_blocks buffer [0..<nP + 1] (ab_mac obj, offset) of
                  None \<Rightarrow> None
                | Some (mac, offset) \<Rightarrow> Some (\<lparr>bit_share = hd b \<noteq> 0, ab_key = key, ab_mac = mac\<rparr>, offset))))"

primrec deserialize_loop :: "nat \<Rightarrow> AuthBitShare \<Rightarrow> bytes \<Rightarrow> nat \<Rightarrow> nat \<Rightarrow> AuthBitShare list option" where
  "deserialize_loop nP ga buffer 0 offset = Some []"
| "deserialize_loop nP ga buffer (Suc n) offset =
     (case deserializeAuthBitShare nP ga buffer offset of
        None \<Rightarrow> None
      | Some (obj, offset) \<Rightarrow> map_option (Cons obj) (deserialize_loop nP ga buffer n offset))"

definition deserialize :: "nat \<Rightarrow> AuthBitShare \<Rightarrow> bytes \<Rightarrow> AuthBitShare list option" where
  "deserialize nP ga buffer =
     (case read_bytes buffer 0 8 of
        None \<Rightarrow> None
      | Some bs \<Rightarrow> deserialize_loop nP ga buffer (size_of_bytes bs) 8)"

definition serializeBlock :: "block \<Rightarrow> bytes" where
  "serializeBlock b = bytes_of_block b"

definition deserializeBlock :: "bytes \<Rightarrow> block option" where
  "deserializeBlock buffer = (if length buffer \<noteq> 16 then None else Some (block_of_bytes buffer))"

definition copy_vec_to_bool_array :: "bytes \<Rightarrow> bool arr \<Rightarrow> bool arr" where
  "copy_vec_to_bool_array vec arr =
     fold (\<lambda>i a. fold (\<lambda>j a. a(i * 8 + j := (drop_bit j (vec ! i) AND 1 \<noteq> 0))) [0..<8] a) [0..<length vec] arr"

subsection \<open>Round trips\<close>

lemma deserializeBlock_serializeBlock: "deserializeBlock (serializeBlock b) = Some b"
  by (simp add: deserializeBlock_def serializeBlock_def)

lemma size_of_bytes_of_size:
  assumes "n < 2 ^ 64"
  shows "size_of_bytes (bytes_of_size n) = n"
proof -
  have "foldr (\<lambda>x w. ucast x OR push_bit 8 w) (bytes_of_size n) (0 :: 64 word) = of_nat n"
  proof (rule bit_word_eqI)
    fix k assume "k < LENGTH(64)"
    then have k: "k < 64" "k div 8 < 8" by auto
    then show "bit (foldr (\<lambda>x w. ucast x OR push_bit 8 w) (bytes_of_size n) (0 :: 64 word)) k = bit (of_nat n :: 64 word) k"
      by (subst bit_word_of_bytes) (simp_all add: bytes_of_size_def bit_simps)
  qed
  then show ?thesis using assms by (simp add: size_of_bytes_def unat_of_nat)
qed

lemma length_bytes_of_size [simp]: "length (bytes_of_size n) = 8"
  by (simp add: bytes_of_size_def)

lemma fold_append_concat: "fold (\<lambda>x b. b @ f x) xs b = b @ concat (map f xs)"
  by (induction xs arbitrary: b) auto

lemma read_bytes_at: "length mid = n \<Longrightarrow> read_bytes (pre @ mid @ post) (length pre) n = Some mid"
  by (simp add: read_bytes_def)

lemma length_block_bytes [simp]: "length (concat (map (\<lambda>i. bytes_of_block (K i)) is)) = 16 * length is"
  by (induction "is") auto

lemma read_blocks_at:
  "read_blocks (pre @ concat (map (\<lambda>i. bytes_of_block (K i)) is) @ post) is (A, length pre)
     = Some (\<lambda>j. if j \<in> set is then K j else A j, length pre + 16 * length is)"
proof (induction "is" arbitrary: pre A)
  case (Cons i "is")
  let ?rest = "concat (map (\<lambda>i. bytes_of_block (K i)) is) @ post"
  have "read_bytes (pre @ bytes_of_block (K i) @ ?rest) (length pre) 16 = Some (bytes_of_block (K i))"
    by (rule read_bytes_at) simp
  moreover have "read_blocks ((pre @ bytes_of_block (K i)) @ ?rest) is (A(i := K i), length (pre @ bytes_of_block (K i)))
      = Some (\<lambda>j. if j \<in> set is then K j else (A(i := K i)) j, length (pre @ bytes_of_block (K i)) + 16 * length is)"
    by (rule Cons)
  moreover have "(\<lambda>j. if j \<in> set is then K j else (A(i := K i)) j) = (\<lambda>j. if j \<in> set (i # is) then K j else A j)"
    by auto
  ultimately show ?case by simp
qed simp

text \<open>The share a reader gets back: entries beyond \<open>nP\<close> do not exist in the code's arrays.\<close>

definition abit_upto :: "nat \<Rightarrow> AuthBitShare \<Rightarrow> AuthBitShare \<Rightarrow> AuthBitShare" where
  "abit_upto nP ga a =
     \<lparr>bit_share = bit_share a, ab_key = (\<lambda>j. if j \<le> nP then ab_key a j else ab_key ga j),
      ab_mac = (\<lambda>j. if j \<le> nP then ab_mac a j else ab_mac ga j)\<rparr>"

lemma serializeAuthBitShare_eq:
  "serializeAuthBitShare nP a = [of_bool (bit_share a)]
     @ concat (map (\<lambda>i. bytes_of_block (ab_key a i)) [0..<nP + 1])
     @ concat (map (\<lambda>i. bytes_of_block (ab_mac a i)) [0..<nP + 1])"
  by (simp add: serializeAuthBitShare_def Let_def fold_append_concat del: upt_Suc)

lemma deserializeAuthBitShare_at:
  "deserializeAuthBitShare nP ga (pre @ serializeAuthBitShare nP a @ post) (length pre)
     = Some (abit_upto nP ga a, length pre + length (serializeAuthBitShare nP a))"
proof -
  define ks ms where "ks = concat (map (\<lambda>i. bytes_of_block (ab_key a i)) [0..<nP + 1])"
    and "ms = concat (map (\<lambda>i. bytes_of_block (ab_mac a i)) [0..<nP + 1])"
  let ?b = "[of_bool (bit_share a)] :: bytes"
  have len: "length ks = 16 * (nP + 1)" unfolding ks_def by simp
  have buf: "pre @ serializeAuthBitShare nP a @ post = pre @ ?b @ (ks @ ms @ post)"
    by (simp add: serializeAuthBitShare_eq ks_def ms_def)
  have 1: "read_bytes (pre @ ?b @ (ks @ ms @ post)) (length pre) 1 = Some ?b"
    by (rule read_bytes_at) simp
  have 2: "read_blocks (pre @ ?b @ (ks @ ms @ post)) [0..<nP + 1] (ab_key ga, length pre + 1)
      = Some (\<lambda>j. if j \<le> nP then ab_key a j else ab_key ga j, length pre + 1 + 16 * (nP + 1))"
    using read_blocks_at [of "pre @ ?b" "ab_key a" "[0..<nP + 1]" "ms @ post" "ab_key ga"]
    by (simp add: ks_def less_Suc_eq_le del: upt_Suc)
  have 3: "read_blocks (pre @ ?b @ (ks @ ms @ post)) [0..<nP + 1] (ab_mac ga, length pre + 1 + 16 * (nP + 1))
      = Some (\<lambda>j. if j \<le> nP then ab_mac a j else ab_mac ga j, length pre + 1 + 16 * (nP + 1) + 16 * (nP + 1))"
    using read_blocks_at [of "pre @ ?b @ ks" "ab_mac a" "[0..<nP + 1]" post "ab_mac ga"] len
    by (simp add: ms_def less_Suc_eq_le algebra_simps del: upt_Suc)
  show ?thesis
    unfolding buf deserializeAuthBitShare_def 1 option.case 2 prod.case 3
    by (simp add: abit_upto_def serializeAuthBitShare_eq del: upt_Suc)
qed

lemma deserialize_loop_at:
  "deserialize_loop nP ga (pre @ concat (map (serializeAuthBitShare nP) vec)) (length vec) (length pre)
     = Some (map (abit_upto nP ga) vec)"
proof (induction vec arbitrary: pre)
  case (Cons a vec)
  have "deserializeAuthBitShare nP ga (pre @ serializeAuthBitShare nP a @ concat (map (serializeAuthBitShare nP) vec)) (length pre)
      = Some (abit_upto nP ga a, length pre + length (serializeAuthBitShare nP a))"
    by (rule deserializeAuthBitShare_at)
  then show ?case
    using Cons [of "pre @ serializeAuthBitShare nP a"] by simp
qed simp

lemma deserialize_serialized:
  assumes "length vec < 2 ^ 64"
  shows "deserialize nP ga (serialize nP vec) = Some (map (abit_upto nP ga) vec)"
proof -
  have ser: "serialize nP vec = bytes_of_size (length vec) @ concat (map (serializeAuthBitShare nP) vec)"
    by (simp add: serialize_def fold_append_concat)
  have "read_bytes (serialize nP vec) 0 8 = Some (bytes_of_size (length vec))"
    using read_bytes_at [of "bytes_of_size (length vec)" 8 "[]"] by (simp add: ser)
  then show ?thesis
    using deserialize_loop_at [of nP ga "bytes_of_size (length vec)" vec]
    by (simp add: deserialize_def size_of_bytes_of_size [OF assms] ser)
qed

text \<open>
  C27.  \<^verbatim>\<open>deserialize\<close> after \<^verbatim>\<open>serialize\<close> restores every share: the bit and the keys and tags of all parties (the entries
  beyond \<^verbatim>\<open>nP\<close> keep what the local object held).
\<close>

theorem deserialize_serialize:
  assumes "length vec < 2 ^ 64"
  shows "deserialize nP ga (serialize nP vec) = Some (map (abit_upto nP ga) vec)"
  using assms by (rule deserialize_serialized)

theorem deserialize_serialize_witness:
  "deserialize 2 empty_abit (serialize 2 [empty_abit\<lparr>bit_share := True\<rparr>, empty_abit])
   = Some (map (abit_upto 2 empty_abit) [empty_abit\<lparr>bit_share := True\<rparr>, empty_abit])"
  by (rule deserialize_serialize) simp

text \<open>The shares of a vector by position: the bytes of one share, and the share that starts at a given byte.\<close>

definition share_bytes :: "nat \<Rightarrow> nat" where
  "share_bytes nP = 1 + 32 * (nP + 1)"

definition block_at :: "bytes \<Rightarrow> nat \<Rightarrow> block" where
  "block_at v p = block_of_bytes (take 16 (drop p v))"

definition share_at :: "nat \<Rightarrow> AuthBitShare \<Rightarrow> bytes \<Rightarrow> nat \<Rightarrow> AuthBitShare" where
  "share_at nP ga v p = \<lparr>bit_share = v ! p \<noteq> 0,
     ab_key = (\<lambda>j. if j \<le> nP then block_at v (p + 1 + 16 * j) else ab_key ga j),
     ab_mac = (\<lambda>j. if j \<le> nP then block_at v (p + 1 + 16 * (nP + 1) + 16 * j) else ab_mac ga j)\<rparr>"

lemma read_blocks_upt:
  "read_blocks v [a..<a + n] (A, p) =
     (if n = 0 \<or> p + 16 * n \<le> length v
      then Some (\<lambda>j. if a \<le> j \<and> j < a + n then block_at v (p + 16 * (j - a)) else A j, p + 16 * n) else None)"
proof (induction n arbitrary: a A p)
  case (Suc n)
  have upt: "[a..<a + Suc n] = a # [Suc a..<Suc a + n]" by (simp add: upt_rec)
  have shift: "p + 16 * (j - a) = p + 16 + 16 * (j - Suc a)" if "Suc a \<le> j" for j
    using that by (simp add: algebra_simps)
  have fld: "(\<lambda>j. if Suc a \<le> j \<and> j < Suc a + n then block_at v (p + 16 + 16 * (j - Suc a)) else (A(a := block_at v p)) j)
      = (\<lambda>j. if a \<le> j \<and> j < a + Suc n then block_at v (p + 16 * (j - a)) else A j)"
    by (auto simp: shift fun_eq_iff)
  have "read_blocks v [a..<a + Suc n] (A, p)
      = (if p + 16 \<le> length v then read_blocks v [Suc a..<Suc a + n] (A(a := block_at v p), p + 16) else None)"
    unfolding upt by (simp add: read_bytes_def block_at_def del: upt_Suc)
  then show ?case unfolding Suc.IH fld by auto
qed (auto simp: fun_eq_iff)

lemma deserializeAuthBitShare_eq:
  "deserializeAuthBitShare nP ga v p =
     (if p + share_bytes nP \<le> length v then Some (share_at nP ga v p, p + share_bytes nP) else None)"
proof -
  have "hd (take (Suc 0) (drop p v)) = v ! p" if "p < length v"
    using that by (simp add: hd_drop_conv_nth take_Suc drop_Suc)
  then show ?thesis
    using read_blocks_upt [of v 0 "nP + 1"]
    by (auto simp: deserializeAuthBitShare_def read_bytes_def share_at_def share_bytes_def fun_eq_iff less_Suc_eq_le simp del: upt_Suc)
qed

lemma deserialize_loop_eq:
  "deserialize_loop nP ga v n p =
     (if n = 0 \<or> p + n * share_bytes nP \<le> length v then Some (map (\<lambda>i. share_at nP ga v (p + i * share_bytes nP)) [0..<n]) else None)"
proof (induction n arbitrary: p)
  case (Suc n)
  have "map (\<lambda>i. share_at nP ga v (p + i * share_bytes nP)) [0..<Suc n]
      = share_at nP ga v p # map (\<lambda>i. share_at nP ga v (p + share_bytes nP + i * share_bytes nP)) [0..<n]"
    by (simp add: upt_conv_Cons map_Suc_upt [symmetric] comp_def algebra_simps del: upt_Suc)
  then show ?case
    by (cases "n = 0") (auto simp: deserializeAuthBitShare_eq Suc.IH add.assoc simp del: upt_Suc)
qed simp

text \<open>
  C39.  What \<^verbatim>\<open>deserialize\<close> reads from an arbitrary vector.  The size field alone decides: the code reads \<open>1 + 32 * (nP + 1)\<close> bytes for
  each of the announced shares, whatever the length of the vector.  It stays inside exactly when the vector is long enough for the
  field and all announced shares; then share \<open>i\<close> has the bit, the keys and the tags at its place of the
  vector.  A shorter vector is read past its end (\<open>None\<close>): no error is reported for it.
\<close>

theorem deserialize_trusts_size:
  "deserialize nP ga v =
     (if 8 \<le> length v \<and> 8 + size_of_bytes (take 8 v) * (1 + 32 * (nP + 1)) \<le> length v
      then Some (map (\<lambda>i. share_at nP ga v (8 + i * (1 + 32 * (nP + 1)))) [0..<size_of_bytes (take 8 v)]) else None)"
  by (auto simp: deserialize_def read_bytes_def deserialize_loop_eq share_bytes_def simp del: upt_Suc)

text \<open>\<^verbatim>\<open>copy_vec_to_bool_array\<close> followed by \<^verbatim>\<open>bool_to_block\<close> reads an offset back from its bytes.\<close>

lemma copy_vec_nth:
  "copy_vec_to_bool_array vec arr n = (if n < 8 * length vec then bit (vec ! (n div 8)) (n mod 8) else arr n)"
proof -
  have inner: "fold (\<lambda>j a. a(i * 8 + j := (drop_bit j x AND 1 \<noteq> 0))) [0..<m] a n
      = (if i * 8 \<le> n \<and> n < i * 8 + m then bit x (n - i * 8) else a n)" for i m a and x :: "8 word"
    by (induction m) (auto simp: less_Suc_eq and_one_eq bit_iff_odd_drop_bit odd_iff_mod_2_eq_one)
  have "fold (\<lambda>i a. fold (\<lambda>j a. a(i * 8 + j := (drop_bit j (vec ! i) AND 1 \<noteq> 0))) [0..<8] a) [0..<m] arr n
      = (if n < 8 * m then bit (vec ! (n div 8)) (n mod 8) else arr n)" for m
  proof (induction m)
    case (Suc m)
    have "n div 8 = m \<and> n - m * 8 = n mod 8" if "m * 8 \<le> n" "n < m * 8 + 8"
      using that by (auto simp: modulo_nat_def div_nat_eqI mult.commute)
    then show ?case unfolding fold_upt_Suc [OF le0] inner Suc by auto
  qed simp
  then show ?thesis by (simp add: copy_vec_to_bool_array_def)
qed

end
