(* ===== verification/Base64.thy ===== *)
theory Base64
  imports Helper
begin

text \<open>
  \<^verbatim>\<open>mpcauth/utils/base64.cpp\<close>.  The arrays \<^verbatim>\<open>char_array_3\<close> and \<^verbatim>\<open>char_array_4\<close> with their fill count \<^verbatim>\<open>i\<close> are
  lists of the elements filled so far.  \<^verbatim>\<open>std::string::find\<close> of a character that does not occur is \<^verbatim>\<open>npos\<close>,
  which is 255 when stored in a byte.  Lengths are natural numbers; the code keeps them in \<^verbatim>\<open>unsigned int\<close> and \<^verbatim>\<open>int\<close>, so
  the model stands for inputs below \<open>2 ^ 31\<close> bytes.
\<close>

definition base64_chars :: string where
  "base64_chars = ''ABCDEFGHIJKLMNOPQRSTUVWXYZ'' @ ''abcdefghijklmnopqrstuvwxyz'' @ ''0123456789+/''"

definition is_base64 :: "char \<Rightarrow> bool" where
  "is_base64 c \<longleftrightarrow> (let n = of_char c :: nat
     in 65 \<le> n \<and> n \<le> 90 \<or> 97 \<le> n \<and> n \<le> 122 \<or> 48 \<le> n \<and> n \<le> 57 \<or> c = CHR ''+'' \<or> c = CHR ''/'')"

definition b64_char :: "8 word \<Rightarrow> char" where
  "b64_char w = base64_chars ! unat w"

subsection \<open>Encoding\<close>

definition to_array_4 :: "bytes \<Rightarrow> bytes" where
  "to_array_4 c = [drop_bit 2 (c ! 0 AND 0xfc),
     push_bit 4 (c ! 0 AND 0x03) + drop_bit 4 (c ! 1 AND 0xf0),
     push_bit 2 (c ! 1 AND 0x0f) + drop_bit 6 (c ! 2 AND 0xc0),
     c ! 2 AND 0x3f]"

fun encode_loop :: "bytes \<Rightarrow> bytes \<Rightarrow> string \<Rightarrow> bytes \<times> string" where
  "encode_loop char_array_3 [] ret = (char_array_3, ret)"
| "encode_loop char_array_3 (b # buf) ret =
     (let char_array_3 = char_array_3 @ [b]
      in if length char_array_3 = 3 then encode_loop [] buf (ret @ map b64_char (to_array_4 char_array_3))
         else encode_loop char_array_3 buf ret)"

definition base64_encode :: "bytes \<Rightarrow> string" where
  "base64_encode buf =
     (let (char_array_3, ret) = encode_loop [] buf []; i = length char_array_3
      in if i \<noteq> 0 then
           let char_array_4 = to_array_4 (char_array_3 @ replicate (3 - i) 0)
           in ret @ map b64_char (take (i + 1) char_array_4) @ replicate (3 - i) CHR ''=''
         else ret)"

subsection \<open>Decoding\<close>

definition b64_find :: "char \<Rightarrow> 8 word" where
  "b64_find c = (case find (\<lambda>i. base64_chars ! i = c) [0..<64] of Some i \<Rightarrow> of_nat i | None \<Rightarrow> 255)"

definition to_array_3 :: "bytes \<Rightarrow> bytes" where
  "to_array_3 c = [push_bit 2 (c ! 0) + drop_bit 4 (c ! 1 AND 0x30),
     push_bit 4 (c ! 1 AND 0xf) + drop_bit 2 (c ! 2 AND 0x3c),
     push_bit 6 (c ! 2 AND 0x3) + c ! 3]"

fun decode_loop :: "string \<Rightarrow> string \<Rightarrow> bytes \<Rightarrow> string \<times> bytes" where
  "decode_loop char_array_4 [] ret = (char_array_4, ret)"
| "decode_loop char_array_4 (c # cs) ret =
     (if c \<noteq> CHR ''='' \<and> is_base64 c then
        let char_array_4 = char_array_4 @ [c]
        in if length char_array_4 = 4 then decode_loop [] cs (ret @ to_array_3 (map b64_find char_array_4))
           else decode_loop char_array_4 cs ret
      else (char_array_4, ret))"

definition base64_decode :: "string \<Rightarrow> bytes" where
  "base64_decode encoded_string =
     (let (char_array_4, ret) = decode_loop [] encoded_string []; i = length char_array_4
      in if i \<noteq> 0 then
           let char_array_3 = to_array_3 (map b64_find (char_array_4 @ replicate (4 - i) (CHR 0x00)))
           in ret @ take (i - 1) char_array_3
         else ret)"

subsection \<open>Four characters for three bytes\<close>

lemma less_8_cases:
  "(n :: nat) < 8 \<Longrightarrow> (n = 0 \<Longrightarrow> P) \<Longrightarrow> (n = 1 \<Longrightarrow> P) \<Longrightarrow> (n = 2 \<Longrightarrow> P) \<Longrightarrow> (n = 3 \<Longrightarrow> P)
     \<Longrightarrow> (n = 4 \<Longrightarrow> P) \<Longrightarrow> (n = 5 \<Longrightarrow> P) \<Longrightarrow> (n = 6 \<Longrightarrow> P) \<Longrightarrow> (n = 7 \<Longrightarrow> P) \<Longrightarrow> P"
  by linarith

lemma byte_masks:
  "(0x03 :: 8 word) = mask 2" "(0x0f :: 8 word) = mask 4" "(0x3f :: 8 word) = mask 6"
  "(0xfc :: 8 word) = push_bit 2 (mask 6)" "(0xf0 :: 8 word) = push_bit 4 (mask 4)" "(0xc0 :: 8 word) = push_bit 6 (mask 2)"
  "(0x30 :: 8 word) = push_bit 4 (mask 2)" "(0x3c :: 8 word) = push_bit 2 (mask 4)"
  by (simp_all add: mask_eq_exp_minus_1 push_bit_eq_mult)

lemma plus_or:
  "push_bit 4 (a AND 0x03) + drop_bit 4 (b AND 0xf0) = push_bit 4 (a AND 0x03) OR drop_bit 4 (b AND 0xf0)"
  "push_bit 2 (a AND 0x0f) + drop_bit 6 (b AND 0xc0) = push_bit 2 (a AND 0x0f) OR drop_bit 6 (b AND 0xc0)"
  "push_bit 2 a + drop_bit 4 (b AND 0x30) = push_bit 2 a OR drop_bit 4 (b AND 0x30)"
  "push_bit 4 (a AND 0xf) + drop_bit 2 (b AND 0x3c) = push_bit 4 (a AND 0xf) OR drop_bit 2 (b AND 0x3c)"
  "push_bit 6 (a AND 0x3) + (b AND 0x3f) = push_bit 6 (a AND 0x3) OR (b AND 0x3f)"
  for a b :: "8 word"
  unfolding byte_masks
  by (rule disjunctive_add_eq_or, rule bit_word_eqI, auto simp: bit_simps)+

lemma array_3_4: "to_array_3 (to_array_4 [a, b, c]) = [a, b, c]"
proof -
  have 1: "push_bit 2 (drop_bit 2 (a AND 0xfc)) OR drop_bit 4 ((push_bit 4 (a AND 0x03) OR drop_bit 4 (b AND 0xf0)) AND 0x30) = a"
    unfolding byte_masks by (rule bit_word_eqI, simp, erule less_8_cases; simp add: bit_simps)
  have 2: "push_bit 4 ((push_bit 4 (a AND 0x03) OR drop_bit 4 (b AND 0xf0)) AND 0xf) OR drop_bit 2 ((push_bit 2 (b AND 0x0f) OR drop_bit 6 (c AND 0xc0)) AND 0x3c) = b"
    unfolding byte_masks by (rule bit_word_eqI, simp, erule less_8_cases; simp add: bit_simps)
  have 3: "push_bit 6 ((push_bit 2 (b AND 0x0f) OR drop_bit 6 (c AND 0xc0)) AND 0x3) OR (c AND 0x3f) = c"
    unfolding byte_masks by (rule bit_word_eqI, simp, erule less_8_cases; simp add: bit_simps)
  have nth: "(w # xs) ! 0 = w" "(w # x # xs) ! 1 = x" "(w # x # y # xs) ! 2 = y" "(w # x # y # z # xs) ! 3 = z" for w x y z :: "8 word" and xs
    by (simp_all add: numeral_3_eq_3 numeral_2_eq_2)
  show ?thesis
    unfolding to_array_3_def to_array_4_def nth plus_or 1 2 3 ..
qed
lemma less_64: "v \<in> set (to_array_4 c) \<Longrightarrow> unat v < 64"
proof -
  assume "v \<in> set (to_array_4 c)"
  then have "\<not> bit v n" if "6 \<le> n" for n
    unfolding to_array_4_def plus_or unfolding byte_masks using that by (auto simp: bit_simps)
  then have high: "bit v n \<Longrightarrow> n < 6" for n using not_less by blast
  have "v = take_bit 6 v" by (rule bit_word_eqI) (auto simp: bit_simps dest: high)
  then have "unat v = take_bit 6 (unat v)" by (metis unsigned_take_bit_eq)
  moreover have "take_bit 6 (unat v) < 2 ^ 6" by (rule take_bit_nat_less_exp)
  ultimately show ?thesis by simp
qed

lemma b64_table: "list_all (\<lambda>i. b64_find (base64_chars ! i) = of_nat i \<and> is_base64 (base64_chars ! i) \<and> base64_chars ! i \<noteq> CHR ''='') [0..<64]"
  by code_simp

lemma b64_char_ok:
  assumes "unat v < 64"
  shows "b64_find (b64_char v) = v" "is_base64 (b64_char v)" "b64_char v \<noteq> CHR ''=''"
  using b64_table assms by (simp_all add: list_all_iff b64_char_def del: upt_rec_numeral)

lemma to_array_4_cases:
  obtains w x y z where "to_array_4 c = [w, x, y, z]" "unat w < 64" "unat x < 64" "unat y < 64" "unat z < 64"
proof -
  obtain w x y z where e: "to_array_4 c = [w, x, y, z]" by (simp add: to_array_4_def)
  then show thesis using less_64 [of _ c] that by simp
qed

subsection \<open>The round trip\<close>

lemma encode_loop_ret: "encode_loop p buf (ret @ r) = map_prod id ((@) ret) (encode_loop p buf r)"
  by (induction p buf r rule: encode_loop.induct) (simp_all add: Let_def)

lemma decode_loop_ret: "decode_loop p s (ret @ r) = map_prod id ((@) ret) (decode_loop p s r)"
  by (induction p s r rule: decode_loop.induct) (simp_all add: Let_def)

lemma base64_encode_step:
  "base64_encode (a # b # c # buf) = map b64_char (to_array_4 [a, b, c]) @ base64_encode buf"
  using encode_loop_ret [of "[]" buf "map b64_char (to_array_4 [a, b, c])" "[]"]
  by (simp add: base64_encode_def split_beta Let_def)

lemma base64_decode_step:
  "base64_decode (map b64_char (to_array_4 c) @ s) = to_array_3 (to_array_4 c) @ base64_decode s"
proof -
  obtain w x y z where e: "to_array_4 c = [w, x, y, z]" "unat w < 64" "unat x < 64" "unat y < 64" "unat z < 64"
    by (rule to_array_4_cases)
  have "decode_loop [] (map b64_char (to_array_4 c) @ s) [] = decode_loop [] s (to_array_3 (to_array_4 c))"
    using e by (simp add: b64_char_ok)
  then show ?thesis
    using decode_loop_ret [of "[]" s "to_array_3 (to_array_4 c)" "[]"]
    by (simp add: base64_decode_def split_beta Let_def)
qed

text \<open>What the last, incomplete group decodes to.\<close>

lemma array_3_prefix:
  "take 1 (to_array_3 [w, x, y', z']) = take 1 (to_array_3 [w, x, y, z])"
  "take 2 (to_array_3 [w, x, y, z']) = take 2 (to_array_3 [w, x, y, z])"
  by (simp_all add: to_array_3_def numeral_2_eq_2)

lemma decode_one: "base64_decode (map b64_char (take 2 (to_array_4 [a, 0, 0])) @ ''=='') = [a]"
proof -
  obtain w x y z where e: "to_array_4 [a, 0, 0] = [w, x, y, z]" "unat w < 64" "unat x < 64" "unat y < 64" "unat z < 64"
    by (rule to_array_4_cases)
  have "take 1 (to_array_3 [w, x, y, z]) = [a]" using e(1) array_3_4 [of a 0 0] by simp
  then have "take 1 (to_array_3 [w, x, b64_find CHR 0x00, b64_find CHR 0x00]) = [a]" using array_3_prefix(1) by metis
  then show ?thesis using e by (simp add: b64_char_ok base64_decode_def numeral_2_eq_2)
qed

lemma decode_two: "base64_decode (map b64_char (take 3 (to_array_4 [a, b, 0])) @ ''='') = [a, b]"
proof -
  obtain w x y z where e: "to_array_4 [a, b, 0] = [w, x, y, z]" "unat w < 64" "unat x < 64" "unat y < 64" "unat z < 64"
    by (rule to_array_4_cases)
  have "take 2 (to_array_3 [w, x, y, z]) = [a, b]" using e(1) array_3_4 [of a b 0] by simp
  then have "take 2 (to_array_3 [w, x, y, b64_find CHR 0x00]) = [a, b]" using array_3_prefix(2) by metis
  then show ?thesis using e by (simp add: b64_char_ok base64_decode_def numeral_2_eq_2)
qed

lemma base64_encode_short:
  "base64_encode [] = []" "base64_encode [a] = map b64_char (take 2 (to_array_4 [a, 0, 0])) @ ''==''"
  "base64_encode [a, b] = map b64_char (take 3 (to_array_4 [a, b, 0])) @ ''=''"
  by (simp_all add: base64_encode_def numeral_2_eq_2 numeral_3_eq_3)

fun groups_of_three :: "bytes \<Rightarrow> nat" where
  "groups_of_three (a # b # c # buf) = Suc (groups_of_three buf)"
| "groups_of_three _ = 0"

lemma base64_decode_encode: "base64_decode (base64_encode buf) = buf"
proof (induction buf rule: groups_of_three.induct)
  case (1 a b c buf)
  then show ?case by (simp add: base64_encode_step base64_decode_step array_3_4)
qed (simp_all add: base64_encode_short decode_one decode_two, simp add: base64_decode_def)

text \<open>
  C28.  Decoding undoes encoding, for every byte string and every length modulo three, and the encoding has
  four characters for every group of three bytes begun.
\<close>

theorem base64_roundtrip:
  "base64_decode (base64_encode buf) = buf \<and> length (base64_encode buf) = 4 * ((length buf + 2) div 3)"
proof (rule conjI [OF base64_decode_encode])
  show "length (base64_encode buf) = 4 * ((length buf + 2) div 3)"
  proof (induction buf rule: groups_of_three.induct)
    case (1 a b c buf)
    have "(length (a # b # c # buf) + 2) div 3 = Suc ((length buf + 2) div 3)"
      using div_add_self2 [of 3 "length buf + 2"] by simp
    with 1 show ?case by (simp add: base64_encode_step to_array_4_def)
  qed (simp_all add: base64_encode_short to_array_4_def)
qed

end
