(* ===== verification/Prg.thy ===== *)
theory Prg
  imports Cipher
begin

text \<open>
  \<^verbatim>\<open>emp-tool/utils/prg.h\<close>: the pseudo-random generator, AES in counter mode.  The lemmas show that
  the batched loop of \<^verbatim>\<open>random_block\<close> is the counter-mode key stream, so that two generators with the
  same seed that have produced the same number of blocks stay in step.  The operator that yields
  single 64-bit words is modelled with its buffer; seeding from the operating system is not.
\<close>

record PRG =
  prg_counter :: "64 word"
  prg_aes :: AES_KEY
  prg_key :: block

definition reseed :: "block \<Rightarrow> 64 word \<Rightarrow> PRG" where
  "reseed seed i =
     (let v = seed XOR makeBlock 0 i
      in \<lparr>prg_counter = 0, prg_aes = AES_set_encrypt_key v, prg_key = v\<rparr>)"

text \<open>\<^verbatim>\<open>tmp[j] = makeBlock(0LL, counter++)\<close> for \<open>n\<close> entries, then encryption.\<close>

definition prg_batch :: "nat \<Rightarrow> PRG \<Rightarrow> block list \<times> PRG" where
  "prg_batch n st =
     (let (tmp, c) = fold (\<lambda>j (tmp, c). (tmp @ [makeBlock 0 c], c + 1)) [0..<n] ([], prg_counter st)
      in (AES_ecb_encrypt_blks (prg_aes st) tmp, st\<lparr>prg_counter := c\<rparr>))"

definition random_block :: "nat \<Rightarrow> PRG \<Rightarrow> block list \<times> PRG" where
  "random_block nblocks st =
     (let (data, st) = fold (\<lambda>i (data, st). let (t, st) = prg_batch AES_BATCH_SIZE st in (data @ t, st))
                         [0..<nblocks div AES_BATCH_SIZE] ([], st);
          (t, st) = prg_batch (nblocks mod AES_BATCH_SIZE) st
      in (data @ t, st))"

definition random_data :: "nat \<Rightarrow> PRG \<Rightarrow> 8 word list \<times> PRG" where
  "random_data nbytes st =
     (let (data, st) = random_block (nbytes div 16) st
      in if nbytes mod 16 \<noteq> 0 then
           let (extra, st) = random_block 1 st
           in (concat (map bytes_of_block data) @ take (nbytes mod 16) (bytes_of_block (hd extra)), st)
         else (concat (map bytes_of_block data), st))"

text \<open>\<open>skip\<close> is the number of bytes from the start of the array to the next multiple of 16, the part that
  \<^verbatim>\<open>std::align\<close> skips; alignment fails when fewer than 16 bytes are left behind it.\<close>

definition random_data_unaligned :: "nat \<Rightarrow> nat \<Rightarrow> PRG \<Rightarrow> 8 word list \<times> PRG" where
  "random_data_unaligned skip nbytes st =
     (if skip + 16 \<le> nbytes then
        let (d, st) = random_data (nbytes - skip) st;
            (tmp, st) = random_block 1 st
        in (take skip (bytes_of_block (hd tmp)) @ d, st)
      else
        let (tmp, st) = random_block 2 st
        in (take nbytes (concat (map bytes_of_block tmp)), st))"

definition random_bool :: "nat \<Rightarrow> nat \<Rightarrow> PRG \<Rightarrow> bool list \<times> PRG" where
  "random_bool skip len st =
     (let (d, st) = random_data_unaligned skip len st in (map (\<lambda>b. b AND 1 \<noteq> 0) d, st))"

text \<open>The word interface: 32 words are buffered.\<close>

record PRG_words =
  pw_prg :: PRG
  pw_buffer :: "64 word list"
  pw_ptr :: nat

definition block_words :: "block \<Rightarrow> 64 word list" where
  "block_words b = [ucast b, ucast (drop_bit 64 b)]"

definition prg_next :: "PRG_words \<Rightarrow> 64 word \<times> PRG_words" where
  "prg_next st =
     (let st = (if pw_ptr st = 32 then
                  let (bs, g) = random_block 16 (pw_prg st)
                  in st\<lparr>pw_prg := g, pw_buffer := concat (map block_words bs), pw_ptr := 0\<rparr>
                else st)
      in (pw_buffer st ! pw_ptr st, st\<lparr>pw_ptr := pw_ptr st + 1\<rparr>))"

subsection \<open>The key stream\<close>

definition key_stream :: "PRG \<Rightarrow> nat \<Rightarrow> block" where
  "key_stream st i = aes_encrypt (prg_aes st) (makeBlock 0 (prg_counter st + of_nat i))"

definition advance :: "nat \<Rightarrow> PRG \<Rightarrow> PRG" where
  "advance n st = st\<lparr>prg_counter := prg_counter st + of_nat n\<rparr>"

lemma advance_simps [simp]: "advance 0 st = st" "advance m (advance n st) = advance (n + m) st"
  by (simp_all add: advance_def add.assoc)

lemma key_stream_advance: "key_stream (advance n st) i = key_stream st (n + i)"
  by (simp add: key_stream_def advance_def add.assoc)

lemma stream_append:
  "map (key_stream st) [0..<m] @ map (key_stream (advance m st)) [0..<n] = map (key_stream st) [0..<m + n]"
  by (rule nth_equalityI) (auto simp: nth_append key_stream_advance)

lemma prg_batch_eq: "prg_batch n st = (map (key_stream st) [0..<n], advance n st)"
proof -
  have "fold (\<lambda>j (tmp, c). (tmp @ [makeBlock 0 c], c + 1)) [0..<n] ([], prg_counter st)
      = (map (\<lambda>i. makeBlock 0 (prg_counter st + of_nat i)) [0..<n], prg_counter st + of_nat n)"
    by (induction n) (simp_all add: add.assoc add.commute)
  then show ?thesis
    by (simp add: prg_batch_def AES_ecb_encrypt_blks_map key_stream_def advance_def comp_def)
qed

lemma random_block_eq: "random_block n st = (map (key_stream st) [0..<n], advance n st)"
proof -
  have loop: "fold (\<lambda>i (data, st). let (t, st) = prg_batch AES_BATCH_SIZE st in (data @ t, st)) [0..<m] ([], st)
      = (map (key_stream st) [0..<m * AES_BATCH_SIZE], advance (m * AES_BATCH_SIZE) st)" for m
    by (induction m) (simp_all add: prg_batch_eq Let_def stream_append add.commute)
  have "n div AES_BATCH_SIZE * AES_BATCH_SIZE + n mod AES_BATCH_SIZE = n" by simp
  then show ?thesis
    unfolding random_block_def loop Let_def [of "(_, _)"] prod.case prg_batch_eq [of "n mod AES_BATCH_SIZE"]
    by (simp add: stream_append)
qed

lemma length_random_data: "length (fst (random_data n st)) = n"
proof -
  have "length (concat (map bytes_of_block bs)) = 16 * length bs" for bs
    by (induction bs) simp_all
  note len = this [of "map (key_stream st) [0..<n div 16]"]
  show ?thesis
    using len by (auto simp: random_data_def random_block_eq Let_def)
qed

text \<open>
  C24.  The batched loop of \<^verbatim>\<open>random_block\<close> yields AES in counter mode: block \<open>i\<close> is the encryption of the
  counter value \<open>i\<close> places on, whatever the split into batches, and a request of \<open>m\<close> blocks followed by one of \<open>n\<close>
  yields what a single request of \<open>m + n\<close> blocks does.
\<close>

theorem random_block_counter_mode:
  "fst (random_block n st) = map (\<lambda>i. aes_encrypt (prg_aes st) (makeBlock 0 (prg_counter st + of_nat i))) [0..<n]
    \<and> fst (random_block m st) @ fst (random_block n (snd (random_block m st))) = fst (random_block (m + n) st)
    \<and> snd (random_block n (snd (random_block m st))) = snd (random_block (m + n) st)"
  unfolding random_block_eq by (simp add: stream_append) (simp add: key_stream_def)

end
