(* ===== verification/Transpose.thy ===== *)
theory Transpose
  imports AesOpt
begin

text \<open>
  The bit-matrix transposition \<^verbatim>\<open>sse_trans\<close> of \<^verbatim>\<open>emp-tool/utils/block.h\<close>.  Matrices are byte arrays, bit
  \<open>y mod 8\<close> of byte \<open>x * ncols div 8 + y div 8\<close> being the entry in row \<open>x\<close> and column \<open>y\<close>.  The 16x8 main
  body gathers one byte of sixteen rows in a vector and reads off a column at a time with
  \<^verbatim>\<open>_mm_movemask_epi8\<close>.  Of the two variants for eight remaining rows the code takes the first whenever such
  rows remain (the number of rows is then no multiple of 16); the other one is dead code.
\<close>

definition INP :: "8 word arr \<Rightarrow> nat \<Rightarrow> nat \<Rightarrow> nat \<Rightarrow> 8 word" where
  "INP inp ncols x y = inp (x * ncols div 8 + y div 8)"

definition OUT_at :: "nat \<Rightarrow> nat \<Rightarrow> nat \<Rightarrow> nat" where
  "OUT_at nrows x y = y * nrows div 8 + x div 8"

definition mm_movemask_epi8 :: "block \<Rightarrow> 16 word" where
  "mm_movemask_epi8 v = horner_sum of_bool 2 (map (\<lambda>k. bit v (8 * k + 7)) [0..<16])"

text \<open>A 16-bit store, little endian.\<close>

definition store16 :: "nat \<Rightarrow> 16 word \<Rightarrow> 8 word arr \<Rightarrow> 8 word arr" where
  "store16 a v out = out(a := ucast v, Suc a := ucast (drop_bit 8 v))"

text \<open>\<^verbatim>\<open>for (i = 8; --i >= 0; vec = _mm_slli_epi64(vec, 1))\<close>.\<close>

definition shift_loop :: "(nat \<Rightarrow> 16 word \<Rightarrow> 8 word arr \<Rightarrow> 8 word arr) \<Rightarrow> block \<Rightarrow> 8 word arr \<Rightarrow> 8 word arr" where
  "shift_loop put vec out =
     snd (fold (\<lambda>i (vec, out). (mm_slli_epi64 vec 1, put i (mm_movemask_epi8 vec) out)) (rev [0..<8]) (vec, out))"

definition trans_16x8 :: "8 word arr \<Rightarrow> nat \<Rightarrow> nat \<Rightarrow> nat \<Rightarrow> nat \<Rightarrow> 8 word arr \<Rightarrow> 8 word arr" where
  "trans_16x8 inp nrows ncols rr cc =
     shift_loop (\<lambda>i h. store16 (OUT_at nrows rr (cc + i)) h)
       (block_of_bytes (map (\<lambda>k. INP inp ncols (rr + k) cc) [0..<16]))"

definition trans_8x16 :: "8 word arr \<Rightarrow> nat \<Rightarrow> nat \<Rightarrow> nat \<Rightarrow> nat \<Rightarrow> 8 word arr \<Rightarrow> 8 word arr" where
  "trans_8x16 inp nrows ncols rr cc =
     shift_loop (\<lambda>i h out. out(OUT_at nrows rr (cc + i) := ucast h, OUT_at nrows rr (cc + i + 8) := ucast (drop_bit 8 h)))
       (block_of_bytes (map (\<lambda>k. inp ((rr + k) * ncols div 8 + cc div 8)) [0..<8]
          @ map (\<lambda>k. inp ((rr + k) * ncols div 8 + cc div 8 + 1)) [0..<8]))"

text \<open>The upper half of \<^verbatim>\<open>tmp\<close> holds what earlier iterations left there.\<close>

definition trans_8x8 :: "8 word arr \<Rightarrow> nat \<Rightarrow> nat \<Rightarrow> nat \<Rightarrow> nat \<Rightarrow> 8 word list \<Rightarrow> 8 word arr \<Rightarrow> 8 word arr" where
  "trans_8x8 inp nrows ncols rr cc junk =
     shift_loop (\<lambda>i h out. out(OUT_at nrows rr (cc + i) := ucast h))
       (block_of_bytes (map (\<lambda>k. INP inp ncols (rr + k) cc) [0..<8] @ take 8 junk))"

definition sse_trans :: "8 word list \<Rightarrow> 8 word arr \<Rightarrow> 8 word arr \<Rightarrow> nat \<Rightarrow> nat \<Rightarrow> 8 word arr" where
  "sse_trans junk out inp nrows ncols =
     (let out = fold (\<lambda>r. fold (\<lambda>c. trans_16x8 inp nrows ncols (16 * r) (8 * c)) [0..<ncols div 8]) [0..<nrows div 16] out;
          rr = 16 * (nrows div 16)
      in if rr = nrows then out
         else let out = fold (\<lambda>c. trans_8x16 inp nrows ncols rr (16 * c)) [0..<ncols div 16] out;
                  cc = 16 * (ncols div 16)
              in if cc = ncols then out else trans_8x8 inp nrows ncols rr cc junk out)"

subsection \<open>Reading a column\<close>

lemma bit_slli_epi64:
  "bit (mm_slli_epi64 v n) m = (m < 128 \<and> n \<le> m mod 64 \<and> bit v (m - n))"
proof (cases "m < 64")
  case True
  then show ?thesis by (auto simp: mm_slli_epi64_def bit_makeBlock bit_push_bit_iff bit_ucast_iff)
next
  case False
  then have m: "m < 128 \<Longrightarrow> m mod 64 = m - 64" by (metis le_mod_geq mod_if less_diff_conv2 linorder_not_less numeral_Bit0 nat_add_left_cancel_less mult_2)
  show ?thesis
    using False m
    by (auto simp: mm_slli_epi64_def bit_makeBlock bit_push_bit_iff bit_ucast_iff bit_drop_bit_eq bit_imp_le_length
        dest: bit_imp_le_length)
qed

lemma slli_slli: "mm_slli_epi64 (mm_slli_epi64 v a) b = mm_slli_epi64 v (a + b)"
proof (rule bit_word_eqI)
  fix m assume m: "m < LENGTH(128)"
  have "(m - b) mod 64 = m mod 64 - b" if "b \<le> m mod 64"
  proof -
    have "m - b = 64 * (m div 64) + (m mod 64 - b)" using that mult_div_mod_eq [of 64 m] by linarith
    then show ?thesis by (simp add: less_imp_diff_less)
  qed
  then show "bit (mm_slli_epi64 (mm_slli_epi64 v a) b) m = bit (mm_slli_epi64 v (a + b)) m"
    using m by (auto simp: bit_slli_epi64 add.commute)
qed

lemma bit_movemask: "bit (mm_movemask_epi8 v) k = (k < 16 \<and> bit v (8 * k + 7))"
  by (auto simp: mm_movemask_epi8_def bit_horner_sum_bit_word_iff)

text \<open>Bit \<open>k\<close> of the mask taken after \<open>7 - i\<close> shifts is bit \<open>i\<close> of byte \<open>k\<close>.\<close>

lemma bit_movemask_shifted:
  assumes "length bs = 16" and "i < 8"
  shows "bit (mm_movemask_epi8 (mm_slli_epi64 (block_of_bytes bs) (7 - i))) k = (k < 16 \<and> bit (bs ! k) i)"
proof -
  have "(8 * k + 7) mod 64 mod 8 = 7" by (simp add: mod_mod_cancel)
  then have "7 \<le> (8 * k + 7) mod 64" by (metis mod_less_eq_dividend)
  then have "7 - i \<le> (8 * k + 7) mod 64" by simp
  moreover have "8 * k + 7 - (7 - i) = 8 * k + i" using assms(2) by simp
  moreover have "(8 * k + i) div 8 = k" "(8 * k + i) mod 8 = i" using assms(2) by simp_all
  ultimately show ?thesis
    using assms by (auto simp: bit_movemask bit_slli_epi64 bit_block_of_bytes)
qed

lemma shift_loop_eq:
  "shift_loop put vec out = fold (\<lambda>i. put i (mm_movemask_epi8 (mm_slli_epi64 vec (7 - i)))) (rev [0..<8]) out"
proof -
  have "mm_slli_epi64 vec 0 = vec"
    by (rule bit_word_eqI) (simp add: bit_slli_epi64)
  moreover have "rev [0..<8] = [7, 6, 5, 4, 3, 2, 1, 0 :: nat]" by (simp add: upt_rec)
  ultimately show ?thesis
    by (simp add: shift_loop_def slli_slli numeral_eq_Suc)
qed

subsection \<open>Every store is the store of a transposed byte\<close>

definition trans_byte :: "8 word arr \<Rightarrow> nat \<Rightarrow> nat \<Rightarrow> nat \<Rightarrow> 8 word" where
  "trans_byte inp nrows ncols a =
     (let R = nrows div 8; y = a div R
      in horner_sum of_bool 2 (map (\<lambda>k. bit (INP inp ncols (8 * (a mod R) + k) y) (y mod 8)) [0..<8]))"

definition override :: "nat set \<Rightarrow> (nat \<Rightarrow> 'a) \<Rightarrow> (nat \<Rightarrow> 'a) \<Rightarrow> nat \<Rightarrow> 'a" where
  "override W T out = (\<lambda>a. if a \<in> W then T a else out a)"

lemma override_override: "override W T (override V T out) = override (V \<union> W) T out"
  by (auto simp: override_def)

lemma fold_override:
  assumes "\<And>x out. x \<in> set xs \<Longrightarrow> f x out = override (W x) T out"
  shows "fold f xs out = override (\<Union>x\<in>set xs. W x) T out"
  using assms
proof (induction xs arbitrary: out)
  case (Cons x xs)
  have "fold f (x # xs) out = fold f xs (override (W x) T out)" using Cons.prems by simp
  also have "\<dots> = override (\<Union>x\<in>set xs. W x) T (override (W x) T out)" using Cons by simp
  finally show ?case by (simp add: override_override)
qed (simp add: override_def)

lemma OUT_at_eq: "8 dvd nrows \<Longrightarrow> OUT_at nrows x y = y * (nrows div 8) + x div 8"
  by (simp add: OUT_at_def div_mult_swap)

text \<open>The byte in column \<open>y\<close> that covers the rows \<open>8 * X, \<dots>, 8 * X + 7\<close>.\<close>

lemma bit_trans_byte:
  assumes "X < nrows div 8" and "k < 8"
  shows "bit (trans_byte inp nrows ncols (y * (nrows div 8) + X)) k = bit (INP inp ncols (8 * X + k) y) (y mod 8)"
  using assms by (auto simp: trans_byte_def Let_def bit_horner_sum_bit_word_iff)

lemma INP_block: "INP inp ncols x (8 * c + i) = INP inp ncols x (8 * c)" if "i < 8"
  using that by (simp add: INP_def)

lemma mask_byte:
  assumes "length bs = 16" and "i < 8" and "X < nrows div 8" and "d < 2"
    and "\<And>k. k < 8 \<Longrightarrow> bit (bs ! (8 * d + k)) i = bit (INP inp ncols (8 * X + k) y) (y mod 8)"
  shows "ucast (drop_bit (8 * d) (mm_movemask_epi8 (mm_slli_epi64 (block_of_bytes bs) (7 - i))))
      = trans_byte inp nrows ncols (y * (nrows div 8) + X)"
proof (rule bit_word_eqI)
  fix k assume "k < LENGTH(8)"
  then have k: "k < 8" by simp
  have "8 * d + k < 16" using k assms(4) by simp
  then show "bit (ucast (drop_bit (8 * d) (mm_movemask_epi8 (mm_slli_epi64 (block_of_bytes bs) (7 - i)))) :: 8 word) k
      = bit (trans_byte inp nrows ncols (y * (nrows div 8) + X)) k"
    using k assms(5) [OF k]
    by (simp add: bit_ucast_iff bit_drop_bit_eq bit_movemask_shifted [OF assms(1,2)] bit_trans_byte [OF assms(3)])
qed

lemma trans_16x8_override:
  assumes "8 dvd nrows" and "r < nrows div 16"
  defines "R \<equiv> nrows div 8"
  shows "trans_16x8 inp nrows ncols (16 * r) (8 * c) out
      = override (\<Union>i<8. {(8 * c + i) * R + 2 * r, (8 * c + i) * R + 2 * r + 1}) (trans_byte inp nrows ncols) out"
proof -
  let ?bs = "map (\<lambda>k. INP inp ncols (16 * r + k) (8 * c)) [0..<16]"
  have R: "2 * r + 1 < R" using assms(2) unfolding R_def by linarith
  have byte: "ucast (drop_bit (8 * d) (mm_movemask_epi8 (mm_slli_epi64 (block_of_bytes ?bs) (7 - i))))
      = trans_byte inp nrows ncols ((8 * c + i) * R + (2 * r + d))" if "i < 8" "d < 2" for i d
    unfolding R_def
  proof (rule mask_byte)
    show "2 * r + d < nrows div 8" using that R unfolding R_def by linarith
    have eq: "16 * r + (8 * d + k) = 8 * (2 * r + d) + k" for k by simp
    show "bit (?bs ! (8 * d + k)) i = bit (INP inp ncols (8 * (2 * r + d) + k) (8 * c + i)) ((8 * c + i) mod 8)" if "k < 8" for k
      using that \<open>d < 2\<close> \<open>i < 8\<close> by (simp add: INP_block eq)
  qed (use that in auto)
  have "fold (\<lambda>i. store16 (OUT_at nrows (16 * r) (8 * c + i)) (mm_movemask_epi8 (mm_slli_epi64 (block_of_bytes ?bs) (7 - i))))
      (rev [0..<8]) out
    = override (\<Union>i\<in>set (rev [0..<8]). {(8 * c + i) * R + 2 * r, (8 * c + i) * R + 2 * r + 1}) (trans_byte inp nrows ncols) out"
    by (rule fold_override)
      (use byte [where d = 0] byte [where d = 1] in
        \<open>auto simp: store16_def override_def OUT_at_eq [OF assms(1)] R_def fun_eq_iff\<close>)
  then show ?thesis by (simp add: trans_16x8_def shift_loop_eq lessThan_atLeast0)
qed

lemma trans_8x16_override:
  assumes "8 dvd nrows" and "8 dvd ncols" and "nrows = 8 * X + 8"
  defines "R \<equiv> nrows div 8"
  shows "trans_8x16 inp nrows ncols (8 * X) (16 * c) out
      = override (\<Union>i<8. {(16 * c + i) * R + X, (16 * c + i + 8) * R + X}) (trans_byte inp nrows ncols) out"
proof -
  let ?bs = "map (\<lambda>k. inp ((8 * X + k) * ncols div 8 + 16 * c div 8)) [0..<8]
          @ map (\<lambda>k. inp ((8 * X + k) * ncols div 8 + 16 * c div 8 + 1)) [0..<8]"
  have R: "X < nrows div 8" using assms(3) by simp
  have byte: "ucast (drop_bit (8 * d) (mm_movemask_epi8 (mm_slli_epi64 (block_of_bytes ?bs) (7 - i))))
      = trans_byte inp nrows ncols ((16 * c + i + 8 * d) * R + X)" if "i < 8" "d < 2" for i d
    unfolding R_def
  proof (rule mask_byte [OF _ that(1) R that(2)])
    have eq: "16 * c + i + 8 * d = 8 * (2 * c + d) + i" by simp
    have md: "(8 * (2 * c + d) + i) mod 8 = i" using \<open>i < 8\<close> by (simp only: mod_mult_self4 mod_less)
    show "bit (?bs ! (8 * d + k)) i = bit (INP inp ncols (8 * X + k) (16 * c + i + 8 * d)) ((16 * c + i + 8 * d) mod 8)" if "k < 8" for k
      unfolding eq md INP_block [OF \<open>i < 8\<close>] using that \<open>d < 2\<close> \<open>i < 8\<close>
      by (cases d) (auto simp: INP_def nth_append)
  qed simp
  have "fold (\<lambda>i out. out(OUT_at nrows (8 * X) (16 * c + i) := ucast (mm_movemask_epi8 (mm_slli_epi64 (block_of_bytes ?bs) (7 - i))),
        OUT_at nrows (8 * X) (16 * c + i + 8) := ucast (drop_bit 8 (mm_movemask_epi8 (mm_slli_epi64 (block_of_bytes ?bs) (7 - i))))))
      (rev [0..<8]) out
    = override (\<Union>i\<in>set (rev [0..<8]). {(16 * c + i) * R + X, (16 * c + i + 8) * R + X}) (trans_byte inp nrows ncols) out"
    by (rule fold_override)
      (use byte [where d = 0] byte [where d = 1] in
        \<open>auto simp: override_def OUT_at_eq [OF assms(1)] R_def fun_eq_iff\<close>)
  then show ?thesis by (simp add: trans_8x16_def shift_loop_eq lessThan_atLeast0)
qed

lemma trans_8x8_override:
  assumes "8 dvd nrows" and "nrows = 8 * X + 8" and "8 \<le> length junk"
  defines "R \<equiv> nrows div 8"
  shows "trans_8x8 inp nrows ncols (8 * X) (8 * c) junk out
      = override (\<Union>i<8. {(8 * c + i) * R + X}) (trans_byte inp nrows ncols) out"
proof -
  let ?bs = "map (\<lambda>k. INP inp ncols (8 * X + k) (8 * c)) [0..<8] @ take 8 junk"
  have byte: "ucast (mm_movemask_epi8 (mm_slli_epi64 (block_of_bytes ?bs) (7 - i)))
      = trans_byte inp nrows ncols ((8 * c + i) * R + X)" if "i < 8" for i
    using mask_byte [of ?bs i X nrows 0 inp ncols "8 * c + i"] that assms(2,3)
    by (simp add: R_def nth_append INP_block)
  have "fold (\<lambda>i out. out(OUT_at nrows (8 * X) (8 * c + i) := ucast (mm_movemask_epi8 (mm_slli_epi64 (block_of_bytes ?bs) (7 - i)))))
      (rev [0..<8]) out
    = override (\<Union>i\<in>set (rev [0..<8]). {(8 * c + i) * R + X}) (trans_byte inp nrows ncols) out"
    by (rule fold_override) (use byte in \<open>auto simp: override_def OUT_at_eq [OF assms(1)] R_def fun_eq_iff\<close>)
  then show ?thesis by (simp add: trans_8x8_def shift_loop_eq lessThan_atLeast0)
qed

subsection \<open>sse_trans transposes\<close>

lemma sse_trans_main:
  assumes "8 dvd nrows" and "8 dvd ncols"
  defines "R \<equiv> nrows div 8"
  shows "fold (\<lambda>r. fold (\<lambda>c. trans_16x8 inp nrows ncols (16 * r) (8 * c)) [0..<ncols div 8]) [0..<nrows div 16] out
      = override {y * R + X | y X. y < ncols \<and> X < 2 * (nrows div 16)} (trans_byte inp nrows ncols) out"
proof -
  define W where "W r c = (\<Union>i<8. {(8 * c + i) * R + 2 * r, (8 * c + i) * R + 2 * r + 1})" for r c
  have "fold (\<lambda>r. fold (\<lambda>c. trans_16x8 inp nrows ncols (16 * r) (8 * c)) [0..<ncols div 8]) [0..<nrows div 16] out
      = override (\<Union>r\<in>set [0..<nrows div 16]. \<Union>c\<in>set [0..<ncols div 8]. W r c) (trans_byte inp nrows ncols) out"
    by (rule fold_override, rule fold_override) (simp add: trans_16x8_override [OF assms(1)] W_def R_def)
  also have "(\<Union>r\<in>set [0..<nrows div 16]. \<Union>c\<in>set [0..<ncols div 8]. W r c)
      = {y * R + X | y X. y < ncols \<and> X < 2 * (nrows div 16)}" (is "?A = ?B")
  proof
    show "?A \<subseteq> ?B"
    proof
      fix a assume "a \<in> ?A"
      then obtain r c i where rc: "r < nrows div 16" "c < ncols div 8" "i < 8"
        and a: "a = (8 * c + i) * R + 2 * r \<or> a = (8 * c + i) * R + (2 * r + 1)"
        by (auto simp: W_def)
      then have "8 * c + i < ncols" "2 * r + 1 < 2 * (nrows div 16)" "2 * r < 2 * (nrows div 16)" by linarith+
      with a show "a \<in> ?B" by blast
    qed
    show "?B \<subseteq> ?A"
    proof clarify
      fix y X assume yX: "y < ncols" "X < 2 * (nrows div 16)"
      have "y div 8 < ncols div 8" using yX(1) assms(2) by (metis div_less_mono zero_less_numeral dvd_def nonzero_mult_div_cancel_left less_mult_imp_div_less mult.commute zero_neq_numeral)
      moreover have "X div 2 < nrows div 16" using yX(2) by linarith
      moreover have "y * R + X \<in> W (X div 2) (y div 8)"
      proof -
        have "y = 8 * (y div 8) + y mod 8" "X = 2 * (X div 2) \<or> X = 2 * (X div 2) + 1" by (simp, linarith)
        then show ?thesis unfolding W_def by (intro UN_I [of "y mod 8"]) auto
      qed
      ultimately show "y * R + X \<in> ?A" by (intro UN_I [of "X div 2"] UN_I [of "y div 8"]) simp_all
    qed
  qed
  finally show ?thesis .
qed

lemma column_bytes: "{y * R + X | y X. y < n \<and> X < R} = {..<n * R}" for n R :: nat
proof
  show "{y * R + X | y X. y < n \<and> X < R} \<subseteq> {..<n * R}"
  proof
    fix a assume "a \<in> {y * R + X | y X. y < n \<and> X < R}"
    then obtain y X where a: "a = y * R + X" and "y < n" "X < R" by blast
    then have "a < Suc y * R" by simp
    also have "Suc y * R \<le> n * R" using \<open>y < n\<close> by (intro mult_le_mono1) simp
    finally show "a \<in> {..<n * R}" by simp
  qed
  show "{..<n * R} \<subseteq> {y * R + X | y X. y < n \<and> X < R}"
  proof
    fix a assume a: "a \<in> {..<n * R}"
    then have R: "0 < R" by (cases R) auto
    have "a div R < n" using a by (simp add: less_mult_imp_div_less)
    moreover have "a = a div R * R + a mod R" by simp
    ultimately show "a \<in> {y * R + X | y X. y < n \<and> X < R}" using R mod_less_divisor by blast
  qed
qed

lemma sse_trans_override:
  assumes "8 dvd nrows" and "8 dvd ncols" and "8 \<le> length junk"
  shows "sse_trans junk out inp nrows ncols
      = override {..<ncols * (nrows div 8)} (trans_byte inp nrows ncols) out"
proof (cases "16 dvd nrows")
  case True
  then have "16 * (nrows div 16) = nrows" "nrows div 8 = 2 * (nrows div 16)" by auto
  then show ?thesis
    using sse_trans_main [OF assms(1,2), of inp out] column_bytes [where n = ncols and R = "nrows div 8"]
    by (simp add: sse_trans_def Let_def)
next
  case False
  define X where "X = 2 * (nrows div 16)"
  have nrows: "nrows = 8 * X + 8" using False assms(1) unfolding X_def by presburger
  have rr: "16 * (nrows div 16) = 8 * X" and R: "nrows div 8 = X + 1" using nrows by (simp_all add: X_def)
  let ?R = "nrows div 8" and ?T = "trans_byte inp nrows ncols"
  let ?A = "{y * ?R + x | y x. y < ncols \<and> x < X}" and ?B = "\<lambda>n. {y * ?R + X | y. y < n}"
  have body: "fold (\<lambda>c. trans_8x16 inp nrows ncols (8 * X) (16 * c)) [0..<m] out = override (?B (16 * m)) ?T out" for m out
  proof -
    have "fold (\<lambda>c. trans_8x16 inp nrows ncols (8 * X) (16 * c)) [0..<m] out
        = override (\<Union>c\<in>set [0..<m]. \<Union>i<8. {(16 * c + i) * ?R + X, (16 * c + i + 8) * ?R + X}) ?T out"
      by (rule fold_override) (rule trans_8x16_override [OF assms(1,2) nrows])
    also have "(\<Union>c\<in>set [0..<m]. \<Union>i<8. {(16 * c + i) * ?R + X, (16 * c + i + 8) * ?R + X}) = ?B (16 * m)" (is "?L = _")
    proof
      show "?L \<subseteq> ?B (16 * m)" by auto
      show "?B (16 * m) \<subseteq> ?L"
      proof clarify
        fix y assume y: "y < 16 * m"
        have "y = 16 * (y div 16) + y mod 16" by simp
        then have "y = 16 * (y div 16) + y mod 8 \<or> y = 16 * (y div 16) + y mod 8 + 8" by presburger
        moreover have "y div 16 < m" using y by linarith
        ultimately have "y * ?R + X \<in> (\<Union>i<8. {(16 * (y div 16) + i) * ?R + X, (16 * (y div 16) + i + 8) * ?R + X})"
          by (intro UN_I [of "y mod 8"]) auto
        then show "y * ?R + X \<in> ?L"
          by (rule UN_I [of "y div 16", rotated]) (use \<open>y div 16 < m\<close> in simp)
      qed
    qed
    finally show ?thesis .
  qed
  have main: "fold (\<lambda>r. fold (\<lambda>c. trans_16x8 inp nrows ncols (16 * r) (8 * c)) [0..<ncols div 8]) [0..<nrows div 16] out
      = override ?A ?T out"
    using sse_trans_main [OF assms(1,2), of inp out] by (simp add: X_def)
  have "(x < ?R) = (x < X \<or> x = X)" for x unfolding R by (simp add: less_Suc_eq)
  then have "?A \<union> ?B ncols = {y * ?R + x | y x. y < ncols \<and> x < ?R}" by blast
  then have all: "?A \<union> ?B ncols = {..<ncols * ?R}" by (simp only: column_bytes)
  have neq: "8 * X \<noteq> nrows" using nrows by simp
  show ?thesis
  proof (cases "16 * (ncols div 16) = ncols")
    case True
    then show ?thesis
      unfolding sse_trans_def Let_def rr main body using neq all by (simp add: override_override)
  next
    case F2: False
    then have nc: "16 * (ncols div 16) = 8 * (2 * (ncols div 16))" "ncols = 16 * (ncols div 16) + 8" using assms(2) by presburger+
    define q where "q = ncols div 16"
    have lt: "y < ncols \<longleftrightarrow> y < 16 * q \<or> (\<exists>i<8. y = 16 * q + i)" for y
    proof -
      have n: "ncols = 16 * q + 8" using nc(2) unfolding q_def .
      show ?thesis
      proof (cases "y < 16 * q")
        case False
        then obtain i where "y = 16 * q + i" by (metis le_Suc_ex not_less)
        then show ?thesis unfolding n by simp
      next
        case True
        then show ?thesis unfolding n by simp
      qed
    qed
    have "?B (16 * q) \<union> (\<Union>i<8. {(16 * q + i) * ?R + X}) = ?B ncols"
      by (simp only: lt) blast
    then have "?B (16 * (ncols div 16)) \<union> (\<Union>i<8. {(8 * (2 * (ncols div 16)) + i) * ?R + X}) = ?B ncols"
      unfolding q_def nc(1) .
    then have last: "trans_8x8 inp nrows ncols (8 * X) (16 * (ncols div 16)) junk (override (?B (16 * (ncols div 16))) ?T out)
        = override (?B ncols) ?T out" for out
      unfolding nc(1) trans_8x8_override [OF assms(1) nrows assms(3)] override_override by (simp only:)
    show ?thesis
      unfolding sse_trans_def Let_def rr main body last using neq F2 all by (simp add: override_override)
  qed
qed

lemma bit_sse_trans:
  assumes "8 dvd nrows" and "8 dvd ncols" and "8 \<le> length junk" and "r < nrows" and "c < ncols"
  shows "bit (sse_trans junk out inp nrows ncols (c * (nrows div 8) + r div 8)) (r mod 8)
      = bit (inp (r * (ncols div 8) + c div 8)) (c mod 8)"
proof -
  have X: "r div 8 < nrows div 8" using assms(1,4) by (metis dvd_div_mult_self less_mult_imp_div_less)
  then have "c * (nrows div 8) + r div 8 < Suc c * (nrows div 8)" by simp
  also have "\<dots> \<le> ncols * (nrows div 8)" using assms(5) by (intro mult_le_mono1) simp
  finally have "sse_trans junk out inp nrows ncols (c * (nrows div 8) + r div 8) = trans_byte inp nrows ncols (c * (nrows div 8) + r div 8)"
    unfolding sse_trans_override [OF assms(1-3)] override_def by simp
  moreover have "r * ncols div 8 = r * (ncols div 8)" using assms(2) by (rule div_mult_swap [symmetric])
  ultimately show ?thesis
    using bit_trans_byte [OF X, of "r mod 8" inp ncols c] by (simp add: INP_def)
qed

text \<open>
  C23.  \<^verbatim>\<open>sse_trans\<close> transposes: bit \<open>r\<close> of row \<open>c\<close> of the result is bit \<open>c\<close> of row \<open>r\<close> of the input, for all
  dimensions that are multiples of eight, and no byte outside the result is written.  The unused upper half
  of the vector in the last 8x8 block has no influence.
\<close>

theorem sse_trans_transposes:
  assumes "8 dvd nrows" and "8 dvd ncols" and "8 \<le> length junk"
  shows "(\<forall>r<nrows. \<forall>c<ncols. bit (sse_trans junk out inp nrows ncols (c * (nrows div 8) + r div 8)) (r mod 8)
             = bit (inp (r * (ncols div 8) + c div 8)) (c mod 8))
    \<and> (\<forall>a\<ge>ncols * (nrows div 8). sse_trans junk out inp nrows ncols a = out a)"
  by (intro conjI allI impI) (rule bit_sse_trans [OF assms], assumption+, simp add: sse_trans_override [OF assms] override_def)

theorem sse_trans_transposes_witness:
  "bit (sse_trans [1, 2, 3, 4, 5, 6, 7, 8] (\<lambda>_. 9) of_nat 24 40 (5 * 3 + 17 div 8)) (17 mod 8)
      = bit (of_nat (17 * 5 + 5 div 8) :: 8 word) (5 mod 8)
    \<and> sse_trans [1, 2, 3, 4, 5, 6, 7, 8] (\<lambda>_. 9) of_nat 24 40 120 = 9"
proof
  note t = sse_trans_transposes [of 24 40 "[1, 2, 3, 4, 5, 6, 7, 8]" "\<lambda>_. 9" of_nat]
  show "bit (sse_trans [1, 2, 3, 4, 5, 6, 7, 8] (\<lambda>_. 9) of_nat 24 40 (5 * 3 + 17 div 8)) (17 mod 8)
      = bit (of_nat (17 * 5 + 5 div 8) :: 8 word) (5 mod 8)"
    using t [THEN conjunct1, rule_format, of 17 5] by simp
  show "sse_trans [1, 2, 3, 4, 5, 6, 7, 8] (\<lambda>_. 9) of_nat 24 40 120 = 9"
    using t [THEN conjunct2, rule_format, of 120] by simp
qed

end
