(* ===== verification/Gf2k.thy ===== *)
theory Gf2k
  imports AesOpt
begin

text \<open>
  \<^verbatim>\<open>emp-tool/utils/f2k.h\<close>: multiplication of 128-bit polynomials over GF(2), the x86 variant.  The
  carry-less multiplication instruction is modelled after its documentation; the first group of lemmas
  shows that \<^verbatim>\<open>mul128\<close> is the full 256-bit product, and bilinear.
\<close>

subsection \<open>Without reduction\<close>

definition mm_clmulepi64_si128 :: "block \<Rightarrow> block \<Rightarrow> bool \<Rightarrow> bool \<Rightarrow> block" where
  "mm_clmulepi64_si128 a b hi_b hi_a =
     (let x = take_bit 64 (if hi_a then drop_bit 64 a else a); y = (if hi_b then drop_bit 64 b else b)
      in fold (\<lambda>i r. if bit y i then r XOR push_bit i x else r) [0..<64] 0)"

definition mm_slli_si128 :: "block \<Rightarrow> nat \<Rightarrow> block" where
  "mm_slli_si128 a n = push_bit (8 * n) a"

definition mm_srli_si128 :: "block \<Rightarrow> nat \<Rightarrow> block" where
  "mm_srli_si128 a n = drop_bit (8 * n) a"

text \<open>The immediates \<^verbatim>\<open>0x00, 0x10, 0x01, 0x11\<close> select the halves of the second and of the first operand.\<close>

definition mul128 :: "block \<Rightarrow> block \<Rightarrow> block \<times> block" where
  "mul128 a b =
     (let tmp3 = mm_clmulepi64_si128 a b False False;
          tmp4 = mm_clmulepi64_si128 a b True False;
          tmp5 = mm_clmulepi64_si128 a b False True;
          tmp6 = mm_clmulepi64_si128 a b True True;
          tmp4 = tmp4 XOR tmp5;
          tmp5 = mm_slli_si128 tmp4 8;
          tmp4 = mm_srli_si128 tmp4 8;
          tmp3 = tmp3 XOR tmp5;
          tmp6 = tmp6 XOR tmp4
      in (tmp3, tmp6))"

definition vector_inn_prdt_sum_no_red :: "block arr \<Rightarrow> block arr \<Rightarrow> nat \<Rightarrow> block \<times> block" where
  "vector_inn_prdt_sum_no_red a b sz =
     fold (\<lambda>i (r1, r2). let (r11, r12) = mul128 (a i) (b i) in (r1 XOR r11, r2 XOR r12)) [0..<sz] (zero_block, zero_block)"

subsection \<open>The product\<close>

text \<open>Coefficient \<open>n\<close> of the product of two polynomials whose coefficients are the bits of \<open>a\<close> and \<open>b\<close>.\<close>

definition coeff :: "'a::len word \<Rightarrow> 'b::len word \<Rightarrow> nat \<Rightarrow> bool" where
  "coeff a b n = parity (\<lambda>i. bit b i \<and> i \<le> n \<and> bit a (n - i)) [0..<LENGTH('b)]"

lemma parity_map: "parity b (map f xs) = parity (\<lambda>x. b (f x)) xs"
  by (induction xs) simp_all

lemma bit_fold_shifts:
  "bit (fold (\<lambda>i r. if P i then r XOR push_bit i x else r) is 0) n
     = (n < LENGTH('a) \<and> parity (\<lambda>i. P i \<and> i \<le> n \<and> bit x (n - i)) is)" for x :: "'a::len word"
proof -
  have "bit (fold (\<lambda>i r. if P i then r XOR push_bit i x else r) is r) n
      = bxor (bit r n) (n < LENGTH('a) \<and> parity (\<lambda>i. P i \<and> i \<le> n \<and> bit x (n - i)) is)" for r
  proof (induction "is" arbitrary: r)
    case (Cons i "is")
    then show ?case
      by (auto simp: bit_xor_iff bit_push_bit_iff bxor_def dest: bit_imp_le_length)
  qed simp
  then show ?thesis by simp
qed

lemma bit_clmul:
  "bit (mm_clmulepi64_si128 a b hb ha) n
     = (n < 128 \<and> parity (\<lambda>i. bit b (if hb then 64 + i else i) \<and> i \<le> n \<and> n - i < 64 \<and> bit a (if ha then 64 + (n - i) else n - i)) [0..<64])"
  unfolding mm_clmulepi64_si128_def Let_def bit_fold_shifts
  by (auto simp: bit_take_bit_iff bit_drop_bit_eq add.commute intro!: parity_cong arg_cong [where f = "\<lambda>x. parity x [0..<64]"])

definition half_product :: "block \<Rightarrow> block \<Rightarrow> bool \<Rightarrow> bool \<Rightarrow> nat \<Rightarrow> bool" where
  "half_product a b hb ha n =
     parity (\<lambda>i. bit b (if hb then 64 + i else i) \<and> i \<le> n \<and> n - i < 64 \<and> bit a (if ha then 64 + (n - i) else n - i)) [0..<64]"

lemma half_product_large: "128 \<le> n \<Longrightarrow> \<not> half_product a b hb ha n"
proof -
  assume "128 \<le> n"
  then have "half_product a b hb ha n = parity (\<lambda>i. False) [0..<64]"
    unfolding half_product_def by (intro parity_cong refl) auto
  then show ?thesis by simp
qed

lemma bit_clmul_half: "bit (mm_clmulepi64_si128 a b hb ha) n = half_product a b hb ha n"
  using half_product_large [of n a b hb ha] unfolding bit_clmul half_product_def [symmetric] by linarith

lemma coeff_low:
  fixes a :: block assumes "i < 64"
  shows "(B \<and> i \<le> n \<and> bit a (n - i))
     = bxor (B \<and> i \<le> n \<and> n - i < 64 \<and> bit a (n - i)) (64 \<le> n \<and> B \<and> i \<le> n - 64 \<and> n - 64 - i < 64 \<and> bit a (64 + (n - 64 - i)))"
proof (cases "i \<le> n \<and> 64 \<le> n - i")
  case True
  then have "64 + (n - 64 - i) = n - i" "64 \<le> n" "i \<le> n - 64" by auto
  moreover have "bit a (n - i) \<Longrightarrow> n - 64 - i < 64" using True bit_imp_le_length [of a "n - i"] by auto
  ultimately show ?thesis using True by (auto simp: bxor_def)
next
  case False
  then show ?thesis by (auto simp: bxor_def)
qed

lemma coeff_split:
  fixes a b :: block
  shows "coeff a b n = bxor (half_product a b False False n)
     (bxor (64 \<le> n \<and> bxor (half_product a b True False (n - 64)) (half_product a b False True (n - 64)))
        (128 \<le> n \<and> half_product a b True True (n - 128)))"
proof -
  have dist: "(c \<and> bxor x y) = bxor (c \<and> x) (c \<and> y)" for c x y by (auto simp: bxor_def)
  have upt: "[0..<128] = [0..<64] @ map ((+) 64) [0..<64]"
    by (rule nth_equalityI) (auto simp: nth_append simp del: upt_Suc upt_rec_numeral)
  have "coeff a b n = parity (\<lambda>i. bxor (bit b i \<and> i \<le> n \<and> bit a (n - i)) (bit b (64 + i) \<and> 64 + i \<le> n \<and> bit a (n - (64 + i)))) [0..<64]"
    unfolding coeff_def parity_bxor by (simp add: upt parity_map del: upt_Suc upt_rec_numeral)
  also have "\<dots> = parity (\<lambda>i. bxor
        (bxor (bit b i \<and> i \<le> n \<and> n - i < 64 \<and> bit a (n - i)) (64 \<le> n \<and> bit b i \<and> i \<le> n - 64 \<and> n - 64 - i < 64 \<and> bit a (64 + (n - 64 - i))))
        (64 \<le> n \<and> bxor (bit b (64 + i) \<and> i \<le> n - 64 \<and> n - 64 - i < 64 \<and> bit a (n - 64 - i))
           (64 \<le> n - 64 \<and> bit b (64 + i) \<and> i \<le> n - 64 - 64 \<and> n - 64 - 64 - i < 64 \<and> bit a (64 + (n - 64 - 64 - i))))) [0..<64]"
  proof (rule parity_cong [OF refl])
    fix i assume "i \<in> set [0..<64]"
    then have i: "i < 64" by simp
    have "(bit b (64 + i) \<and> 64 + i \<le> n \<and> bit a (n - (64 + i))) = (64 \<le> n \<and> (bit b (64 + i) \<and> i \<le> n - 64 \<and> bit a (n - 64 - i)))"
      by (auto simp: diff_diff_left)
    with coeff_low [OF i, of "bit b i" n a] coeff_low [OF i, of "bit b (64 + i)" "n - 64" a]
    show "bxor (bit b i \<and> i \<le> n \<and> bit a (n - i)) (bit b (64 + i) \<and> 64 + i \<le> n \<and> bit a (n - (64 + i)))
      = bxor
        (bxor (bit b i \<and> i \<le> n \<and> n - i < 64 \<and> bit a (n - i)) (64 \<le> n \<and> bit b i \<and> i \<le> n - 64 \<and> n - 64 - i < 64 \<and> bit a (64 + (n - 64 - i))))
        (64 \<le> n \<and> bxor (bit b (64 + i) \<and> i \<le> n - 64 \<and> n - 64 - i < 64 \<and> bit a (n - 64 - i))
           (64 \<le> n - 64 \<and> bit b (64 + i) \<and> i \<le> n - 64 - 64 \<and> n - 64 - 64 - i < 64 \<and> bit a (64 + (n - 64 - 64 - i))))"
      by (simp only:)
  qed
  also have "\<dots> = bxor (bxor (half_product a b False False n) (64 \<le> n \<and> half_product a b False True (n - 64)))
      (64 \<le> n \<and> bxor (half_product a b True False (n - 64)) (64 \<le> n - 64 \<and> half_product a b True True (n - 64 - 64)))"
    unfolding parity_bxor parity_conj_left half_product_def if_True if_False ..
  finally show ?thesis by (auto simp: bxor_def)
qed

lemma bit_mul128:
  "bit (fst (mul128 a b)) n = (n < 128 \<and> coeff a b n)"
  "bit (snd (mul128 a b)) n = (n < 128 \<and> coeff a b (n + 128))"
proof -
  let ?h = "half_product a b"
  show "bit (fst (mul128 a b)) n = (n < 128 \<and> coeff a b n)"
    using half_product_large [of n a b]
    unfolding coeff_split
    by (auto simp: mul128_def Let_def mm_slli_si128_def bit_xor_iff bit_push_bit_iff bit_clmul_half bxor_def)
  have "\<not> bit (snd (mul128 a b)) n" if "128 \<le> n"
    using that bit_imp_le_length [of "snd (mul128 a b)" n] by auto
  moreover have "n < 128 \<Longrightarrow> bit (snd (mul128 a b)) n = coeff a b (n + 128)"
    using half_product_large [of "n + 128" a b]
    unfolding coeff_split
    by (auto simp: mul128_def Let_def mm_srli_si128_def bit_xor_iff bit_drop_bit_eq bit_clmul_half bxor_def add.commute)
  ultimately show "bit (snd (mul128 a b)) n = (n < 128 \<and> coeff a b (n + 128))"
    using not_less by blast
qed

subsection \<open>Bilinearity\<close>

lemma coeff_xor_right: "coeff a (b XOR c) n = bxor (coeff a b n) (coeff a c n)"
  unfolding coeff_def parity_bxor [symmetric] by (intro parity_cong refl) (auto simp: bit_xor_iff bxor_def)

lemma coeff_xor_left: "coeff (a XOR b) c n = bxor (coeff a c n) (coeff b c n)"
  unfolding coeff_def parity_bxor [symmetric] by (intro parity_cong refl) (auto simp: bit_xor_iff bxor_def)

definition xor_pair :: "block \<times> block \<Rightarrow> block \<times> block \<Rightarrow> block \<times> block" where
  "xor_pair x y = (fst x XOR fst y, snd x XOR snd y)"

lemma mul128_xor_right: "mul128 a (b XOR c) = xor_pair (mul128 a b) (mul128 a c)"
  by (auto simp: xor_pair_def prod_eq_iff bit_mul128 bit_xor_iff coeff_xor_right bxor_def intro!: bit_word_eqI)

lemma mul128_xor_left: "mul128 (a XOR b) c = xor_pair (mul128 a c) (mul128 b c)"
  by (auto simp: xor_pair_def prod_eq_iff bit_mul128 bit_xor_iff coeff_xor_left bxor_def intro!: bit_word_eqI)

lemma mul128_zero [simp]: "mul128 0 a = (0, 0)" "mul128 a 0 = (0, 0)"
  by (auto simp: prod_eq_iff bit_mul128 coeff_def intro!: bit_word_eqI)

end
