(* ===== verification/Iknp.thy ===== *)
theory Iknp
  imports Prg Transpose Gf2k
begin

text \<open>
  \<^verbatim>\<open>emp-ot/iknp.h\<close>: the extension of 128 base transfers to any number of correlated ones.  The receiver of the
  extension (\<^verbatim>\<open>recv_cot\<close>) sends, the sender (\<^verbatim>\<open>send_cot\<close>) reads, so the receiver's functions return the
  blocks they put on the channel and the sender's take the channel; a read from a channel that holds too
  few blocks does not return and is \<open>None\<close>.  \<open>junk\<close> is the content of the uninitialised arrays on
  the stack.  Whether the keys come from the base transfer or are given is the caller's choice, so the two
  set-up functions take the keys.
\<close>

type_synonym channel = "block list"

definition recv_block :: "nat \<Rightarrow> channel \<Rightarrow> (block list \<times> channel) option" where
  "recv_block n ch = (if length ch < n then None else Some (take n ch, drop n ch))"

definition block_size :: nat where "block_size = 1024 * 2"

record IKNP =
  ik_Delta :: block
  ik_s :: "bool arr"
  ik_G0 :: "PRG arr"
  ik_G1 :: "PRG arr"
  ik_malicious :: bool
  ik_local_out :: "block arr"
  ik_local_r :: "bool arr"

definition IKNP_setup_send :: "bool \<Rightarrow> bool arr \<Rightarrow> block arr \<Rightarrow> IKNP" where
  "IKNP_setup_send malicious s k0 =
     \<lparr>ik_Delta = bool_to_block s, ik_s = s, ik_G0 = (\<lambda>i. reseed (k0 i) 0), ik_G1 = (\<lambda>i. reseed 0 0),
      ik_malicious = malicious, ik_local_out = (\<lambda>_. 0), ik_local_r = (\<lambda>_. False)\<rparr>"

definition IKNP_setup_recv :: "bool \<Rightarrow> block arr \<Rightarrow> block arr \<Rightarrow> IKNP" where
  "IKNP_setup_recv malicious k0 k1 =
     \<lparr>ik_Delta = 0, ik_s = (\<lambda>_. False), ik_G0 = (\<lambda>i. reseed (k0 i) 0), ik_G1 = (\<lambda>i. reseed (k1 i) 0),
      ik_malicious = malicious, ik_local_out = (\<lambda>_. 0), ik_local_r = (\<lambda>_. False)\<rparr>"

subsection \<open>Arrays of blocks as bytes\<close>

definition bytes_view :: "block arr \<Rightarrow> 8 word arr" where
  "bytes_view m = (\<lambda>a. bytes_of_block (m (a div 16)) ! (a mod 16))"

definition blocks_view :: "8 word arr \<Rightarrow> block arr" where
  "blocks_view o8 = (\<lambda>c. block_of_bytes (map (\<lambda>k. o8 (16 * c + k)) [0..<16]))"

text \<open>Bytes written to the blocks from index \<open>a\<close> on; all writes are of whole blocks.\<close>

definition put_bytes :: "block arr \<Rightarrow> nat \<Rightarrow> 8 word list \<Rightarrow> block arr" where
  "put_bytes m a bs =
     fold (\<lambda>k m. m(a + k := block_of_bytes (take 16 (drop (16 * k) bs)))) [0..<length bs div 16] m"

definition put_blocks :: "block arr \<Rightarrow> nat \<Rightarrow> block arr \<Rightarrow> nat \<Rightarrow> block arr" where
  "put_blocks m a src n = fold (\<lambda>k m. m(a + k := src k)) [0..<n] m"

definition local_block_size :: "nat \<Rightarrow> nat" where
  "local_block_size len = (len + 127) div 128 * 128"

definition trans_blocks :: "block arr \<Rightarrow> block arr \<Rightarrow> block arr \<Rightarrow> block arr" where
  "trans_blocks junk out t =
     blocks_view (sse_trans (map (bytes_view junk) [0..<8]) (bytes_view out) (bytes_view t) 128 block_size)"

subsection \<open>One block of the extension\<close>

definition send_row :: "nat \<Rightarrow> block arr \<Rightarrow> nat \<Rightarrow> block arr \<times> IKNP \<Rightarrow> block arr \<times> IKNP" where
  "send_row lbs tmp i = (\<lambda>(t, st).
     let (d, g) = random_data (lbs div 8) (ik_G0 st i);
         a = i * block_size div 128;
         t = put_bytes t a d;
         t = (if ik_s st i
              then put_blocks t a (xorBlocks_arr (\<lambda>k. t (a + k)) (\<lambda>k. t (a + k)) (\<lambda>k. tmp (i * lbs div 128 + k)) (lbs div 128)) (lbs div 128)
              else t)
     in (t, st\<lparr>ik_G0 := (ik_G0 st)(i := g)\<rparr>))"

definition send_pre_block :: "block arr \<Rightarrow> block arr \<Rightarrow> nat \<Rightarrow> channel \<Rightarrow> IKNP \<Rightarrow> (block arr \<times> channel \<times> IKNP) option" where
  "send_pre_block junk out len ch st =
     (let lbs = local_block_size len in
      case recv_block lbs ch of
        None \<Rightarrow> None
      | Some (tmp, ch) \<Rightarrow>
          (let (t, st) = fold (send_row lbs (\<lambda>k. tmp ! k)) [0..<128] (junk, st)
           in Some (trans_blocks junk out t, ch, st)))"

definition recv_row :: "nat \<Rightarrow> block arr \<Rightarrow> nat \<Rightarrow> block arr \<times> block arr \<times> channel \<times> IKNP \<Rightarrow> block arr \<times> block arr \<times> channel \<times> IKNP" where
  "recv_row lbs r i = (\<lambda>(t, tmp, ch, st).
     let (d, g0) = random_data (lbs div 8) (ik_G0 st i);
         a = i * block_size div 128;
         t = put_bytes t a d;
         (d, g1) = random_data (lbs div 8) (ik_G1 st i);
         tmp = put_bytes tmp 0 d;
         tmp = xorBlocks_arr tmp (\<lambda>k. t (a + k)) tmp (lbs div 128);
         tmp = xorBlocks_arr tmp r tmp (lbs div 128)
     in (t, tmp, ch @ map tmp [0..<lbs div 128], st\<lparr>ik_G0 := (ik_G0 st)(i := g0), ik_G1 := (ik_G1 st)(i := g1)\<rparr>))"

definition recv_pre_block :: "block arr \<Rightarrow> block arr \<Rightarrow> block arr \<Rightarrow> nat \<Rightarrow> IKNP \<Rightarrow> block arr \<times> channel \<times> IKNP" where
  "recv_pre_block junk out r len st =
     (let lbs = local_block_size len;
          (t, tmp, ch, st) = fold (recv_row lbs r) [0..<128] (junk, junk, [], st)
      in (trans_blocks junk out t, ch, st))"

subsection \<open>The whole extension\<close>

definition at_offset :: "nat \<Rightarrow> block arr \<Rightarrow> block arr \<Rightarrow> block arr" where
  "at_offset a m part = (\<lambda>k. if k < a then m k else part (k - a))"

primrec send_blocks :: "block arr \<Rightarrow> nat \<Rightarrow> block arr \<times> channel \<times> IKNP \<Rightarrow> (block arr \<times> channel \<times> IKNP) option" where
  "send_blocks junk 0 s = Some s"
| "send_blocks junk (Suc j) s =
     (case send_blocks junk j s of
        None \<Rightarrow> None
      | Some (out, ch, st) \<Rightarrow>
          (case send_pre_block junk (\<lambda>k. out (j * block_size + k)) block_size ch st of
             None \<Rightarrow> None
           | Some (part, ch, st) \<Rightarrow> Some (at_offset (j * block_size) out part, ch, st)))"

definition send_local :: "block arr \<Rightarrow> nat \<Rightarrow> channel \<Rightarrow> IKNP \<Rightarrow> (channel \<times> IKNP) option" where
  "send_local junk len ch st =
     (case send_pre_block junk (ik_local_out st) len ch st of
        None \<Rightarrow> None
      | Some (lo, ch, st) \<Rightarrow> Some (ch, st\<lparr>ik_local_out := lo\<rparr>))"

definition send_pre :: "block arr \<Rightarrow> block arr \<Rightarrow> nat \<Rightarrow> channel \<Rightarrow> IKNP \<Rightarrow> (block arr \<times> channel \<times> IKNP) option" where
  "send_pre junk out len ch st =
     (let j = len div block_size; remain = len mod block_size in
      case send_blocks junk j (out, ch, st) of
        None \<Rightarrow> None
      | Some (out, ch, st) \<Rightarrow>
          (case (if remain > 0 then
                   case send_local junk remain ch st of
                     None \<Rightarrow> None
                   | Some (ch, st) \<Rightarrow> Some (put_blocks out (j * block_size) (ik_local_out st) remain, ch, st)
                 else Some (out, ch, st)) of
             None \<Rightarrow> None
           | Some (out, ch, st) \<Rightarrow>
               if ik_malicious st then
                 case send_local junk 256 ch st of None \<Rightarrow> None | Some (ch, st) \<Rightarrow> Some (out, ch, st)
               else Some (out, ch, st)))"

text \<open>\<^verbatim>\<open>block_r\<close>: the choice bits packed, the last block padded with zeros.\<close>

definition pack_r :: "bool arr \<Rightarrow> nat \<Rightarrow> block arr" where
  "pack_r r len = (\<lambda>i. if i < len div 128 then bool_to_block (\<lambda>k. r (i * 128 + k))
      else bool_to_block (\<lambda>k. if k < len mod 128 then r (len div 128 * 128 + k) else False))"

definition recv_blocks :: "block arr \<Rightarrow> block arr \<Rightarrow> nat \<Rightarrow> block arr \<times> channel \<times> IKNP \<Rightarrow> block arr \<times> channel \<times> IKNP" where
  "recv_blocks junk block_r n s =
     fold (\<lambda>j (out, ch, st).
        let (part, c, st) = recv_pre_block junk (\<lambda>k. out (j * block_size + k)) (\<lambda>k. block_r (j * block_size div 128 + k)) block_size st
        in (at_offset (j * block_size) out part, ch @ c, st)) [0..<n] s"

definition recv_local :: "block arr \<Rightarrow> block arr \<Rightarrow> nat \<Rightarrow> IKNP \<Rightarrow> channel \<times> IKNP" where
  "recv_local junk r len st =
     (let (lo, c, st) = recv_pre_block junk (ik_local_out st) r len st in (c, st\<lparr>ik_local_out := lo\<rparr>))"

text \<open>\<open>rnd\<close> are the 256 bits \<^verbatim>\<open>prg.random_bool\<close> yields in the malicious variant.\<close>

definition recv_pre :: "block arr \<Rightarrow> bool arr \<Rightarrow> block arr \<Rightarrow> bool arr \<Rightarrow> nat \<Rightarrow> IKNP \<Rightarrow> block arr \<times> channel \<times> IKNP" where
  "recv_pre junk rnd out r len st =
     (let block_r = pack_r r len; j = len div block_size; remain = len mod block_size;
          (out, ch, st) = recv_blocks junk block_r j (out, [], st);
          (out, ch, st) = (if remain > 0 then
              let (c, st) = recv_local junk (\<lambda>k. block_r (j * block_size div 128 + k)) remain st
              in (put_blocks out (j * block_size) (ik_local_out st) remain, ch @ c, st)
            else (out, ch, st))
      in if ik_malicious st then
           let (c, st) = recv_local junk (\<lambda>k. bool_to_block (\<lambda>i. rnd (128 * k + i))) 256 (st\<lparr>ik_local_r := rnd\<rparr>)
           in (out, ch @ c, st)
         else (out, ch, st))"

subsection \<open>The consistency check of the malicious variant\<close>

text \<open>One chunk of \<open>n\<close> outputs from \<open>off\<close> on, with \<open>N\<close> coefficients drawn.\<close>

definition send_chunk :: "block arr \<Rightarrow> nat \<Rightarrow> nat \<Rightarrow> nat \<Rightarrow> (block \<times> block) \<times> PRG \<Rightarrow> (block \<times> block) \<times> PRG" where
  "send_chunk out off N n = (\<lambda>(q, g).
     let (chi, g) = random_block N g;
         tmp = vector_inn_prdt_sum_no_red (\<lambda>k. chi ! k) (\<lambda>k. out (off + k)) n
     in ((fst q XOR fst tmp, snd q XOR snd tmp), g))"

definition recv_chunk ::
  "block arr \<Rightarrow> bool arr \<Rightarrow> nat \<Rightarrow> nat \<Rightarrow> nat \<Rightarrow> (block \<times> block) \<times> block \<times> PRG \<Rightarrow> (block \<times> block) \<times> block \<times> PRG" where
  "recv_chunk out r off N n = (\<lambda>(t, x, g).
     let (chi, g) = random_block N g;
         tmp = vector_inn_prdt_sum_no_red (\<lambda>k. chi ! k) (\<lambda>k. out (off + k)) n;
         x = fold (\<lambda>j x. x XOR (chi ! j AND select_mask (r (off + j)))) [0..<n] x
     in ((fst t XOR fst tmp, snd t XOR snd tmp), x, g))"

definition send_check :: "block arr \<Rightarrow> nat \<Rightarrow> channel \<Rightarrow> IKNP \<Rightarrow> (bool \<times> channel) option" where
  "send_check out len ch st =
     (case recv_block 1 ch of None \<Rightarrow> None | Some (seed2, ch) \<Rightarrow>
       (let q = ((zero_block, zero_block), reseed (seed2 ! 0) 0);
            remain = len mod block_size;
            q = fold (\<lambda>i. send_chunk out (i * block_size) block_size block_size) [0..<len div block_size] q;
            q = (if remain \<noteq> 0 then send_chunk out (len - remain) block_size remain q else q);
            (q, g) = send_chunk (ik_local_out st) 0 256 256 q
        in case recv_block 1 ch of None \<Rightarrow> None | Some (x, ch) \<Rightarrow>
           (case recv_block 2 ch of None \<Rightarrow> None | Some (t, ch) \<Rightarrow>
              (let tmp = mul128 (x ! 0) (ik_Delta st);
                   q = [fst q XOR fst tmp, snd q XOR snd tmp]
               in Some (cmpBlock (\<lambda>k. q ! k) (\<lambda>k. t ! k) 2, ch)))))"

text \<open>\<open>seed2\<close> is drawn from the receiver's generator.\<close>

definition recv_check :: "block \<Rightarrow> block arr \<Rightarrow> bool arr \<Rightarrow> nat \<Rightarrow> IKNP \<Rightarrow> channel" where
  "recv_check seed2 out r len st =
     (let q = ((zero_block, zero_block), zero_block, reseed seed2 0);
          remain = len mod block_size;
          q = fold (\<lambda>i. recv_chunk out r (i * block_size) block_size block_size) [0..<len div block_size] q;
          q = (if remain \<noteq> 0 then recv_chunk out r (len - remain) block_size remain q else q);
          (t, x, g) = recv_chunk (ik_local_out st) (ik_local_r st) 0 256 256 q
      in [seed2, x, fst t, snd t])"

datatype cot_error = OT_Extension_check_failed

text \<open>\<open>None\<close>: the call waits forever; \<open>Inl\<close>: it aborts.\<close>

definition IKNP_send_cot :: "block arr \<Rightarrow> block arr \<Rightarrow> nat \<Rightarrow> channel \<Rightarrow> IKNP \<Rightarrow> (cot_error + block arr \<times> channel \<times> IKNP) option" where
  "IKNP_send_cot junk data len ch st =
     (case send_pre junk data len ch st of None \<Rightarrow> None | Some (data, ch, st) \<Rightarrow>
        if ik_malicious st then
          case send_check data len ch st of None \<Rightarrow> None | Some (ok, ch) \<Rightarrow>
            if \<not> ok then Some (Inl OT_Extension_check_failed) else Some (Inr (data, ch, st))
        else Some (Inr (data, ch, st)))"

definition IKNP_recv_cot :: "block arr \<Rightarrow> bool arr \<Rightarrow> block \<Rightarrow> block arr \<Rightarrow> bool arr \<Rightarrow> nat \<Rightarrow> IKNP \<Rightarrow> block arr \<times> channel \<times> IKNP" where
  "IKNP_recv_cot junk rnd seed2 data b len st =
     (let (data, ch, st) = recv_pre junk rnd data b len st
      in if ik_malicious st then (data, ch @ recv_check seed2 data b len st, st) else (data, ch, st))"

subsection \<open>Memory\<close>

lemma random_data_blocks:
  "random_data (16 * m) g = (concat (map bytes_of_block (map (key_stream g) [0..<m])), advance m g)"
  by (simp add: random_data_def random_block_eq Let_def)

lemma take_drop_blocks:
  "k < length bs \<Longrightarrow> take 16 (drop (16 * k) (concat (map bytes_of_block bs))) = bytes_of_block (bs ! k)"
proof (induction bs arbitrary: k)
  case (Cons b bs)
  then show ?case by (cases k) simp_all
qed simp

lemma length_concat_blocks [simp]: "length (concat (map bytes_of_block bs)) = 16 * length bs"
  by (induction bs) simp_all

lemma put_bytes_eq:
  "put_bytes m a (concat (map bytes_of_block bs)) k = (if a \<le> k \<and> k < a + length bs then bs ! (k - a) else m k)"
proof -
  have "fold (\<lambda>k m. m(a + k := block_of_bytes (take 16 (drop (16 * k) (concat (map bytes_of_block bs)))))) [0..<n] m k
      = (if a \<le> k \<and> k < a + n then bs ! (k - a) else m k)" if "n \<le> length bs" for n
    using that
  proof (induction n)
    case (Suc n)
    moreover from Suc.prems have "take 16 (drop (16 * n) (concat (map bytes_of_block bs))) = bytes_of_block (bs ! n)"
      by (intro take_drop_blocks) simp
    ultimately show ?case by auto
  qed auto
  then show ?thesis by (simp add: put_bytes_def)
qed

lemma put_blocks_eq: "put_blocks m a src n k = (if a \<le> k \<and> k < a + n then src (k - a) else m k)"
  unfolding put_blocks_def by (induction n) auto

lemma bit_bytes_view: "n < 8 \<Longrightarrow> bit (bytes_view m a) n = bit (m (a div 16)) (8 * (a mod 16) + n)"
  by (simp add: bytes_view_def bit_nth_bytes)

lemma blocks_bytes_view [simp]: "blocks_view (bytes_view m) = m"
proof
  fix c
  have "map (\<lambda>k. bytes_view m (16 * c + k)) [0..<16] = bytes_of_block (m c)"
    by (rule nth_equalityI) (simp_all add: bytes_view_def)
  then show "blocks_view (bytes_view m) c = m c" by (simp add: blocks_view_def)
qed

lemma bit_trans_blocks:
  assumes c: "c < block_size" and i: "i < 128"
  shows "bit (trans_blocks junk out t c) i = bit (t (16 * i + c div 128)) (c mod 128)"
proof -
  have "bit (trans_blocks junk out t c) i
      = bit (sse_trans (map (bytes_view junk) [0..<8]) (bytes_view out) (bytes_view t) 128 block_size (c * 16 + i div 8)) (i mod 8)"
  proof -
    have "i div 8 < 16" using i by simp
    then show ?thesis
      using i by (simp add: trans_blocks_def blocks_view_def bit_block_of_bytes mult.commute del: upt_rec_numeral)
  qed
  also have "\<dots> = bit (bytes_view t (i * (block_size div 8) + c div 8)) (c mod 8)"
    using bit_sse_trans [of 128 block_size "map (bytes_view junk) [0..<8]" i c "bytes_view out" "bytes_view t"] c i
    by (simp add: block_size_def)
  also have "\<dots> = bit (t (16 * i + c div 128)) (8 * ((c div 8) mod 16) + c mod 8)"
  proof -
    have "i * (block_size div 8) + c div 8 = c div 8 + 16 * (16 * i)" by (simp add: block_size_def)
    then have "(i * (block_size div 8) + c div 8) div 16 = 16 * i + c div 8 div 16"
      "(i * (block_size div 8) + c div 8) mod 16 = (c div 8) mod 16"
      by (simp_all only: mod_mult_self2 div_mult_self2 [of 16, simplified])
    then show ?thesis by (simp add: bit_bytes_view div_mult2_eq [symmetric])
  qed
  also have "8 * ((c div 8) mod 16) + c mod 8 = c mod 128"
    using mod_mult2_eq [of c 8 16] by simp
  finally show ?thesis .
qed

lemma trans_blocks_above:
  assumes "block_size \<le> c" shows "trans_blocks junk out t c = out c"
proof -
  have "sse_trans (map (bytes_view junk) [0..<8]) (bytes_view out) (bytes_view t) 128 block_size a = bytes_view out a"
    if "16 * block_size \<le> a" for a
    using that sse_trans_override [of 128 block_size "map (bytes_view junk) [0..<8]" "bytes_view out" "bytes_view t"]
    by (simp add: block_size_def override_def)
  then have "trans_blocks junk out t c = blocks_view (bytes_view out) c"
    using assms unfolding trans_blocks_def blocks_view_def by (intro arg_cong [where f = block_of_bytes] map_cong refl) simp
  then show ?thesis by simp
qed

subsection \<open>The rows\<close>

lemma row_offset: "i * block_size div 128 = 16 * i"
  by (simp add: block_size_def)

lemma local_block_size_eq: "local_block_size len = 128 * ((len + 127) div 128)"
  by (simp add: local_block_size_def)

lemma put_stream:
  "put_bytes m a (fst (random_data (16 * n) g)) k = (if a \<le> k \<and> k < a + n then key_stream g (k - a) else m k)"
  "snd (random_data (16 * n) g) = advance n g"
  unfolding random_data_blocks fst_conv snd_conv put_bytes_eq by auto

lemma send_row_eq:
  "send_row (128 * m) tmp i (t, st)
     = ((\<lambda>k. if 16 * i \<le> k \<and> k < 16 * i + m then key_stream (ik_G0 st i) (k - 16 * i) XOR gate_blk (ik_s st i) (tmp (i * m + (k - 16 * i))) else t k),
        st\<lparr>ik_G0 := (ik_G0 st)(i := advance m (ik_G0 st i))\<rparr>)"
proof -
  have "i * (128 * m) div 128 = i * m" "128 * m div 8 = 16 * m" "128 * m div 128 = m" by simp_all
  then show ?thesis
    unfolding send_row_def row_offset by (auto simp: split_beta Let_def put_stream put_blocks_eq fun_eq_iff gate_blk_def)
qed

lemma recv_row_eq:
  "fst (recv_row (128 * m) r i (t, tmp, ch, st)) = (\<lambda>k. if 16 * i \<le> k \<and> k < 16 * i + m then key_stream (ik_G0 st i) (k - 16 * i) else t k)"
  "snd (snd (recv_row (128 * m) r i (t, tmp, ch, st)))
     = (ch @ map (\<lambda>k. r k XOR (key_stream (ik_G0 st i) k XOR key_stream (ik_G1 st i) k)) [0..<m],
        st\<lparr>ik_G0 := (ik_G0 st)(i := advance m (ik_G0 st i)), ik_G1 := (ik_G1 st)(i := advance m (ik_G1 st i))\<rparr>)"
proof -
  have "128 * m div 8 = 16 * m" "128 * m div 128 = m" by simp_all
  then show "fst (recv_row (128 * m) r i (t, tmp, ch, st)) = (\<lambda>k. if 16 * i \<le> k \<and> k < 16 * i + m then key_stream (ik_G0 st i) (k - 16 * i) else t k)"
    "snd (snd (recv_row (128 * m) r i (t, tmp, ch, st)))
     = (ch @ map (\<lambda>k. r k XOR (key_stream (ik_G0 st i) k XOR key_stream (ik_G1 st i) k)) [0..<m],
        st\<lparr>ik_G0 := (ik_G0 st)(i := advance m (ik_G0 st i)), ik_G1 := (ik_G1 st)(i := advance m (ik_G1 st i))\<rparr>)"
    unfolding recv_row_def row_offset by (auto simp: split_beta Let_def put_stream fun_eq_iff)
qed

definition step_G0 :: "nat \<Rightarrow> nat \<Rightarrow> IKNP \<Rightarrow> IKNP" where
  "step_G0 n m st = st\<lparr>ik_G0 := (\<lambda>i. if i < n then advance m (ik_G0 st i) else ik_G0 st i)\<rparr>"

definition step_both :: "nat \<Rightarrow> nat \<Rightarrow> IKNP \<Rightarrow> IKNP" where
  "step_both n m st = st\<lparr>ik_G0 := (\<lambda>i. if i < n then advance m (ik_G0 st i) else ik_G0 st i),
     ik_G1 := (\<lambda>i. if i < n then advance m (ik_G1 st i) else ik_G1 st i)\<rparr>"

lemma below_row: "i < n \<Longrightarrow> k < m \<Longrightarrow> m \<le> 16 \<Longrightarrow> \<not> 16 * n \<le> 16 * i + k" for i k m n :: nat
  by simp

lemma send_rows:
  fixes tmp t st
  assumes "m \<le> 16"
  defines "s \<equiv> \<lambda>n. fold (send_row (128 * m) tmp) [0..<n] (t, st)"
  shows "snd (s n) = step_G0 n m st
    \<and> (\<forall>i<n. \<forall>k<m. fst (s n) (16 * i + k) = key_stream (ik_G0 st i) k XOR gate_blk (ik_s st i) (tmp (i * m + k)))"
proof (induction n)
  case 0
  show ?case by (simp add: step_G0_def s_def)
next
  case (Suc n)
  obtain t' st' where t': "s n = (t', st')" by fastforce
  then have step: "s (Suc n) = send_row (128 * m) tmp n (t', st')" by (simp add: s_def)
  show ?case
    unfolding step send_row_eq
    using Suc below_row [OF _ _ assms(1)] by (auto simp: t' step_G0_def fun_eq_iff less_Suc_eq)
qed

lemma recv_rows:
  fixes r t tmp st
  assumes "m \<le> 16"
  defines "s \<equiv> \<lambda>n. fold (recv_row (128 * m) r) [0..<n] (t, tmp, [], st)"
  shows "snd (snd (s n))
      = (concat (map (\<lambda>i. map (\<lambda>k. r k XOR (key_stream (ik_G0 st i) k XOR key_stream (ik_G1 st i) k)) [0..<m]) [0..<n]), step_both n m st)
    \<and> (\<forall>i<n. \<forall>k<m. fst (s n) (16 * i + k) = key_stream (ik_G0 st i) k)"
proof (induction n)
  case 0
  show ?case by (simp add: step_both_def s_def)
next
  case (Suc n)
  obtain t' tmp' ch st' where t': "s n = (t', tmp', ch, st')" by (metis prod_cases4)
  then have step: "s (Suc n) = recv_row (128 * m) r n (t', tmp', ch, st')" by (simp add: s_def)
  show ?case
    unfolding step recv_row_eq
    using Suc below_row [OF _ _ assms(1)] by (auto simp: t' step_both_def fun_eq_iff less_Suc_eq)
qed

lemma length_rows [simp]: "length (concat (map (\<lambda>i. map (f i) [0..<m]) [0..<n])) = n * m"
  by (induction n) simp_all

lemma rows_nth: "i < n \<Longrightarrow> k < m \<Longrightarrow> concat (map (\<lambda>i. map (f i) [0..<m]) [0..<n]) ! (i * m + k) = f i k"
proof (induction n)
  case (Suc n)
  show ?case
  proof (cases "i < n")
    case True
    have "i * m + k < n * m" using mult_le_mono1 [of "Suc i" n m] True Suc.prems(2) by simp
    then show ?thesis using Suc True by (simp add: nth_append)
  next
    case False
    then have "i = n" using Suc.prems(1) by simp
    then show ?thesis using Suc.prems(2) by (simp add: nth_append)
  qed
qed simp

subsection \<open>Sender and receiver stay in step\<close>

definition synced :: "IKNP \<Rightarrow> IKNP \<Rightarrow> bool" where
  "synced S R \<longleftrightarrow> (\<forall>i<128. ik_G0 S i = (if ik_s S i then ik_G1 R i else ik_G0 R i))
     \<and> ik_malicious S = ik_malicious R \<and> ik_Delta S = bool_to_block (ik_s S)"

lemma synced_step:
  "synced S R \<Longrightarrow> synced (step_G0 128 m S) (step_both 128 m R)"
  by (auto simp: synced_def step_G0_def step_both_def)

lemma synced_local [simp]:
  "synced (S\<lparr>ik_local_out := l\<rparr>) R = synced S R" "synced S (R\<lparr>ik_local_out := l\<rparr>) = synced S R"
  "synced S (R\<lparr>ik_local_r := b\<rparr>) = synced S R"
  by (simp_all add: synced_def)

lemma step_fields [simp]:
  "ik_Delta (step_G0 n m S) = ik_Delta S" "ik_s (step_G0 n m S) = ik_s S" "ik_malicious (step_G0 n m S) = ik_malicious S"
  "ik_local_out (step_G0 n m S) = ik_local_out S" "ik_malicious (step_both n m S) = ik_malicious S"
  "ik_local_out (step_both n m S) = ik_local_out S" "ik_local_r (step_both n m S) = ik_local_r S"
  by (simp_all add: step_G0_def step_both_def)

lemma blocks_needed: "len \<le> block_size \<Longrightarrow> (len + 127) div 128 \<le> 16"
  by (simp add: block_size_def)

lemma block_within: "c < len \<Longrightarrow> c div 128 < (len + 127) div 128" for c len :: nat
  using div_le_mono [of "c + 128" "len + 127" 128] by simp

text \<open>One block: the receiver's outputs differ from the sender's by \<open>Delta\<close> where its choice bit is set.\<close>

lemma pre_block:
  assumes sync: "synced S R" and len: "len \<le> block_size"
  defines "m \<equiv> (len + 127) div 128"
  obtains oR oS msg where "recv_pre_block junk' out' r len R = (oR, msg, step_both 128 m R)"
    and "\<And>rest. send_pre_block junk out len (msg @ rest) S = Some (oS, rest, step_G0 128 m S)"
    and "\<And>c. c < len \<Longrightarrow> oR c = oS c XOR gate_blk (bit (r (c div 128)) (c mod 128)) (ik_Delta S)"
    and "\<And>c. block_size \<le> c \<Longrightarrow> oS c = out c \<and> oR c = out' c"
proof -
  have m: "m \<le> 16" unfolding m_def by (rule blocks_needed [OF len])
  have lbs: "local_block_size len = 128 * m" by (simp add: local_block_size_eq m_def)
  let ?u = "\<lambda>i k. r k XOR (key_stream (ik_G0 R i) k XOR key_stream (ik_G1 R i) k)"
  define msg where "msg = concat (map (\<lambda>i. map (?u i) [0..<m]) [0..<128])"
  have lm: "length msg = 128 * m" by (simp add: msg_def)
  define fR where "fR = fold (recv_row (128 * m) r) [0..<128] (junk', junk', [], R)"
  define fS where "fS = fold (send_row (128 * m) (\<lambda>k. msg ! k)) [0..<128] (junk, S)"
  have R: "snd (snd fR) = (msg, step_both 128 m R)" "\<And>i k. i < 128 \<Longrightarrow> k < m \<Longrightarrow> fst fR (16 * i + k) = key_stream (ik_G0 R i) k"
    using recv_rows [OF m, where r = r and t = junk' and tmp = junk' and st = R and n = 128] unfolding fR_def msg_def by blast+
  have S: "snd fS = step_G0 128 m S" "\<And>i k. i < 128 \<Longrightarrow> k < m \<Longrightarrow> fst fS (16 * i + k) = key_stream (ik_G0 S i) k XOR gate_blk (ik_s S i) (msg ! (i * m + k))"
    using send_rows [OF m, where tmp = "\<lambda>k. msg ! k" and t = junk and st = S and n = 128] unfolding fS_def by blast+
  have bits: "trans_blocks junk' out' (fst fR) c = trans_blocks junk out (fst fS) c XOR gate_blk (bit (r (c div 128)) (c mod 128)) (ik_Delta S)"
    if c: "c < len" for c
  proof (rule bit_word_eqI)
    fix i assume "i < LENGTH(128)"
    then have i: "i < 128" by simp
    have k: "c div 128 < m" unfolding m_def by (rule block_within [OF c])
    have D: "bit (ik_Delta S) i = ik_s S i" using sync i by (simp add: synced_def bit_bool_to_block)
    have G: "ik_G0 S i = (if ik_s S i then ik_G1 R i else ik_G0 R i)" using sync i by (simp add: synced_def)
    have "msg ! (i * m + c div 128) = ?u i (c div 128)" unfolding msg_def by (rule rows_nth [OF i k])
    then have "fst fS (16 * i + c div 128) = key_stream (ik_G0 R i) (c div 128) XOR gate_blk (ik_s S i) (r (c div 128))"
      using S(2) [OF i k] by (simp add: G gate_blk_def xor_ac)
    then show "bit (trans_blocks junk' out' (fst fR) c) i
        = bit (trans_blocks junk out (fst fS) c XOR gate_blk (bit (r (c div 128)) (c mod 128)) (ik_Delta S)) i"
      using c len i R(2) [OF i k] D by (auto simp: bit_trans_blocks bit_xor_iff gate_blk_def)
  qed
  show thesis
  proof (rule that)
    show "recv_pre_block junk' out' r len R = (trans_blocks junk' out' (fst fR), msg, step_both 128 m R)"
      unfolding recv_pre_block_def lbs Let_def fR_def [symmetric] by (simp add: split_beta R(1))
    show "send_pre_block junk out len (msg @ rest) S = Some (trans_blocks junk out (fst fS), rest, step_G0 128 m S)" for rest
    proof -
      have "fold (send_row (128 * m) ((!) (take (128 * m) (msg @ rest)))) [0..<128] (junk, S) = fS"
        unfolding fS_def by (simp add: lm)
      then show ?thesis
        unfolding send_pre_block_def lbs Let_def recv_block_def by (simp add: lm split_beta S(1))
    qed
  qed (use bits trans_blocks_above in auto)
qed

lemma step_step [simp]:
  "step_G0 n a (step_G0 n b S) = step_G0 n (b + a) S" "step_both n a (step_both n b R) = step_both n (b + a) R"
  "step_G0 n 0 S = S" "step_both n 0 R = R"
  by (rule IKNP.equality; simp add: step_G0_def step_both_def fun_eq_iff)+

lemma full_block: "(block_size + 127) div 128 = 16" "j * block_size div 128 = 16 * j"
  by (simp_all add: block_size_def)

text \<open>The correlation up to index \<open>n\<close>, for choice bits \<open>b\<close>.\<close>

definition correlated :: "block \<Rightarrow> bool arr \<Rightarrow> nat \<Rightarrow> block arr \<Rightarrow> block arr \<Rightarrow> bool" where
  "correlated D b n oS oR \<longleftrightarrow> (\<forall>c<n. oR c = oS c XOR gate_blk (b c) D)"

lemma correlated_extend:
  assumes "correlated D b a oS oR" and "\<And>c. c < n \<Longrightarrow> pR c = pS c XOR gate_blk (b (a + c)) D"
  shows "correlated D b (a + n) (at_offset a oS pS) (at_offset a oR pR)"
    and "correlated D b (a + n) (put_blocks oS a pS n) (put_blocks oR a pR n)"
  using assms(1) assms(2) [of "_ - a"] by (auto simp: correlated_def at_offset_def put_blocks_eq)

definition bit_of :: "block arr \<Rightarrow> bool arr" where
  "bit_of r c = bit (r (c div 128)) (c mod 128)"

lemma bit_of_offset: "bit (r (16 * j + c div 128)) (c mod 128) = bit_of r (j * block_size + c)"
proof -
  have e: "j * block_size + c = c + 128 * (16 * j)" by (simp add: block_size_def)
  show ?thesis unfolding bit_of_def e mod_mult_self2 by (subst div_mult_self2) simp_all
qed

lemma pre_blocks:
  assumes sync: "synced S R"
  shows "\<exists>oR oS msg. recv_blocks junk' r n (out', [], R) = (oR, msg, step_both 128 (16 * n) R)
    \<and> (\<forall>rest. send_blocks junk n (out, msg @ rest, S) = Some (oS, rest, step_G0 128 (16 * n) S))
    \<and> correlated (ik_Delta S) (bit_of r) (n * block_size) oS oR"
proof (induction n)
  case 0
  show ?case by (simp add: recv_blocks_def correlated_def)
next
  case (Suc n)
  then obtain oR oS msg where IH: "recv_blocks junk' r n (out', [], R) = (oR, msg, step_both 128 (16 * n) R)"
    "\<And>rest. send_blocks junk n (out, msg @ rest, S) = Some (oS, rest, step_G0 128 (16 * n) S)"
    "correlated (ik_Delta S) (bit_of r) (n * block_size) oS oR"
    by blast
  have sync': "synced (step_G0 128 (16 * n) S) (step_both 128 (16 * n) R)" using sync by (rule synced_step)
  obtain pR pS c where blk: "recv_pre_block junk' (\<lambda>k. oR (n * block_size + k)) (\<lambda>k. r (16 * n + k)) block_size (step_both 128 (16 * n) R)
      = (pR, c, step_both 128 16 (step_both 128 (16 * n) R))"
    "\<And>rest. send_pre_block junk (\<lambda>k. oS (n * block_size + k)) block_size (c @ rest) (step_G0 128 (16 * n) S)
      = Some (pS, rest, step_G0 128 16 (step_G0 128 (16 * n) S))"
    "\<And>k. k < block_size \<Longrightarrow> pR k = pS k XOR gate_blk (bit (r (16 * n + k div 128)) (k mod 128)) (ik_Delta (step_G0 128 (16 * n) S))"
    by (rule pre_block [OF sync' order.refl, unfolded full_block, where junk' = junk' and junk = junk and r = "\<lambda>k. r (16 * n + k)"
          and out' = "\<lambda>k. oR (n * block_size + k)" and out = "\<lambda>k. oS (n * block_size + k)"]) blast
  have "correlated (ik_Delta S) (bit_of r) (n * block_size + block_size) (at_offset (n * block_size) oS pS) (at_offset (n * block_size) oR pR)"
    using blk(3) by (intro correlated_extend(1) IH(3)) (simp add: bit_of_offset)
  moreover have "recv_blocks junk' r (Suc n) (out', [], R) = (at_offset (n * block_size) oR pR, msg @ c, step_both 128 (16 * Suc n) R)"
    using IH(1) blk(1) by (simp add: recv_blocks_def full_block add.commute)
  moreover have "send_blocks junk (Suc n) (out, (msg @ c) @ rest, S) = Some (at_offset (n * block_size) oS pS, rest, step_G0 128 (16 * Suc n) S)" for rest
    using IH(2) [of "c @ rest"] blk(2) [of rest] by (simp add: add.commute)
  ultimately show ?case by (metis add.commute mult_Suc)
qed

lemma bit_of_pack:
  assumes "c < len" shows "bit_of (pack_r r len) c = r c"
proof (cases "c div 128 < len div 128")
  case True
  then show ?thesis by (simp add: bit_of_def pack_r_def bit_bool_to_block)
next
  case False
  then have d: "c div 128 = len div 128" using div_le_mono [of c len 128] assms by simp
  then have e: "len div 128 * 128 + c mod 128 = c" by (metis div_mult_mod_eq)
  have "c mod 128 < len mod 128" using assms d by (metis div_mod_decomp nat_add_left_cancel_less)
  with False show ?thesis by (simp add: bit_of_def pack_r_def bit_bool_to_block e)
qed

text \<open>What a call leaves unchanged in the sender.\<close>

definition same_sender :: "IKNP \<Rightarrow> IKNP \<Rightarrow> bool" where
  "same_sender S S' \<longleftrightarrow> ik_Delta S' = ik_Delta S \<and> ik_s S' = ik_s S \<and> ik_malicious S' = ik_malicious S"

lemma same_sender_refl [simp]: "same_sender S S"
  by (simp add: same_sender_def)

lemma local_step:
  assumes "synced S R" and "len \<le> block_size"
  obtains msg S' R' where "recv_local junk' r len R = (msg, R')"
    and "\<And>rest. send_local junk len (msg @ rest) S = Some (rest, S')"
    and "synced S' R'" and "same_sender S S'" and "ik_local_r R' = ik_local_r R" and "ik_malicious R' = ik_malicious R"
    and "correlated (ik_Delta S) (bit_of r) len (ik_local_out S') (ik_local_out R')"
proof -
  let ?m = "(len + 127) div 128"
  obtain oR oS msg where blk: "recv_pre_block junk' (ik_local_out R) r len R = (oR, msg, step_both 128 ?m R)"
    "\<And>rest. send_pre_block junk (ik_local_out S) len (msg @ rest) S = Some (oS, rest, step_G0 128 ?m S)"
    "\<And>c. c < len \<Longrightarrow> oR c = oS c XOR gate_blk (bit (r (c div 128)) (c mod 128)) (ik_Delta S)"
    by (rule pre_block [OF assms, where junk' = junk' and junk = junk and r = r
          and out' = "ik_local_out R" and out = "ik_local_out S"]) blast
  show thesis
    by (rule that [of msg "(step_both 128 ?m R)\<lparr>ik_local_out := oR\<rparr>" "(step_G0 128 ?m S)\<lparr>ik_local_out := oS\<rparr>"])
      (use blk synced_step [OF assms(1), of ?m] in
        \<open>simp_all add: recv_local_def send_local_def same_sender_def correlated_def bit_of_def\<close>)
qed

lemma pre_correlated:
  assumes sync: "synced S R"
  obtains oR oS msg S' R' where "recv_pre junk' rnd out' b len R = (oR, msg, R')"
    and "\<And>rest. send_pre junk out len (msg @ rest) S = Some (oS, rest, S')"
    and "synced S' R'" and "same_sender S S'" and "correlated (ik_Delta S) b len oS oR"
    and "ik_malicious S \<Longrightarrow> correlated (ik_Delta S) rnd 256 (ik_local_out S') (ik_local_out R') \<and> ik_local_r R' = rnd"
proof -
  define j where "j = len div block_size"
  define rem where "rem = len mod block_size"
  have len: "len = j * block_size + rem" and rem: "rem \<le> block_size"
    by (simp_all add: j_def rem_def block_size_def)
  let ?r = "pack_r b len" and ?D = "ik_Delta S"
  have choice: "bit_of ?r c = b c" if "c < len" for c using bit_of_pack [OF that] .
  obtain oR oS msg where full: "recv_blocks junk' ?r j (out', [], R) = (oR, msg, step_both 128 (16 * j) R)"
    "\<And>rest. send_blocks junk j (out, msg @ rest, S) = Some (oS, rest, step_G0 128 (16 * j) S)"
    "correlated ?D (bit_of ?r) (j * block_size) oS oR"
    using pre_blocks [OF sync] by blast
  have sync': "synced (step_G0 128 (16 * j) S) (step_both 128 (16 * j) R)" using sync by (rule synced_step)
  have c1: "correlated ?D b (j * block_size) oS oR" using full(3) choice by (simp add: correlated_def len)
  obtain oR1 oS1 c S1 R1 where part:
    "(if rem > 0 then let (c, st) = recv_local junk' (\<lambda>k. ?r (j * block_size div 128 + k)) rem (step_both 128 (16 * j) R)
              in (put_blocks oR (j * block_size) (ik_local_out st) rem, msg @ c, st)
            else (oR, msg, step_both 128 (16 * j) R)) = (oR1, msg @ c, R1)"
    "\<And>rest. (if rem > 0 then
                   case send_local junk rem (c @ rest) (step_G0 128 (16 * j) S) of
                     None \<Rightarrow> None
                   | Some (ch, st) \<Rightarrow> Some (put_blocks oS (j * block_size) (ik_local_out st) rem, ch, st)
                 else Some (oS, c @ rest, step_G0 128 (16 * j) S)) = Some (oS1, rest, S1)"
    "synced S1 R1" "same_sender S S1" "correlated ?D b len oS1 oR1"
  proof (cases "rem > 0")
    case True
    obtain c S1 R1 where l: "recv_local junk' (\<lambda>k. ?r (16 * j + k)) rem (step_both 128 (16 * j) R) = (c, R1)"
      "\<And>rest. send_local junk rem (c @ rest) (step_G0 128 (16 * j) S) = Some (rest, S1)"
      "synced S1 R1" "same_sender (step_G0 128 (16 * j) S) S1"
      "correlated (ik_Delta (step_G0 128 (16 * j) S)) (bit_of (\<lambda>k. ?r (16 * j + k))) rem (ik_local_out S1) (ik_local_out R1)"
      by (rule local_step [OF sync' rem]) blast
    have "bit_of (\<lambda>k. ?r (16 * j + k)) c = b (j * block_size + c)" if "c < rem" for c
      using choice [of "j * block_size + c"] that by (simp add: bit_of_offset [symmetric] len) (simp add: bit_of_def)
    with l(5) have "correlated ?D b (j * block_size + rem) (put_blocks oS (j * block_size) (ik_local_out S1) rem)
        (put_blocks oR (j * block_size) (ik_local_out R1) rem)"
      by (intro correlated_extend(2) c1) (simp add: correlated_def)
    then show thesis
      using that [of "put_blocks oR (j * block_size) (ik_local_out R1) rem" c R1 "put_blocks oS (j * block_size) (ik_local_out S1) rem" S1]
        l True by (simp add: full_block len [symmetric] same_sender_def)
  next
    case False
    then show thesis using that [of oR "[]" "step_both 128 (16 * j) R" oS "step_G0 128 (16 * j) S"] sync' c1 len
      by (simp add: same_sender_def)
  qed
  have mal: "ik_malicious R1 = ik_malicious S" "ik_malicious S1 = ik_malicious S" "ik_Delta S1 = ?D"
    using part(3,4) unfolding synced_def same_sender_def by metis+
  have recv: "recv_pre junk' rnd out' b len R =
      (if ik_malicious S then
         let (c', st) = recv_local junk' (\<lambda>k. bool_to_block (\<lambda>i. rnd (128 * k + i))) 256 (R1\<lparr>ik_local_r := rnd\<rparr>) in (oR1, (msg @ c) @ c', st)
       else (oR1, msg @ c, R1))"
    unfolding recv_pre_def Let_def j_def [symmetric] rem_def [symmetric] full(1) prod.case part(1) [unfolded Let_def] mal ..
  have send: "send_pre junk out len (msg @ c @ rest) S =
      (if ik_malicious S then
         case send_local junk 256 rest S1 of None \<Rightarrow> None | Some (ch, st) \<Rightarrow> Some (oS1, ch, st)
       else Some (oS1, rest, S1))" for rest
    unfolding send_pre_def Let_def j_def [symmetric] rem_def [symmetric] full(2) option.case prod.case part(2) mal ..
  show thesis
  proof (cases "ik_malicious S")
    case False
    then show thesis using that [of oR1 "msg @ c" R1 oS1 S1] recv send part by simp
  next
    case True
    obtain c2 S2 R2 where l: "recv_local junk' (\<lambda>k. bool_to_block (\<lambda>i. rnd (128 * k + i))) 256 (R1\<lparr>ik_local_r := rnd\<rparr>) = (c2, R2)"
      "\<And>rest. send_local junk 256 (c2 @ rest) S1 = Some (rest, S2)" "synced S2 R2" "same_sender S1 S2"
      "ik_local_r R2 = ik_local_r (R1\<lparr>ik_local_r := rnd\<rparr>)"
      "correlated (ik_Delta S1) (bit_of (\<lambda>k. bool_to_block (\<lambda>i. rnd (128 * k + i)))) 256 (ik_local_out S2) (ik_local_out R2)"
    proof -
      have "synced S1 (R1\<lparr>ik_local_r := rnd\<rparr>)" "(256 :: nat) \<le> block_size" using part(3) by (simp_all add: block_size_def)
      then show thesis
        by (rule local_step [where junk = junk and junk' = junk' and r = "\<lambda>k. bool_to_block (\<lambda>i. rnd (128 * k + i))"]) (rule that)
    qed
    have "bit_of (\<lambda>k. bool_to_block (\<lambda>i. rnd (128 * k + i))) c = rnd c" for c
      by (simp add: bit_of_def bit_bool_to_block)
    then show thesis
      using that [of oR1 "msg @ c @ c2" R2 oS1 S2] recv send True l part mal
      by (simp add: correlated_def same_sender_def)
  qed
qed

subsection \<open>The check passes on correlated outputs\<close>

lemma inner_product_eq:
  "vector_inn_prdt_sum_no_red a b n = (xsum (\<lambda>i. fst (mul128 (a i) (b i))) [0..<n], xsum (\<lambda>i. snd (mul128 (a i) (b i))) [0..<n])"
  unfolding vector_inn_prdt_sum_no_red_def by (induction n) (simp_all add: split_beta Let_def)

lemma mul128_gate: "mul128 c (gate_blk b D) = mul128 (gate_blk b c) D"
  by (cases b) simp_all

lemma mul128_xsum_left: "mul128 (xsum f is) D = (xsum (\<lambda>i. fst (mul128 (f i) D)) is, xsum (\<lambda>i. snd (mul128 (f i) D)) is)"
  by (induction "is") (simp_all add: mul128_xor_left xor_pair_def)

lemma inner_product_correlated:
  assumes "\<And>k. k < n \<Longrightarrow> oR k = oS k XOR gate_blk (r k) D"
  shows "vector_inn_prdt_sum_no_red chi oR n
    = xor_pair (vector_inn_prdt_sum_no_red chi oS n) (mul128 (xsum (\<lambda>k. gate_blk (r k) (chi k)) [0..<n]) D)"
proof -
  have "mul128 (chi k) (oR k) = xor_pair (mul128 (chi k) (oS k)) (mul128 (gate_blk (r k) (chi k)) D)" if "k \<in> set [0..<n]" for k
    using assms [of k] that by (simp add: mul128_xor_right mul128_gate)
  then have "xsum (\<lambda>k. fst (mul128 (chi k) (oR k))) [0..<n] = xsum (\<lambda>k. fst (mul128 (chi k) (oS k)) XOR fst (mul128 (gate_blk (r k) (chi k)) D)) [0..<n]"
    "xsum (\<lambda>k. snd (mul128 (chi k) (oR k))) [0..<n] = xsum (\<lambda>k. snd (mul128 (chi k) (oS k)) XOR snd (mul128 (gate_blk (r k) (chi k)) D)) [0..<n]"
    by (intro xsum_cong refl; simp add: xor_pair_def)+
  then show ?thesis
    unfolding inner_product_eq mul128_xsum_left xor_pair_def fst_conv snd_conv by (simp only: xsum_xor)
qed

definition sums_match :: "block \<Rightarrow> (block \<times> block) \<times> PRG \<Rightarrow> (block \<times> block) \<times> block \<times> PRG \<Rightarrow> bool" where
  "sums_match D = (\<lambda>(q, g) (t, x, g'). g' = g \<and> t = xor_pair q (mul128 x D))"

lemma chunk_match:
  assumes "sums_match D s s'" and "\<And>k. k < n \<Longrightarrow> oR (off + k) = oS (off + k) XOR gate_blk (r (off + k)) D"
  shows "sums_match D (send_chunk oS off N n s) (recv_chunk oR r off N n s')"
proof -
  obtain q g where s: "s = (q, g)" by fastforce
  obtain t x g' where s'': "s' = (t, x, g')" by (rule prod_cases3) blast
  then have s': "s' = (t, x, g)" and t: "t = xor_pair q (mul128 x D)"
    using assms(1) by (simp_all add: sums_match_def s)
  show ?thesis
    unfolding s s' send_chunk_def recv_chunk_def sums_match_def
    by (simp add: random_block_eq Let_def inner_product_correlated [where r = "\<lambda>k. r (off + k)" and oR = "\<lambda>k. oR (off + k)" and oS = "\<lambda>k. oS (off + k)" and D = D, OF assms(2)]
        fold_xor_xsum mul128_xor_left t xor_pair_def xor_ac cong: xsum_cong)
qed

lemma check_passes:
  assumes "correlated (ik_Delta S) b len oS oR" and "correlated (ik_Delta S) (ik_local_r R) 256 (ik_local_out S) (ik_local_out R)"
  shows "send_check oS len (recv_check seed2 oR b len R @ rest) S = Some (True, rest)"
proof -
  let ?D = "ik_Delta S"
  have c: "oR k = oS k XOR gate_blk (b k) ?D" if "k < len" for k using assms(1) that by (simp add: correlated_def)
  have l: "ik_local_out R k = ik_local_out S k XOR gate_blk (ik_local_r R k) ?D" if "k < 256" for k
    using assms(2) that by (simp add: correlated_def)
  define s0 where "s0 = ((zero_block, zero_block), reseed seed2 0)"
  define s0' where "s0' = ((zero_block, zero_block), zero_block, reseed seed2 0)"
  define s1 where "s1 = fold (\<lambda>i. send_chunk oS (i * block_size) block_size block_size) [0..<len div block_size] s0"
  define s1' where "s1' = fold (\<lambda>i. recv_chunk oR b (i * block_size) block_size block_size) [0..<len div block_size] s0'"
  define s2 where "s2 = (if len mod block_size \<noteq> 0 then send_chunk oS (len - len mod block_size) block_size (len mod block_size) s1 else s1)"
  define s2' where "s2' = (if len mod block_size \<noteq> 0 then recv_chunk oR b (len - len mod block_size) block_size (len mod block_size) s1' else s1')"
  have "sums_match ?D s0 s0'" by (simp add: sums_match_def s0_def s0'_def xor_pair_def)
  then have "sums_match ?D s1 s1'" unfolding s1_def s1'_def
  proof (rule fold_related [where R = "sums_match ?D"])
    fix i s t assume i: "i \<in> set [0..<len div block_size]" and st: "sums_match ?D s t"
    have "Suc i * block_size \<le> len"
      using order_trans [OF mult_le_mono1 [of "Suc i" "len div block_size" block_size] div_times_less_eq_dividend] i by simp
    then show "sums_match ?D (send_chunk oS (i * block_size) block_size block_size s) (recv_chunk oR b (i * block_size) block_size block_size t)"
      by (intro chunk_match st c) simp
  qed
  moreover have "len - len mod block_size + k < len" if "k < len mod block_size" for k
    using mod_less_eq_dividend [of len block_size] that by linarith
  ultimately have "sums_match ?D s2 s2'" unfolding s2_def s2'_def
    using c by (simp add: chunk_match del: mod_less_eq_dividend)
  then have "sums_match ?D (send_chunk (ik_local_out S) 0 256 256 s2) (recv_chunk (ik_local_out R) (ik_local_r R) 0 256 256 s2')"
    using l by (intro chunk_match) auto
  then obtain q g t x where sent: "send_chunk (ik_local_out S) 0 256 256 s2 = (q, g)"
      "recv_chunk (ik_local_out R) (ik_local_r R) 0 256 256 s2' = (t, x, g)" and t: "t = xor_pair q (mul128 x ?D)"
    by (auto simp: sums_match_def split_beta prod_eq_iff)
  have "recv_check seed2 oR b len R = [seed2, x, fst t, snd t]"
    unfolding recv_check_def Let_def s0'_def [symmetric] s1'_def [symmetric] s2'_def [symmetric] sent by simp
  moreover have "fold (\<lambda>i. send_chunk oS (i * block_size) block_size block_size) [0..<len div block_size]
      ((zero_block, zero_block), reseed seed2 0) = s1" by (simp add: s1_def s0_def)
  ultimately show ?thesis
    unfolding send_check_def Let_def recv_block_def
    using s2_def sent t by (simp add: cmpBlock_iff numeral_2_eq_2 less_Suc_eq xor_pair_def split: if_splits)
qed

text \<open>The two calls together.\<close>

lemma cot_run:
  assumes "synced S R"
  obtains oR oS msg S' R' where "IKNP_recv_cot junk' rnd seed2 out' b len R = (oR, msg, R')"
    and "\<And>rest. IKNP_send_cot junk out len (msg @ rest) S = Some (Inr (oS, rest, S'))"
    and "synced S' R'" and "same_sender S S'" and "correlated (ik_Delta S) b len oS oR"
proof -
  obtain oR oS msg S' R' where pre: "recv_pre junk' rnd out' b len R = (oR, msg, R')"
    "\<And>rest. send_pre junk out len (msg @ rest) S = Some (oS, rest, S')"
    "synced S' R'" "same_sender S S'" "correlated (ik_Delta S) b len oS oR"
    "ik_malicious S \<Longrightarrow> correlated (ik_Delta S) rnd 256 (ik_local_out S') (ik_local_out R') \<and> ik_local_r R' = rnd"
    by (rule pre_correlated [OF assms]) blast
  have m: "ik_malicious S' = ik_malicious S" "ik_malicious R' = ik_malicious S" "ik_Delta S' = ik_Delta S"
    using pre(3,4) unfolding synced_def same_sender_def by metis+
  show thesis
  proof (cases "ik_malicious S")
    case True
    have "send_check oS len (recv_check seed2 oR b len R' @ rest) S' = Some (True, rest)" for rest
      using pre(5,6) True m by (intro check_passes) auto
    with True show thesis
      using that [of oR "msg @ recv_check seed2 oR b len R'" R' oS S'] pre m
      by (simp add: IKNP_recv_cot_def IKNP_send_cot_def)
  next
    case False
    then show thesis
      using that [of oR msg R' oS S'] pre m by (simp add: IKNP_recv_cot_def IKNP_send_cot_def)
  qed
qed

end
