(* ===== verification/BaseOT.thy ===== *)
theory BaseOT
  imports Helper
begin

text \<open>
  The base oblivious transfers of \<^verbatim>\<open>emp-ot\<close>: Chou and Orlandi (\<^verbatim>\<open>co.h\<close>) and Naor and Pinkas
  (\<^verbatim>\<open>np.h\<close>), with \<^verbatim>\<open>Hash::KDF\<close>.  The elliptic-curve group is OpenSSL's; its operations are a record of
  functions and \<open>group_laws\<close> states what the two protocols rely on.  Points travel as points; the
  random scalars drawn by \<^verbatim>\<open>get_rand_bn\<close> are arguments.
\<close>

record 'g group_ops =
  gr_order :: int
  gr_mul_gen :: "int \<Rightarrow> 'g"
  gr_mul :: "'g \<Rightarrow> int \<Rightarrow> 'g"
  gr_add :: "'g \<Rightarrow> 'g \<Rightarrow> 'g"
  gr_inv :: "'g \<Rightarrow> 'g"
  gr_to_bin :: "'g \<Rightarrow> bytes"

text \<open>An abelian group, scalar multiplication, and a generator of the given order.\<close>

definition group_laws :: "'g group_ops \<Rightarrow> bool" where
  "group_laws G \<longleftrightarrow>
     (\<forall>P Q R. gr_add G (gr_add G P Q) R = gr_add G P (gr_add G Q R)) \<and> (\<forall>P Q. gr_add G P Q = gr_add G Q P)
     \<and> (\<forall>P Q. gr_add G (gr_add G P Q) (gr_inv G Q) = P)
     \<and> (\<forall>P Q a. gr_mul G (gr_add G P Q) a = gr_add G (gr_mul G P a) (gr_mul G Q a))
     \<and> (\<forall>P a. gr_mul G (gr_inv G P) a = gr_inv G (gr_mul G P a))
     \<and> (\<forall>a b. gr_mul G (gr_mul_gen G a) b = gr_mul_gen G (a * b))
     \<and> (\<forall>a. gr_mul_gen G (a mod gr_order G) = gr_mul_gen G a)"

definition bytes64 :: "64 word \<Rightarrow> bytes" where
  "bytes64 w = map (\<lambda>i. ucast (drop_bit (8 * i) w)) [0..<8]"

definition KDF :: "(bytes \<Rightarrow> bytes) \<Rightarrow> 'g group_ops \<Rightarrow> 'g \<Rightarrow> 64 word \<Rightarrow> block" where
  "KDF sha G P i = hash_for_block sha (gr_to_bin G P @ bytes64 i)"

subsection \<open>co.h\<close>

definition co_A :: "'g group_ops \<Rightarrow> int \<Rightarrow> 'g" where
  "co_A G a = gr_mul_gen G a"

definition co_B :: "'g group_ops \<Rightarrow> bool arr \<Rightarrow> int arr \<Rightarrow> 'g \<Rightarrow> 'g arr" where
  "co_B G b bb A = (\<lambda>i. let B = gr_mul_gen G (bb i) in if b i then gr_add G B A else B)"

definition co_res :: "(bytes \<Rightarrow> bytes) \<Rightarrow> 'g group_ops \<Rightarrow> int \<Rightarrow> block arr \<Rightarrow> block arr \<Rightarrow> 'g arr \<Rightarrow> (block \<times> block) arr" where
  "co_res sha G a data0 data1 B = (\<lambda>i.
     let A = co_A G a; AaInv = gr_inv G (gr_mul G A a);
         Bi = gr_mul G (B i) a; BA = gr_add G Bi AaInv
     in (KDF sha G Bi (of_nat i) XOR data0 i, KDF sha G BA (of_nat i) XOR data1 i))"

definition co_data :: "(bytes \<Rightarrow> bytes) \<Rightarrow> 'g group_ops \<Rightarrow> bool arr \<Rightarrow> int arr \<Rightarrow> 'g \<Rightarrow> (block \<times> block) arr \<Rightarrow> block arr" where
  "co_data sha G b bb A res = (\<lambda>i.
     let data = KDF sha G (gr_mul G A (bb i)) (of_nat i)
     in if b i then data XOR snd (res i) else data XOR fst (res i))"

text \<open>The receiver's output in an honest run.\<close>

definition co_run :: "(bytes \<Rightarrow> bytes) \<Rightarrow> 'g group_ops \<Rightarrow> int \<Rightarrow> int arr \<Rightarrow> block arr \<Rightarrow> block arr \<Rightarrow> bool arr \<Rightarrow> block arr" where
  "co_run sha G a bb data0 data1 b =
     (let A = co_A G a; B = co_B G b bb A in co_data sha G b bb A (co_res sha G a data0 data1 B))"

lemma group_lawsD:
  assumes "group_laws G"
  shows "gr_add G (gr_add G P Q) (gr_inv G Q) = P" "gr_mul G (gr_add G P Q) a = gr_add G (gr_mul G P a) (gr_mul G Q a)"
    "gr_mul G (gr_inv G P) a = gr_inv G (gr_mul G P a)" "gr_mul G (gr_mul_gen G c) a = gr_mul_gen G (c * a)"
    "gr_mul_gen G (c mod gr_order G) = gr_mul_gen G c"
  using assms by (auto simp: group_laws_def)

lemma co_run_eq:
  assumes "group_laws G"
  shows "co_run sha G a bb data0 data1 b i = (if b i then data1 i else data0 i)"
  by (simp add: co_run_def co_A_def co_B_def co_res_def co_data_def Let_def group_lawsD [OF assms] mult.commute)

subsection \<open>np.h\<close>

definition np_pk0 :: "'g group_ops \<Rightarrow> bool arr \<Rightarrow> int arr \<Rightarrow> 'g \<Rightarrow> 'g arr" where
  "np_pk0 G b k C = (\<lambda>i. if b i then gr_add G C (gr_inv G (gr_mul_gen G (k i))) else gr_mul_gen G (k i))"

definition np_gr :: "'g group_ops \<Rightarrow> int arr \<Rightarrow> 'g arr" where
  "np_gr G r = (\<lambda>i. gr_mul_gen G (r i))"

definition np_res :: "(bytes \<Rightarrow> bytes) \<Rightarrow> 'g group_ops \<Rightarrow> int \<Rightarrow> int arr \<Rightarrow> block arr \<Rightarrow> block arr \<Rightarrow> 'g arr \<Rightarrow> (block \<times> block) arr" where
  "np_res sha G d r data0 data1 pk0 = (\<lambda>i.
     let Cr = gr_mul_gen G (r i * d mod gr_order G);
         pk0i = gr_mul G (pk0 i) (r i);
         pk1 = gr_add G Cr (gr_inv G pk0i)
     in (KDF sha G pk0i 1 XOR data0 i, KDF sha G pk1 1 XOR data1 i))"

definition np_data :: "(bytes \<Rightarrow> bytes) \<Rightarrow> 'g group_ops \<Rightarrow> bool arr \<Rightarrow> int arr \<Rightarrow> 'g arr \<Rightarrow> (block \<times> block) arr \<Rightarrow> block arr" where
  "np_data sha G b k gr m = (\<lambda>i. (if b i then snd (m i) else fst (m i)) XOR KDF sha G (gr_mul G (gr i) (k i)) 1)"

definition np_run :: "(bytes \<Rightarrow> bytes) \<Rightarrow> 'g group_ops \<Rightarrow> int \<Rightarrow> int arr \<Rightarrow> int arr \<Rightarrow> block arr \<Rightarrow> block arr \<Rightarrow> bool arr \<Rightarrow> block arr" where
  "np_run sha G d r k data0 data1 b =
     (let C = gr_mul_gen G d; pk0 = np_pk0 G b k C
      in np_data sha G b k (np_gr G r) (np_res sha G d r data0 data1 pk0))"

lemma group_laws_sub:
  assumes "group_laws G"
  shows "gr_add G P (gr_inv G (gr_add G P (gr_inv G Q))) = Q"
proof -
  note G = assms [unfolded group_laws_def]
  have cancel: "gr_add G (gr_add G X Y) (gr_inv G Y) = X" for X Y using G by blast
  have assoc: "gr_add G (gr_add G X Y) Z = gr_add G X (gr_add G Y Z)" for X Y Z using G by blast
  have comm: "gr_add G X Y = gr_add G Y X" for X Y using G by blast
  have "gr_add G Q (gr_add G P (gr_inv G Q)) = P"
    using cancel [of P Q] by (metis assoc comm)
  then show ?thesis using cancel [of Q "gr_add G P (gr_inv G Q)"] by simp
qed

lemma np_run_eq:
  assumes "group_laws G"
  shows "np_run sha G d r k data0 data1 b i = (if b i then data1 i else data0 i)"
  by (simp add: np_run_def np_pk0_def np_res_def np_data_def np_gr_def Let_def group_lawsD [OF assms]
      group_laws_sub [OF assms] mult.commute xor_ac)

text \<open>
  C18.  Both base transfers are correct: whatever the random scalars, the receiver ends up with the first
  message where its choice bit is clear and with the second where it is set.
\<close>

theorem base_ot_correct:
  assumes "group_laws G"
  shows "co_run sha G a bb data0 data1 b i = (if b i then data1 i else data0 i)
    \<and> np_run sha G d r k data0 data1 b i = (if b i then data1 i else data0 i)"
  using co_run_eq [OF assms] np_run_eq [OF assms] by simp

theorem base_ot_correct_witness:
  "co_run (\<lambda>x. x) \<lparr>gr_order = 0, gr_mul_gen = (\<lambda>a. a), gr_mul = (*), gr_add = (+), gr_inv = uminus, gr_to_bin = (\<lambda>P. [of_int P])\<rparr>
     5 (\<lambda>i. int i) (\<lambda>i. 1) (\<lambda>i. 2) (\<lambda>i. even i) 4 = 2
   \<and> np_run (\<lambda>x. x) \<lparr>gr_order = 0, gr_mul_gen = (\<lambda>a. a), gr_mul = (*), gr_add = (+), gr_inv = uminus, gr_to_bin = (\<lambda>P. [of_int P])\<rparr>
     5 (\<lambda>i. 3) (\<lambda>i. int i) (\<lambda>i. 1) (\<lambda>i. 2) (\<lambda>i. even i) 4 = 2"
proof -
  let ?G = "\<lparr>gr_order = 0, gr_mul_gen = (\<lambda>a. a), gr_mul = (*), gr_add = (+), gr_inv = uminus, gr_to_bin = (\<lambda>P. [of_int P])\<rparr> :: int group_ops"
  have "group_laws ?G" by (simp add: group_laws_def algebra_simps)
  from base_ot_correct [OF this, of "\<lambda>x. x" 5 "\<lambda>i. int i" "\<lambda>i. 1" "\<lambda>i. 2" "\<lambda>i. even i" 4 5 "\<lambda>i. 3" "\<lambda>i. int i"]
  show ?thesis by simp
qed

end
