(* ===== verification/Cot.thy ===== *)
theory Cot
  imports Iknp BaseOT
begin

text \<open>
  \<^verbatim>\<open>emp-ot/cot.h\<close>: oblivious transfer and random oblivious transfer from any correlated oblivious transfer.
  The two virtual functions \<^verbatim>\<open>send_cot\<close> and \<^verbatim>\<open>recv_cot\<close> of the class are arguments of the definitions; the
  locale \<open>correlated_ot\<close> says what they promise, the client's lemmas are proved from it, and \<^verbatim>\<open>IKNP\<close> is
  shown to be a provider.
\<close>

definition ot_bsize :: nat where "ot_bsize = 8"

subsection \<open>The loops\<close>

definition hash_pad :: "nat \<Rightarrow> block arr \<Rightarrow> MITCCRH \<Rightarrow> block arr \<times> MITCCRH" where
  "hash_pad H pad h =
     (let (l, h) = mi_hash ot_bsize ot_bsize H (map pad [0..<ot_bsize * H]) h
      in (\<lambda>k. if k < ot_bsize * H then l ! k else pad k, h))"

definition fill_pad :: "block arr \<Rightarrow> block \<Rightarrow> nat \<Rightarrow> nat \<Rightarrow> block arr \<Rightarrow> block arr" where
  "fill_pad data Delta i len pad =
     fold (\<lambda>j pad. pad(2 * (j - i) := data j, 2 * (j - i) + 1 := data j XOR Delta)) [i..<min (i + ot_bsize) len] pad"

definition send_chunk_ot ::
  "block arr \<Rightarrow> block \<Rightarrow> block arr \<Rightarrow> block arr \<Rightarrow> nat \<Rightarrow> nat \<Rightarrow> block arr \<times> channel \<times> MITCCRH \<Rightarrow> block arr \<times> channel \<times> MITCCRH" where
  "send_chunk_ot data Delta data0 data1 len i = (\<lambda>(pad, out, h).
     let pad = fill_pad data Delta i len pad;
         (pad, h) = hash_pad 2 pad h;
         pad = fold (\<lambda>j pad. pad(2 * (j - i) := pad (2 * (j - i)) XOR data0 j, 2 * (j - i) + 1 := pad (2 * (j - i) + 1) XOR data1 j))
                 [i..<min (i + ot_bsize) len] pad
     in (pad, out @ map pad [0..<2 * min ot_bsize (len - i)], h))"

definition chunk_starts :: "nat \<Rightarrow> nat list" where
  "chunk_starts len = map (\<lambda>k. k * ot_bsize) [0..<(len + ot_bsize - 1) div ot_bsize]"

text \<open>\<open>s\<close> is the block drawn from \<^verbatim>\<open>prg\<close>.\<close>

definition cot_send ::
  "(nat \<Rightarrow> channel \<Rightarrow> 's \<Rightarrow> (cot_error + block arr \<times> channel \<times> 's) option) \<Rightarrow> block \<Rightarrow> block \<Rightarrow> block arr \<Rightarrow> block arr \<Rightarrow> block arr
   \<Rightarrow> nat \<Rightarrow> channel \<Rightarrow> 's \<times> MITCCRH \<Rightarrow> (cot_error + channel \<times> channel \<times> 's \<times> MITCCRH) option" where
  "cot_send send_cot Delta s junk data0 data1 len ch = (\<lambda>(st, h).
     case send_cot len ch st of None \<Rightarrow> None | Some (Inl e) \<Rightarrow> Some (Inl e) | Some (Inr (data, ch, st)) \<Rightarrow>
       (let h = setS s h;
            (pad, out, h) = fold (send_chunk_ot data Delta data0 data1 len) (chunk_starts len) (junk, [s], h)
        in Some (Inr (out, ch, st, h))))"

definition recv_chunk_ot ::
  "bool arr \<Rightarrow> nat \<Rightarrow> nat \<Rightarrow> block arr \<times> block arr \<times> block arr \<times> channel \<times> MITCCRH
   \<Rightarrow> (block arr \<times> block arr \<times> block arr \<times> channel \<times> MITCCRH) option" where
  "recv_chunk_ot r len i = (\<lambda>(data, pad, res, ch, h).
     let n = min ot_bsize (len - i);
         pad = put_blocks pad 0 (\<lambda>k. data (i + k)) n;
         (pad, h) = hash_pad 1 pad h
     in case recv_block (2 * n) ch of None \<Rightarrow> None | Some (l, ch) \<Rightarrow>
          (let res = put_blocks res 0 (\<lambda>k. l ! k) (2 * n);
               data = fold (\<lambda>j data. data(i + j := res (2 * j + of_bool (r (i + j))) XOR pad j)) [0..<n] data
           in Some (data, pad, res, ch, h)))"

fun recv_chunks_ot ::
  "bool arr \<Rightarrow> nat \<Rightarrow> nat list \<Rightarrow> block arr \<times> block arr \<times> block arr \<times> channel \<times> MITCCRH
   \<Rightarrow> (block arr \<times> block arr \<times> block arr \<times> channel \<times> MITCCRH) option" where
  "recv_chunks_ot r len [] s = Some s"
| "recv_chunks_ot r len (i # is) s = (case recv_chunk_ot r len i s of None \<Rightarrow> None | Some s \<Rightarrow> recv_chunks_ot r len is s)"

text \<open>First the correlated transfer (its messages go out), then the chunks from the sender's channel.\<close>

definition cot_recv_start :: "(bool arr \<Rightarrow> nat \<Rightarrow> 'r \<Rightarrow> block arr \<times> channel \<times> 'r) \<Rightarrow> bool arr \<Rightarrow> nat \<Rightarrow> 'r \<Rightarrow> block arr \<times> channel \<times> 'r" where
  "cot_recv_start recv_cot r len st = recv_cot r len st"

definition cot_recv_finish ::
  "block arr \<Rightarrow> bool arr \<Rightarrow> nat \<Rightarrow> block arr \<Rightarrow> channel \<Rightarrow> MITCCRH \<Rightarrow> (block arr \<times> channel \<times> MITCCRH) option" where
  "cot_recv_finish junk r len data ch h =
     (case recv_block 1 ch of None \<Rightarrow> None | Some (s, ch) \<Rightarrow>
        (case recv_chunks_ot r len (chunk_starts len) (data, junk, junk, ch, setS (s ! 0) h) of
           None \<Rightarrow> None | Some (data, pad, res, ch, h) \<Rightarrow> Some (data, ch, h)))"

subsection \<open>Random oblivious transfer\<close>

definition send_chunk_rot ::
  "block \<Rightarrow> nat \<Rightarrow> nat \<Rightarrow> block arr \<times> block arr \<times> block arr \<times> MITCCRH \<Rightarrow> block arr \<times> block arr \<times> block arr \<times> MITCCRH" where
  "send_chunk_rot Delta len i = (\<lambda>(data0, data1, pad, h).
     let pad = fill_pad data0 Delta i len pad;
         (pad, h) = hash_pad 2 pad h;
         n = min ot_bsize (len - i)
     in (put_blocks data0 i (\<lambda>k. pad (2 * k)) n, put_blocks data1 i (\<lambda>k. pad (2 * k + 1)) n, pad, h))"

definition cot_send_rot ::
  "(nat \<Rightarrow> channel \<Rightarrow> 's \<Rightarrow> (cot_error + block arr \<times> channel \<times> 's) option) \<Rightarrow> block \<Rightarrow> block \<Rightarrow> block arr \<Rightarrow> block arr
   \<Rightarrow> nat \<Rightarrow> channel \<Rightarrow> 's \<times> MITCCRH \<Rightarrow> (cot_error + (block arr \<times> block arr) \<times> channel \<times> channel \<times> 's \<times> MITCCRH) option" where
  "cot_send_rot send_cot Delta s junk data1 len ch = (\<lambda>(st, h).
     case send_cot len ch st of None \<Rightarrow> None | Some (Inl e) \<Rightarrow> Some (Inl e) | Some (Inr (data0, ch, st)) \<Rightarrow>
       (let h = setS s h;
            (data0, data1, pad, h) = fold (send_chunk_rot Delta len) (chunk_starts len) (data0, data1, junk, h)
        in Some (Inr ((data0, data1), [s], ch, st, h))))"

definition recv_chunk_rot :: "nat \<Rightarrow> nat \<Rightarrow> block arr \<times> block arr \<times> MITCCRH \<Rightarrow> block arr \<times> block arr \<times> MITCCRH" where
  "recv_chunk_rot len i = (\<lambda>(data, pad, h).
     let n = min ot_bsize (len - i);
         pad = put_blocks pad 0 (\<lambda>k. data (i + k)) n;
         (pad, h) = hash_pad 1 pad h
     in (put_blocks data i pad n, pad, h))"

definition cot_recv_rot_finish :: "block arr \<Rightarrow> nat \<Rightarrow> block arr \<Rightarrow> channel \<Rightarrow> MITCCRH \<Rightarrow> (block arr \<times> channel \<times> MITCCRH) option" where
  "cot_recv_rot_finish junk len data ch h =
     (case recv_block 1 ch of None \<Rightarrow> None | Some (s, ch) \<Rightarrow>
        (let (data, pad, h) = fold (recv_chunk_rot len) (chunk_starts len) (data, junk, setS (s ! 0) h) in Some (data, ch, h)))"

subsection \<open>One chunk\<close>

text \<open>Between calls all keys of a batch are used up, so a new start point takes effect with the next hash.\<close>

definition fresh :: "MITCCRH \<Rightarrow> bool" where
  "fresh h \<longleftrightarrow> mi_key_used h = ot_bsize"

lemma fresh_new [simp]: "fresh (MITCCRH_new ot_bsize)" and fresh_setS [simp]: "fresh (setS s h) = fresh h"
  by (simp_all add: fresh_def MITCCRH_new_def setS_def)

definition next_hash :: "MITCCRH \<Rightarrow> MITCCRH" where
  "next_hash h = snd (mi_hash ot_bsize ot_bsize 1 (replicate ot_bsize 0) h)"

lemma hash_pad_eq:
  assumes "fresh h" and "0 < H"
  shows "hash_pad H pad h = (\<lambda>k. if k < ot_bsize * H then mi_fun ot_bsize h (k div H) (pad k) else pad k, next_hash h)"
    and "fresh (next_hash h)"
proof -
  have ready: "mi_ready ot_bsize h" using assms(1) by (simp add: fresh_def mi_ready_def)
  have used: "ot_bsize dvd mi_key_used h" using assms(1) by (simp add: fresh_def)
  note eq = mi_hash_eq [OF ready _ dvd_refl used, of "map pad [0..<ot_bsize * H]" H]
  have "snd (mi_hash ot_bsize ot_bsize H (map pad [0..<ot_bsize * H]) h) = next_hash h"
    unfolding next_hash_def by (rule mi_hash_eq(5) [OF ready _ dvd_refl used]) (simp_all add: ot_bsize_def)
  moreover have "0 < ot_bsize" by (simp add: ot_bsize_def)
  ultimately show "hash_pad H pad h = (\<lambda>k. if k < ot_bsize * H then mi_fun ot_bsize h (k div H) (pad k) else pad k, next_hash h)"
    using eq(1) by (auto simp: hash_pad_def split_beta Let_def)
  show "fresh (next_hash h)"
    using assms(1) by (simp add: next_hash_def fresh_def mi_hash_def Let_def renew_ks_def)
qed

definition chunk_len :: "nat \<Rightarrow> nat \<Rightarrow> nat" where
  "chunk_len len i = min ot_bsize (len - i)"

lemma chunk_range: "i \<le> len \<Longrightarrow> min (i + ot_bsize) len = i + chunk_len len i"
  by (auto simp: chunk_len_def min_def)

text \<open>The two loops over the pairs of a chunk.\<close>

lemma fill_pairs:
  "fold (\<lambda>j p. p(2 * (j - i) := f j, 2 * (j - i) + 1 := g j)) [i..<i + n] p k
     = (if k < 2 * n then if odd k then g (i + k div 2) else f (i + k div 2) else p k)"
proof (induction n)
  case (Suc n)
  have "k < 2 * Suc n \<longleftrightarrow> k < 2 * n \<or> k = 2 * n \<or> k = 2 * n + 1" by auto
  with Suc show ?case by auto
qed simp

lemma xor_pairs:
  "fold (\<lambda>j p. p(2 * (j - i) := p (2 * (j - i)) XOR f j, 2 * (j - i) + 1 := p (2 * (j - i) + 1) XOR g j)) [i..<i + n] (p :: block arr) k
     = (if k < 2 * n then p k XOR (if odd k then g (i + k div 2) else f (i + k div 2)) else p k)"
proof (induction n arbitrary: k)
  case (Suc n)
  have "k < 2 * Suc n \<longleftrightarrow> k < 2 * n \<or> k = 2 * n \<or> k = 2 * n + 1" by auto
  with Suc show ?case by auto
qed simp

definition pad_of :: "MITCCRH \<Rightarrow> block arr \<Rightarrow> block \<Rightarrow> nat \<Rightarrow> block arr" where
  "pad_of h data D i = (\<lambda>k. mi_fun ot_bsize h (k div 2) (data (i + k div 2) XOR gate_blk (odd k) D))"

definition chunk_msg :: "MITCCRH \<Rightarrow> block arr \<Rightarrow> block \<Rightarrow> block arr \<Rightarrow> block arr \<Rightarrow> nat \<Rightarrow> nat \<Rightarrow> block list" where
  "chunk_msg h data D data0 data1 len i =
     map (\<lambda>k. pad_of h data D i k XOR (if odd k then data1 (i + k div 2) else data0 (i + k div 2))) [0..<2 * chunk_len len i]"

lemma chunk_len_le: "k < 2 * chunk_len len i \<Longrightarrow> k < ot_bsize * 2" "j < chunk_len len i \<Longrightarrow> j < ot_bsize"
  by (simp_all add: chunk_len_def)

lemma hashed_pad:
  assumes "fresh h" and "i \<le> len"
  shows "\<exists>pad'. hash_pad 2 (fill_pad data D i len pad) h = (pad', next_hash h)
     \<and> (\<forall>k < 2 * chunk_len len i. pad' k = pad_of h data D i k)"
  using chunk_len_le(1) unfolding hash_pad_eq(1) [OF assms(1), of 2, simplified] fill_pad_def chunk_range [OF assms(2)] fill_pairs
  by (auto simp: pad_of_def)

lemma send_chunk_ot_eq:
  assumes "fresh h" and "i \<le> len"
  shows "\<exists>pad'. send_chunk_ot data D data0 data1 len i (pad, out, h)
     = (pad', out @ chunk_msg h data D data0 data1 len i, next_hash h)"
proof -
  obtain pad' where p: "hash_pad 2 (fill_pad data D i len pad) h = (pad', next_hash h)"
    "\<And>k. k < 2 * chunk_len len i \<Longrightarrow> pad' k = pad_of h data D i k"
    using hashed_pad [OF assms] by blast
  show ?thesis
    unfolding send_chunk_ot_def prod.case p(1) Let_def chunk_range [OF assms(2)] chunk_len_def [symmetric]
    by (auto simp: chunk_msg_def xor_pairs [simplified] p(2))
qed

lemma send_chunk_rot_eq:
  assumes "fresh h" and "i \<le> len"
  shows "\<exists>pad'. send_chunk_rot D len i (data0, data1, pad, h)
     = (put_blocks data0 i (\<lambda>k. mi_fun ot_bsize h k (data0 (i + k))) (chunk_len len i),
        put_blocks data1 i (\<lambda>k. mi_fun ot_bsize h k (data0 (i + k) XOR D)) (chunk_len len i), pad', next_hash h)"
proof -
  obtain pad' where p: "hash_pad 2 (fill_pad data0 D i len pad) h = (pad', next_hash h)"
    "\<And>k. k < 2 * chunk_len len i \<Longrightarrow> pad' k = pad_of h data0 D i k"
    using hashed_pad [OF assms] by blast
  show ?thesis
    unfolding send_chunk_rot_def prod.case p(1) Let_def chunk_len_def [symmetric]
    by (auto simp: p(2) pad_of_def put_blocks_eq fun_eq_iff)
qed

lemma recv_pad:
  assumes "fresh h"
  shows "\<exists>pad'. hash_pad 1 (put_blocks pad 0 (\<lambda>k. data (i + k)) (chunk_len len i)) h = (pad', next_hash h)
     \<and> (\<forall>k < chunk_len len i. pad' k = mi_fun ot_bsize h k (data (i + k)))"
  using chunk_len_le(2) unfolding hash_pad_eq(1) [OF assms zero_less_one] by (auto simp: put_blocks_eq)

lemma put_blocks_cong: "(\<And>k. k < n \<Longrightarrow> f k = g k) \<Longrightarrow> put_blocks m a f n = put_blocks m a g n"
  by (auto simp: put_blocks_eq fun_eq_iff)

text \<open>The receiver reads what the sender sent and ends up with the chosen messages.\<close>

lemma recv_chunk_ot_eq:
  assumes fresh: "fresh h" and data: "\<And>k. k < chunk_len len i \<Longrightarrow> dataR (i + k) = data (i + k) XOR gate_blk (r (i + k)) D"
  shows "\<exists>pad' res'. recv_chunk_ot r len i (dataR, pad, res, chunk_msg h data D data0 data1 len i @ rest, h)
     = Some (put_blocks dataR i (\<lambda>k. if r (i + k) then data1 (i + k) else data0 (i + k)) (chunk_len len i), pad', res', rest, next_hash h)"
proof -
  let ?n = "chunk_len len i" and ?m = "chunk_msg h data D data0 data1 len i"
  obtain pad' where p: "hash_pad 1 (put_blocks pad 0 (\<lambda>k. dataR (i + k)) ?n) h = (pad', next_hash h)"
    "\<And>k. k < ?n \<Longrightarrow> pad' k = mi_fun ot_bsize h k (dataR (i + k))"
    using recv_pad [OF fresh] by blast
  have len: "length ?m = 2 * ?n" by (simp add: chunk_msg_def)
  define res' where "res' = put_blocks res 0 (\<lambda>k. ?m ! k) (2 * ?n)"
  have "res' (2 * j + of_bool (r (i + j))) XOR pad' j = (if r (i + j) then data1 (i + j) else data0 (i + j))" if j: "j < ?n" for j
  proof -
    have k: "2 * j + of_bool (r (i + j)) < 2 * ?n" using j by (cases "r (i + j)") auto
    then show ?thesis using p(2) [OF j] data [OF j]
      by (cases "r (i + j)") (simp_all add: res'_def put_blocks_eq chunk_msg_def pad_of_def xor_ac)
  qed
  moreover have "fold (\<lambda>j d. d(i + j := f j)) [0..<n] dataR = put_blocks dataR i f n" for f :: "block arr" and n
    by (simp add: put_blocks_def)
  moreover have "put_blocks dataR i (\<lambda>j. res' (2 * j + of_bool (r (i + j))) XOR pad' j) ?n
      = put_blocks dataR i (\<lambda>k. if r (i + k) then data1 (i + k) else data0 (i + k)) ?n"
    using calculation(1) by (rule put_blocks_cong)
  moreover have "recv_block (2 * ?n) (?m @ rest) = Some (?m, rest)" by (simp add: recv_block_def len)
  ultimately show ?thesis
    unfolding recv_chunk_ot_def Let_def chunk_len_def [symmetric] prod.case p(1)
    by (simp add: res'_def)
qed

lemma recv_chunk_rot_eq:
  assumes "fresh h"
  shows "\<exists>pad'. recv_chunk_rot len i (data, pad, h)
     = (put_blocks data i (\<lambda>k. mi_fun ot_bsize h k (data (i + k))) (chunk_len len i), pad', next_hash h)"
proof -
  obtain pad' where p: "hash_pad 1 (put_blocks pad 0 (\<lambda>k. data (i + k)) (chunk_len len i)) h = (pad', next_hash h)"
    "\<And>k. k < chunk_len len i \<Longrightarrow> pad' k = mi_fun ot_bsize h k (data (i + k))"
    using recv_pad [OF assms] by blast
  show ?thesis
    unfolding recv_chunk_rot_def Let_def prod.case chunk_len_def [symmetric] p(1)
    by (auto simp: p(2) put_blocks_eq fun_eq_iff)
qed

subsection \<open>All chunks\<close>

abbreviation hash_at :: "MITCCRH \<Rightarrow> nat \<Rightarrow> MITCCRH" where
  "hash_at h k \<equiv> (next_hash ^^ k) h"

lemma fresh_hash_at [simp]: "fresh h \<Longrightarrow> fresh (hash_at h k)"
  by (induction k) (auto intro: hash_pad_eq(2) [where H = 1])

definition first_chunks :: "nat \<Rightarrow> nat list" where
  "first_chunks b = map (\<lambda>k. k * ot_bsize) [0..<b]"

lemma first_chunks_Suc: "first_chunks (Suc b) = first_chunks b @ [b * ot_bsize]"
  by (simp add: first_chunks_def)

definition chunk_count :: "nat \<Rightarrow> nat" where
  "chunk_count len = (len + ot_bsize - 1) div ot_bsize"

lemma chunk_starts_eq: "chunk_starts len = first_chunks (chunk_count len)"
  by (simp add: chunk_starts_def first_chunks_def chunk_count_def)

lemma chunk_count_bounds: "b < chunk_count len \<Longrightarrow> b * ot_bsize < len" "k < len \<Longrightarrow> k < chunk_count len * ot_bsize"
  unfolding chunk_count_def ot_bsize_def by presburger+

lemma covered_Suc: "k < min (Suc b * ot_bsize) len \<longleftrightarrow> k < min (b * ot_bsize) len \<or> b * ot_bsize \<le> k \<and> k < b * ot_bsize + chunk_len len (b * ot_bsize)"
  by (auto simp: chunk_len_def)

definition all_msgs :: "MITCCRH \<Rightarrow> block arr \<Rightarrow> block \<Rightarrow> block arr \<Rightarrow> block arr \<Rightarrow> nat \<Rightarrow> nat \<Rightarrow> block list" where
  "all_msgs h data D data0 data1 len b = concat (map (\<lambda>k. chunk_msg (hash_at h k) data D data0 data1 len (k * ot_bsize)) [0..<b])"

lemma send_all:
  assumes "fresh h" and "b \<le> chunk_count len"
  shows "\<exists>pad'. fold (send_chunk_ot data D data0 data1 len) (first_chunks b) (pad, out, h)
     = (pad', out @ all_msgs h data D data0 data1 len b, hash_at h b)"
  using assms(2)
proof (induction b)
  case 0
  show ?case by (simp add: first_chunks_def all_msgs_def)
next
  case (Suc b)
  have "b * ot_bsize \<le> len" using chunk_count_bounds(1) [of b len] Suc.prems by simp
  moreover obtain p where "fold (send_chunk_ot data D data0 data1 len) (first_chunks b) (pad, out, h)
     = (p, out @ all_msgs h data D data0 data1 len b, hash_at h b)" using Suc by auto
  ultimately show ?case
    using send_chunk_ot_eq [where h = "hash_at h b" and i = "b * ot_bsize" and len = len and pad = p
        and out = "out @ all_msgs h data D data0 data1 len b" and data = data and D = D and ?data0.0 = data0 and ?data1.0 = data1] assms(1)
    by (auto simp: first_chunks_Suc all_msgs_def)
qed

lemma recv_chunks_append:
  "recv_chunks_ot r len (is @ js) s = (case recv_chunks_ot r len is s of None \<Rightarrow> None | Some s \<Rightarrow> recv_chunks_ot r len js s)"
  by (induction "is" arbitrary: s) (auto split: option.splits)

lemma recv_all:
  assumes "fresh h" and data: "\<And>k. k < len \<Longrightarrow> dataR k = data k XOR gate_blk (r k) D"
  shows "\<exists>dataR' pad' res'. recv_chunks_ot r len (first_chunks b) (dataR, pad, res, all_msgs h data D data0 data1 len b @ rest, h)
     = Some (dataR', pad', res', rest, hash_at h b)
     \<and> (\<forall>k. dataR' k = (if k < min (b * ot_bsize) len then if r k then data1 k else data0 k else dataR k))"
proof (induction b arbitrary: rest)
  case 0
  show ?case by (simp add: first_chunks_def all_msgs_def)
next
  case (Suc b)
  let ?i = "b * ot_bsize" and ?m = "chunk_msg (hash_at h b) data D data0 data1 len (b * ot_bsize)"
  obtain dR p rs where IH: "recv_chunks_ot r len (first_chunks b) (dataR, pad, res, all_msgs h data D data0 data1 len b @ ?m @ rest, h)
      = Some (dR, p, rs, ?m @ rest, hash_at h b)"
    and dR: "\<And>k. dR k = (if k < min ?i len then if r k then data1 k else data0 k else dataR k)"
    using Suc [of "?m @ rest"] by blast
  have "dR (?i + k) = data (?i + k) XOR gate_blk (r (?i + k)) D" if "k < chunk_len len ?i" for k
    using that data [of "?i + k"] by (auto simp: dR chunk_len_def)
  with recv_chunk_ot_eq [where h = "hash_at h b" and i = ?i and len = len and dataR = dR and data = data and r = r and D = D
      and pad = p and res = rs and ?data0.0 = data0 and ?data1.0 = data1 and rest = rest] assms(1)
  obtain p' rs' where step: "recv_chunk_ot r len ?i (dR, p, rs, ?m @ rest, hash_at h b)
      = Some (put_blocks dR ?i (\<lambda>k. if r (?i + k) then data1 (?i + k) else data0 (?i + k)) (chunk_len len ?i), p', rs', rest, next_hash (hash_at h b))"
    by auto
  have "recv_chunks_ot r len (first_chunks (Suc b)) (dataR, pad, res, all_msgs h data D data0 data1 len (Suc b) @ rest, h)
      = Some (put_blocks dR ?i (\<lambda>k. if r (?i + k) then data1 (?i + k) else data0 (?i + k)) (chunk_len len ?i), p', rs', rest, hash_at h (Suc b))"
    using IH step by (simp add: first_chunks_Suc recv_chunks_append all_msgs_def)
  moreover have "put_blocks dR ?i (\<lambda>k. if r (?i + k) then data1 (?i + k) else data0 (?i + k)) (chunk_len len ?i) k
      = (if k < min (Suc b * ot_bsize) len then if r k then data1 k else data0 k else dataR k)" for k
    unfolding covered_Suc put_blocks_eq dR by auto
  ultimately show ?case by blast
qed

definition rot_pad :: "MITCCRH \<Rightarrow> nat \<Rightarrow> block \<Rightarrow> block" where
  "rot_pad h k = mi_fun ot_bsize (hash_at h (k div ot_bsize)) (k mod ot_bsize)"

lemma rot_pad_at: "j < ot_bsize \<Longrightarrow> rot_pad h (b * ot_bsize + j) = mi_fun ot_bsize (hash_at h b) j"
  by (simp add: rot_pad_def)

lemma rot_put:
  assumes "\<And>k. dR k = (if k < min (b * ot_bsize) len then rot_pad h k (g k) else data k)"
  shows "put_blocks dR (b * ot_bsize) (\<lambda>j. mi_fun ot_bsize (hash_at h b) j (g (b * ot_bsize + j))) (chunk_len len (b * ot_bsize)) k
      = (if k < min (Suc b * ot_bsize) len then rot_pad h k (g k) else data k)"
proof -
  have "mi_fun ot_bsize (hash_at h b) (k - b * ot_bsize) = rot_pad h k" if "b * ot_bsize \<le> k" "k < b * ot_bsize + chunk_len len (b * ot_bsize)"
    using rot_pad_at [of "k - b * ot_bsize" h b] that chunk_len_le(2) [of "k - b * ot_bsize" len "b * ot_bsize"] by simp
  then show ?thesis unfolding covered_Suc put_blocks_eq using assms by auto
qed

lemma send_rot_all:
  assumes "fresh h" and "b \<le> chunk_count len"
  shows "\<exists>d0 d1 pad'. fold (send_chunk_rot D len) (first_chunks b) (data0, data1, pad, h) = (d0, d1, pad', hash_at h b)
     \<and> (\<forall>k. d0 k = (if k < min (b * ot_bsize) len then rot_pad h k (data0 k) else data0 k))
     \<and> (\<forall>k. d1 k = (if k < min (b * ot_bsize) len then rot_pad h k (data0 k XOR D) else data1 k))"
  using assms(2)
proof (induction b)
  case 0
  show ?case by (simp add: first_chunks_def)
next
  case (Suc b)
  let ?i = "b * ot_bsize"
  obtain d0 d1 p where IH: "fold (send_chunk_rot D len) (first_chunks b) (data0, data1, pad, h) = (d0, d1, p, hash_at h b)"
    and d0: "\<And>k. d0 k = (if k < min ?i len then rot_pad h k (data0 k) else data0 k)"
    and d1: "\<And>k. d1 k = (if k < min ?i len then rot_pad h k (data0 k XOR D) else data1 k)"
    using Suc by auto
  have "?i \<le> len" using chunk_count_bounds(1) [of b len] Suc.prems by simp
  then obtain p' where "send_chunk_rot D len ?i (d0, d1, p, hash_at h b)
     = (put_blocks d0 ?i (\<lambda>k. mi_fun ot_bsize (hash_at h b) k (d0 (?i + k))) (chunk_len len ?i),
        put_blocks d1 ?i (\<lambda>k. mi_fun ot_bsize (hash_at h b) k (d0 (?i + k) XOR D)) (chunk_len len ?i), p', hash_at h (Suc b))"
    using send_chunk_rot_eq [where h = "hash_at h b" and i = ?i and len = len and D = D and ?data0.0 = d0 and ?data1.0 = d1 and pad = p] assms(1) by auto
  moreover have "d0 (?i + k) = data0 (?i + k)" for k by (simp add: d0)
  ultimately have "fold (send_chunk_rot D len) (first_chunks (Suc b)) (data0, data1, pad, h)
     = (put_blocks d0 ?i (\<lambda>k. mi_fun ot_bsize (hash_at h b) k (data0 (?i + k))) (chunk_len len ?i),
        put_blocks d1 ?i (\<lambda>k. mi_fun ot_bsize (hash_at h b) k (data0 (?i + k) XOR D)) (chunk_len len ?i), p', hash_at h (Suc b))"
    using IH by (simp add: first_chunks_Suc)
  then show ?case
    using rot_put [where dR = d0 and data = data0 and g = data0, OF d0]
      rot_put [where dR = d1 and data = data1 and g = "\<lambda>k. data0 k XOR D", OF d1] by blast
qed

lemma recv_rot_all:
  assumes "fresh h"
  shows "\<exists>d pad'. fold (recv_chunk_rot len) (first_chunks b) (data, pad, h) = (d, pad', hash_at h b)
     \<and> (\<forall>k. d k = (if k < min (b * ot_bsize) len then rot_pad h k (data k) else data k))"
proof (induction b)
  case 0
  show ?case by (simp add: first_chunks_def)
next
  case (Suc b)
  let ?i = "b * ot_bsize"
  obtain d p where IH: "fold (recv_chunk_rot len) (first_chunks b) (data, pad, h) = (d, p, hash_at h b)"
    and d: "\<And>k. d k = (if k < min ?i len then rot_pad h k (data k) else data k)"
    using Suc by auto
  obtain p' where "recv_chunk_rot len ?i (d, p, hash_at h b)
     = (put_blocks d ?i (\<lambda>k. mi_fun ot_bsize (hash_at h b) k (d (?i + k))) (chunk_len len ?i), p', hash_at h (Suc b))"
    using recv_chunk_rot_eq [where h = "hash_at h b" and i = ?i and len = len and data = d and pad = p] assms by auto
  moreover have "d (?i + k) = data (?i + k)" for k by (simp add: d)
  ultimately have "fold (recv_chunk_rot len) (first_chunks (Suc b)) (data, pad, h)
     = (put_blocks d ?i (\<lambda>k. mi_fun ot_bsize (hash_at h b) k (data (?i + k))) (chunk_len len ?i), p', hash_at h (Suc b))"
    using IH by (simp add: first_chunks_Suc)
  then show ?case
    using rot_put [where dR = d and data = data and g = data, OF d] by blast
qed

subsection \<open>What a correlated transfer promises, and what the class makes of it\<close>

text \<open>\<open>in_step\<close> relates the states of sender and receiver.  All messages of a correlated transfer go from the
  receiver to the sender; the sender consumes exactly what the receiver sent.\<close>

locale correlated_ot =
  fixes send_cot :: "nat \<Rightarrow> channel \<Rightarrow> 's \<Rightarrow> (cot_error + block arr \<times> channel \<times> 's) option"
    and recv_cot :: "bool arr \<Rightarrow> nat \<Rightarrow> 'r \<Rightarrow> block arr \<times> channel \<times> 'r"
    and in_step :: "'s \<Rightarrow> 'r \<Rightarrow> bool"
    and offset :: "'s \<Rightarrow> block"
  assumes cot: "in_step S R \<Longrightarrow> \<exists>oR oS msg S' R'. recv_cot b n R = (oR, msg, R')
      \<and> (\<forall>rest. send_cot n (msg @ rest) S = Some (Inr (oS, rest, S')))
      \<and> in_step S' R' \<and> offset S' = offset S \<and> correlated (offset S) b n oS oR"
begin

lemma transfer:
  assumes "in_step S R" and "fresh h"
  shows "\<exists>dR msg R' out S' h' data. cot_recv_start recv_cot r len R = (dR, msg, R')
    \<and> (\<forall>rest. cot_send send_cot (offset S) s junk data0 data1 len (msg @ rest) (S, h) = Some (Inr (out, rest, S', h')))
    \<and> (\<forall>rest. cot_recv_finish junk' r len dR (out @ rest) h = Some (data, rest, h'))
    \<and> in_step S' R' \<and> offset S' = offset S \<and> fresh h' \<and> (\<forall>k<len. data k = (if r k then data1 k else data0 k))"
proof -
  obtain oR oS msg S' R' where c: "recv_cot r len R = (oR, msg, R')"
    "\<And>rest. send_cot len (msg @ rest) S = Some (Inr (oS, rest, S'))"
    "in_step S' R'" "offset S' = offset S" "correlated (offset S) r len oS oR"
    using cot [OF assms(1), of r len] by blast
  let ?h = "setS s h" and ?b = "chunk_count len" and ?D = "offset S"
  have fresh: "fresh ?h" using assms(2) by simp
  let ?m = "all_msgs ?h oS ?D data0 data1 len ?b"
  obtain pad' where send: "fold (send_chunk_ot oS ?D data0 data1 len) (chunk_starts len) (junk, [s], ?h) = (pad', [s] @ ?m, hash_at ?h ?b)"
    using send_all [OF fresh order.refl, where len = len and data = oS and D = ?D and ?data0.0 = data0 and ?data1.0 = data1 and pad = junk and out = "[s]"] by (auto simp: chunk_starts_eq)
  have "oR k = oS k XOR gate_blk (r k) ?D" if "k < len" for k using c(5) that by (simp add: correlated_def)
  note recv = recv_all [where h = ?h and data = oS and dataR = oR and r = r and D = ?D and b = ?b and len = len, OF fresh this]
  define data where "data k = (if k < min (?b * ot_bsize) len then if r k then data1 k else data0 k else oR k)" for k
  have "cot_recv_finish junk' r len oR (([s] @ ?m) @ rest) h = Some (data, rest, hash_at ?h ?b)" for rest
  proof -
    obtain d p rs where "recv_chunks_ot r len (first_chunks ?b) (oR, junk', junk', ?m @ rest, ?h) = Some (d, p, rs, rest, hash_at ?h ?b)"
      and "\<And>k. d k = data k"
      using recv [where pad = junk' and res = junk' and rest = rest and ?data0.0 = data0 and ?data1.0 = data1] unfolding data_def by blast
    moreover from this(2) have "d = data" by blast
    ultimately show ?thesis by (simp add: cot_recv_finish_def recv_block_def chunk_starts_eq)
  qed
  moreover have "data k = (if r k then data1 k else data0 k)" if "k < len" for k
    using chunk_count_bounds(2) [OF that] that by (simp add: data_def)
  ultimately show ?thesis
    using c send fresh by (simp add: cot_recv_start_def cot_send_def)
qed

lemma random_transfer:
  assumes "in_step S R" and "fresh h"
  shows "\<exists>dR msg R' out S' h' d0 d1 data. recv_cot r len R = (dR, msg, R')
    \<and> (\<forall>rest. cot_send_rot send_cot (offset S) s junk data1 len (msg @ rest) (S, h) = Some (Inr ((d0, d1), out, rest, S', h')))
    \<and> (\<forall>rest. cot_recv_rot_finish junk' len dR (out @ rest) h = Some (data, rest, h'))
    \<and> in_step S' R' \<and> offset S' = offset S \<and> fresh h' \<and> (\<forall>k<len. data k = (if r k then d1 k else d0 k))"
proof -
  obtain oR oS msg S' R' where c: "recv_cot r len R = (oR, msg, R')"
    "\<And>rest. send_cot len (msg @ rest) S = Some (Inr (oS, rest, S'))"
    "in_step S' R'" "offset S' = offset S" "correlated (offset S) r len oS oR"
    using cot [OF assms(1), of r len] by blast
  let ?h = "setS s h" and ?b = "chunk_count len" and ?D = "offset S"
  have fresh: "fresh ?h" using assms(2) by simp
  have all: "k < min (?b * ot_bsize) len \<longleftrightarrow> k < len" for k using chunk_count_bounds(2) [of k len] by auto
  obtain d0 d1 pad' where send: "fold (send_chunk_rot ?D len) (chunk_starts len) (oS, data1, junk, ?h) = (d0, d1, pad', hash_at ?h ?b)"
    "\<And>k. k < len \<Longrightarrow> d0 k = rot_pad ?h k (oS k)" "\<And>k. k < len \<Longrightarrow> d1 k = rot_pad ?h k (oS k XOR ?D)"
    using send_rot_all [OF fresh order.refl, where len = len and D = ?D and ?data0.0 = oS and ?data1.0 = data1 and pad = junk] by (auto simp: chunk_starts_eq all simp del: min_less_iff_conj)
  obtain d p where recv: "fold (recv_chunk_rot len) (chunk_starts len) (oR, junk', ?h) = (d, p, hash_at ?h ?b)"
    "\<And>k. k < len \<Longrightarrow> d k = rot_pad ?h k (oR k)"
    using recv_rot_all [OF fresh, where len = len and b = ?b and data = oR and pad = junk'] by (auto simp: chunk_starts_eq all simp del: min_less_iff_conj)
  have "d k = (if r k then d1 k else d0 k)" if "k < len" for k
    using c(5) that by (simp add: correlated_def send recv gate_blk_def)
  moreover have "fresh (hash_at ?h ?b)" using fresh by simp
  ultimately show ?thesis
    using c send(1) recv(1) by (simp add: cot_send_rot_def cot_recv_rot_finish_def recv_block_def)
qed

end

text \<open>\<^verbatim>\<open>IKNP\<close> is such a transfer, whatever the uninitialised memory and the receiver's random choices hold.\<close>

interpretation iknp: correlated_ot "IKNP_send_cot junk out" "IKNP_recv_cot junk' rnd seed2 out'" synced ik_Delta
  for junk out junk' rnd seed2 out'
proof
  fix S R b n assume "synced S R"
  then show "\<exists>oR oS msg S' R'. IKNP_recv_cot junk' rnd seed2 out' b n R = (oR, msg, R')
      \<and> (\<forall>rest. IKNP_send_cot junk out n (msg @ rest) S = Some (Inr (oS, rest, S')))
      \<and> synced S' R' \<and> ik_Delta S' = ik_Delta S \<and> correlated (ik_Delta S) b n oS oR"
    by (rule cot_run [where junk = junk and junk' = junk' and rnd = rnd and ?seed2.0 = seed2 and out = out and out' = out' and b = b and len = n])
      (auto simp: same_sender_def)
qed

lemma setup_synced:
  assumes "\<And>i. i < 128 \<Longrightarrow> kS i = (if s i then k1 i else k0 i)"
  shows "synced (IKNP_setup_send m s kS) (IKNP_setup_recv m k0 k1)"
  using assms by (simp add: synced_def IKNP_setup_send_def IKNP_setup_recv_def)

lemma ik_Delta_setup [simp]: "ik_Delta (IKNP_setup_send m s kS) = bool_to_block s"
  by (simp add: IKNP_setup_send_def)

text \<open>
  C17.  Oblivious transfer over the extension, from the keys of the base transfers on: with both sides set up,
  the honest run of \<^verbatim>\<open>COT::send\<close> and \<^verbatim>\<open>COT::recv\<close> terminates, the consistency check of the malicious
  variant passes, everything sent is read, and the receiver obtains for every index exactly the message it
  chose.
\<close>

theorem extended_ot_correct:
  assumes "\<forall>i<128. kS i = (if s i then k1 i else k0 i)"
  shows "\<exists>dR msg R' out S' h data.
      cot_recv_start (IKNP_recv_cot junk' rnd seed2 out') r len (IKNP_setup_recv m k0 k1) = (dR, msg, R')
    \<and> cot_send (IKNP_send_cot junk out0) (bool_to_block s) sd pad data0 data1 len msg (IKNP_setup_send m s kS, MITCCRH_new ot_bsize)
        = Some (Inr (out, [], S', h))
    \<and> cot_recv_finish pad' r len dR out (MITCCRH_new ot_bsize) = Some (data, [], h)
    \<and> (\<forall>k<len. data k = (if r k then data1 k else data0 k))"
proof -
  have "synced (IKNP_setup_send m s kS) (IKNP_setup_recv m k0 k1)" using assms by (intro setup_synced) simp
  from iknp.transfer [where h = "MITCCRH_new ot_bsize" and r = r and len = len and s = sd and junk = pad and junk' = pad'
      and ?data0.0 = data0 and ?data1.0 = data1, OF this fresh_new, unfolded ik_Delta_setup]
  show ?thesis by (metis append_Nil2)
qed

theorem extended_ot_correct_witness:
  "\<exists>dR msg R' out S' h data.
      cot_recv_start (IKNP_recv_cot (\<lambda>_. 3) (\<lambda>_. True) 4 (\<lambda>_. 0)) (\<lambda>i. i = 2) 5 (IKNP_setup_recv True of_nat (\<lambda>i. 1000 + of_nat i)) = (dR, msg, R')
    \<and> cot_send (IKNP_send_cot (\<lambda>_. 9) (\<lambda>_. 0)) (bool_to_block even) 7 (\<lambda>_. 0) (\<lambda>i. 10) (\<lambda>i. 20) 5 msg
        (IKNP_setup_send True even (\<lambda>i. if even i then 1000 + of_nat i else of_nat i), MITCCRH_new ot_bsize) = Some (Inr (out, [], S', h))
    \<and> cot_recv_finish (\<lambda>_. 0) (\<lambda>i. i = 2) 5 dR out (MITCCRH_new ot_bsize) = Some (data, [], h)
    \<and> data 2 = 20 \<and> data 4 = 10"
proof -
  have "\<forall>i<128. (if even i then 1000 + of_nat i else of_nat i) = (if even i then 1000 + of_nat i else of_nat i :: block)" by simp
  from extended_ot_correct [OF this, of "\<lambda>_. 3" "\<lambda>_. True" 4 "\<lambda>_. 0" "\<lambda>i. i = 2" 5 True "\<lambda>_. 9" "\<lambda>_. 0" 7 "\<lambda>_. 0" "\<lambda>i. 10" "\<lambda>i. 20" "\<lambda>_. 0"]
  show ?thesis by fastforce
qed

end
