(* ===== verification/AuthBits.thy ===== *)
theory AuthBits
  imports Shares Helper Prg
begin

text \<open>
  The consistency checks of \<^verbatim>\<open>emp-agmpc/abitmp.h\<close> on authenticated bits.  \<^verbatim>\<open>check1\<close> compares random
  linear combinations of the tags with the same combinations of the keys, \<^verbatim>\<open>check2\<close> opens \<^verbatim>\<open>ssp\<close> of
  the bits towards everybody.  Each check is a function of one party's arrays and of what it
  receives; \<open>run_abit_check\<close> is the honest run.  An aborting call of \<^verbatim>\<open>error\<close> is a value of \<open>abit_error\<close>.
\<close>

datatype abit_error = Coin_commitment | Cheat_check1 | Commitment1 | Commitments2 | Cheat_aShare

subsection \<open>check1\<close>

text \<open>The tables \<^verbatim>\<open>tMAC\<close>, \<^verbatim>\<open>tKEY\<close>, \<^verbatim>\<open>tb\<close> at position \<open>i\<close>: entry 0 is zero, 1 and 2 are the elements \<open>i\<close> and
  \<open>i + 1\<close>, 3 is their sum.\<close>

definition chk_block :: "block arr \<Rightarrow> nat \<Rightarrow> 8 word \<Rightarrow> block" where
  "chk_block M i c = (if c = 1 then M i else if c = 2 then M (i + 1) else if c = 3 then M i XOR M (i + 1) else zero_block)"

definition chk_bool :: "bool arr \<Rightarrow> nat \<Rightarrow> 8 word \<Rightarrow> bool" where
  "chk_bool b i c = (if c = 1 then b i else if c = 2 then b (i + 1) else if c = 3 then bxor (b i) (b (i + 1)) else False)"

definition check1_size :: nat where "check1_size = 1024 * 2"

type_synonym check1_sums = "nat \<times> block arr \<times> block arr \<times> bool arr"

definition check1_row ::
  "nat \<Rightarrow> 8 word list \<Rightarrow> block arr \<Rightarrow> block arr \<Rightarrow> bool arr \<Rightarrow> nat \<Rightarrow> check1_sums \<Rightarrow> check1_sums" where
  "check1_row ssp tmp M K b i s =
     fold (\<lambda>j (ptr, Ms, Ks, bs).
        (ptr + 1, Ms(j := Ms j XOR chk_block M i (tmp ! ptr)), Ks(j := Ks j XOR chk_block K i (tmp ! ptr)),
         bs(j := bxor (bs j) (chk_bool b i (tmp ! ptr))))) [0..<ssp] s"

definition check1_loop ::
  "nat \<Rightarrow> nat \<Rightarrow> 8 word list \<Rightarrow> block arr \<Rightarrow> block arr \<Rightarrow> bool arr \<Rightarrow> check1_sums" where
  "check1_loop ssp len tmp M K b =
     fold (\<lambda>tt s. fold (check1_row ssp tmp M K b)
             [check1_size * tt..<min (check1_size * (tt + 1)) len] s)
       [0..<len div check1_size] (0, (\<lambda>_. zero_block), (\<lambda>_. zero_block), (\<lambda>_. False))"

definition check1_coeffs :: "nat \<Rightarrow> nat \<Rightarrow> block \<Rightarrow> 8 word list" where
  "check1_coeffs ssp len seed = map (\<lambda>x. x mod 4) (fst (random_data (ssp * len) (reseed seed 0)))"

text \<open>What a party sends to party \<open>k\<close>, and its verdict on what it receives.\<close>

definition check1_send ::
  "nat \<Rightarrow> nat \<Rightarrow> 8 word list \<Rightarrow> bool arr \<times> block party_arr \<times> block party_arr \<Rightarrow> nat \<Rightarrow> block arr \<times> bool arr" where
  "check1_send ssp len tmp A k =
     (case A of (data, MAC, KEY) \<Rightarrow> case check1_loop ssp len tmp (MAC k) (KEY k) data of
        (ptr, Ms, Ks, bs) \<Rightarrow> (Ms, bs))"

definition check1_cheat ::
  "nat \<Rightarrow> nat \<Rightarrow> nat \<Rightarrow> nat \<Rightarrow> block \<Rightarrow> 8 word list \<Rightarrow> bool arr \<times> block party_arr \<times> block party_arr
   \<Rightarrow> (nat \<Rightarrow> block arr \<times> bool arr) \<Rightarrow> bool" where
  "check1_cheat nP ssp len party Delta tmp A recv =
     list_ex (\<lambda>k. case A of (data, MAC, KEY) \<Rightarrow> case check1_loop ssp len tmp (MAC k) (KEY k) data of
        (ptr, Ms, Ks, bs) \<Rightarrow>
          let Ks = (\<lambda>j. if j < ssp \<and> snd (recv k) j then Ks j XOR Delta else Ks j)
          in \<not> cmpBlock Ks (fst (recv k)) ssp) (others nP party)"

subsection \<open>check2\<close>

definition check2_keys :: "nat \<Rightarrow> nat \<Rightarrow> nat \<Rightarrow> block \<Rightarrow> nat \<Rightarrow> block party_arr \<Rightarrow> bool \<Rightarrow> block arr" where
  "check2_keys nP ssp len Delta party KEY b = (\<lambda>i.
     let k0 = fold (\<lambda>j x. x XOR KEY j (len - 3 * ssp + i)) (others nP party) zero_block
     in if b then k0 XOR Delta else k0)"

definition array_bytes :: "block arr \<Rightarrow> nat \<Rightarrow> nat \<Rightarrow> bytes" where
  "array_bytes M start n = concat (map (\<lambda>i. bytes_of_block (M (start + i))) [0..<n])"

definition bool_bytes :: "bool arr \<Rightarrow> nat \<Rightarrow> nat \<Rightarrow> bytes" where
  "bool_bytes b start n = map (\<lambda>i. of_bool (b (start + i))) [0..<n]"

text \<open>The first round: digests of the opened bits with their tags, and of both possible key sums.\<close>

definition check2_digest ::
  "(bytes \<Rightarrow> bytes) \<Rightarrow> nat \<Rightarrow> nat \<Rightarrow> nat \<Rightarrow> bool arr \<Rightarrow> block party_arr \<Rightarrow> bytes" where
  "check2_digest sha nP ssp party bs Ms =
     fst (Hash_digest sha (fold (\<lambda>k h. Hash_put (array_bytes (Ms k) 0 ssp) h) (others nP party)
            (Hash_put (bool_bytes bs 0 ssp) Hash_new)))"

record check2_round1 =
  c2_dgst :: bytes
  c2_dgst0 :: "bytes arr"
  c2_dgst1 :: "bytes arr"

record check2_round2 =
  c2_bs :: "bool arr"
  c2_Ms :: "block party_arr"

record check2_round3 =
  c2_bsum :: "bool arr"
  c2_KK :: "block arr"

text \<open>The \<^verbatim>\<open>ssp\<close> opened positions start at \<^verbatim>\<open>length-3*ssp\<close>.\<close>

definition tail :: "nat \<Rightarrow> nat \<Rightarrow> 'a arr \<Rightarrow> 'a arr" where
  "tail ssp len x = (\<lambda>i. x (len - 3 * ssp + i))"

definition check2_send2 :: "nat \<Rightarrow> nat \<Rightarrow> bool arr \<times> block party_arr \<times> block party_arr \<Rightarrow> check2_round2" where
  "check2_send2 ssp len A =
     (case A of (data, MAC, KEY) \<Rightarrow> \<lparr>c2_bs = tail ssp len data, c2_Ms = (\<lambda>k. tail ssp len (MAC k))\<rparr>)"

definition check2_send1 ::
  "(bytes \<Rightarrow> bytes) \<Rightarrow> nat \<Rightarrow> nat \<Rightarrow> nat \<Rightarrow> nat \<Rightarrow> block \<Rightarrow> bool arr \<times> block party_arr \<times> block party_arr \<Rightarrow> check2_round1" where
  "check2_send1 sha nP ssp len party Delta A =
     (case A of (data, MAC, KEY) \<Rightarrow>
        \<lparr>c2_dgst = check2_digest sha nP ssp party (tail ssp len data) (\<lambda>k. tail ssp len (MAC k)),
         c2_dgst0 = (\<lambda>i. hash_once sha (bytes_of_block (check2_keys nP ssp len Delta party KEY False i))),
         c2_dgst1 = (\<lambda>i. hash_once sha (bytes_of_block (check2_keys nP ssp len Delta party KEY True i)))\<rparr>)"

definition check2_bsum :: "nat \<Rightarrow> nat \<Rightarrow> (nat \<Rightarrow> check2_round2) \<Rightarrow> bool arr" where
  "check2_bsum nP party recv2 = (\<lambda>j. fold (\<lambda>i b. bxor b (c2_bs (recv2 i) j)) (others nP party) False)"

definition check2_send3 ::
  "nat \<Rightarrow> nat \<Rightarrow> nat \<Rightarrow> nat \<Rightarrow> block \<Rightarrow> bool arr \<times> block party_arr \<times> block party_arr
   \<Rightarrow> (nat \<Rightarrow> check2_round2) \<Rightarrow> check2_round3" where
  "check2_send3 nP ssp len party Delta A recv2 =
     (case A of (data, MAC, KEY) \<Rightarrow>
        let bs = check2_bsum nP party recv2
        in \<lparr>c2_bsum = bs, c2_KK = (\<lambda>i. check2_keys nP ssp len Delta party KEY (bs i) i)\<rparr>)"

definition check2_commitment1 ::
  "(bytes \<Rightarrow> bytes) \<Rightarrow> nat \<Rightarrow> nat \<Rightarrow> nat \<Rightarrow> (nat \<Rightarrow> check2_round1) \<Rightarrow> (nat \<Rightarrow> check2_round2) \<Rightarrow> bool" where
  "check2_commitment1 sha nP ssp party recv1 recv2 =
     list_ex (\<lambda>k. strncmp (check2_digest sha nP ssp k (c2_bs (recv2 k)) (c2_Ms (recv2 k))) (c2_dgst (recv1 k)) DIGEST_SIZE \<noteq> 0)
       (others nP party)"

definition check2_commitments2 ::
  "(bytes \<Rightarrow> bytes) \<Rightarrow> nat \<Rightarrow> nat \<Rightarrow> nat \<Rightarrow> (nat \<Rightarrow> check2_round1) \<Rightarrow> (nat \<Rightarrow> check2_round3) \<Rightarrow> bool" where
  "check2_commitments2 sha nP ssp party recv1 recv3 =
     list_ex (\<lambda>k. fold (\<lambda>i cheat.
         cheat \<or> strncmp (hash_once sha (bytes_of_block (c2_KK (recv3 k) i)))
                   (if c2_bsum (recv3 k) i then c2_dgst1 (recv1 k) i else c2_dgst0 (recv1 k) i) DIGEST_SIZE \<noteq> 0)
       [0..<ssp] False) (others nP party)"

text \<open>\<open>Ms[party]\<close> is the party's own row; the sum over \<open>j \<noteq> i\<close> of the tags for party \<open>i\<close> must be the key sum it opened.\<close>

definition check2_aShare ::
  "nat \<Rightarrow> nat \<Rightarrow> nat \<Rightarrow> check2_round2 \<Rightarrow> (nat \<Rightarrow> check2_round2) \<Rightarrow> (nat \<Rightarrow> check2_round3) \<Rightarrow> bool" where
  "check2_aShare nP ssp party own recv2 recv3 =
     (let Ms = (\<lambda>j. c2_Ms (if j = party then own else recv2 j))
      in fold (\<lambda>i cheat.
           let tmp_block = fold (\<lambda>j t k. t k XOR Ms j i k) (others nP i) (\<lambda>_. zero_block)
           in cheat \<or> \<not> cmpBlock tmp_block (c2_KK (recv3 i)) ssp) (others nP party) False)"

definition check2 ::
  "(bytes \<Rightarrow> bytes) \<Rightarrow> nat \<Rightarrow> nat \<Rightarrow> nat \<Rightarrow> nat \<Rightarrow> bool arr \<times> block party_arr \<times> block party_arr
   \<Rightarrow> (nat \<Rightarrow> check2_round1) \<Rightarrow> (nat \<Rightarrow> check2_round2) \<Rightarrow> (nat \<Rightarrow> check2_round3) \<Rightarrow> abit_error + unit" where
  "check2 sha nP ssp len party A recv1 recv2 recv3 =
     (if check2_commitment1 sha nP ssp party recv1 recv2 then Inl Commitment1
      else if check2_commitments2 sha nP ssp party recv1 recv3 then Inl Commitments2
      else if check2_aShare nP ssp party (check2_send2 ssp len A) recv2 recv3 then Inl Cheat_aShare
      else Inr ())"

subsection \<open>The honest run\<close>

text \<open>\<open>S p\<close> is the block party \<open>p\<close> contributes to the joint coin, \<open>A p\<close> are its arrays.\<close>

definition run_abit_check ::
  "(bytes \<Rightarrow> bytes) \<Rightarrow> nat \<Rightarrow> nat \<Rightarrow> nat \<Rightarrow> (nat \<Rightarrow> block) \<Rightarrow> (nat \<Rightarrow> block)
   \<Rightarrow> (nat \<Rightarrow> bool arr \<times> block party_arr \<times> block party_arr) \<Rightarrow> nat \<Rightarrow> abit_error + unit" where
  "run_abit_check sha nP ssp len S \<Delta> A p =
     (case run_sampleRandom sha nP S p of
        None \<Rightarrow> Inl Coin_commitment
      | Some seed \<Rightarrow>
          (let tmp = check1_coeffs ssp len seed;
               r2 = (\<lambda>k. check2_send2 ssp len (A k))
           in if check1_cheat nP ssp len p (\<Delta> p) tmp (A p) (\<lambda>k. check1_send ssp len tmp (A k) p)
              then Inl Cheat_check1
              else check2 sha nP ssp len p (A p) (\<lambda>k. check2_send1 sha nP ssp len k (\<Delta> k) (A k)) r2
                     (\<lambda>k. check2_send3 nP ssp len k (\<Delta> k) (A k) r2)))"

subsection \<open>Honest parties pass\<close>

text \<open>The arrays are authenticated at position \<open>i\<close>.\<close>

definition auth_at :: "nat \<Rightarrow> (nat \<Rightarrow> block) \<Rightarrow> (nat \<Rightarrow> bool arr \<times> block party_arr \<times> block party_arr) \<Rightarrow> nat \<Rightarrow> bool" where
  "auth_at nP \<Delta> A i \<longleftrightarrow> auth_bit nP \<Delta> (\<lambda>p. fst (A p) i) (\<lambda>p j. fst (snd (A p)) j i) (\<lambda>p j. snd (snd (A p)) j i)"

text \<open>The loop of the party that holds tags and the loop of the party that holds keys, in step.\<close>

definition sums_agree :: "block \<Rightarrow> check1_sums \<Rightarrow> check1_sums \<Rightarrow> bool" where
  "sums_agree D s t \<longleftrightarrow> fst s = fst t
     \<and> (\<forall>j. fst (snd s) j = fst (snd (snd t)) j XOR gate_blk (snd (snd (snd s)) j) D)"

lemma chk_agree:
  assumes "M i = K i XOR gate_blk (b i) D" and "M (i + 1) = K (i + 1) XOR gate_blk (b (i + 1)) D"
  shows "chk_block M i c = chk_block K i c XOR gate_blk (chk_bool b i c) D"
  using assms by (simp add: chk_block_def chk_bool_def gate_blk_bxor xor_ac)

lemma check1_row_agree:
  assumes "sums_agree D s t" and "M i = K i XOR gate_blk (b i) D"
    and "M (i + 1) = K (i + 1) XOR gate_blk (b (i + 1)) D"
  shows "sums_agree D (check1_row ssp tmp M K' b i s) (check1_row ssp tmp M' K b' i t)"
  unfolding check1_row_def
proof (rule fold_related [where R = "sums_agree D", OF assms(1)])
  fix j s t assume "sums_agree D s t"
  then show "sums_agree D
      ((\<lambda>(ptr, Ms, Ks, bs). (ptr + 1, Ms(j := Ms j XOR chk_block M i (tmp ! ptr)),
          Ks(j := Ks j XOR chk_block K' i (tmp ! ptr)), bs(j := bxor (bs j) (chk_bool b i (tmp ! ptr))))) s)
      ((\<lambda>(ptr, Ms, Ks, bs). (ptr + 1, Ms(j := Ms j XOR chk_block M' i (tmp ! ptr)),
          Ks(j := Ks j XOR chk_block K i (tmp ! ptr)), bs(j := bxor (bs j) (chk_bool b' i (tmp ! ptr))))) t)"
    using chk_agree [OF assms(2,3)] by (auto simp: sums_agree_def split_beta gate_blk_bxor xor_ac)
qed

lemma check1_loop_agree:
  assumes "\<And>i. i < len \<Longrightarrow> M i = K i XOR gate_blk (b i) D" and "\<not> check1_size dvd len"
  shows "sums_agree D (check1_loop ssp len tmp M K' b) (check1_loop ssp len tmp M' K b')"
  unfolding check1_loop_def
proof (rule fold_related [where R = "sums_agree D"])
  show "sums_agree D (0, \<lambda>_. zero_block, \<lambda>_. zero_block, \<lambda>_. False) (0, \<lambda>_. zero_block, \<lambda>_. zero_block, \<lambda>_. False)"
    by (simp add: sums_agree_def)
next
  fix tt s t assume tt: "tt \<in> set [0..<len div check1_size]" and st: "sums_agree D s t"
  show "sums_agree D
      (fold (check1_row ssp tmp M K' b) [check1_size * tt..<min (check1_size * (tt + 1)) len] s)
      (fold (check1_row ssp tmp M' K b') [check1_size * tt..<min (check1_size * (tt + 1)) len] t)"
  proof (rule fold_related [where R = "sums_agree D", OF st], rule check1_row_agree)
    fix i assume "i \<in> set [check1_size * tt..<min (check1_size * (tt + 1)) len]"
    then have "i + 1 \<le> check1_size * (tt + 1)" and "i < len" by auto
    moreover have "check1_size * (tt + 1) \<le> len"
    proof -
      have "check1_size * (tt + 1) \<le> check1_size * (len div check1_size)" using tt by (intro mult_le_mono2) auto
      then show ?thesis using times_div_less_eq_dividend le_trans by blast
    qed
    moreover have "check1_size * (tt + 1) \<noteq> len" using assms(2) by (metis dvd_triv_left)
    ultimately show "M i = K i XOR gate_blk (b i) D" "M (i + 1) = K (i + 1) XOR gate_blk (b (i + 1)) D"
      using assms(1) by auto
  qed
qed

lemma check1_honest:
  assumes auth: "\<And>i. i < len \<Longrightarrow> auth_at nP \<Delta> A i" and len: "\<not> check1_size dvd len" and p: "1 \<le> p" "p \<le> nP"
  shows "\<not> check1_cheat nP ssp len p (\<Delta> p) tmp (A p) (\<lambda>k. check1_send ssp len tmp (A k) p)"
proof -
  have "cmpBlock (\<lambda>j. if j < ssp \<and> snd (check1_send ssp len tmp (A k) p) j
        then fst (snd (snd (check1_loop ssp len tmp (fst (snd (A p)) k) (snd (snd (A p)) k) (fst (A p))))) j XOR \<Delta> p
        else fst (snd (snd (check1_loop ssp len tmp (fst (snd (A p)) k) (snd (snd (A p)) k) (fst (A p))))) j)
      (fst (check1_send ssp len tmp (A k) p)) ssp" if "k \<in> set (others nP p)" for k
  proof -
    have "fst (snd (A k)) p i = snd (snd (A p)) k i XOR gate_blk (fst (A k) i) (\<Delta> p)" if "i < len" for i
      using auth_bitD [OF auth [OF that, unfolded auth_at_def]] \<open>k \<in> set (others nP p)\<close> p by simp
    then have "sums_agree (\<Delta> p)
        (check1_loop ssp len tmp (fst (snd (A k)) p) (snd (snd (A k)) p) (fst (A k)))
        (check1_loop ssp len tmp (fst (snd (A p)) k) (snd (snd (A p)) k) (fst (A p)))"
      using len by (intro check1_loop_agree) auto
    then show ?thesis
      unfolding cmpBlock_iff by (auto simp: sums_agree_def check1_send_def split_beta gate_blk_def)
  qed
  then show ?thesis
    by (auto simp: check1_cheat_def list_ex_iff split_beta Let_def simp del: set_others)
qed

lemma check2_keys_eq:
  "check2_keys nP ssp len D p KEY b i = xsum (\<lambda>j. KEY j (len - 3 * ssp + i)) (others nP p) XOR gate_blk b D"
  by (simp add: check2_keys_def fold_xor_xsum Let_def)

lemma check2_honest:
  assumes auth: "\<And>i. i < len \<Longrightarrow> auth_at nP \<Delta> A i" and len: "3 * ssp \<le> len" and p: "1 \<le> p" "p \<le> nP"
  defines "r2 \<equiv> \<lambda>k. check2_send2 ssp len (A k)"
  shows "check2 sha nP ssp len p (A p) (\<lambda>k. check2_send1 sha nP ssp len k (\<Delta> k) (A k)) r2
           (\<lambda>k. check2_send3 nP ssp len k (\<Delta> k) (A k) r2) = Inr ()"
proof -
  let ?r1 = "\<lambda>k. check2_send1 sha nP ssp len k (\<Delta> k) (A k)" and ?r3 = "\<lambda>k. check2_send3 nP ssp len k (\<Delta> k) (A k) r2"
  have "\<not> check2_commitment1 sha nP ssp p ?r1 r2"
    by (simp add: check2_commitment1_def list_ex_iff check2_send1_def check2_send2_def r2_def split_beta del: set_others)
  moreover have "fold (\<lambda>i cheat. cheat \<or> strncmp (hash_once sha (bytes_of_block (c2_KK (?r3 k) i)))
      (if c2_bsum (?r3 k) i then c2_dgst1 (?r1 k) i else c2_dgst0 (?r1 k) i) DIGEST_SIZE \<noteq> 0) is False = False" for k "is"
    by (rule fold_id_on) (simp add: check2_send1_def check2_send3_def split_beta Let_def)
  then have "\<not> check2_commitments2 sha nP ssp p ?r1 ?r3"
    by (simp add: check2_commitments2_def list_ex_iff del: set_others)
  moreover have "\<not> check2_aShare nP ssp p (r2 p) r2 ?r3"
  proof -
    have own: "(if j = p then r2 p else r2 j) = r2 j" for j by simp
    have sum: "fold (\<lambda>j t k. t k XOR c2_Ms (r2 j) i k) js (\<lambda>_. zero_block)
        = (\<lambda>k. xsum (\<lambda>j. c2_Ms (r2 j) i k) js)" for i js
    proof -
      have "fold (\<lambda>j t k. t k XOR c2_Ms (r2 j) i k) js t = (\<lambda>k. t k XOR xsum (\<lambda>j. c2_Ms (r2 j) i k) js)" for t
        by (induction js arbitrary: t) (auto simp: xor.assoc)
      then show ?thesis by simp
    qed
    have "cmpBlock (\<lambda>k. xsum (\<lambda>j. c2_Ms (r2 j) i k) (others nP i)) (c2_KK (?r3 i)) ssp"
      if i: "i \<in> set (others nP p)" for i
      unfolding cmpBlock_iff
    proof (intro allI impI)
      fix k assume "k < ssp"
      then have k: "len - 3 * ssp + k < len" using len by simp
      have "xsum (\<lambda>j. c2_Ms (r2 j) i k) (others nP i)
          = xsum (\<lambda>j. snd (snd (A i)) j (len - 3 * ssp + k) XOR gate_blk (fst (A j) (len - 3 * ssp + k)) (\<Delta> i)) (others nP i)"
        using auth_bitD [OF auth [OF k, unfolded auth_at_def]] i
        by (intro xsum_cong refl) (auto simp: r2_def check2_send2_def tail_def split_beta)
      then show "xsum (\<lambda>j. c2_Ms (r2 j) i k) (others nP i) = c2_KK (?r3 i) k"
        by (simp add: xsum_xor xsum_gate_blk check2_send3_def split_beta Let_def check2_keys_eq check2_bsum_def
            fold_bxor_parity r2_def check2_send2_def tail_def)
    qed
    then show ?thesis
      unfolding check2_aShare_def Let_def own sum
      by (subst fold_id_on) (auto simp del: set_others)
  qed
  ultimately show ?thesis by (simp add: check2_def r2_def)
qed

theorem run_abit_check_ok:
  assumes "\<And>i. i < len \<Longrightarrow> auth_at nP \<Delta> A i" and "\<not> check1_size dvd len" and "3 * ssp \<le> len" and "1 \<le> p" "p \<le> nP"
  shows "run_abit_check sha nP ssp len S \<Delta> A p = Inr ()"
proof -
  obtain seed where "run_sampleRandom sha nP S p = Some seed"
    using run_sampleRandom_Some [OF assms(4,5)] by blast
  then show ?thesis
    using check1_honest [OF assms(1,2,4,5)] check2_honest [OF assms(1,3,4,5)]
    by (simp add: run_abit_check_def Let_def)
qed

subsection \<open>What check1 does not look at\<close>

text \<open>
  C40.  Only whole chunks of 2048 positions enter \<^verbatim>\<open>check1\<close>: for shorter vectors the sums are empty, so any
  tags whatsoever pass.
\<close>

theorem check1_short_unchecked:
  assumes "len < check1_size"
  shows "\<not> check1_cheat nP ssp len p D tmp A (\<lambda>k. check1_send ssp len tmp' (B k) p)"
  using assms
  by (auto simp: check1_cheat_def check1_send_def check1_loop_def list_ex_iff split_beta cmpBlock_iff simp del: set_others)

theorem check1_short_unchecked_witness:
  "\<not> check1_cheat 2 40 2040 1 5 [] (\<lambda>_. True, \<lambda>_ _. 0, \<lambda>_ _. 0) (\<lambda>k. check1_send 40 2040 [] (\<lambda>_. False, \<lambda>_ _. 7, \<lambda>_ _. 9) 1)"
  by (rule check1_short_unchecked) (simp add: check1_size_def)

end
