(* ===== verification/Fpre.thy ===== *)
theory Fpre
  imports AuthBits "HOL-Library.Signed_Division" "HOL-Library.Multiset"
begin

text \<open>
  \<^verbatim>\<open>emp-agmpc/fpremp.h\<close>: from authenticated random bits to authenticated AND triples.  Leaky triples are made
  with one garbled AND gate per pair of parties, checked, shuffled with a joint coin and combined in buckets.
  Each phase is a function of one party's arrays and of what it receives; \<open>run_fpre\<close> is the
  honest run of \<^verbatim>\<open>compute\<close>.  Random choices (the share bits, the blocks contributed to
  the coins) are arguments.  \<open>n\<close> is \<^verbatim>\<open>length*bucket_size\<close>.
\<close>

type_synonym share_array = "bool arr \<times> block party_arr \<times> block party_arr"

datatype fpre_error = Abit_check abit_error | Coin | Commitment | AND_check

definition get_bucket_size :: "nat \<Rightarrow> nat" where
  "get_bucket_size sz =
     (let sz = max sz 320; batch_size = ((sz + 2 - 1) div 2) * 2
      in if batch_size \<ge> 280 * 1000 then 3 else if batch_size \<ge> 3100 then 4 else 5)"

subsection \<open>Garbled AND gates between two parties\<close>

definition LSB :: "block \<Rightarrow> 8 word" where
  "LSB b = ucast b AND 1"

text \<open>\<^verbatim>\<open>prps\<close> and \<^verbatim>\<open>prps2\<close> are default-constructed: their key is the zero block.\<close>

definition crh_key :: AES_KEY where
  "crh_key = PRP_key zero_block"

definition HnID :: "AES_KEY \<Rightarrow> block list \<Rightarrow> 64 word \<Rightarrow> block list" where
  "HnID aes inp i =
     (let out = map (\<lambda>k. sigma (inp ! k) XOR makeBlock 0 (i + of_nat k)) [0..<length inp];
          scratch = permute_block aes out
      in map2 (XOR) scratch out)"

definition fpre_garble :: "block \<Rightarrow> block arr \<Rightarrow> bool arr \<Rightarrow> bool arr \<Rightarrow> nat \<Rightarrow> 8 word" where
  "fpre_garble Delta KEY r r2 i =
     (let tmp = HnID crh_key [KEY (3 * i), KEY (3 * i) XOR Delta, KEY (3 * i + 1), KEY (3 * i + 1) XOR Delta] (of_nat (4 * i));
          data = LSB (tmp ! 0 XOR tmp ! 2);
          data = data OR push_bit 1 (LSB (tmp ! 1 XOR tmp ! 2));
          data = data OR push_bit 2 (LSB (tmp ! 0 XOR tmp ! 3));
          data = data OR push_bit 3 (LSB (tmp ! 1 XOR tmp ! 3));
          data = (if bxor ((False \<noteq> r (3 * i)) \<and> (False \<noteq> r (3 * i + 1))) (r2 i) then data XOR 1 else data);
          data = (if bxor ((True \<noteq> r (3 * i)) \<and> (False \<noteq> r (3 * i + 1))) (r2 i) then data XOR 2 else data);
          data = (if bxor ((False \<noteq> r (3 * i)) \<and> (True \<noteq> r (3 * i + 1))) (r2 i) then data XOR 4 else data)
      in if bxor ((True \<noteq> r (3 * i)) \<and> (True \<noteq> r (3 * i + 1))) (r2 i) then data XOR 8 else data)"

definition fpre_evaluate :: "8 word \<Rightarrow> block arr \<Rightarrow> bool arr \<Rightarrow> nat \<Rightarrow> bool" where
  "fpre_evaluate data MAC r i =
     (let hin = sigma (MAC (3 * i)) XOR makeBlock 0 (of_nat (4 * i + of_bool (r (3 * i))));
          hin2 = sigma (MAC (3 * i + 1)) XOR makeBlock 0 (of_nat (4 * i + 2 + of_bool (r (3 * i + 1))));
          bH = CRH_H crh_key hin XOR CRH_H crh_key hin2;
          res = LSB bH;
          data = drop_bit (of_bool (r (3 * i + 1)) * 2 + of_bool (r (3 * i))) data
      in data AND 1 \<noteq> res AND 1)"

subsection \<open>Leaky triples\<close>

text \<open>The shares \<open>s[j]\<close> of the cross products: party \<open>party\<close> garbles for \<open>j > party\<close> with its random bits
  \<open>rnd j\<close> and evaluates what party \<open>i < party\<close> sent.\<close>

definition leaky_cross :: "nat \<Rightarrow> share_array \<Rightarrow> bool party_arr \<Rightarrow> (nat \<Rightarrow> 8 word arr) \<Rightarrow> bool party_arr" where
  "leaky_cross party A rnd recv = (\<lambda>j k.
     case A of (tr, MAC, KEY) \<Rightarrow>
       if party < j then bxor (rnd j k) (tr (3 * k) \<and> tr (3 * k + 1))
       else bxor (fpre_evaluate (recv j k) (MAC j) tr k) (tr (3 * k) \<and> tr (3 * k + 1)))"

definition leaky_send :: "block \<Rightarrow> share_array \<Rightarrow> bool party_arr \<Rightarrow> nat \<Rightarrow> 8 word arr" where
  "leaky_send Delta A rnd j = (case A of (tr, MAC, KEY) \<Rightarrow> fpre_garble Delta (KEY j) tr (rnd j))"

text \<open>The loop that sets \<open>e\<close> and the third bit of each triple.\<close>

definition leaky_fix :: "nat \<Rightarrow> nat \<Rightarrow> nat \<Rightarrow> bool party_arr \<Rightarrow> bool arr \<Rightarrow> bool arr \<times> bool arr" where
  "leaky_fix nP party n s tr =
     fold (\<lambda>k (e, tr).
        let s0 = fold (\<lambda>i b. bxor b (s i k)) (others nP party) (tr (3 * k) \<and> tr (3 * k + 1))
        in (e(k := bxor s0 (tr (3 * k + 2))), tr(3 * k + 2 := s0))) [0..<n] ((\<lambda>_. False), tr)"

text \<open>The corrections \<open>recv j\<close> of the other parties move the keys for their third bits.\<close>

definition fix_keys :: "nat \<Rightarrow> nat \<Rightarrow> nat \<Rightarrow> block \<Rightarrow> (nat \<Rightarrow> bool arr) \<Rightarrow> block party_arr \<Rightarrow> block party_arr" where
  "fix_keys nP party n Delta recv KEY = (\<lambda>j.
     if j \<in> set (others nP party)
     then fold (\<lambda>k K. if recv j k then K(3 * k + 2 := K (3 * k + 2) XOR Delta) else K) [0..<n] (KEY j)
     else KEY j)"

subsection \<open>The AND check\<close>

definition fpre_phi :: "nat \<Rightarrow> nat \<Rightarrow> block \<Rightarrow> share_array \<Rightarrow> nat \<Rightarrow> block" where
  "fpre_phi nP party Delta A k =
     (case A of (tr, MAC, KEY) \<Rightarrow>
        let phi = fold (\<lambda>i x. (x XOR KEY i (3 * k + 1)) XOR MAC i (3 * k + 1)) (others nP party) zero_block
        in if tr (3 * k + 1) then phi XOR Delta else phi)"

definition KEYphi :: "block \<Rightarrow> share_array \<Rightarrow> nat \<Rightarrow> nat \<Rightarrow> block list" where
  "KEYphi Delta A j k =
     (case A of (tr, MAC, KEY) \<Rightarrow> HnID crh_key [KEY j (3 * k), KEY j (3 * k) XOR Delta] (of_nat (2 * k)))"

definition phi_send :: "nat \<Rightarrow> nat \<Rightarrow> block \<Rightarrow> share_array \<Rightarrow> nat \<Rightarrow> block arr" where
  "phi_send nP party Delta A j = (\<lambda>k.
     let bH = KEYphi Delta A j k in fpre_phi nP party Delta A k XOR (bH ! 0 XOR bH ! 1))"

definition MACphi :: "share_array \<Rightarrow> (nat \<Rightarrow> block arr) \<Rightarrow> nat \<Rightarrow> nat \<Rightarrow> block" where
  "MACphi A recv j k =
     (case A of (tr, MAC, KEY) \<Rightarrow>
        let hin = sigma (MAC j (3 * k)) XOR makeBlock 0 (of_nat (2 * k + of_bool (tr (3 * k))));
            h = CRH_H crh_key hin
        in if tr (3 * k) then h XOR recv j k else h)"

text \<open>\<^verbatim>\<open>tKEYphi[party]\<close>: the party's share of a block that is zero for a correct triple.\<close>

definition fpre_H :: "nat \<Rightarrow> nat \<Rightarrow> block \<Rightarrow> share_array \<Rightarrow> (nat \<Rightarrow> block arr) \<Rightarrow> nat \<Rightarrow> block" where
  "fpre_H nP party Delta A recv k =
     (case A of (tr, MAC, KEY) \<Rightarrow>
        let h = fold (\<lambda>i x. (((x XOR KEYphi Delta A i k ! 0) XOR MACphi A recv i k) XOR KEY i (3 * k + 2)) XOR MAC i (3 * k + 2))
                  (others nP party) zero_block;
            h = (if tr (3 * k) then h XOR fpre_phi nP party Delta A k else h)
        in if tr (3 * k + 2) then h XOR Delta else h)"

text \<open>\<open>skip\<close> is the misalignment of the array the random bits are written to (see \<open>random_bool\<close>).\<close>

definition fpre_X :: "nat \<Rightarrow> nat \<Rightarrow> nat \<Rightarrow> block \<Rightarrow> block arr \<Rightarrow> block list" where
  "fpre_X ssp n skip key H =
     fst (fold (\<lambda>i (X, g). let (tmp, g) = random_bool skip n g in (X @ [inProd_blk (\<lambda>k. tmp ! k) H n], g))
           [0..<ssp] ([], reseed key 0))"

definition X_digest :: "(bytes \<Rightarrow> bytes) \<Rightarrow> block list \<Rightarrow> bytes" where
  "X_digest sha X = hash_once sha (concat (map bytes_of_block X))"

definition fpre_commitment :: "(bytes \<Rightarrow> bytes) \<Rightarrow> nat \<Rightarrow> nat \<Rightarrow> (nat \<Rightarrow> bytes) \<Rightarrow> (nat \<Rightarrow> block list) \<Rightarrow> bool" where
  "fpre_commitment sha nP party dgst X =
     list_ex (\<lambda>j. strncmp (X_digest sha (X j)) (dgst j) DIGEST_SIZE \<noteq> 0) (others nP party)"

definition and_check :: "nat \<Rightarrow> nat \<Rightarrow> (nat \<Rightarrow> block list) \<Rightarrow> bool" where
  "and_check nP ssp X =
     cmpBlock (fold (\<lambda>i x k. x k XOR X i ! k) [2..<Suc nP] (\<lambda>k. X 1 ! k)) (\<lambda>_. zero_block) ssp"

subsection \<open>Buckets\<close>

definition int32_of_bytes :: "8 word list \<Rightarrow> 32 word" where
  "int32_of_bytes bs = foldr (\<lambda>x w. ucast x OR push_bit 8 w) bs 0"

definition shuffle_index :: "32 word \<Rightarrow> nat \<Rightarrow> nat" where
  "shuffle_index w i = nat \<bar>sint w smod int (i + 1)\<bar>"

definition shuffle_step :: "8 word list \<Rightarrow> nat \<Rightarrow> nat arr \<Rightarrow> nat arr" where
  "shuffle_step ind i loc =
     (let index = shuffle_index (int32_of_bytes (take 4 (drop (4 * i) ind))) i;
          tmp = loc i;
          loc = loc(i := loc index)
      in loc(index := tmp))"

definition fpre_location :: "nat \<Rightarrow> block \<Rightarrow> nat arr" where
  "fpre_location n S =
     (let ind = fst (random_data (n * 4) (reseed S 0))
      in fold (shuffle_step ind) (rev [0..<n]) (\<lambda>i. i))"

definition bucket_d :: "nat \<Rightarrow> nat arr \<Rightarrow> bool arr \<Rightarrow> bool arr" where
  "bucket_d b loc tr = (\<lambda>m. let i = m div (b - 1); j = m mod (b - 1)
     in bxor (tr (3 * loc (i * b) + 1)) (tr (3 * loc (i * b + 1 + j) + 1)))"

definition bucket_D :: "nat \<Rightarrow> (nat \<Rightarrow> bool arr) \<Rightarrow> bool arr" where
  "bucket_D nP d = (\<lambda>m. fold (\<lambda>i x. bxor x (d i m)) [2..<Suc nP] (d 1 m))"

text \<open>Element \<open>c\<close> of combined triple \<open>i\<close>, for the tags and keys and for the bits.\<close>

definition combine_blk :: "nat \<Rightarrow> nat arr \<Rightarrow> bool arr \<Rightarrow> block arr \<Rightarrow> nat \<Rightarrow> nat \<Rightarrow> block" where
  "combine_blk b loc D t i c =
     (if c = 0 then fold (\<lambda>k x. x XOR t (3 * loc (i * b + k))) [1..<b] (t (3 * loc (i * b)))
      else if c = 1 then t (3 * loc (i * b) + 1)
      else fold (\<lambda>k x. if D ((b - 1) * i + k - 1) then x XOR t (3 * loc (i * b + k)) else x) [1..<b]
             (fold (\<lambda>k x. x XOR t (3 * loc (i * b + k) + 2)) [1..<b] (t (3 * loc (i * b) + 2))))"

definition combine_bool :: "nat \<Rightarrow> nat arr \<Rightarrow> bool arr \<Rightarrow> bool arr \<Rightarrow> nat \<Rightarrow> nat \<Rightarrow> bool" where
  "combine_bool b loc D t i c =
     (if c = 0 then fold (\<lambda>k x. bxor x (t (3 * loc (i * b + k)))) [1..<b] (t (3 * loc (i * b)))
      else if c = 1 then t (3 * loc (i * b) + 1)
      else fold (\<lambda>k x. if D ((b - 1) * i + k - 1) then bxor x (t (3 * loc (i * b + k))) else x) [1..<b]
             (fold (\<lambda>k x. bxor x (t (3 * loc (i * b + k) + 2))) [1..<b] (t (3 * loc (i * b) + 2))))"

definition fpre_combine ::
  "nat \<Rightarrow> nat \<Rightarrow> nat \<Rightarrow> nat \<Rightarrow> nat arr \<Rightarrow> (nat \<Rightarrow> bool arr) \<Rightarrow> share_array \<Rightarrow> share_array \<Rightarrow> share_array" where
  "fpre_combine nP party len b loc d A out =
     (case A of (tr, tMAC, tKEY) \<Rightarrow> case out of (r, MAC, KEY) \<Rightarrow>
        let D = bucket_D nP d
        in (\<lambda>w. if w < 3 * len then combine_bool b loc D tr (w div 3) (w mod 3) else r w,
            \<lambda>j w. if j \<in> set (others nP party) \<and> w < 3 * len then combine_blk b loc D (tMAC j) (w div 3) (w mod 3) else MAC j w,
            \<lambda>j w. if j \<in> set (others nP party) \<and> w < 3 * len then combine_blk b loc D (tKEY j) (w div 3) (w mod 3) else KEY j w))"

subsection \<open>The honest run of compute\<close>

record fpre_coins =
  fc_s :: "bool party_arr"
  fc_check :: block
  fc_and :: block
  fc_shuffle :: block

definition leaky_run :: "nat \<Rightarrow> nat \<Rightarrow> (nat \<Rightarrow> block) \<Rightarrow> (nat \<Rightarrow> share_array) \<Rightarrow> (nat \<Rightarrow> bool party_arr) \<Rightarrow> nat \<Rightarrow> bool arr \<times> bool arr" where
  "leaky_run nP n \<Delta> A rnd p =
     leaky_fix nP p n (leaky_cross p (A p) (rnd p) (\<lambda>i. leaky_send (\<Delta> i) (A i) (rnd i) p)) (fst (A p))"

definition leaky_triples :: "nat \<Rightarrow> nat \<Rightarrow> (nat \<Rightarrow> block) \<Rightarrow> (nat \<Rightarrow> share_array) \<Rightarrow> (nat \<Rightarrow> bool party_arr) \<Rightarrow> nat \<Rightarrow> share_array" where
  "leaky_triples nP n \<Delta> A rnd p =
     (snd (leaky_run nP n \<Delta> A rnd p), fst (snd (A p)),
      fix_keys nP p n (\<Delta> p) (\<lambda>j. fst (leaky_run nP n \<Delta> A rnd j)) (snd (snd (A p))))"

definition and_vectors :: "nat \<Rightarrow> nat \<Rightarrow> nat \<Rightarrow> nat \<Rightarrow> (nat \<Rightarrow> block) \<Rightarrow> (nat \<Rightarrow> share_array) \<Rightarrow> block \<Rightarrow> nat \<Rightarrow> block list" where
  "and_vectors nP ssp n skip \<Delta> B key p =
     fpre_X ssp n skip key (fpre_H nP p (\<Delta> p) (B p) (\<lambda>j. phi_send nP j (\<Delta> j) (B j) p))"

definition run_fpre ::
  "(bytes \<Rightarrow> bytes) \<Rightarrow> nat \<Rightarrow> nat \<Rightarrow> nat \<Rightarrow> nat \<Rightarrow> (nat \<Rightarrow> block) \<Rightarrow> (nat \<Rightarrow> share_array) \<Rightarrow> (nat \<Rightarrow> fpre_coins)
   \<Rightarrow> (nat \<Rightarrow> share_array) \<Rightarrow> nat \<Rightarrow> fpre_error + share_array" where
  "run_fpre sha nP ssp skip len \<Delta> A coins heap p =
     (let b = get_bucket_size len; n = len * b; B = leaky_triples nP n \<Delta> A (\<lambda>q. fc_s (coins q)) in
      case run_abit_check sha nP ssp (n * 3 + 3 * ssp) (\<lambda>q. fc_check (coins q)) \<Delta> B p of
        Inl e \<Rightarrow> Inl (Abit_check e)
      | Inr _ \<Rightarrow>
        (case run_sampleRandom sha nP (\<lambda>q. fc_and (coins q)) p of
           None \<Rightarrow> Inl Coin
         | Some key \<Rightarrow>
           (let X = and_vectors nP ssp n skip \<Delta> B key in
            if fpre_commitment sha nP p (\<lambda>j. X_digest sha (X j)) X then Inl Commitment
            else if \<not> and_check nP ssp X then Inl AND_check
            else case run_sampleRandom sha nP (\<lambda>q. fc_shuffle (coins q)) p of
                   None \<Rightarrow> Inl Coin
                 | Some S \<Rightarrow>
                     let loc = fpre_location n S
                     in Inr (fpre_combine nP p len b loc (\<lambda>q. bucket_d b loc (fst (B q))) (B p) (heap p)))))"

subsection \<open>One garbled gate\<close>

lemma HnID_nth:
  "k < length inp \<Longrightarrow> HnID aes inp i ! k = CRH_H aes (sigma (inp ! k) XOR makeBlock 0 (i + of_nat k))"
  by (simp add: HnID_def permute_block_map CRH_H_eq Let_def)

lemma and_one_neq: "(v AND 1 \<noteq> w AND 1) = (bit v 0 \<noteq> bit w 0)" for v w :: "8 word"
proof -
  have "(v AND 1 = w AND 1) = (odd v = odd w)" by (cases "odd v"; cases "odd w") (simp_all add: and_one_eq odd_iff_mod_2_eq_one)
  then show ?thesis by (simp add: bit_0)
qed

lemma bit_LSB: "bit (LSB b) k = (k = 0 \<and> bit b 0)"
  by (auto simp: LSB_def bit_and_iff bit_1_iff bit_ucast_iff)

lemma bit_byte_consts:
  "bit (1 :: 8 word) k = (k = 0)" "bit (2 :: 8 word) k = (k = 1)" "bit (4 :: 8 word) k = (k = 2)" "bit (8 :: 8 word) k = (k = 3)"
  using bit_exp_iff [where ?'a = "8 word", of 0 k] bit_exp_iff [where ?'a = "8 word", of 1 k]
    bit_exp_iff [where ?'a = "8 word", of 2 k] bit_exp_iff [where ?'a = "8 word", of 3 k]
  by auto

lemma bit_push_LSB: "bit (push_bit m (LSB b)) k = (k = m \<and> m < 8 \<and> bit b 0)"
  by (auto simp: bit_push_bit_iff bit_LSB)

lemma bit_if_xor: "bit (if c then x XOR y else x) k = bxor (bit x k) (c \<and> bit y k)"
  by (simp add: bit_xor_iff bxor_def)

lemma eval_garble:
  assumes "MAC (3 * i) = KEY (3 * i) XOR gate_blk (r' (3 * i)) D"
    and "MAC (3 * i + 1) = KEY (3 * i + 1) XOR gate_blk (r' (3 * i + 1)) D"
  shows "fpre_evaluate (fpre_garble D KEY r r2 i) MAC r' i
      = bxor (bxor (r' (3 * i)) (r (3 * i)) \<and> bxor (r' (3 * i + 1)) (r (3 * i + 1))) (r2 i)"
proof -
  let ?in = "[KEY (3 * i), KEY (3 * i) XOR D, KEY (3 * i + 1), KEY (3 * i + 1) XOR D]"
  let ?t = "HnID crh_key ?in (of_nat (4 * i))"
  have t: "CRH_H crh_key (sigma (MAC (3 * i)) XOR makeBlock 0 (of_nat (4 * i + of_bool (r' (3 * i))))) = ?t ! (of_bool (r' (3 * i)))"
    "CRH_H crh_key (sigma (MAC (3 * i + 1)) XOR makeBlock 0 (of_nat (4 * i + 2 + of_bool (r' (3 * i + 1))))) = ?t ! (2 + of_bool (r' (3 * i + 1)))"
    using assms by (simp_all add: HnID_nth add.commute)
  have bits: "bit (fpre_garble D KEY r r2 i) (of_bool b * 2 + of_bool a)
      = bxor (bit (?t ! (of_bool a) XOR ?t ! (2 + of_bool b)) 0) (bxor ((a \<noteq> r (3 * i)) \<and> (b \<noteq> r (3 * i + 1))) (r2 i))" for a b
    unfolding fpre_garble_def Let_def bit_if_xor bit_or_iff bit_push_LSB bit_LSB bit_byte_consts
    by (cases a; cases b) (simp_all add: bit_xor_iff bxor_def numeral_2_eq_2 numeral_3_eq_3)
  have ev: "fpre_evaluate (fpre_garble D KEY r r2 i) MAC r' i
      = (bit (fpre_garble D KEY r r2 i) (of_bool (r' (3 * i + 1)) * 2 + of_bool (r' (3 * i)))
         \<noteq> bit (?t ! (of_bool (r' (3 * i))) XOR ?t ! (2 + of_bool (r' (3 * i + 1)))) 0)"
    unfolding fpre_evaluate_def Let_def t and_one_neq bit_LSB by (simp add: bit_drop_bit_eq)
  have cancel: "(bxor h c \<noteq> h) = c" for h c by (auto simp: bxor_def)
  show ?thesis unfolding ev bits cancel by (simp only: bxor_def)
qed

subsection \<open>Leaky triples are triples\<close>

lemma triple_index [simp]:
  "Suc (3 * k) mod 3 = Suc 0" "Suc (Suc (3 * k)) mod 3 = 2" "Suc (3 * k) div 3 = k" "Suc (Suc (3 * k)) div 3 = k"
  by (simp_all add: Suc_times_mod_eq div_Suc mod_Suc)

lemma third_Suc: "(w mod 3 = 2 \<and> w div 3 < Suc n) = ((w mod 3 = 2 \<and> w div 3 < n) \<or> w = 3 * n + 2)" for w n :: nat
proof -
  have "w mod 3 = 2 \<and> w div 3 = n \<longleftrightarrow> w = 3 * n + 2" by presburger
  then show ?thesis by (auto simp: less_Suc_eq)
qed

lemma leaky_fix_eq:
  fixes s :: "bool party_arr" and tr :: "bool arr" and nP :: nat
  defines "s0 \<equiv> \<lambda>p k. bxor (tr (3 * k) \<and> tr (3 * k + 1)) (parity (\<lambda>i. s i k) (others nP p))"
  shows "leaky_fix nP p n s tr
      = (\<lambda>k. k < n \<and> bxor (s0 p k) (tr (3 * k + 2)), \<lambda>w. if w mod 3 = 2 \<and> w div 3 < n then s0 p (w div 3) else tr w)"
proof (induction n)
  case (Suc n)
  let ?e = "\<lambda>n k. k < n \<and> bxor (s0 p k) (tr (3 * k + 2))"
  let ?t = "\<lambda>n w. if w mod 3 = 2 \<and> w div 3 < n then s0 p (w div 3) else tr w"
  have "leaky_fix nP p (Suc n) s tr = ((?e n)(n := bxor (s0 p n) (tr (3 * n + 2))), (?t n)(3 * n + 2 := s0 p n))"
    using Suc unfolding leaky_fix_def by (simp add: Let_def fold_bxor_parity s0_def)
  also have "(?e n)(n := bxor (s0 p n) (tr (3 * n + 2))) = ?e (Suc n)"
    by (rule ext) (simp add: less_Suc_eq)
  also have "(?t n)(3 * n + 2 := s0 p n) = ?t (Suc n)"
  proof (rule ext)
    show "((?t n)(3 * n + 2 := s0 p n)) w = ?t (Suc n) w" for w
      unfolding third_Suc by (cases "w = 3 * n + 2") simp_all
  qed
  finally show ?case .
qed (simp add: leaky_fix_def)

lemma fix_keys_eq:
  assumes "j \<in> set (others nP p)"
  shows "fix_keys nP p n D recv KEY j w = KEY j w XOR gate_blk (w mod 3 = 2 \<and> w div 3 < n \<and> recv j (w div 3)) D"
proof -
  have "fold (\<lambda>k K. if recv j k then K(3 * k + 2 := K (3 * k + 2) XOR D) else K) [0..<n] K w
      = K w XOR gate_blk ((w mod 3 = 2 \<and> w div 3 < n) \<and> recv j (w div 3)) D" for K
  proof (induction n)
    case (Suc n)
    then show ?case unfolding third_Suc by (cases "w = 3 * n + 2") simp_all
  qed simp
  then show ?thesis using assms by (simp add: fix_keys_def del: set_others)
qed

lemma parity_symmetric_pairs:
  assumes "distinct is" and "\<And>p j. p \<in> set is \<Longrightarrow> j \<in> set is \<Longrightarrow> p \<noteq> j \<Longrightarrow> t p j = t j p"
  shows "parity (\<lambda>p. parity (t p) (filter (\<lambda>j. j \<noteq> p) is)) is = False"
  using assms
proof (induction "is")
  case (Cons a js)
  have "parity (\<lambda>p. parity (t p) (filter (\<lambda>j. j \<noteq> p) (a # js))) js
      = parity (\<lambda>p. bxor (t p a) (parity (t p) (filter (\<lambda>j. j \<noteq> p) js))) js"
    using Cons.prems by (intro parity_cong refl) auto
  moreover have "filter (\<lambda>j. j \<noteq> a) js = js" using Cons.prems by (auto intro: filter_True)
  moreover have "parity (t a) js = parity (\<lambda>p. t p a) js"
    using Cons.prems by (intro parity_cong refl) auto
  ultimately show ?case using Cons by (simp add: parity_bxor)
qed simp

lemma product_of_sums:
  assumes "\<And>p j. 1 \<le> p \<Longrightarrow> p \<le> nP \<Longrightarrow> 1 \<le> j \<Longrightarrow> j \<le> nP \<Longrightarrow> p \<noteq> j \<Longrightarrow>
      bxor (s p j) (s j p) = bxor (x p \<and> y j) (x j \<and> y p)"
  shows "parity (\<lambda>p. bxor (x p \<and> y p) (parity (s p) (others nP p))) (parties nP)
      = (parity x (parties nP) \<and> parity y (parties nP))"
proof -
  let ?t = "\<lambda>p j. bxor (s p j) (x p \<and> y j)"
  have "?t p j = ?t j p" if "p \<in> set (parties nP)" "j \<in> set (parties nP)" "p \<noteq> j" for p j
    using assms [of p j] that by (auto simp: bxor_def simp del: upt_Suc)
  then have "parity (\<lambda>p. parity (?t p) (others nP p)) (parties nP) = False"
    unfolding others_def by (intro parity_symmetric_pairs) (auto simp del: upt_Suc)
  then have pairs: "parity (\<lambda>p. parity (s p) (others nP p)) (parties nP)
      = parity (\<lambda>p. parity (\<lambda>j. x p \<and> y j) (others nP p)) (parties nP)"
    unfolding parity_bxor by (simp add: bxor_def del: upt_Suc)
  have "parity (\<lambda>p. bxor (x p \<and> y p) (parity (s p) (others nP p))) (parties nP)
      = parity (\<lambda>p. bxor (x p \<and> y p) (parity (\<lambda>j. x p \<and> y j) (others nP p))) (parties nP)"
    unfolding parity_bxor pairs ..
  also have "\<dots> = parity (\<lambda>p. x p \<and> parity y (parties nP)) (parties nP)"
  proof (intro parity_cong refl)
    fix p assume "p \<in> set (parties nP)"
    then have "1 \<le> p" "p \<le> nP" by auto
    from parity_parties [OF this, of "\<lambda>j. x p \<and> y j"]
    show "bxor (x p \<and> y p) (parity (\<lambda>j. x p \<and> y j) (others nP p)) = (x p \<and> parity y (parties nP))"
      unfolding parity_conj_left by simp
  qed
  finally show ?thesis unfolding parity_conj_right .
qed

text \<open>The state after the leaky phase: authenticated everywhere, and the third bit shares the product.\<close>

definition triple_at :: "nat \<Rightarrow> (nat \<Rightarrow> share_array) \<Rightarrow> nat \<Rightarrow> bool" where
  "triple_at nP A k \<longleftrightarrow> parity (\<lambda>p. fst (A p) (3 * k + 2)) (parties nP)
     = (parity (\<lambda>p. fst (A p) (3 * k)) (parties nP) \<and> parity (\<lambda>p. fst (A p) (3 * k + 1)) (parties nP))"

lemma leaky_triples_auth:
  assumes "auth_at nP \<Delta> A w"
  shows "auth_at nP \<Delta> (leaky_triples nP n \<Delta> A rnd) w"
  unfolding auth_at_def
proof (rule auth_bitI)
  fix i j assume ij: "1 \<le> i" "i \<le> nP" "1 \<le> j" "j \<le> nP" "i \<noteq> j"
  let ?L = "leaky_run nP n \<Delta> A rnd"
  have "snd (?L i) w = bxor (fst (A i) w) (w mod 3 = 2 \<and> w div 3 < n \<and> fst (?L i) (w div 3))"
  proof -
    have "3 * (w div 3) + 2 = w" if "w mod 3 = 2" using that by (metis mult_div_mod_eq)
    then show ?thesis unfolding leaky_run_def leaky_fix_eq by (auto simp: bxor_def)
  qed
  then show "fst (snd (leaky_triples nP n \<Delta> A rnd i)) j w
      = snd (snd (leaky_triples nP n \<Delta> A rnd j)) i w XOR gate_blk (fst (leaky_triples nP n \<Delta> A rnd i) w) (\<Delta> j)"
    using auth_bitD [OF assms [unfolded auth_at_def] ij] ij
    by (simp add: leaky_triples_def fix_keys_eq gate_blk_bxor xor_ac)
qed

lemma leaky_cross_pair:
  fixes rnd :: "nat \<Rightarrow> bool party_arr"
  assumes "auth_at nP \<Delta> A (3 * k)" and "auth_at nP \<Delta> A (3 * k + 1)"
    and "1 \<le> p" "p < j" "j \<le> nP"
  defines "s \<equiv> \<lambda>p. leaky_cross p (A p) (rnd p) (\<lambda>i. leaky_send (\<Delta> i) (A i) (rnd i) p)"
  shows "bxor (s p j k) (s j p k) = bxor (fst (A p) (3 * k) \<and> fst (A j) (3 * k + 1)) (fst (A j) (3 * k) \<and> fst (A p) (3 * k + 1))"
proof -
  have m: "fst (snd (A j)) p (3 * k) = snd (snd (A p)) j (3 * k) XOR gate_blk (fst (A j) (3 * k)) (\<Delta> p)"
    "fst (snd (A j)) p (3 * k + 1) = snd (snd (A p)) j (3 * k + 1) XOR gate_blk (fst (A j) (3 * k + 1)) (\<Delta> p)"
    using auth_bitD [OF assms(1) [unfolded auth_at_def]] auth_bitD [OF assms(2) [unfolded auth_at_def]] assms(3-5) by auto
  show ?thesis
    using assms(4)
    by (auto simp: s_def leaky_cross_def leaky_send_def split_beta eval_garble [OF m] bxor_def)
qed

lemma leaky_triples_product:
  assumes "k < n" and "auth_at nP \<Delta> A (3 * k)" and "auth_at nP \<Delta> A (3 * k + 1)"
  shows "triple_at nP (leaky_triples nP n \<Delta> A rnd) k"
proof -
  let ?s = "\<lambda>p. leaky_cross p (A p) (rnd p) (\<lambda>i. leaky_send (\<Delta> i) (A i) (rnd i) p)"
  let ?x = "\<lambda>p. fst (A p) (3 * k)" and ?y = "\<lambda>p. fst (A p) (3 * k + 1)"
  have bits: "fst (leaky_triples nP n \<Delta> A rnd p) (3 * k) = ?x p" "fst (leaky_triples nP n \<Delta> A rnd p) (3 * k + 1) = ?y p"
    "fst (leaky_triples nP n \<Delta> A rnd p) (3 * k + 2) = bxor (?x p \<and> ?y p) (parity (\<lambda>j. ?s p j k) (others nP p))" for p
    using assms(1) unfolding leaky_triples_def leaky_run_def leaky_fix_eq by simp_all
  have "bxor (?s p j k) (?s j p k) = bxor (?x p \<and> ?y j) (?x j \<and> ?y p)"
    if "1 \<le> p" "p \<le> nP" "1 \<le> j" "j \<le> nP" "p \<noteq> j" for p j
  proof (cases "p < j")
    case True
    then show ?thesis using leaky_cross_pair [OF assms(2,3)] that by simp
  next
    case False
    then have "j < p" using that by simp
    then show ?thesis
      using leaky_cross_pair [OF assms(2,3), of j p rnd] that by (simp add: bxor_commute)
  qed
  from product_of_sums [where s = "\<lambda>p j. ?s p j k" and x = ?x and y = ?y, OF this]
  show ?thesis unfolding triple_at_def bits .
qed

subsection \<open>The AND check passes\<close>

text \<open>All keys and tags of an authenticated bit, and each party's offset where its share is set, add up
  to the bit times the sum of the offsets.\<close>

lemma auth_bit_total:
  assumes "auth_bit nP \<Delta> val mac key"
  shows "xsum (\<lambda>p. xsum (\<lambda>i. key p i XOR mac p i) (others nP p) XOR gate_blk (val p) (\<Delta> p)) (parties nP)
      = gate_blk (parity val (parties nP)) (xsum \<Delta> (parties nP))"
proof -
  have "xsum (\<lambda>p. xsum (\<lambda>i. mac p i) (others nP p)) (parties nP)
      = xsum (\<lambda>p. xsum (\<lambda>i. key i p XOR gate_blk (val p) (\<Delta> i)) (others nP p)) (parties nP)"
    using auth_bitD [OF assms] by (intro xsum_cong refl) (auto simp del: upt_Suc)
  moreover have "xsum (\<lambda>p. xsum (\<lambda>i. key p i) (others nP p)) (parties nP)
      = xsum (\<lambda>p. xsum (\<lambda>i. key i p) (others nP p)) (parties nP)"
    unfolding others_def by (rule xsum_pairs_swap)
  ultimately have "xsum (\<lambda>p. xsum (\<lambda>i. key p i XOR mac p i) (others nP p) XOR gate_blk (val p) (\<Delta> p)) (parties nP)
      = xsum (\<lambda>p. xsum (\<lambda>i. gate_blk (val p) (\<Delta> i)) (others nP p) XOR gate_blk (val p) (\<Delta> p)) (parties nP)"
    by (simp add: xsum_xor del: upt_Suc)
  also have "\<dots> = xsum (\<lambda>p. gate_blk (val p) (xsum \<Delta> (parties nP))) (parties nP)"
  proof (intro xsum_cong refl)
    fix p assume "p \<in> set (parties nP)"
    then have "1 \<le> p" "p \<le> nP" by auto
    from xsum_parties [OF this, of \<Delta>]
    show "xsum (\<lambda>i. gate_blk (val p) (\<Delta> i)) (others nP p) XOR gate_blk (val p) (\<Delta> p) = gate_blk (val p) (xsum \<Delta> (parties nP))"
      by (simp add: xsum_gate_blk_const gate_blk_xor_blk xor.commute)
  qed
  finally show ?thesis by (simp only: xsum_gate_blk)
qed

lemma fold_xor2: "fold (\<lambda>i x. (x XOR f i) XOR g i) is s = s XOR xsum (\<lambda>i. f i XOR g i) is"
  by (induction "is" arbitrary: s) (simp_all add: xor.assoc)

lemma fpre_phi_eq:
  "fpre_phi nP p D A k = xsum (\<lambda>i. snd (snd A) i (3 * k + 1) XOR fst (snd A) i (3 * k + 1)) (others nP p)
     XOR gate_blk (fst A (3 * k + 1)) D"
  by (simp add: fpre_phi_def split_beta Let_def fold_xor2)

lemma MACphi_eq:
  assumes "auth_at nP \<Delta> B (3 * k)" and "i \<in> set (others nP p)" and "1 \<le> p" "p \<le> nP"
  shows "MACphi (B p) (\<lambda>j. phi_send nP j (\<Delta> j) (B j) p) i k
      = KEYphi (\<Delta> i) (B i) p k ! 0 XOR gate_blk (fst (B p) (3 * k)) (fpre_phi nP i (\<Delta> i) (B i) k)"
proof -
  have m: "fst (snd (B p)) i (3 * k) = snd (snd (B i)) p (3 * k) XOR gate_blk (fst (B p) (3 * k)) (\<Delta> i)"
    using auth_bitD [OF assms(1) [unfolded auth_at_def]] assms(2-4) by auto
  have "CRH_H crh_key (sigma (fst (snd (B p)) i (3 * k)) XOR makeBlock 0 (of_nat (2 * k + of_bool (fst (B p) (3 * k)))))
      = KEYphi (\<Delta> i) (B i) p k ! of_bool (fst (B p) (3 * k))"
    by (cases "fst (B p) (3 * k)") (simp_all add: KEYphi_def split_beta HnID_nth m add.commute)
  then show ?thesis
    by (cases "fst (B p) (3 * k)") (simp_all add: MACphi_def split_beta Let_def phi_send_def xor_simps add.commute)
qed

lemma fpre_H_zero:
  assumes "auth_at nP \<Delta> B (3 * k)" "auth_at nP \<Delta> B (3 * k + 1)" "auth_at nP \<Delta> B (3 * k + 2)"
    and "triple_at nP B k"
  shows "xsum (\<lambda>p. fpre_H nP p (\<Delta> p) (B p) (\<lambda>j. phi_send nP j (\<Delta> j) (B j) p) k) (parties nP) = 0"
proof -
  define x where "x p = fst (B p) (3 * k)" for p
  define y where "y p = fst (B p) (3 * k + 1)" for p
  define z where "z p = fst (B p) (3 * k + 2)" for p
  define phi where "phi p = fpre_phi nP p (\<Delta> p) (B p) k" for p
  define K where "K p i = KEYphi (\<Delta> p) (B p) i k ! 0" for p i
  define M where "M p i = MACphi (B p) (\<lambda>j. phi_send nP j (\<Delta> j) (B j) p) i k" for p i
  have H: "fpre_H nP p (\<Delta> p) (B p) (\<lambda>j. phi_send nP j (\<Delta> j) (B j) p) k
      = (xsum (\<lambda>i. K p i XOR M p i) (others nP p) XOR gate_blk (x p) (phi p))
        XOR (xsum (\<lambda>i. snd (snd (B p)) i (3 * k + 2) XOR fst (snd (B p)) i (3 * k + 2)) (others nP p) XOR gate_blk (z p) (\<Delta> p))" for p
  proof -
    have "fold (\<lambda>i x. (((x XOR K p i) XOR M p i) XOR snd (snd (B p)) i (3 * k + 2)) XOR fst (snd (B p)) i (3 * k + 2)) js t
        = t XOR (xsum (\<lambda>i. K p i XOR M p i) js XOR xsum (\<lambda>i. snd (snd (B p)) i (3 * k + 2) XOR fst (snd (B p)) i (3 * k + 2)) js)" for js t
      by (induction js arbitrary: t) (simp_all add: xor_ac)
    then show ?thesis
      unfolding fpre_H_def split_beta Let_def K_def [symmetric] M_def [symmetric] phi_def [symmetric]
      by (simp add: x_def z_def gate_blk_def xor_ac)
  qed
  have "auth_bit nP phi x M K"
    by (rule auth_bitI) (simp add: M_def K_def x_def phi_def MACphi_eq [OF assms(1)])
  from auth_bit_total [OF this]
  have sx: "xsum (\<lambda>p. xsum (\<lambda>i. K p i XOR M p i) (others nP p) XOR gate_blk (x p) (phi p)) (parties nP)
      = gate_blk (parity x (parties nP)) (xsum phi (parties nP))" .
  have sphi: "xsum phi (parties nP) = gate_blk (parity y (parties nP)) (xsum \<Delta> (parties nP))"
    unfolding phi_def fpre_phi_eq y_def by (rule auth_bit_total [OF assms(2) [unfolded auth_at_def]])
  have sz: "xsum (\<lambda>p. xsum (\<lambda>i. snd (snd (B p)) i (3 * k + 2) XOR fst (snd (B p)) i (3 * k + 2)) (others nP p)
      XOR gate_blk (z p) (\<Delta> p)) (parties nP) = gate_blk (parity z (parties nP)) (xsum \<Delta> (parties nP))"
    unfolding z_def by (rule auth_bit_total [OF assms(3) [unfolded auth_at_def]])
  have "parity z (parties nP) = (parity x (parties nP) \<and> parity y (parties nP))"
    using assms(4) unfolding triple_at_def x_def y_def z_def .
  then show ?thesis
    unfolding H xsum_xor [of "\<lambda>p. xsum (\<lambda>i. K p i XOR M p i) (others nP p) XOR gate_blk (x p) (phi p)"] sx sz sphi
    by (cases "parity x (parties nP)"; cases "parity y (parties nP)") (simp_all del: upt_Suc)
qed

lemma fpre_X_linear: "\<exists>T. \<forall>H. fpre_X ssp n skip key H = map (\<lambda>i. inProd_blk (T i) H n) [0..<ssp]"
proof -
  define step where "step H = (\<lambda>(i :: nat) (X, g). let (tmp, g) = random_bool skip n g in (X @ [inProd_blk (\<lambda>k. tmp ! k) H n], g))" for H
  have step: "step H i (X, g) = (X @ [inProd_blk (\<lambda>k. fst (random_bool skip n g) ! k) H n], snd (random_bool skip n g))" for H i X g
    by (simp add: step_def split_beta)
  have "\<exists>T g. \<forall>H. fold (step H) [0..<ssp] ([], reseed key 0) = (map (\<lambda>i. inProd_blk (T i) H n) [0..<ssp], g)"
  proof (induction ssp)
    case (Suc m)
    then obtain T g where IH: "\<And>H. fold (step H) [0..<m] ([], reseed key 0) = (map (\<lambda>i. inProd_blk (T i) H n) [0..<m], g)" by blast
    then show ?case
      by (intro exI [of _ "T(m := \<lambda>k. fst (random_bool skip n g) ! k)"] exI [of _ "snd (random_bool skip n g)"])
        (simp add: step)
  qed simp
  then show ?thesis unfolding fpre_X_def step_def by (metis fst_conv)
qed

lemma and_check_ok:
  assumes "1 \<le> nP" and "\<And>k. k < n \<Longrightarrow> xsum (\<lambda>p. H p k) (parties nP) = 0"
  shows "and_check nP ssp (\<lambda>p. fpre_X ssp n skip key (H p))"
proof -
  obtain T where T: "\<And>H. fpre_X ssp n skip key H = map (\<lambda>i. inProd_blk (T i) H n) [0..<ssp]"
    using fpre_X_linear by metis
  have sum: "fold (\<lambda>i x k. x k XOR X i ! k) is x0 = (\<lambda>k. x0 k XOR xsum (\<lambda>i. X i ! k) is)" for X "is" x0
    by (induction "is" arbitrary: x0) (auto simp: xor.assoc)
  have "fold (\<lambda>i x k. x k XOR fpre_X ssp n skip key (H i) ! k) [2..<Suc nP] (\<lambda>k. fpre_X ssp n skip key (H 1) ! k) k = 0"
    if "k < ssp" for k
  proof -
    have "fold (\<lambda>i x k. x k XOR fpre_X ssp n skip key (H i) ! k) [2..<Suc nP] (\<lambda>k. fpre_X ssp n skip key (H 1) ! k) k
        = xsum (\<lambda>p. fpre_X ssp n skip key (H p) ! k) (parties nP)"
      unfolding sum parties_Cons [OF assms(1)] xsum_simps ..
    also have "\<dots> = xsum (\<lambda>p. xsum (\<lambda>i. gate_blk (T k i) (H p i)) [0..<n]) (parties nP)"
      using that by (simp add: T inProd_blk_xsum del: upt_Suc)
    also have "\<dots> = xsum (\<lambda>i. gate_blk (T k i) (xsum (\<lambda>p. H p i) (parties nP))) [0..<n]"
      by (subst xsum_swap) (simp only: xsum_gate_blk_const)
    also have "\<dots> = xsum (\<lambda>i. 0) [0..<n]"
      using assms(2) by (intro xsum_cong refl) (simp del: upt_Suc)
    finally show ?thesis by simp
  qed
  then show ?thesis unfolding and_check_def cmpBlock_iff by simp
qed

subsection \<open>The shuffle is a permutation\<close>

lemma shuffle_index_le: "shuffle_index w i \<le> i"
proof -
  have "\<bar>a smod int (i + 1)\<bar> \<le> int i" for a
  proof -
    have "\<bar>a\<bar> mod (1 + int i) < 1 + int i" by simp
    then have "\<bar>a\<bar> mod (1 + int i) \<le> int i" by linarith
    then show ?thesis by (simp add: signed_modulo_int_def abs_mult abs_sgn_eq)
  qed
  then show ?thesis unfolding shuffle_index_def by (metis nat_int nat_mono)
qed

lemma swap_bij:
  assumes "bij_betw f {..<n} {..<n}" and "i < n" and "j < n"
  shows "bij_betw (f(i := f j, j := f i)) {..<n} {..<n}"
proof -
  define sw where "sw k = (if k = i then j else if k = j then i else k)" for k
  have "f(i := f j, j := f i) = f \<circ> sw"
    by (auto simp: fun_eq_iff sw_def)
  moreover have "bij_betw sw {..<n} {..<n}"
    using assms(2,3) by (intro bij_betw_byWitness [where f' = sw]) (auto simp: sw_def)
  ultimately show ?thesis using assms(1) by (simp add: bij_betw_trans)
qed

lemma fpre_location_bij: "bij_betw (fpre_location n S) {..<n} {..<n}"
proof -
  have "bij_betw (fold (shuffle_step ind) is loc) {..<n} {..<n}"
    if "bij_betw loc {..<n} {..<n}" "set is \<subseteq> {..<n}" for ind "is" loc
    using that
  proof (induction "is" arbitrary: loc)
    case (Cons i "is")
    let ?j = "shuffle_index (int32_of_bytes (take 4 (drop (4 * i) ind))) i"
    have "i < n" using Cons.prems(2) by simp
    then have "?j < n" using shuffle_index_le order_le_less_trans by blast
    then have "bij_betw (shuffle_step ind i loc) {..<n} {..<n}"
      unfolding shuffle_step_def Let_def using swap_bij [OF Cons.prems(1) \<open>i < n\<close>] by simp
    then show ?case using Cons.IH Cons.prems(2) by simp
  qed simp
  then show ?thesis by (simp add: fpre_location_def Let_def bij_betw_id [unfolded id_def] lessThan_atLeast0)
qed

lemma fpre_location_less: "i < n \<Longrightarrow> fpre_location n S i < n"
  using fpre_location_bij bij_betwE by (metis lessThan_iff)

subsection \<open>Combining a bucket\<close>

lemma auth_bit_sum:
  assumes "\<And>k. k \<in> set ks \<Longrightarrow> auth_bit nP \<Delta> (\<lambda>p. val p k) (\<lambda>p j. mac p j k) (\<lambda>p j. key p j k)"
  shows "auth_bit nP \<Delta> (\<lambda>p. parity (val p) ks) (\<lambda>p j. xsum (mac p j) ks) (\<lambda>p j. xsum (key p j) ks)"
  using assms by (induction ks) (auto simp: auth_bit_zero intro!: auth_bit_xor)

lemma upt_first: "0 < b \<Longrightarrow> [0..<b] = 0 # [1..<b]"
  by (simp add: upt_rec)

lemma combine_blk_eq:
  assumes "0 < b"
  shows "combine_blk b loc D t i 0 = xsum (\<lambda>k. t (3 * loc (i * b + k))) [0..<b]"
    and "combine_blk b loc D t i 1 = t (3 * loc (i * b) + 1)"
    and "combine_blk b loc D t i 2 = xsum (\<lambda>k. t (3 * loc (i * b + k) + 2)) [0..<b]
           XOR xsum (\<lambda>k. gate_blk (D ((b - 1) * i + k - 1)) (t (3 * loc (i * b + k)))) [1..<b]"
  unfolding combine_blk_def upt_first [OF assms] xsum_simps if_xor_gate_blk fold_xor_xsum by simp_all

lemma if_bxor: "(if c then bxor x b else x) = bxor x (c \<and> b)"
  by simp

lemma combine_bool_eq:
  assumes "0 < b"
  shows "combine_bool b loc D t i 0 = parity (\<lambda>k. t (3 * loc (i * b + k))) [0..<b]"
    and "combine_bool b loc D t i 1 = t (3 * loc (i * b) + 1)"
    and "combine_bool b loc D t i 2 = bxor (parity (\<lambda>k. t (3 * loc (i * b + k) + 2)) [0..<b])
           (parity (\<lambda>k. D ((b - 1) * i + k - 1) \<and> t (3 * loc (i * b + k))) [1..<b])"
  unfolding combine_bool_def upt_first [OF assms] parity_simps if_bxor fold_bxor_parity by simp_all

lemma bucket_D_eq:
  assumes "1 \<le> nP" and "1 \<le> k" and "k < b"
  shows "bucket_D nP (\<lambda>q. bucket_d b loc (tr q)) ((b - 1) * i + k - 1)
      = bxor (parity (\<lambda>q. tr q (3 * loc (i * b) + 1)) (parties nP)) (parity (\<lambda>q. tr q (3 * loc (i * b + k) + 1)) (parties nP))"
proof -
  have "((b - 1) * i + k - 1) div (b - 1) = i" "((b - 1) * i + k - 1) mod (b - 1) = k - 1"
  proof -
    have eq: "(b - 1) * i + k - 1 = (k - 1) + (b - 1) * i" and lt: "k - 1 < b - 1" using assms(2,3) by simp_all
    show "((b - 1) * i + k - 1) div (b - 1) = i" "((b - 1) * i + k - 1) mod (b - 1) = k - 1"
      unfolding eq using lt by simp_all
  qed
  then show ?thesis
    using assms(2) unfolding bucket_D_def bucket_d_def Let_def fold_bxor_parity parity_bxor [symmetric] parties_Cons [OF assms(1)]
    by (simp add: parity_bxor bxor_ac del: upt_Suc)
qed

lemma combined_product:
  assumes b: "0 < b" and nP: "1 \<le> nP" and t: "\<And>k. k < b \<Longrightarrow> triple_at nP B (loc (i * b + k))"
  defines "D \<equiv> bucket_D nP (\<lambda>q. bucket_d b loc (fst (B q)))"
  shows "parity (\<lambda>p. combine_bool b loc D (fst (B p)) i 2) (parties nP)
      = (parity (\<lambda>p. combine_bool b loc D (fst (B p)) i 0) (parties nP) \<and> parity (\<lambda>p. combine_bool b loc D (fst (B p)) i 1) (parties nP))"
proof -
  define X where "X k = parity (\<lambda>p. fst (B p) (3 * loc (i * b + k))) (parties nP)" for k
  define Y where "Y k = parity (\<lambda>p. fst (B p) (3 * loc (i * b + k) + 1)) (parties nP)" for k
  define Z where "Z k = parity (\<lambda>p. fst (B p) (3 * loc (i * b + k) + 2)) (parties nP)" for k
  have Z: "Z k = (X k \<and> Y k)" if "k < b" for k
    using t [OF that] unfolding triple_at_def X_def Y_def Z_def .
  have D: "D ((b - 1) * i + k - 1) = bxor (Y 0) (Y k)" if "k \<in> set [1..<b]" for k
    using bucket_D_eq [OF nP, of k b loc "\<lambda>q. fst (B q)" i] that by (simp add: D_def Y_def del: upt_Suc)
  have "parity (\<lambda>p. combine_bool b loc D (fst (B p)) i 2) (parties nP)
      = bxor (parity Z [0..<b]) (parity (\<lambda>k. D ((b - 1) * i + k - 1) \<and> X k) [1..<b])"
    unfolding combine_bool_eq [OF b] parity_bxor Z_def X_def
    by (subst (1 2) parity_swap) (simp only: parity_conj_left)
  also have "parity (\<lambda>k. D ((b - 1) * i + k - 1) \<and> X k) [1..<b] = parity (\<lambda>k. bxor (Y 0) (Y k) \<and> X k) [1..<b]"
    by (intro parity_cong refl) (simp only: D)
  also have "parity Z [0..<b] = bxor (X 0 \<and> Y 0) (parity (\<lambda>k. X k \<and> Y k) [1..<b])"
    unfolding upt_first [OF b] parity_simps using Z b by (intro arg_cong2 [where f = bxor] parity_cong) auto
  also have "bxor (bxor (X 0 \<and> Y 0) (parity (\<lambda>k. X k \<and> Y k) [1..<b])) (parity (\<lambda>k. bxor (Y 0) (Y k) \<and> X k) [1..<b])
      = bxor (X 0 \<and> Y 0) (parity (\<lambda>k. bxor (X k \<and> Y k) (bxor (Y 0) (Y k) \<and> X k)) [1..<b])"
    unfolding parity_bxor bxor_assoc ..
  also have "(\<lambda>k. bxor (X k \<and> Y k) (bxor (Y 0) (Y k) \<and> X k)) = (\<lambda>k. X k \<and> Y 0)"
    by (rule ext) (auto simp: bxor_def)
  also have "bxor (X 0 \<and> Y 0) (parity (\<lambda>k. X k \<and> Y 0) [1..<b]) = (parity X [0..<b] \<and> Y 0)"
    unfolding upt_first [OF b] parity_simps parity_conj_right by (auto simp: bxor_def)
  also have "parity X [0..<b] = parity (\<lambda>p. combine_bool b loc D (fst (B p)) i 0) (parties nP)"
    unfolding combine_bool_eq [OF b] X_def by (rule parity_swap)
  also have "Y 0 = parity (\<lambda>p. combine_bool b loc D (fst (B p)) i 1) (parties nP)"
    unfolding combine_bool_eq [OF b] Y_def by simp
  finally show ?thesis .
qed

lemma combined_auth:
  assumes b: "0 < b" and t: "\<And>k c. k < b \<Longrightarrow> c < 3 \<Longrightarrow> auth_at nP \<Delta> B (3 * loc (i * b + k) + c)" and c: "c < 3"
  shows "auth_bit nP \<Delta> (\<lambda>p. combine_bool b loc D (fst (B p)) i c) (\<lambda>p j. combine_blk b loc D (fst (snd (B p)) j) i c)
           (\<lambda>p j. combine_blk b loc D (snd (snd (B p)) j) i c)"
proof -
  have t': "auth_bit nP \<Delta> (\<lambda>p. fst (B p) (3 * loc (i * b + k) + c)) (\<lambda>p j. fst (snd (B p)) j (3 * loc (i * b + k) + c))
      (\<lambda>p j. snd (snd (B p)) j (3 * loc (i * b + k) + c))" if "k < b" "c < 3" for k c
    using t [OF that] unfolding auth_at_def .
  consider "c = 0" | "c = 1" | "c = 2" using c by linarith
  then show ?thesis
  proof cases
    case 1
    show ?thesis unfolding 1 combine_blk_eq [OF b] combine_bool_eq [OF b]
      using t' [of _ 0] by (intro auth_bit_sum) simp
  next
    case 2
    show ?thesis unfolding 2 combine_blk_eq [OF b] combine_bool_eq [OF b] using t' [of 0 1] b by simp
  next
    case 3
    show ?thesis unfolding 3 combine_blk_eq [OF b] combine_bool_eq [OF b]
      using t' [of _ 2] t' [of _ 0] by (intro auth_bit_xor auth_bit_sum auth_bit_scale) auto
  qed
qed

subsection \<open>compute delivers authenticated triples\<close>

lemma get_bucket_size_pos: "0 < get_bucket_size len"
  by (simp add: get_bucket_size_def Let_def)

lemma run_fpre_ok:
  assumes auth: "\<And>w. w < 3 * (len * get_bucket_size len) + 3 * ssp \<Longrightarrow> auth_at nP \<Delta> A w"
    and len: "\<not> check1_size dvd 3 * (len * get_bucket_size len) + 3 * ssp" and nP: "1 \<le> nP"
  obtains R where "\<And>p. 1 \<le> p \<Longrightarrow> p \<le> nP \<Longrightarrow> run_fpre sha nP ssp skip len \<Delta> A coins heap p = Inr (R p)"
    and "\<And>w. w < 3 * len \<Longrightarrow> auth_at nP \<Delta> R w" and "\<And>k. k < len \<Longrightarrow> triple_at nP R k"
proof -
  define b where "b = get_bucket_size len"
  define n where "n = len * b"
  define B where "B = leaky_triples nP n \<Delta> A (\<lambda>q. fc_s (coins q))"
  define key where "key = xsum (\<lambda>q. fc_and (coins q)) (parties nP)"
  define S where "S = xsum (\<lambda>q. fc_shuffle (coins q)) (parties nP)"
  define loc where "loc = fpre_location n S"
  define R where "R p = fpre_combine nP p len b loc (\<lambda>q. bucket_d b loc (fst (B q))) (B p) (heap p)" for p
  have b: "0 < b" by (simp add: b_def get_bucket_size_pos)
  have total: "n * 3 + 3 * ssp = 3 * (len * get_bucket_size len) + 3 * ssp" by (simp add: n_def b_def)
  have B_auth: "auth_at nP \<Delta> B w" if "w < n * 3 + 3 * ssp" for w
    unfolding B_def using auth that by (intro leaky_triples_auth) (simp add: total)
  have B_triple: "triple_at nP B k" if "k < n" for k
    unfolding B_def using auth that by (intro leaky_triples_product) (simp_all add: n_def b_def)
  have X: "and_check nP ssp (and_vectors nP ssp n skip \<Delta> B key)"
    unfolding and_vectors_def using B_auth B_triple
    by (intro and_check_ok [OF nP] fpre_H_zero) simp_all
  have run: "run_fpre sha nP ssp skip len \<Delta> A coins heap p = Inr (R p)" if p: "1 \<le> p" "p \<le> nP" for p
  proof -
    have "run_abit_check sha nP ssp (n * 3 + 3 * ssp) (\<lambda>q. fc_check (coins q)) \<Delta> B p = Inr ()"
      using B_auth len p by (intro run_abit_check_ok) (simp_all add: total)
    moreover have "run_sampleRandom sha nP (\<lambda>q. fc_and (coins q)) p = Some key"
      "run_sampleRandom sha nP (\<lambda>q. fc_shuffle (coins q)) p = Some S"
      unfolding key_def S_def using run_sampleRandom_Some [OF p] by blast+
    moreover have "\<not> fpre_commitment sha nP p (\<lambda>j. X_digest sha (X j)) X" for X
      by (simp add: fpre_commitment_def list_ex_iff del: set_others)
    ultimately show ?thesis
      using X unfolding run_fpre_def Let_def b_def [symmetric] n_def [symmetric] B_def [symmetric]
      by (simp add: R_def loc_def)
  qed
  let ?D = "bucket_D nP (\<lambda>q. bucket_d b loc (fst (B q)))"
  have at: "loc (i * b + k) < n" if "i < len" "k < b" for i k
  proof -
    have "i * b + k < len * b"
      using mult_le_mono1 [of "Suc i" len b] that by simp
    then show ?thesis unfolding loc_def n_def by (rule fpre_location_less)
  qed
  have R_bits: "fst (R p) w = combine_bool b loc ?D (fst (B p)) (w div 3) (w mod 3)" if "w < 3 * len" for p w
    using that by (simp add: R_def fpre_combine_def split_beta Let_def)
  have R_auth: "auth_at nP \<Delta> R w" if w: "w < 3 * len" for w
  proof -
    have "auth_at nP \<Delta> B (3 * loc (w div 3 * b + k) + c)" if "k < b" "c < 3" for k c
    proof -
      have "w div 3 < len" using w by (simp add: less_mult_imp_div_less mult.commute)
      from at [OF this that(1)] that(2) show ?thesis by (intro B_auth) simp
    qed
    then have "auth_bit nP \<Delta> (\<lambda>p. combine_bool b loc ?D (fst (B p)) (w div 3) (w mod 3))
        (\<lambda>p j. combine_blk b loc ?D (fst (snd (B p)) j) (w div 3) (w mod 3))
        (\<lambda>p j. combine_blk b loc ?D (snd (snd (B p)) j) (w div 3) (w mod 3))"
      using b by (intro combined_auth) auto
    then show ?thesis
      unfolding auth_at_def
      by (rule auth_bit_cong [THEN iffD1, rotated -1])
        (use w in \<open>auto simp: R_bits R_def fpre_combine_def split_beta Let_def\<close>)
  qed
  have "triple_at nP R k" if k: "k < len" for k
    using combined_product [OF b nP, of B loc k] B_triple at [OF k] k
    unfolding triple_at_def by (simp add: R_bits del: upt_Suc)
  with run R_auth show thesis using that by blast
qed

text \<open>
  C15.  Given random bits that are authenticated between all pairs of parties, \<^verbatim>\<open>FpreMP::compute\<close> does not
  abort in an honest run and leaves every party with its shares of the same \<open>len\<close> triples: every share is
  authenticated towards every other party, and the third bit of each triple is the conjunction of the
  first two.  The hypothesis on the length excludes the lengths for which \<^verbatim>\<open>check1\<close> reads past the arrays.
\<close>

theorem fpre_triples:
  assumes "\<forall>w < 3 * (len * get_bucket_size len) + 3 * ssp. auth_at nP \<Delta> A w"
    and "\<not> check1_size dvd 3 * (len * get_bucket_size len) + 3 * ssp" and "1 \<le> nP"
  shows "\<exists>R. (\<forall>p. 1 \<le> p \<and> p \<le> nP \<longrightarrow> run_fpre sha nP ssp skip len \<Delta> A coins heap p = Inr (R p))
    \<and> (\<forall>w < 3 * len. auth_at nP \<Delta> R w) \<and> (\<forall>k < len. triple_at nP R k)"
  by (rule run_fpre_ok [of len ssp nP \<Delta> A sha skip coins heap]) (use assms in \<open>auto simp: numeral_eq_Suc\<close>)

theorem fpre_triples_witness:
  "\<exists>R. run_fpre (\<lambda>x. x) 3 40 0 2 (\<lambda>p. of_nat (2 * p + 1)) (\<lambda>p. (\<lambda>w. even (w + p), \<lambda>j w. if even (w + p) then of_nat (2 * j + 1) else 0, \<lambda>_ _. 0))
         (\<lambda>p. \<lparr>fc_s = \<lambda>_ _. True, fc_check = 5, fc_and = of_nat p, fc_shuffle = 3\<rparr>) (\<lambda>_. (\<lambda>_. False, \<lambda>_ _. 0, \<lambda>_ _. 0)) 2 = Inr (R 2)
     \<and> auth_at 3 (\<lambda>p. of_nat (2 * p + 1)) R 5 \<and> triple_at 3 R 1"
proof -
  let ?A = "\<lambda>p. (\<lambda>w. even (w + p), \<lambda>j w. if even (w + p) then of_nat (2 * j + 1) else 0, \<lambda>_ _. 0) :: share_array"
  have "\<forall>w < 3 * (2 * get_bucket_size 2) + 3 * 40. auth_at 3 (\<lambda>p. of_nat (2 * p + 1)) ?A w"
    by (simp add: auth_at_def auth_bit_def gate_blk_def)
  moreover have "\<not> check1_size dvd 3 * (2 * get_bucket_size 2) + 3 * 40"
    by (simp add: check1_size_def get_bucket_size_def)
  ultimately show ?thesis
    using fpre_triples [of 2 40 3 "\<lambda>p. of_nat (2 * p + 1)" ?A "\<lambda>x. x" 0
        "\<lambda>p. \<lparr>fc_s = \<lambda>_ _. True, fc_check = 5, fc_and = of_nat p, fc_shuffle = 3\<rparr>" "\<lambda>_. (\<lambda>_. False, \<lambda>_ _. 0, \<lambda>_ _. 0)"]
    by fastforce
qed

text \<open>
  C25.  The shuffle of \<^verbatim>\<open>compute\<close> is a permutation: whatever the coin, the array \<^verbatim>\<open>location\<close> lists every index
  exactly once, so that every leaky triple enters exactly one bucket.
\<close>

theorem fpre_location_permutes:
  "mset (map (fpre_location n S) [0..<n]) = mset [0..<n]"
proof -
  have "inj_on (fpre_location n S) {..<n}" "fpre_location n S ` {..<n} = {..<n}"
    using fpre_location_bij [of n S] by (simp_all add: bij_betw_def)
  then have "image_mset (fpre_location n S) (mset_set {..<n}) = mset_set {..<n}"
    by (simp add: image_mset_mset_set)
  then show ?thesis by (simp add: lessThan_atLeast0)
qed

end
