(* ===== verification/Preprocess.thy ===== *)
theory Preprocess
  imports Cot Fpre Online
begin

text \<open>
  The preprocessing of \<^verbatim>\<open>CMPC\<close> from the base transfers on: the constructor and \<^verbatim>\<open>compute\<close> of
  \<^verbatim>\<open>emp-agmpc/abitmp.h\<close> (one extension per ordered pair of parties), the constructors of
  \<^verbatim>\<open>fpremp.h\<close> and \<^verbatim>\<open>mpc.h\<close>, and \<^verbatim>\<open>CMPC::function_independent\<close> with its two calls of
  \<^verbatim>\<open>compute\<close> and the check.  The definitions are honest runs of all parties, stage by stage; \<open>None\<close> is a
  run in which some party waits forever.
\<close>

subsection \<open>ABitMP\<close>

record abit =
  ab_abit1 :: "nat \<Rightarrow> IKNP"
  ab_abit2 :: "nat \<Rightarrow> IKNP"
  ab_Delta :: block

text \<open>What party \<open>p\<close> draws: the bits of its offset, the keys it offers to party \<open>i\<close> in the base transfer, and the
  scalars of the base transfers.\<close>

record abit_rand =
  ar_tmp :: "bool arr"
  ar_k0 :: "nat \<Rightarrow> block arr"
  ar_k1 :: "nat \<Rightarrow> block arr"
  ar_a :: "nat \<Rightarrow> int"
  ar_bb :: "nat \<Rightarrow> int arr"

definition ABitMP_new :: "(bytes \<Rightarrow> bytes) \<Rightarrow> 'g group_ops \<Rightarrow> (nat \<Rightarrow> abit_rand) \<Rightarrow> nat \<Rightarrow> abit" where
  "ABitMP_new sha G rnd p =
     (let tmp = ar_tmp (rnd p);
          abit1 = (\<lambda>j. IKNP_setup_send False tmp
                     (co_run sha G (ar_a (rnd j) p) (ar_bb (rnd p) j) (ar_k0 (rnd j) p) (ar_k1 (rnd j) p) tmp));
          abit2 = (\<lambda>j. IKNP_setup_recv False (ar_k0 (rnd p) j) (ar_k1 (rnd p) j))
      in \<lparr>ab_abit1 = abit1, ab_abit2 = abit2, ab_Delta = (if p = 1 then ik_Delta (abit1 2) else ik_Delta (abit1 1))\<rparr>)"

text \<open>\<open>junk p j\<close> is the uninitialised memory in the calls of party \<open>p\<close> for party \<open>j\<close>, \<open>heap p\<close> what its arrays held.\<close>

definition abit_recv :: "(nat \<Rightarrow> nat \<Rightarrow> block arr) \<Rightarrow> (nat \<Rightarrow> auth_array) \<Rightarrow> (nat \<Rightarrow> bool arr) \<Rightarrow> nat \<Rightarrow> (nat \<Rightarrow> abit) \<Rightarrow> nat \<Rightarrow> nat
   \<Rightarrow> block arr \<times> channel \<times> IKNP" where
  "abit_recv junk heap data len AB p j =
     IKNP_recv_cot (junk p j) (\<lambda>_. False) 0 (fst (snd (heap p)) j) (data p) len (ab_abit2 (AB p) j)"

definition abit_send :: "(nat \<Rightarrow> nat \<Rightarrow> block arr) \<Rightarrow> (nat \<Rightarrow> auth_array) \<Rightarrow> (nat \<Rightarrow> bool arr) \<Rightarrow> nat \<Rightarrow> (nat \<Rightarrow> abit) \<Rightarrow> nat \<Rightarrow> nat
   \<Rightarrow> (cot_error + block arr \<times> channel \<times> IKNP) option" where
  "abit_send junk heap data len AB p j =
     IKNP_send_cot (junk p j) (snd (snd (heap p)) j) len (fst (snd (abit_recv junk heap data len AB j p))) (ab_abit1 (AB p) j)"

text \<open>The honest parties do not use the malicious variant, so \<open>Inl\<close> does not occur; it is treated as not returning.\<close>

definition sent :: "(cot_error + 'a) option \<Rightarrow> 'a option" where
  "sent x = (case x of Some (Inr y) \<Rightarrow> Some y | _ \<Rightarrow> None)"

definition run_abit_compute :: "nat \<Rightarrow> (nat \<Rightarrow> nat \<Rightarrow> block arr) \<Rightarrow> (nat \<Rightarrow> auth_array) \<Rightarrow> (nat \<Rightarrow> bool arr) \<Rightarrow> nat \<Rightarrow> (nat \<Rightarrow> abit)
   \<Rightarrow> ((nat \<Rightarrow> auth_array) \<times> (nat \<Rightarrow> abit)) option" where
  "run_abit_compute nP junk heap data len AB =
     (if list_all (\<lambda>p. list_all (\<lambda>j. sent (abit_send junk heap data len AB p j) \<noteq> None) (others nP p)) (parties nP) then
        Some (\<lambda>p. (data p,
                   \<lambda>j. if j \<in> set (others nP p) then fst (abit_recv junk heap data len AB p j) else fst (snd (heap p)) j,
                   \<lambda>j. if j \<in> set (others nP p) then fst (the (sent (abit_send junk heap data len AB p j))) else snd (snd (heap p)) j),
              \<lambda>p. (AB p)\<lparr>ab_abit1 := (\<lambda>j. if j \<in> set (others nP p) then snd (snd (the (sent (abit_send junk heap data len AB p j)))) else ab_abit1 (AB p) j),
                        ab_abit2 := (\<lambda>j. if j \<in> set (others nP p) then snd (snd (abit_recv junk heap data len AB p j)) else ab_abit2 (AB p) j)\<rparr>)
      else None)"

text \<open>Every pair of parties is in step, in both directions, under the offsets \<open>\<Delta>\<close>.\<close>

definition abits_synced :: "nat \<Rightarrow> (nat \<Rightarrow> block) \<Rightarrow> (nat \<Rightarrow> abit) \<Rightarrow> bool" where
  "abits_synced nP \<Delta> AB \<longleftrightarrow> (\<forall>p\<in>{1..nP}. \<forall>j\<in>{1..nP}. p \<noteq> j \<longrightarrow>
     synced (ab_abit1 (AB p) j) (ab_abit2 (AB j) p) \<and> ik_Delta (ab_abit1 (AB p) j) = \<Delta> p)"

lemma ABitMP_new_synced:
  assumes "group_laws G"
  shows "abits_synced nP (\<lambda>p. bool_to_block (ar_tmp (rnd p))) (ABitMP_new sha G rnd)"
    and "ab_Delta (ABitMP_new sha G rnd p) = bool_to_block (ar_tmp (rnd p))"
  by (simp_all add: abits_synced_def ABitMP_new_def Let_def setup_synced co_run_eq [OF assms])

lemma abit_pair:
  assumes "abits_synced nP \<Delta> AB" and "p \<in> {1..nP}" and "j \<in> {1..nP}" and "p \<noteq> j"
  obtains oS oR msg S' R' where "abit_recv junk heap data len AB j p = (oR, msg, R')"
    and "abit_send junk heap data len AB p j = Some (Inr (oS, [], S'))"
    and "synced S' R'" and "ik_Delta S' = \<Delta> p" and "correlated (\<Delta> p) (data j) len oS oR"
proof -
  have s: "synced (ab_abit1 (AB p) j) (ab_abit2 (AB j) p)" and D: "ik_Delta (ab_abit1 (AB p) j) = \<Delta> p"
    using assms by (auto simp: abits_synced_def)
  from iknp.cot [OF s, where junk = "junk p j" and junk' = "junk j p" and rnd = "\<lambda>_. False" and ?seed2.0 = 0
      and out = "snd (snd (heap p)) j" and out' = "fst (snd (heap j)) p" and b = "data j" and n = len]
  show thesis
    using that unfolding abit_recv_def abit_send_def D by (metis append_Nil2 fst_conv snd_conv)
qed

lemma run_abit_compute_ok:
  assumes "abits_synced nP \<Delta> AB"
  obtains A AB' where "run_abit_compute nP junk heap data len AB = Some (A, AB')"
    and "\<And>w. w < len \<Longrightarrow> auth_at nP \<Delta> A w" and "\<And>p. fst (A p) = data p" and "abits_synced nP \<Delta> AB'"
proof -
  let ?R = "abit_recv junk heap data len AB" and ?S = "abit_send junk heap data len AB"
  define A where "A = (\<lambda>p. (data p, \<lambda>j. if j \<in> set (others nP p) then fst (?R p j) else fst (snd (heap p)) j,
     \<lambda>j. if j \<in> set (others nP p) then fst (the (sent (?S p j))) else snd (snd (heap p)) j))"
  define AB' where "AB' = (\<lambda>p. (AB p)\<lparr>ab_abit1 := (\<lambda>j. if j \<in> set (others nP p) then snd (snd (the (sent (?S p j)))) else ab_abit1 (AB p) j),
     ab_abit2 := (\<lambda>j. if j \<in> set (others nP p) then snd (snd (?R p j)) else ab_abit2 (AB p) j)\<rparr>)"
  have pair: "\<exists>oS S'. ?S p j = Some (Inr (oS, [], S')) \<and> synced S' (snd (snd (?R j p))) \<and> ik_Delta S' = \<Delta> p
      \<and> correlated (\<Delta> p) (data j) len oS (fst (?R j p))"
    if "p \<in> {1..nP}" "j \<in> {1..nP}" "p \<noteq> j" for p j
    by (rule abit_pair [OF assms that, where junk = junk and heap = heap and data = data and len = len]) auto
  have "list_all (\<lambda>p. list_all (\<lambda>j. sent (?S p j) \<noteq> None) (others nP p)) (parties nP)"
    using pair by (fastforce simp: list_all_iff sent_def)
  then have run: "run_abit_compute nP junk heap data len AB = Some (A, AB')"
    unfolding run_abit_compute_def A_def AB'_def by (simp only: if_True)
  have "auth_at nP \<Delta> A w" if w: "w < len" for w
    unfolding auth_at_def
  proof (rule auth_bitI)
    fix i j assume ij: "1 \<le> i" "i \<le> nP" "1 \<le> j" "j \<le> nP" "i \<noteq> j"
    then obtain oS S' where "?S j i = Some (Inr (oS, [], S'))" "correlated (\<Delta> j) (data i) len oS (fst (?R i j))"
      using pair [of j i] by auto
    with ij w show "fst (snd (A i)) j w = snd (snd (A j)) i w XOR gate_blk (fst (A i) w) (\<Delta> j)"
      by (simp add: A_def sent_def correlated_def)
  qed
  moreover have "abits_synced nP \<Delta> AB'"
    unfolding abits_synced_def
  proof (intro ballI impI)
    fix p j assume pj: "p \<in> {1..nP}" "j \<in> {1..nP}" "p \<noteq> j"
    then obtain oS S' where "?S p j = Some (Inr (oS, [], S'))" "synced S' (snd (snd (?R j p)))" "ik_Delta S' = \<Delta> p"
      using pair by blast
    with pj show "synced (ab_abit1 (AB' p) j) (ab_abit2 (AB' j) p) \<and> ik_Delta (ab_abit1 (AB' p) j) = \<Delta> p"
      by (auto simp: AB'_def sent_def)
  qed
  ultimately show thesis using that [OF run] by (simp add: A_def)
qed

subsection \<open>CMPC: construction and function\_independent\<close>

text \<open>A step that every party takes; the first party that aborts decides the error.\<close>

definition all_parties :: "nat \<Rightarrow> (nat \<Rightarrow> 'e + 'a) \<Rightarrow> 'e + (nat \<Rightarrow> 'a)" where
  "all_parties nP f =
     (case find (\<lambda>p. isl (f p)) (parties nP) of Some p \<Rightarrow> Inl (projl (f p)) | None \<Rightarrow> Inr (\<lambda>p. projr (f p)))"

lemma all_parties_Inr:
  assumes "\<And>p. 1 \<le> p \<Longrightarrow> p \<le> nP \<Longrightarrow> f p = Inr (g p)"
  obtains h where "all_parties nP f = Inr h" and "\<And>p. 1 \<le> p \<Longrightarrow> p \<le> nP \<Longrightarrow> h p = g p"
proof -
  have "find (\<lambda>p. isl (f p)) (parties nP) = None"
    using assms by (auto simp: find_None_iff)
  then show thesis using that [of "\<lambda>p. projr (f p)"] assms by (simp add: all_parties_def del: upt_Suc)
qed

text \<open>Uninitialised memory, and what party \<open>p\<close> draws in \<^verbatim>\<open>function_independent\<close>.\<close>

record cmpc_memory =
  me_junk :: "nat \<Rightarrow> nat \<Rightarrow> block arr"
  me_t :: "nat \<Rightarrow> auth_array"
  me_ands :: "nat \<Rightarrow> auth_array"
  me_pre :: "nat \<Rightarrow> auth_array"

record cmpc_coins =
  cc_tr :: "bool arr"
  cc_fpre :: fpre_coins
  cc_value :: "bool arr"
  cc_check :: block
  cc_labels :: "block arr"

definition run_construct ::
  "(bytes \<Rightarrow> bytes) \<Rightarrow> 'g group_ops \<Rightarrow> BristolFormat \<Rightarrow> nat \<Rightarrow> (nat \<Rightarrow> abit_rand) \<Rightarrow> (nat \<Rightarrow> cmpc) \<Rightarrow> (nat \<Rightarrow> abit) \<times> (nat \<Rightarrow> cmpc)" where
  "run_construct sha G cf ssp rnd heap =
     (let AB = ABitMP_new sha G rnd in (AB, \<lambda>p. CMPC_new p cf (ab_Delta (AB p)) ssp (heap p)))"

definition run_function_independent ::
  "(bytes \<Rightarrow> bytes) \<Rightarrow> nat \<Rightarrow> BristolFormat \<Rightarrow> nat \<Rightarrow> nat \<Rightarrow> cmpc_memory \<Rightarrow> (nat \<Rightarrow> cmpc_coins)
   \<Rightarrow> (nat \<Rightarrow> abit) \<times> (nat \<Rightarrow> cmpc) \<Rightarrow> (fpre_error + (nat \<Rightarrow> abit) \<times> (nat \<Rightarrow> cmpc)) option" where
  "run_function_independent sha nP cf ssp skip M C = (\<lambda>(AB, W).
     let ands = count_ands cf (num_gate cf);
         tot = n1 cf + n2 cf + ands + 3 * ssp;
         \<Delta> = (\<lambda>p. ab_Delta (AB p))
     in case run_abit_compute nP (me_junk M) (me_t M) (\<lambda>p. cc_tr (C p)) (ands * get_bucket_size ands * 3 + 3 * ssp) AB of
          None \<Rightarrow> None
        | Some (A, AB) \<Rightarrow>
          (case all_parties nP (run_fpre sha nP ssp skip ands \<Delta> A (\<lambda>p. cc_fpre (C p)) (me_ands M)) of
             Inl e \<Rightarrow> Some (Inl e)
           | Inr T \<Rightarrow>
             (case run_abit_compute nP (me_junk M) (me_pre M) (\<lambda>p. cc_value (C p)) tot AB of
                None \<Rightarrow> None
              | Some (P, AB) \<Rightarrow>
                (case all_parties nP (run_abit_check sha nP ssp tot (\<lambda>p. cc_check (C p)) \<Delta> P) of
                   Inl e \<Rightarrow> Some (Inl (Abit_check e))
                 | Inr _ \<Rightarrow> Some (Inr (AB, \<lambda>p. function_independent nP cf (cc_labels (C p)) (T p) (P p) (W p)))))))"

text \<open>The lengths for which the element past the end of the arrays, which \<^verbatim>\<open>check1\<close> always reads, does not enter its sums.\<close>

definition lengths_ok :: "BristolFormat \<Rightarrow> nat \<Rightarrow> bool" where
  "lengths_ok cf ssp \<longleftrightarrow>
     (let ands = count_ands cf (num_gate cf)
      in \<not> check1_size dvd 3 * (ands * get_bucket_size ands) + 3 * ssp \<and> \<not> check1_size dvd n1 cf + n2 cf + ands + 3 * ssp)"

lemma auth_at_entry: "auth_at nP \<Delta> A k = auth_entry nP \<Delta> A k"
  by (simp add: auth_at_def auth_entry_def)

lemma triples_from_fpre:
  assumes "\<And>w. w < 3 * n \<Longrightarrow> auth_at nP \<Delta> R w" and "\<And>k. k < n \<Longrightarrow> triple_at nP R k"
    and "\<And>p. 1 \<le> p \<Longrightarrow> p \<le> nP \<Longrightarrow> T p = R p"
  shows "triples_ok nP \<Delta> T n"
proof -
  have entry: "auth_entry nP \<Delta> T w" if "w < 3 * n" for w
    using assms(1) [OF that] assms(3) unfolding auth_at_def auth_entry_def by (auto simp: auth_bit_def)
  have "parity (\<lambda>p. fst (T p) w) (parties nP) = parity (\<lambda>p. fst (R p) w) (parties nP)" for w
    using assms(3) by (intro parity_cong refl) auto
  then show ?thesis
    using entry assms(2) by (auto simp: triples_ok_def list_all_iff triple_at_def simp del: upt_Suc)
qed

text \<open>The preprocessing delivers what the rest of the protocol needs.\<close>

lemma run_function_independent_ok:
  fixes rnd
  assumes "group_laws G" and "1 \<le> nP" and len: "lengths_ok cf ssp"
  defines "\<Delta> \<equiv> \<lambda>p. bool_to_block (ar_tmp (rnd p))"
  obtains AB' T P where
    "run_function_independent sha nP cf ssp skip M C (run_construct sha G cf ssp rnd heap)
       = Some (Inr (AB', setup_cmpc nP cf ssp \<Delta> (\<lambda>p. cc_labels (C p)) T P heap))"
    and "triples_ok nP \<Delta> T (count_ands cf (num_gate cf))"
    and "abits_ok nP \<Delta> P (n1 cf + n2 cf + count_ands cf (num_gate cf) + 3 * ssp)"
    and "abits_synced nP \<Delta> AB'"
proof -
  define ands where "ands = count_ands cf (num_gate cf)"
  define tot where "tot = n1 cf + n2 cf + ands + 3 * ssp"
  let ?AB = "ABitMP_new sha G rnd" and ?n = "3 * (ands * get_bucket_size ands) + 3 * ssp"
  have dvd: "\<not> check1_size dvd ?n" "\<not> check1_size dvd tot"
    using len by (simp_all add: lengths_ok_def Let_def ands_def tot_def)
  have n: "ands * get_bucket_size ands * 3 + 3 * ssp = ?n" by simp
  have D: "(\<lambda>p. ab_Delta (?AB p)) = \<Delta>" by (simp add: \<Delta>_def ABitMP_new_synced(2) [OF assms(1)])
  have "abits_synced nP \<Delta> ?AB" unfolding \<Delta>_def by (rule ABitMP_new_synced(1) [OF assms(1)])
  then obtain A AB1 where A: "run_abit_compute nP (me_junk M) (me_t M) (\<lambda>p. cc_tr (C p)) ?n ?AB = Some (A, AB1)"
    "\<And>w. w < ?n \<Longrightarrow> auth_at nP \<Delta> A w" "abits_synced nP \<Delta> AB1"
    by (rule run_abit_compute_ok [where junk = "me_junk M" and heap = "me_t M" and data = "\<lambda>p. cc_tr (C p)" and len = ?n]) blast
  obtain R where R: "\<And>p. 1 \<le> p \<Longrightarrow> p \<le> nP \<Longrightarrow> run_fpre sha nP ssp skip ands \<Delta> A (\<lambda>p. cc_fpre (C p)) (me_ands M) p = Inr (R p)"
    "\<And>w. w < 3 * ands \<Longrightarrow> auth_at nP \<Delta> R w" "\<And>k. k < ands \<Longrightarrow> triple_at nP R k"
    by (rule run_fpre_ok [where sha = sha and skip = skip and coins = "\<lambda>p. cc_fpre (C p)" and heap = "me_ands M", OF A(2) dvd(1) assms(2)]) (assumption, rule that)
  obtain T where T: "all_parties nP (run_fpre sha nP ssp skip ands \<Delta> A (\<lambda>p. cc_fpre (C p)) (me_ands M)) = Inr T"
    "\<And>p. 1 \<le> p \<Longrightarrow> p \<le> nP \<Longrightarrow> T p = R p"
    by (rule all_parties_Inr [OF R(1)]) (assumption+, rule that)
  obtain P AB2 where P: "run_abit_compute nP (me_junk M) (me_pre M) (\<lambda>p. cc_value (C p)) tot AB1 = Some (P, AB2)"
    "\<And>w. w < tot \<Longrightarrow> auth_at nP \<Delta> P w" "abits_synced nP \<Delta> AB2"
    by (rule run_abit_compute_ok [where junk = "me_junk M" and heap = "me_pre M" and data = "\<lambda>p. cc_value (C p)" and len = tot, OF A(3)]) blast
  have "run_abit_check sha nP ssp tot (\<lambda>p. cc_check (C p)) \<Delta> P p = Inr ()" if "1 \<le> p" "p \<le> nP" for p
    using P(2) dvd(2) that by (intro run_abit_check_ok) (simp_all add: tot_def)
  then obtain h where "all_parties nP (run_abit_check sha nP ssp tot (\<lambda>p. cc_check (C p)) \<Delta> P) = Inr h"
    by (rule all_parties_Inr) blast
  then have "run_function_independent sha nP cf ssp skip M C (run_construct sha G cf ssp rnd heap)
       = Some (Inr (AB2, setup_cmpc nP cf ssp \<Delta> (\<lambda>p. cc_labels (C p)) T P heap))"
    using A(1) T(1) P(1)
    by (simp add: run_function_independent_def run_construct_def Let_def ands_def [symmetric] tot_def [symmetric] n D setup_cmpc_def
        fun_cong [OF D])
  moreover have "triples_ok nP \<Delta> T ands" by (rule triples_from_fpre [OF R(2,3) T(2)])
  moreover have "abits_ok nP \<Delta> P tot"
    using P(2) by (simp add: abits_ok_def list_all_iff auth_at_entry)
  ultimately show thesis using that P(3) by (simp add: ands_def tot_def)
qed

end
