(* ===== verification/Comparison.thy ===== *)
theory Comparison
  imports Cmpc
begin

text \<open>
  The circuit of \<^verbatim>\<open>files/comparison256.txt\<close>, which the passcode programs load: two numbers of 256 bits are
  compared bit by bit.  Gates are listed as the file lists them, four entries each; the unused second
  input of a NOT gate is 0, as \<^verbatim>\<open>vector::resize\<close> leaves it.
\<close>

definition comparison256_gates :: "nat list" where
  "comparison256_gates =
     [0, 256, 512, XOR_GATE, 512, 0, 513, NOT_GATE]
     @ concat (map (\<lambda>k. [k, 256 + k, 511 + 3 * k, XOR_GATE,
                         511 + 3 * k, 0, 512 + 3 * k, NOT_GATE,
                         510 + 3 * k, 512 + 3 * k, 513 + 3 * k, AND_GATE]) [1..<256])
     @ [0, 0, 1279, XOR_GATE, 1279, 1278, 1280, XOR_GATE]"

definition comparison256 :: BristolFormat where
  "comparison256 = \<lparr>num_gate = 769, num_wire = 1281, n1 = 256, n2 = 256, n3 = 1, gates = comparison256_gates\<rparr>"

lemma comparison256_fields [simp]:
  "num_gate comparison256 = 769" "num_wire comparison256 = 1281" "n1 comparison256 = 256" "n2 comparison256 = 256"
  "n3 comparison256 = 1" "gates comparison256 = comparison256_gates"
  by (simp_all add: comparison256_def)

lemma length_concat_map_const: "(\<And>x. length (f x) = n) \<Longrightarrow> length (concat (map f xs)) = n * length xs"
  by (induction xs) auto

lemma nth_concat_map_const:
  assumes "\<And>x. length (f x) = n" and "k < length xs" and "j < n"
  shows "concat (map f xs) ! (n * k + j) = f (xs ! k) ! j"
  using assms(2)
proof (induction xs arbitrary: k)
  case (Cons x xs)
  show ?case using Cons assms(1,3) by (cases k) (auto simp: nth_append)
qed simp

text \<open>Gate 0 and 1 read the first bits, gates \<open>3 k - 1, 3 k, 3 k + 1\<close> treat bit \<open>k\<close>, the last two copy the result.\<close>

lemma comparison256_nth:
  "i < 8 \<Longrightarrow> comparison256_gates ! i = [0, 256, 512, XOR_GATE, 512, 0, 513, NOT_GATE] ! i"
  "1 \<le> k \<Longrightarrow> k < 256 \<Longrightarrow> j < 12 \<Longrightarrow> comparison256_gates ! (12 * k - 4 + j)
     = [k, 256 + k, 511 + 3 * k, XOR_GATE, 511 + 3 * k, 0, 512 + 3 * k, NOT_GATE,
        510 + 3 * k, 512 + 3 * k, 513 + 3 * k, AND_GATE] ! j"
  "i < 8 \<Longrightarrow> comparison256_gates ! (3068 + i) = [0, 0, 1279, XOR_GATE, 1279, 1278, 1280, XOR_GATE] ! i"
  "length comparison256_gates = 3076"
proof -
  let ?f = "\<lambda>k. [k, 256 + k, 511 + 3 * k, XOR_GATE, 511 + 3 * k, 0, 512 + 3 * k, NOT_GATE,
        510 + 3 * k, 512 + 3 * k, 513 + 3 * k, AND_GATE]"
  define A B where "A = [0, 256, 512, XOR_GATE, 512, 0, 513, NOT_GATE]" and "B = [0, 0, 1279, XOR_GATE, 1279, 1278, 1280, XOR_GATE]"
  define M where "M = concat (map ?f [1..<256])"
  have gates: "comparison256_gates = A @ M @ B" unfolding comparison256_gates_def A_def B_def M_def by (rule refl)
  have len: "length A = 8" "length M = 3060" "length B = 8"
    unfolding A_def B_def M_def by (simp, subst length_concat_map_const [where n = 12], simp_all)
  show "i < 8 \<Longrightarrow> comparison256_gates ! i = [0, 256, 512, XOR_GATE, 512, 0, 513, NOT_GATE] ! i"
    unfolding A_def [symmetric] by (simp add: gates nth_append len)
  show "i < 8 \<Longrightarrow> comparison256_gates ! (3068 + i) = [0, 0, 1279, XOR_GATE, 1279, 1278, 1280, XOR_GATE] ! i"
    unfolding B_def [symmetric] by (simp add: gates nth_append len)
  show "length comparison256_gates = 3076" by (simp add: gates len)
  assume k: "1 \<le> k" "k < 256" "j < 12"
  have idx: "12 * k - 4 + j = 8 + (12 * (k - 1) + j)" "12 * (k - 1) + j < 3060" using k by auto
  have "M ! (12 * (k - 1) + j) = ?f ([1..<256] ! (k - 1)) ! j"
    unfolding M_def by (rule nth_concat_map_const) (use k in simp_all)
  moreover have "[1..<256] ! (k - 1) = k" using k by simp
  ultimately have "M ! (12 * (k - 1) + j) = ?f k ! j" by simp
  then show "comparison256_gates ! (12 * k - 4 + j) = ?f k ! j"
    unfolding idx(1) gates nth_append len using idx(2) by simp
qed

text \<open>Gate by gate.  Gate \<open>i\<close> writes wire \<open>512 + i\<close>.\<close>

lemma first_gates:
  "gate_in1 comparison256 0 = 0" "gate_in2 comparison256 0 = 256" "gate_out comparison256 0 = 512" "gate_type comparison256 0 = XOR_GATE"
  "gate_in1 comparison256 1 = 512" "gate_out comparison256 1 = 513" "gate_type comparison256 1 = NOT_GATE"
  by (simp_all add: gate_in1_def gate_in2_def gate_out_def gate_type_def comparison256_nth(1))

lemma bit_gates:
  assumes "k < 255"
  shows "gate_in1 comparison256 (3 * k + 2) = k + 1" "gate_in2 comparison256 (3 * k + 2) = k + 257"
    "gate_out comparison256 (3 * k + 2) = 3 * k + 514" "gate_type comparison256 (3 * k + 2) = XOR_GATE"
    "gate_in1 comparison256 (3 * k + 3) = 3 * k + 514" "gate_out comparison256 (3 * k + 3) = 3 * k + 515"
    "gate_type comparison256 (3 * k + 3) = NOT_GATE"
    "gate_in1 comparison256 (3 * k + 4) = 3 * k + 513" "gate_in2 comparison256 (3 * k + 4) = 3 * k + 515"
    "gate_out comparison256 (3 * k + 4) = 3 * k + 516" "gate_type comparison256 (3 * k + 4) = AND_GATE"
proof -
  have at: "comparison256_gates ! (12 * k + 8 + j)
     = [k + 1, 257 + k, 514 + 3 * k, XOR_GATE, 514 + 3 * k, 0, 515 + 3 * k, NOT_GATE,
        513 + 3 * k, 515 + 3 * k, 516 + 3 * k, AND_GATE] ! j" if "j < 12" for j
    using comparison256_nth(2) [of "k + 1" j] assms that by (simp add: add.commute)
  show "gate_in1 comparison256 (3 * k + 2) = k + 1" "gate_in2 comparison256 (3 * k + 2) = k + 257"
    "gate_out comparison256 (3 * k + 2) = 3 * k + 514" "gate_type comparison256 (3 * k + 2) = XOR_GATE"
    "gate_in1 comparison256 (3 * k + 3) = 3 * k + 514" "gate_out comparison256 (3 * k + 3) = 3 * k + 515"
    "gate_type comparison256 (3 * k + 3) = NOT_GATE"
    "gate_in1 comparison256 (3 * k + 4) = 3 * k + 513" "gate_in2 comparison256 (3 * k + 4) = 3 * k + 515"
    "gate_out comparison256 (3 * k + 4) = 3 * k + 516" "gate_type comparison256 (3 * k + 4) = AND_GATE"
    using at [of 0] at [of 1] at [of 2] at [of 3] at [of 4] at [of 6] at [of 7] at [of 8] at [of 9] at [of 10] at [of 11]
    by (simp_all add: gate_in1_def gate_in2_def gate_out_def gate_type_def algebra_simps)
qed

lemma last_gates:
  "gate_in1 comparison256 767 = 0" "gate_in2 comparison256 767 = 0" "gate_out comparison256 767 = 1279" "gate_type comparison256 767 = XOR_GATE"
  "gate_in1 comparison256 768 = 1279" "gate_in2 comparison256 768 = 1278" "gate_out comparison256 768 = 1280" "gate_type comparison256 768 = XOR_GATE"
  using comparison256_nth(3) [of 0] comparison256_nth(3) [of 1] comparison256_nth(3) [of 2] comparison256_nth(3) [of 3]
    comparison256_nth(3) [of 4] comparison256_nth(3) [of 5] comparison256_nth(3) [of 6] comparison256_nth(3) [of 7]
  by (simp_all add: gate_in1_def gate_in2_def gate_out_def gate_type_def)

lemmas gate_facts = first_gates bit_gates last_gates

text \<open>The 769 gates in these three groups.\<close>

lemma gate_cases:
  fixes i :: nat
  assumes "i < 769"
  obtains "i = 0" | "i = 1" | k where "k < 255" "i = 3 * k + 2" | k where "k < 255" "i = 3 * k + 3"
    | k where "k < 255" "i = 3 * k + 4" | "i = 767" | "i = 768"
proof -
  have "i = 0 \<or> i = 1 \<or> i = 767 \<or> i = 768 \<or> (\<exists>k<255. i = 3 * k + 2 \<or> i = 3 * k + 3 \<or> i = 3 * k + 4)"
    using assms by presburger
  then show thesis using that by blast
qed

lemma comparison256_out: "i < 769 \<Longrightarrow> gate_out comparison256 i = 512 + i"
  by (erule gate_cases) (simp_all only: gate_facts)

lemma comparison256_wf: "wf_circuit comparison256"
proof -
  have dfd: "defined_by comparison256 i w \<longleftrightarrow> w < 512 + i" if "i \<le> 769" for i w
  proof -
    have "w \<in> gate_out comparison256 ` {0..<i} \<longleftrightarrow> w \<in> (\<lambda>j. 512 + j) ` {0..<i}"
      using that by (intro arg_cong2 [where f = "(\<in>)"] image_cong refl comparison256_out) auto
    then show ?thesis by (auto simp: defined_by_def image_iff)
  qed
  have "wf_gate comparison256 i" if "i < 769" for i
    unfolding wf_gate_def
    by (rule gate_cases [OF that]) (simp_all only: dfd comparison256_out comparison256_fields gate_facts, auto simp: gate_types)
  then show ?thesis
    by (simp add: wf_circuit_def list_all_iff comparison256_nth(4) dfd)
qed

lemma eval_gate_typed:
  "gate_type cf i = AND_GATE \<Longrightarrow> eval_gate cf i w = w(gate_out cf i := (w (gate_in1 cf i) \<and> w (gate_in2 cf i)))"
  "gate_type cf i = XOR_GATE \<Longrightarrow> eval_gate cf i w = w(gate_out cf i := bxor (w (gate_in1 cf i)) (w (gate_in2 cf i)))"
  "gate_type cf i = NOT_GATE \<Longrightarrow> eval_gate cf i w = w(gate_out cf i := (\<not> w (gate_in1 cf i)))"
  by (simp_all add: eval_gate_def AND_GATE_def XOR_GATE_def NOT_GATE_def)

lemma list_all_upt: "list_all P [0..<n] \<longleftrightarrow> (\<forall>k<n. P k)"
  by (auto simp: list_all_iff)

lemma upt_three: "[0..<n + 3] = [0..<n] @ [n, n + 1, n + 2]"
  by (simp add: numeral_3_eq_3)

lemma comparison256_prefix:
  fixes w :: "bool arr" and m :: nat
  defines "v \<equiv> \<lambda>m. fold (eval_gate comparison256) [0..<3 * m + 2] w"
  assumes "m \<le> 255"
  shows "v m (3 * m + 513) = list_all (\<lambda>k. w k = w (256 + k)) [0..<Suc m]"
    and "\<And>i. i < 512 \<Longrightarrow> v m i = w i"
proof -
  have "v m (3 * m + 513) = list_all (\<lambda>k. w k = w (256 + k)) [0..<Suc m] \<and> (\<forall>i<512. v m i = w i)"
    using assms(2)
  proof (induction m)
    case 0
    have "[0..<3 * 0 + 2] = [0, 1 :: nat]" by (simp add: numeral_2_eq_2)
    then show ?case
      unfolding v_def by (simp add: eval_gate_typed first_gates first_gates [unfolded One_nat_def] bxor_def)
  next
    case (Suc m)
    then have m: "m < 255" and IH: "v m (3 * m + 513) = list_all (\<lambda>k. w k = w (256 + k)) [0..<Suc m]" "\<forall>i<512. v m i = w i"
      by simp_all
    have split: "v (Suc m) = eval_gate comparison256 (3 * m + 4) (eval_gate comparison256 (3 * m + 3) (eval_gate comparison256 (3 * m + 2) (v m)))"
    proof -
      have "3 * Suc m + 2 = (3 * m + 2) + 3" by simp
      then show ?thesis unfolding v_def by (simp only: upt_three) (simp add: numeral_eq_Suc)
    qed
    have "v (Suc m) (3 * m + 516) \<longleftrightarrow> v m (3 * m + 513) \<and> v m (m + 1) = v m (m + 257)"
      unfolding split by (simp only: eval_gate_typed bit_gates [OF m]) (simp add: bxor_def)
    moreover have "v (Suc m) i = v m i" if "i < 512" for i
      unfolding split using that by (simp only: eval_gate_typed bit_gates [OF m]) simp
    moreover have "v m (m + 1) = w (m + 1)" "v m (m + 257) = w (m + 257)" using IH(2) m by simp_all
    ultimately show ?case using IH m by (simp add: add.commute)
  qed
  then show "v m (3 * m + 513) = list_all (\<lambda>k. w k = w (256 + k)) [0..<Suc m]" and "\<And>i. i < 512 \<Longrightarrow> v m i = w i"
    by simp_all
qed

text \<open>The output wire carries the equality of the two inputs.\<close>

lemma comparison256_eval: "eval_circuit comparison256 w 1280 \<longleftrightarrow> (\<forall>k<256. w k = w (256 + k))"
proof -
  let ?v = "fold (eval_gate comparison256) [0..<3 * 255 + 2] w"
  have "[0..<767 + 2] = [0..<767] @ [767..<767 + 2 :: nat]" by (rule upt_add_eq_append) simp
  then have "[0..<769] = [0..<3 * 255 + 2] @ [767, 768 :: nat]" by (simp add: upt_rec [of 767] upt_rec [of 768])
  then have "eval_circuit comparison256 w = eval_gate comparison256 768 (eval_gate comparison256 767 ?v)"
    by (simp add: eval_circuit_def)
  then have "eval_circuit comparison256 w 1280 = ?v 1278"
    by (simp add: eval_gate_typed last_gates bxor_def)
  also have "?v 1278 = list_all (\<lambda>k. w k = w (256 + k)) [0..<256]"
    proof -
    have "Suc 255 = 256" "3 * 255 + 513 = (1278 :: nat)" by simp_all
    with comparison256_prefix(1) [of 255 w] show ?thesis by (simp only: order_refl)
  qed
  also have "\<dots> \<longleftrightarrow> (\<forall>k<256. w k = w (256 + k))" by (simp only: list_all_upt)
  finally show ?thesis .
qed

lemma count_ands_append: "count_ands cf (Suc n) = count_ands cf n + (if gate_type cf n = AND_GATE then 1 else 0)"
  by (simp add: count_ands_def)

lemma comparison256_ands: "count_ands comparison256 (num_gate comparison256) = 255"
proof -
  have count: "count_ands comparison256 (3 * m + 2) = m" if "m \<le> 255" for m
    using that
  proof (induction m)
    case 0
    have "count_ands comparison256 2 = 0"
      by (simp add: numeral_2_eq_2 count_ands_append first_gates [unfolded One_nat_def] gate_types gate_types [symmetric])
        (simp add: count_ands_def)
    then show ?case by (simp add: numeral_2_eq_2)
  next
    case (Suc m)
    then have m: "m < 255" and IH: "count_ands comparison256 (3 * m + 2) = m" by simp_all
    have "count_ands comparison256 (Suc (3 * m + 2)) = m" "count_ands comparison256 (Suc (3 * m + 3)) = count_ands comparison256 (3 * m + 3)"
      "count_ands comparison256 (Suc (3 * m + 4)) = Suc (count_ands comparison256 (3 * m + 4))"
      by (simp_all only: count_ands_append bit_gates [OF m] IH gate_types [symmetric] if_True if_False) simp_all
    moreover have "Suc (3 * m + 2) = 3 * m + 3" "Suc (3 * m + 3) = 3 * m + 4" "Suc (3 * m + 4) = 3 * Suc m + 2" by simp_all
    ultimately show ?case by (simp only:)
  qed
  have "count_ands comparison256 (Suc 767) = count_ands comparison256 767" "count_ands comparison256 (Suc 768) = count_ands comparison256 768"
    by (simp_all only: count_ands_append last_gates gate_types [symmetric] if_False add_0_right)
  then have "count_ands comparison256 769 = count_ands comparison256 767" by simp
  then show ?thesis using count [of 255] by simp
qed

end
