(* ===== verification/Passcode.thy ===== *)
theory Passcode
  imports CmpcFlex AuthShare Base64 Preprocess Comparison
begin

text \<open>
  The main programs of \<^verbatim>\<open>mpcauth/apps\<close>: \<^verbatim>\<open>create_authshare\<close> deals the shares of a passcode, \<^verbatim>\<open>auth_passcode\<close> lets the
  servers compare a dealt passcode with the dealt ground truth.  A run is the honest run of all parties; JSON parsing is an
  argument, and the network set-up, the timing and the printing are left out.
\<close>

datatype app_error =
    Parse_failed
  | Read_past_end
  | Write_past_end
  | Flex flex_error
  | Preprocessing fpre_error

subsection \<open>create_authshare: the dealer\<close>

definition input_bits :: "string \<Rightarrow> bool arr" where
  "input_bits s i = (s ! i = CHR ''1'')"

definition app_gen_deltas :: "nat \<Rightarrow> (nat \<Rightarrow> nat \<Rightarrow> block arr) \<Rightarrow> (nat \<Rightarrow> block) \<Rightarrow> AuthShareBuilder \<Rightarrow> bytes" where
  "app_gen_deltas nP rnd deltas heap =
     (let builder = gen_deltas nP deltas (init_macs_and_keys nP rnd (heap\<lparr>asb_len := 0, asb_auth_shares := (\<lambda>_. [])\<rparr>))
      in concat (map (\<lambda>i. serializeBlock (asb_Deltas builder i)) [1..<nP + 1]))"

text \<open>\<^verbatim>\<open>main\<close> reads the offsets back from the file, 16 bytes each; a file with more than \<open>nP\<close> offsets overruns the array.\<close>

function read_deltas :: "nat \<Rightarrow> nat \<Rightarrow> bytes \<Rightarrow> (nat \<Rightarrow> block) \<Rightarrow> app_error + (nat \<Rightarrow> block)" where
  "read_deltas nP i file deltas =
     (if length file < 16 then Inr deltas
      else if nP < i then Inl Write_past_end
      else read_deltas nP (i + 1) (drop 16 file) (deltas(i := block_of_bytes (take 16 file))))"
  by auto
termination by (relation "measure (\<lambda>(nP, i, file, deltas). length file)") auto

text \<open>The bytes of party \<open>i\<close>; the program writes them one after the other.\<close>

definition gen_authshares ::
  "nat \<Rightarrow> AuthBitShare \<Rightarrow> (nat \<Rightarrow> nat \<Rightarrow> block arr) \<Rightarrow> (nat \<Rightarrow> bool arr) \<Rightarrow> (nat \<Rightarrow> bool arr) \<Rightarrow> AuthShareBuilder
   \<Rightarrow> string \<Rightarrow> (nat \<Rightarrow> block) \<Rightarrow> nat \<Rightarrow> bytes" where
  "gen_authshares nP ga keys rnd shheap heap input_string deltas i =
     (let len = length input_string;
          builder = AuthShareBuilder_new nP len deltas keys heap;
          builder = gen_auth_share nP ga rnd shheap (input_bits input_string) builder
      in serialize nP (asb_auth_shares builder i))"

subsection \<open>auth\_passcode: reading the payload\<close>

record passcode_payload =
  partyInt :: int
  passcodeShare :: string
  passcodeGroundTruth :: string
  delta_b64 :: string

record passcode_inputs =
  pi_party :: nat
  pi_share :: "AuthBitShare list"
  pi_gt :: "AuthBitShare list"
  pi_delta :: "bool arr"

text \<open>\<open>ga\<close> is the uninitialised local of \<^verbatim>\<open>deserialize\<close>, \<open>heap\<close> the new array \<^verbatim>\<open>delta\<close> of 128 entries.\<close>

definition read_payload ::
  "nat \<Rightarrow> AuthBitShare \<Rightarrow> bool arr \<Rightarrow> passcode_payload option \<Rightarrow> app_error + passcode_inputs" where
  "read_payload nP ga heap root =
     (case root of
        None \<Rightarrow> Inl Parse_failed
      | Some pl \<Rightarrow>
          (let delta_bytes = base64_decode (delta_b64 pl) in
           case deserialize nP ga (base64_decode (passcodeShare pl)) of
             None \<Rightarrow> Inl Read_past_end
           | Some passcode_share \<Rightarrow>
               (case deserialize nP ga (base64_decode (passcodeGroundTruth pl)) of
                  None \<Rightarrow> Inl Read_past_end
                | Some passcode_gt \<Rightarrow>
                    if 16 < length delta_bytes then Inl Write_past_end
                    else Inr \<lparr>pi_party = nat (partyInt pl + 1), pi_share = passcode_share, pi_gt = passcode_gt,
                              pi_delta = copy_vec_to_bool_array delta_bytes heap\<rparr>)))"

subsection \<open>Filling FlexIn and FlexOut\<close>

primrec assign_parties :: "(nat \<Rightarrow> 's \<Rightarrow> 'e + 's) \<Rightarrow> nat list \<Rightarrow> 's \<Rightarrow> 'e + 's" where
  "assign_parties f [] st = Inr st"
| "assign_parties f (i # is) st = (case f i st of Inl e \<Rightarrow> Inl e | Inr st \<Rightarrow> assign_parties f is st)"

text \<open>\<^verbatim>\<open>std::copy\<close> into a vector from position \<open>pos\<close> on.\<close>

definition vec_copy :: "'a list \<Rightarrow> nat \<Rightarrow> 'a list \<Rightarrow> flex_error + 'a list" where
  "vec_copy src pos dst =
     (if pos + length src \<le> length dst then Inr (take pos dst @ src @ drop (pos + length src) dst) else Inl Out_of_range)"

definition copy_shares :: "AuthBitShare list \<Rightarrow> nat \<Rightarrow> FlexIn \<Rightarrow> flex_error + FlexIn" where
  "copy_shares src pos st =
     map_sum id (\<lambda>v. st\<lparr>fi_authenticated_share_assignment := v\<rparr>) (vec_copy src pos (fi_authenticated_share_assignment st))"

definition passcode_in :: "BristolFormat \<Rightarrow> passcode_inputs \<Rightarrow> FlexIn \<Rightarrow> flex_error + FlexIn" where
  "passcode_in cf pin heap =
     (case assign_parties (\<lambda>i. fi_assign_party i (-1)) [0..<n1 cf + n2 cf] (FlexIn_new (n1 cf + n2 cf) (pi_party pin) heap) of
        Inl e \<Rightarrow> Inl e
      | Inr st \<Rightarrow>
          (case copy_shares (pi_share pin) 0 st of
             Inl e \<Rightarrow> Inl e
           | Inr st \<Rightarrow> copy_shares (pi_gt pin) (n1 cf) st))"

definition public_out :: "BristolFormat \<Rightarrow> nat \<Rightarrow> FlexOut \<Rightarrow> flex_error + FlexOut" where
  "public_out cf party heap =
     assign_parties (\<lambda>i. fo_assign_party i 0) [0..<n3 cf] (FlexOut_new (n3 cf) party heap)"

subsection \<open>The protocol\<close>

text \<open>What a run takes from outside: coins, uninitialised memory, the hash function and the group.\<close>

record 'g app_env =
  ae_sha :: "bytes \<Rightarrow> bytes"
  ae_G :: "'g group_ops"
  ae_skip :: nat
  ae_mem :: cmpc_memory
  ae_coins :: "nat \<Rightarrow> cmpc_coins"
  ae_rnd :: "nat \<Rightarrow> abit_rand"
  ae_heap :: "nat \<Rightarrow> cmpc"
  ae_ga :: AuthBitShare
  ae_delta :: "nat \<Rightarrow> bool arr"
  ae_masked :: "bool arr"
  ae_in :: "nat \<Rightarrow> FlexIn"
  ae_out :: "nat \<Rightarrow> FlexOut"

text \<open>Construction with the offset bits \<open>delta p\<close> (a fixed \<^verbatim>\<open>ssp\<close> of 40), and the two phases before \<^verbatim>\<open>online\<close>.\<close>

definition run_phases ::
  "'g app_env \<Rightarrow> nat \<Rightarrow> BristolFormat \<Rightarrow> (nat \<Rightarrow> bool arr) \<Rightarrow> (app_error + (nat \<Rightarrow> cmpc)) option" where
  "run_phases E nP cf delta =
     (case run_function_independent (ae_sha E) nP cf 40 (ae_skip E) (ae_mem E) (ae_coins E)
             (run_construct (ae_sha E) (ae_G E) cf 40 (\<lambda>p. (ae_rnd E p)\<lparr>ar_tmp := delta p\<rparr>) (ae_heap E)) of
        None \<Rightarrow> None
      | Some (Inl e) \<Rightarrow> Some (Inl (Preprocessing e))
      | Some (Inr (AB, W)) \<Rightarrow> Some (Inr (run_function_dependent nP cf W)))"

definition online_party ::
  "'g app_env \<Rightarrow> nat \<Rightarrow> BristolFormat \<Rightarrow> (nat \<Rightarrow> cmpc) \<Rightarrow> (nat \<Rightarrow> FlexIn) \<Rightarrow> (nat \<Rightarrow> FlexOut) \<Rightarrow> nat \<Rightarrow> app_error + FlexOut" where
  "online_party E nP cf R FI FO p =
     map_sum Flex fst (run_online_flex nP cf R (ae_ga E) (ae_masked E) FI FO p)"

definition online_bit ::
  "'g app_env \<Rightarrow> nat \<Rightarrow> BristolFormat \<Rightarrow> (nat \<Rightarrow> cmpc) \<Rightarrow> (nat \<Rightarrow> FlexIn) \<Rightarrow> (nat \<Rightarrow> FlexOut) \<Rightarrow> nat \<Rightarrow> app_error + bool" where
  "online_bit E nP cf R FI FO p =
     (case online_party E nP cf R FI FO p of
        Inl e \<Rightarrow> Inl e
      | Inr out \<Rightarrow> map_sum Flex id (get_plaintext_bit 0 out))"

definition run_compare_passcode ::
  "'g app_env \<Rightarrow> nat \<Rightarrow> BristolFormat \<Rightarrow> (nat \<Rightarrow> passcode_payload option) \<Rightarrow> (app_error + (nat \<Rightarrow> bool)) option" where
  "run_compare_passcode E nP cf payload =
     (case all_parties nP (\<lambda>p. read_payload nP (ae_ga E) (ae_delta E p) (payload p)) of
        Inl e \<Rightarrow> Some (Inl e)
      | Inr pin \<Rightarrow>
          (case run_phases E nP cf (\<lambda>p. pi_delta (pin p)) of
             None \<Rightarrow> None
           | Some (Inl e) \<Rightarrow> Some (Inl e)
           | Some (Inr R) \<Rightarrow>
               (case all_parties nP (\<lambda>p. map_sum Flex id (passcode_in cf (pin p) (ae_in E p))) of
                  Inl e \<Rightarrow> Some (Inl e)
                | Inr FI \<Rightarrow>
                    (case all_parties nP (\<lambda>p. map_sum Flex id (public_out cf (pi_party (pin p)) (ae_out E p))) of
                       Inl e \<Rightarrow> Some (Inl e)
                     | Inr FO \<Rightarrow> Some (all_parties nP (online_bit E nP cf R FI FO))))))"

declare read_deltas.simps [simp del]

subsection \<open>The dealer and the payload\<close>

lemma read_deltas_concat:
  "read_deltas nP i (concat (map (\<lambda>i. bytes_of_block (D i)) [i..<nP + 1])) d = Inr (\<lambda>p. if i \<le> p \<and> p \<le> nP then D p else d p)"
proof (induction "nP + 1 - i" arbitrary: i d)
  case 0
  then show ?case by (subst read_deltas.simps) (auto intro!: ext)
next
  case (Suc n)
  let ?file = "\<lambda>i. concat (map (\<lambda>i. bytes_of_block (D i)) [i..<nP + 1])"
  have i: "i < nP + 1" and n: "n = nP + 1 - (i + 1)" using Suc(2) by auto
  have "?file i = bytes_of_block (D i) @ ?file (i + 1)" using i by (simp add: upt_conv_Cons del: upt_Suc)
  then have "read_deltas nP i (?file i) d = read_deltas nP (i + 1) (?file (i + 1)) (d(i := D i))"
    using i by (subst read_deltas.simps) simp
  also have "\<dots> = Inr (\<lambda>p. if i \<le> p \<and> p \<le> nP then D p else d p)"
    unfolding Suc(1) [OF n] using i by auto
  finally show ?case .
qed

text \<open>
  C29.  The loop of \<^verbatim>\<open>create_authshare\<close> that reads the offsets back from a file ends and restores every offset that
  \<^verbatim>\<open>gen_deltas\<close> wrote, party by party; the entries outside \<open>1, \<dots>, nP\<close> keep their value.
\<close>

theorem read_deltas_gen:
  "read_deltas nP 1 (app_gen_deltas nP rnd deltas heap) d = Inr (\<lambda>p. if 1 \<le> p \<and> p \<le> nP then deltas p else d p)"
proof -
  have "app_gen_deltas nP rnd deltas heap = concat (map (\<lambda>i. bytes_of_block (deltas i)) [1..<nP + 1])"
    by (auto simp: app_gen_deltas_def gen_deltas_def serializeBlock_def Let_def intro!: arg_cong [where f = concat])
  then show ?thesis using read_deltas_concat [of nP 1 deltas d] by simp
qed

text \<open>What the servers receive: the dealt bytes of party \<open>p\<close>, in base 64.\<close>

definition payload_of :: "(nat \<Rightarrow> bytes) \<Rightarrow> (nat \<Rightarrow> bytes) \<Rightarrow> (nat \<Rightarrow> block) \<Rightarrow> nat \<Rightarrow> passcode_payload option" where
  "payload_of share gt \<Delta> p = Some \<lparr>partyInt = int p - 1, passcodeShare = base64_encode (share p),
     passcodeGroundTruth = base64_encode (gt p), delta_b64 = base64_encode (serializeBlock (\<Delta> p))\<rparr>"

text \<open>Shares of the bits \<open>x\<close>, as the parties hold them.\<close>

definition dealt :: "nat \<Rightarrow> (nat \<Rightarrow> block) \<Rightarrow> bool list \<Rightarrow> (nat \<Rightarrow> AuthBitShare list) \<Rightarrow> bool" where
  "dealt nP \<Delta> x A \<longleftrightarrow>
     (\<forall>p. 1 \<le> p \<and> p \<le> nP \<longrightarrow> length (A p) = length x)
     \<and> (\<forall>k<length x. auth_bit nP \<Delta> (\<lambda>p. bit_share (A p ! k)) (\<lambda>p j. ab_mac (A p ! k) j) (\<lambda>p j. ab_key (A p ! k) j)
          \<and> parity (\<lambda>p. bit_share (A p ! k)) (parties nP) = x ! k)"

definition string_bits :: "string \<Rightarrow> bool list" where
  "string_bits s = map (\<lambda>c. c = CHR ''1'') s"

lemma length_string_bits [simp]: "length (string_bits s) = length s"
  by (simp add: string_bits_def)

lemma dealt_upto:
  assumes "dealt nP \<Delta> x A"
  shows "dealt nP \<Delta> x (\<lambda>p. map (abit_upto nP ga) (A p))"
proof -
  have "parity (\<lambda>p. bit_share (map (abit_upto nP ga) (A p) ! k)) (parties nP) = x ! k" if "k < length x" for k
  proof -
    have "parity (\<lambda>p. bit_share (map (abit_upto nP ga) (A p) ! k)) (parties nP) = parity (\<lambda>p. bit_share (A p ! k)) (parties nP)"
      using that assms by (intro parity_cong refl) (auto simp: dealt_def abit_upto_def)
    then show ?thesis using that assms by (simp add: dealt_def del: upt_Suc)
  qed
  then show ?thesis
    using assms by (auto simp: dealt_def auth_bit_def abit_upto_def simp del: upt_Suc)
qed

lemma gen_authshares_dealt:
  fixes keys :: "nat \<Rightarrow> nat \<Rightarrow> block arr" and rnd shheap :: "nat \<Rightarrow> bool arr" and heap :: AuthShareBuilder
    and ga :: AuthBitShare and input_string :: string and nP :: nat
  assumes "1 \<le> nP"
  obtains A where "\<And>p. 1 \<le> p \<Longrightarrow> p \<le> nP \<Longrightarrow>
      gen_authshares nP ga keys rnd shheap heap input_string \<Delta> p = serialize nP (A p)"
    and "dealt nP \<Delta> (string_bits input_string) A"
proof -
  define B where "B = AuthShareBuilder_new nP (length input_string) \<Delta> keys heap"
  define A where "A = asb_auth_shares (gen_auth_share nP ga rnd shheap (input_bits input_string) B)"
  have B: "asb_len B = length input_string" "\<And>p. asb_auth_shares B p = []" "\<And>p. p \<le> nP \<Longrightarrow> asb_Deltas B p = \<Delta> p"
    by (simp_all add: B_def AuthShareBuilder_new_def init_macs_and_keys_def Let_def)
  have "auth_bit nP \<Delta> (\<lambda>p. bit_share (A p ! k)) (\<lambda>p j. ab_mac (A p ! k) j) (\<lambda>p j. ab_key (A p ! k) j)
      \<and> parity (\<lambda>p. bit_share (A p ! k)) (parties nP) = string_bits input_string ! k" if "k < length input_string" for k
    using gen_auth_share_dealt [where st = B and k = k and nP = nP and ga = ga and rnd = rnd and heap = shheap and bits = "input_bits input_string"]
      that assms B
    by (auto simp: A_def auth_bit_def string_bits_def input_bits_def)
  moreover have "length (A p) = length input_string" if "1 \<le> p" "p \<le> nP" for p
    using that B by (simp add: A_def gen_auth_share_def Let_def)
  ultimately have "dealt nP \<Delta> (string_bits input_string) A" by (simp add: dealt_def)
  then show thesis
    by (intro that [of A]) (simp_all add: gen_authshares_def A_def B_def Let_def)
qed

lemma offset_from_bytes: "bool_to_block (copy_vec_to_bool_array (serializeBlock D) heap) = D"
proof (rule bit_word_eqI)
  fix n assume "n < LENGTH(128)"
  then have "n < 128" "n div 8 < 16" by auto
  then show "bit (bool_to_block (copy_vec_to_bool_array (serializeBlock D) heap)) n = bit D n"
    by (simp add: bit_bool_to_block copy_vec_nth serializeBlock_def bit_nth_bytes)
qed

lemma read_payload_ok:
  assumes "1 \<le> p" and "share p = serialize nP X" and "gt p = serialize nP Y" and "length X < 2 ^ 64" and "length Y < 2 ^ 64"
  shows "read_payload nP ga heap (payload_of share gt \<Delta> p)
    = Inr \<lparr>pi_party = p, pi_share = map (abit_upto nP ga) X, pi_gt = map (abit_upto nP ga) Y,
           pi_delta = copy_vec_to_bool_array (serializeBlock (\<Delta> p)) heap\<rparr>"
  using assms
  by (simp add: read_payload_def payload_of_def base64_decode_encode deserialize_serialized serializeBlock_def Let_def)

subsection \<open>The objects handed to online\<close>

lemma assign_parties_append:
  "assign_parties f (is @ js) st = (case assign_parties f is st of Inl e \<Rightarrow> Inl e | Inr st \<Rightarrow> assign_parties f js st)"
  by (induction "is" arbitrary: st) (auto split: sum.splits)

text \<open>Assigning the same value to every position fills the vector; \<open>get\<close> and \<open>upd\<close> access the vector in the object.\<close>

lemma assign_parties_fill:
  assumes get: "\<And>v st. get (upd v st) = v" and upd: "\<And>u v st. upd v (upd u st) = upd v st" "upd (get st) st = st"
    and "length (get st) = n"
  shows "assign_parties (\<lambda>i st. map_sum id (\<lambda>v. upd v st) (vec_set i w (get st))) [0..<n] st = Inr (upd (replicate n w) st)"
proof -
  let ?f = "\<lambda>i st. map_sum id (\<lambda>v. upd v st) (vec_set i w (get st))"
  have "assign_parties ?f [0..<m] st = Inr (upd (replicate m w @ drop m (get st)) st)" if "m \<le> n" for m
    using that
  proof (induction m)
    case (Suc m)
    have "(replicate m w @ drop m (get st))[m := w] = replicate (Suc m) w @ drop (Suc m) (get st)"
    proof -
      have "drop m (get st) = get st ! m # drop (Suc m) (get st)"
        using Suc.prems assms(4) by (simp add: Cons_nth_drop_Suc)
      then show ?thesis by (simp add: list_update_append replicate_app_Cons_same)
    qed
    then show ?case
      using Suc assms(4) by (simp add: assign_parties_append get upd vec_set_def)
  qed (simp add: upd)
  from this [of n] show ?thesis using assms(4) by simp
qed

lemma vec_copy_two:
  assumes "length X = n" and "length Y = m" and "length dst = n + m"
  shows "vec_copy X 0 dst = Inr (X @ drop n dst)" and "vec_copy Y n (X @ drop n dst) = Inr (X @ Y)"
  using assms by (simp_all add: vec_copy_def)

lemma fi_assign_all:
  "assign_parties (\<lambda>i. fi_assign_party i w) [0..<n] (FlexIn_new n party heap)
     = Inr ((FlexIn_new n party heap)\<lparr>fi_party_assignment := replicate n w\<rparr>)"
  unfolding fi_assign_party_def
  by (rule assign_parties_fill [where get = fi_party_assignment and upd = "\<lambda>v st. st\<lparr>fi_party_assignment := v\<rparr>"])
    (simp_all add: FlexIn_new_def)

lemma passcode_in_ok:
  assumes "length (pi_share pin) = n1 cf" and "length (pi_gt pin) = n2 cf"
  shows "passcode_in cf pin heap = Inr ((FlexIn_new (n1 cf + n2 cf) (pi_party pin) heap)
     \<lparr>fi_party_assignment := replicate (n1 cf + n2 cf) (-1), fi_authenticated_share_assignment := pi_share pin @ pi_gt pin\<rparr>)"
  unfolding passcode_in_def fi_assign_all
  using vec_copy_two [OF assms, of "replicate (n1 cf + n2 cf) empty_abit"]
  by (simp add: copy_shares_def FlexIn_new_def)

lemma public_out_ok: "public_out cf party heap = Inr (FlexOut_new (n3 cf) party heap)"
proof -
  let ?st = "FlexOut_new (n3 cf) party heap"
  have "assign_parties (\<lambda>i. fo_assign_party i 0) [0..<n3 cf] ?st = Inr (?st\<lparr>fo_party_assignment := replicate (n3 cf) 0\<rparr>)"
    unfolding fo_assign_party_def
    by (rule assign_parties_fill [where get = fo_party_assignment and upd = "\<lambda>v st. st\<lparr>fo_party_assignment := v\<rparr>"])
      (simp_all add: FlexOut_new_def)
  then show ?thesis by (simp add: public_out_def FlexOut_new_def)
qed

text \<open>A share vector that does not fit is copied past the end of the input vector.\<close>

lemma passcode_in_too_long:
  assumes "n1 cf + n2 cf < length (pi_share pin)"
  shows "passcode_in cf pin heap = Inl Out_of_range"
  unfolding passcode_in_def fi_assign_all using assms by (simp add: copy_shares_def vec_copy_def FlexIn_new_def)

subsection \<open>The runs\<close>

lemma run_phases_ok:
  fixes delta :: "nat \<Rightarrow> bool arr"
  assumes "group_laws (ae_G E)" and "2 \<le> nP" and "lengths_ok cf 40"
  defines "\<Delta> \<equiv> \<lambda>p. bool_to_block (delta p)"
  obtains W where "run_phases E nP cf delta = Some (Inr (run_function_dependent nP cf W))"
    and "preprocessed nP cf W" and "\<And>p. cm_Delta (W p) = \<Delta> p"
proof -
  let ?rnd = "\<lambda>p. (ae_rnd E p)\<lparr>ar_tmp := delta p\<rparr>"
  have D: "(\<lambda>p. bool_to_block (ar_tmp (?rnd p))) = \<Delta>" by (simp add: \<Delta>_def)
  have "1 \<le> nP" using assms(2) by simp
  obtain AB T P where run: "run_function_independent (ae_sha E) nP cf 40 (ae_skip E) (ae_mem E) (ae_coins E)
        (run_construct (ae_sha E) (ae_G E) cf 40 ?rnd (ae_heap E))
       = Some (Inr (AB, setup_cmpc nP cf 40 \<Delta> (\<lambda>p. cc_labels (ae_coins E p)) T P (ae_heap E)))"
    and ok: "triples_ok nP \<Delta> T (count_ands cf (num_gate cf))"
      "abits_ok nP \<Delta> P (n1 cf + n2 cf + count_ands cf (num_gate cf) + 3 * 40)"
    by (rule run_function_independent_ok [where rnd = ?rnd, OF assms(1) \<open>1 \<le> nP\<close> assms(3), unfolded D]) (rule that)
  show thesis
    by (rule that [of "setup_cmpc nP cf 40 \<Delta> (\<lambda>p. cc_labels (ae_coins E p)) T P (ae_heap E)"])
      (simp_all add: run_phases_def run setup_cmpc_preprocessed [OF assms(2) ok])
qed

lemma run_online_flex_shape:
  assumes "run_online_flex nP cf R g garbage FI FO p = Inr (Q, log)"
  shows "fo_party_assignment Q = fo_party_assignment (FO p)" "fo_party Q = fo_party (FO p)"
    "length (fo_plaintext_results Q) = fo_len (FO p)"
  using assms
  by (auto simp: run_online_flex_def online_flex_def fo_output_def Let_def split: sum.splits prod.splits if_splits)

text \<open>\<^verbatim>\<open>online\<close> on given objects, when the output is public: every party reads the first output bit.\<close>

lemma online_bit_ok:
  assumes wf: "wf_circuit cf" and pre: "preprocessed nP cf W" and n3: "1 \<le> n3 cf"
    and D: "\<And>p. 1 \<le> p \<Longrightarrow> p \<le> nP \<Longrightarrow> cm_Delta (W p) \<noteq> 0"
    and su: "flex_setup nP cf asgI (replicate (n3 cf) 0) (\<lambda>p. cm_Delta (W p)) FI FO"
    and p: "1 \<le> p" "p \<le> nP"
  shows "online_bit E nP cf (run_function_dependent nP cf W) FI FO p
    = Inr (eval_circuit cf (flex_input_bit nP asgI FI) (num_wire cf - n3 cf))"
proof -
  let ?R = "run_function_dependent nP cf W"
  let ?out = "eval_circuit cf (flex_input_bit nP asgI FI) (num_wire cf - n3 cf)"
  have "\<exists>Q. \<forall>p. 1 \<le> p \<and> p \<le> nP \<longrightarrow>
      run_online_flex nP cf ?R (ae_ga E) (ae_masked E) FI FO p = Inr (Q p, []) \<and> fo_plaintext_results (Q p) ! 0 = ?out"
    by (rule online_flex_ok [OF wf pre _ su, where g = "ae_ga E" and garbage = "ae_masked E"])
      (use D n3 in \<open>auto intro!: exI\<close>)
  then obtain Q where Q: "run_online_flex nP cf ?R (ae_ga E) (ae_masked E) FI FO p = Inr (Q p, [])"
    and out: "fo_plaintext_results (Q p) ! 0 = ?out"
    using p by blast
  note FO = flex_setupD [OF su p]
  have "fo_party_assignment (Q p) = replicate (n3 cf) 0" "fo_party (Q p) = p" "length (fo_plaintext_results (Q p)) = n3 cf"
    using run_online_flex_shape [OF Q] FO by simp_all
  then show ?thesis
    using out n3 by (simp add: online_bit_def online_party_def Q get_plaintext_bit_def)
qed

lemma output_defined:
  assumes "wf_circuit cf" and "i < n3 cf"
  shows "defined_by cf (num_gate cf) (num_wire cf - n3 cf + i)"
proof -
  have "num_wire cf - n3 cf + i \<in> set [num_wire cf - n3 cf..<num_wire cf]"
    using assms by (auto simp: wf_circuit_def)
  then show ?thesis using assms(1) by (simp only: wf_circuit_def list_all_iff)
qed

lemma online_bits_ok:
  assumes "wf_circuit cf" and "preprocessed nP cf W" and "1 \<le> n3 cf"
    and "\<And>p. 1 \<le> p \<Longrightarrow> p \<le> nP \<Longrightarrow> cm_Delta (W p) \<noteq> 0"
    and "flex_setup nP cf asgI (replicate (n3 cf) 0) (\<lambda>p. cm_Delta (W p)) FI FO"
    and "\<And>w. w < n1 cf + n2 cf \<Longrightarrow> flex_input_bit nP asgI FI w = v w"
  obtains r where "all_parties nP (online_bit E nP cf (run_function_dependent nP cf W) FI FO) = Inr r"
    and "\<And>p. 1 \<le> p \<Longrightarrow> p \<le> nP \<Longrightarrow> r p = eval_circuit cf v (num_wire cf - n3 cf)"
proof -
  have "defined_by cf (num_gate cf) (num_wire cf - n3 cf)"
    using output_defined [OF assms(1), of 0] assms(3) by simp
  then have "eval_circuit cf (flex_input_bit nP asgI FI) (num_wire cf - n3 cf) = eval_circuit cf v (num_wire cf - n3 cf)"
    by (intro eval_circuit_cong [OF assms(1)] assms(6))
  then have "online_bit E nP cf (run_function_dependent nP cf W) FI FO p = Inr (eval_circuit cf v (num_wire cf - n3 cf))"
    if "1 \<le> p" "p \<le> nP" for p
    using online_bit_ok [OF assms(1-5) that] by simp
  then show thesis by (rule all_parties_Inr) (assumption+, rule that)
qed

text \<open>Objects filled with dealt shares.\<close>

lemma dealt_append:
  assumes "dealt nP \<Delta> x X" and "dealt nP \<Delta> y Y"
  shows "dealt nP \<Delta> (x @ y) (\<lambda>p. X p @ Y p)"
proof -
  have at: "(X p @ Y p) ! k = (if k < length x then X p ! k else Y p ! (k - length x))" if "1 \<le> p" "p \<le> nP" for p k
    using that assms by (simp add: dealt_def nth_append)
  have par: "parity (\<lambda>p. bit_share ((X p @ Y p) ! k)) (parties nP)
      = (if k < length x then parity (\<lambda>p. bit_share (X p ! k)) (parties nP) else parity (\<lambda>p. bit_share (Y p ! (k - length x))) (parties nP))" for k
    by (simp del: upt_Suc) (intro conjI impI parity_cong refl; auto simp: at)
  have "auth_bit nP \<Delta> (\<lambda>p. bit_share ((X p @ Y p) ! k)) (\<lambda>p j. ab_mac ((X p @ Y p) ! k) j) (\<lambda>p j. ab_key ((X p @ Y p) ! k) j)
      \<and> parity (\<lambda>p. bit_share ((X p @ Y p) ! k)) (parties nP) = (x @ y) ! k" if "k < length x + length y" for k
    unfolding par using assms that by (auto simp: dealt_def auth_bit_def at nth_append simp del: upt_Suc)
  then show ?thesis using assms by (simp add: dealt_def del: upt_Suc)
qed

lemma dealt_flex_setup:
  assumes "dealt nP \<Delta> x A" and "length x = n1 cf + n2 cf"
    and FI: "\<And>p. 1 \<le> p \<Longrightarrow> p \<le> nP \<Longrightarrow> FI p = (FlexIn_new (n1 cf + n2 cf) p (hI p))
         \<lparr>fi_party_assignment := replicate (n1 cf + n2 cf) (-1), fi_authenticated_share_assignment := A p\<rparr>"
    and FO: "\<And>p. 1 \<le> p \<Longrightarrow> p \<le> nP \<Longrightarrow> FO p = FlexOut_new (n3 cf) p (hO p)"
  shows "flex_setup nP cf (replicate (n1 cf + n2 cf) (-1)) (replicate (n3 cf) 0) \<Delta> FI FO"
    and "k < length x \<Longrightarrow> flex_input_bit nP (replicate (n1 cf + n2 cf) (-1)) FI k = x ! k"
proof -
  have "auth_bit nP \<Delta> (\<lambda>p. bit_share (fi_authenticated_share_assignment (FI p) ! i))
          (\<lambda>p j. ab_mac (fi_authenticated_share_assignment (FI p) ! i) j) (\<lambda>p j. ab_key (fi_authenticated_share_assignment (FI p) ! i) j)"
    if "i < n1 cf + n2 cf" for i
    using that assms(1,2) by (auto simp: dealt_def auth_bit_def FI)
  then show "flex_setup nP cf (replicate (n1 cf + n2 cf) (-1)) (replicate (n3 cf) 0) \<Delta> FI FO"
    by (auto simp: flex_setup_def list_all_iff flex_input_ok_def FI FO FlexIn_new_def FlexOut_new_def simp del: upt_Suc)
  assume k: "k < length x"
  have "parity (\<lambda>q. bit_share (fi_authenticated_share_assignment (FI q) ! k)) (parties nP) = parity (\<lambda>q. bit_share (A q ! k)) (parties nP)"
    by (intro parity_cong refl) (auto simp: FI)
  then show "flex_input_bit nP (replicate (n1 cf + n2 cf) (-1)) FI k = x ! k"
    using k assms(1,2) by (simp add: flex_input_bit_def dealt_def del: upt_Suc)
qed

lemma run_compare_passcode_ok:
  assumes laws: "group_laws (ae_G E)" and nP: "2 \<le> nP" and cf: "wf_circuit cf" "lengths_ok cf 40" "1 \<le> n3 cf"
    and D: "\<And>p. 1 \<le> p \<Longrightarrow> p \<le> nP \<Longrightarrow> \<Delta> p \<noteq> 0"
    and len: "length x = n1 cf" "length y = n2 cf" "n1 cf < 2 ^ 64" "n2 cf < 2 ^ 64"
    and X: "\<And>p. 1 \<le> p \<Longrightarrow> p \<le> nP \<Longrightarrow> share p = serialize nP (X p)" "dealt nP \<Delta> x X"
    and Y: "\<And>p. 1 \<le> p \<Longrightarrow> p \<le> nP \<Longrightarrow> gt p = serialize nP (Y p)" "dealt nP \<Delta> y Y"
  obtains r where "run_compare_passcode E nP cf (payload_of share gt \<Delta>) = Some (Inr r)"
    and "\<And>p. 1 \<le> p \<Longrightarrow> p \<le> nP \<Longrightarrow> r p = eval_circuit cf (\<lambda>w. (x @ y) ! w) (num_wire cf - n3 cf)"
proof -
  let ?ga = "ae_ga E"
  let ?pin = "\<lambda>p. \<lparr>pi_party = p, pi_share = map (abit_upto nP ?ga) (X p), pi_gt = map (abit_upto nP ?ga) (Y p),
     pi_delta = copy_vec_to_bool_array (serializeBlock (\<Delta> p)) (ae_delta E p)\<rparr>"
  have lens: "length (X p) = n1 cf" "length (Y p) = n2 cf" if "1 \<le> p" "p \<le> nP" for p
    using that X(2) Y(2) len by (auto simp: dealt_def)
  have "read_payload nP ?ga (ae_delta E p) (payload_of share gt \<Delta> p) = Inr (?pin p)" if "1 \<le> p" "p \<le> nP" for p
    using that X(1) Y(1) lens len by (intro read_payload_ok) auto
  then obtain pin where pin: "all_parties nP (\<lambda>p. read_payload nP ?ga (ae_delta E p) (payload_of share gt \<Delta> p)) = Inr pin"
    and pin_at: "\<And>p. 1 \<le> p \<Longrightarrow> p \<le> nP \<Longrightarrow> pin p = ?pin p"
    by (rule all_parties_Inr) (assumption+, rule that)
  obtain W where W: "run_phases E nP cf (\<lambda>p. pi_delta (pin p)) = Some (Inr (run_function_dependent nP cf W))" "preprocessed nP cf W"
    and "\<And>p. cm_Delta (W p) = bool_to_block (pi_delta (pin p))"
    by (rule run_phases_ok [OF laws nP cf(2), where delta = "\<lambda>p. pi_delta (pin p)"]) (rule that)
  then have DW: "cm_Delta (W p) = \<Delta> p" if "1 \<le> p" "p \<le> nP" for p
    using that by (simp add: pin_at offset_from_bytes)
  let ?A = "\<lambda>p. map (abit_upto nP ?ga) (X p) @ map (abit_upto nP ?ga) (Y p)"
  let ?FI = "\<lambda>p. (FlexIn_new (n1 cf + n2 cf) p (ae_in E p))
     \<lparr>fi_party_assignment := replicate (n1 cf + n2 cf) (-1), fi_authenticated_share_assignment := ?A p\<rparr>"
  have "map_sum Flex id (passcode_in cf (pin p) (ae_in E p)) = Inr (?FI p)" if "1 \<le> p" "p \<le> nP" for p
    using that lens by (simp add: pin_at passcode_in_ok)
  then obtain FI where FI: "all_parties nP (\<lambda>p. map_sum Flex id (passcode_in cf (pin p) (ae_in E p))) = Inr FI"
    and FI_at: "\<And>p. 1 \<le> p \<Longrightarrow> p \<le> nP \<Longrightarrow> FI p = ?FI p"
    by (rule all_parties_Inr) (assumption+, rule that)
  have "map_sum Flex id (public_out cf (pi_party (pin p)) (ae_out E p)) = Inr (FlexOut_new (n3 cf) p (ae_out E p))"
    if "1 \<le> p" "p \<le> nP" for p
    using that by (simp add: pin_at public_out_ok)
  then obtain FO where FO: "all_parties nP (\<lambda>p. map_sum Flex id (public_out cf (pi_party (pin p)) (ae_out E p))) = Inr FO"
    and FO_at: "\<And>p. 1 \<le> p \<Longrightarrow> p \<le> nP \<Longrightarrow> FO p = FlexOut_new (n3 cf) p (ae_out E p)"
    by (rule all_parties_Inr) (assumption+, rule that)
  have deal: "dealt nP (\<lambda>p. cm_Delta (W p)) (x @ y) ?A"
    using dealt_append [OF dealt_upto [OF X(2)] dealt_upto [OF Y(2)], of ?ga ?ga]
    by (auto simp: dealt_def auth_bit_def DW simp del: upt_Suc)
  note su = dealt_flex_setup [OF deal _ FI_at FO_at]
  obtain r where "all_parties nP (online_bit E nP cf (run_function_dependent nP cf W) FI FO) = Inr r"
    and "\<And>p. 1 \<le> p \<Longrightarrow> p \<le> nP \<Longrightarrow> r p = eval_circuit cf (\<lambda>w. (x @ y) ! w) (num_wire cf - n3 cf)"
    by (rule online_bits_ok [OF cf(1) W(2) cf(3) _ su(1), where E = E and v = "\<lambda>w. (x @ y) ! w"]) (use su(2) D DW len in auto)
  then show thesis
    by (intro that [of r]) (simp_all add: run_compare_passcode_def pin W(1) FI FO)
qed

end
