(* ===== verification/Apps.thy ===== *)
theory Apps
  imports Passcode
begin

text \<open>
  The other programs of \<^verbatim>\<open>mpcauth/apps\<close>: \<^verbatim>\<open>sharding\<close> compares exclusive-or shares without authentication, \<^verbatim>\<open>aes_ctr\<close>
  evaluates the AES circuit on a shared key, block by block.
\<close>

text \<open>\<^verbatim>\<open>sharding\<close>: every party holds a plain exclusive-or share, a string of digits.  Reading a \<^verbatim>\<open>std::string\<close> at its
  length gives the null character; beyond, it is undefined.\<close>

definition str_at :: "string \<Rightarrow> nat \<Rightarrow> app_error + char" where
  "str_at s i = (if i < length s then Inr (s ! i) else if i = length s then Inr (CHR 0x00) else Inl Read_past_end)"

definition assign_digit :: "string \<Rightarrow> nat \<Rightarrow> nat \<Rightarrow> FlexIn \<Rightarrow> app_error + FlexIn" where
  "assign_digit s i pos st =
     (case str_at s i of
        Inl e \<Rightarrow> Inl e
      | Inr c \<Rightarrow> map_sum Flex id (assign_plaintext_bit pos (c = CHR ''1'') st))"

definition sharding_in :: "BristolFormat \<Rightarrow> nat \<Rightarrow> string \<Rightarrow> string \<Rightarrow> FlexIn \<Rightarrow> app_error + FlexIn" where
  "sharding_in cf party shard shard_gt heap =
     (case map_sum Flex id (assign_parties (\<lambda>i. fi_assign_party i (-2)) [0..<n1 cf + n2 cf] (FlexIn_new (n1 cf + n2 cf) party heap)) of
        Inl e \<Rightarrow> Inl e
      | Inr st \<Rightarrow>
          (case assign_parties (\<lambda>i. assign_digit shard i i) [0..<n1 cf] st of
             Inl e \<Rightarrow> Inl e
           | Inr st \<Rightarrow> assign_parties (\<lambda>i. assign_digit shard_gt i (i + n1 cf)) [0..<n2 cf] st))"

text \<open>\<^verbatim>\<open>aes_ctr\<close>: the first 128 wires take the shares of the key, the others a public constant; the output stays
  shared.\<close>

definition aes_in :: "nat \<Rightarrow> string \<Rightarrow> FlexIn \<Rightarrow> app_error + FlexIn" where
  "aes_in party key_share heap =
     (case assign_parties (\<lambda>i st.
          case map_sum Flex id (fi_assign_party i (-2) st) of Inl e \<Rightarrow> Inl e | Inr st \<Rightarrow> assign_digit key_share i i st)
          [0..<128] (FlexIn_new 256 party heap) of
        Inl e \<Rightarrow> Inl e
      | Inr st \<Rightarrow> assign_parties (\<lambda>i st.
          case map_sum Flex id (fi_assign_party i 0 st) of
            Inl e \<Rightarrow> Inl e
          | Inr st \<Rightarrow> map_sum Flex id (assign_plaintext_bit i (i mod 2 \<noteq> 0) st)) [128..<256] st)"

definition aes_out :: "nat \<Rightarrow> FlexOut \<Rightarrow> flex_error + FlexOut" where
  "aes_out party heap = assign_parties (\<lambda>i. fo_assign_party i (-1)) [0..<128] (FlexOut_new 128 party heap)"

text \<open>The padding of the input share and the number of blocks.\<close>

definition pad_share :: "string \<Rightarrow> nat \<times> string" where
  "pad_share input_share =
     (let n_blocks = length input_share div 128
      in if n_blocks * 128 \<noteq> length input_share then
           (n_blocks + 1, input_share @ replicate ((n_blocks + 1) * 128 - length input_share) (CHR ''0''))
         else (n_blocks, input_share))"

definition run_sharding ::
  "'g app_env \<Rightarrow> nat \<Rightarrow> BristolFormat \<Rightarrow> (nat \<Rightarrow> string) \<Rightarrow> (nat \<Rightarrow> string) \<Rightarrow> (app_error + (nat \<Rightarrow> bool)) option" where
  "run_sharding E nP cf shard shard_gt =
     (case run_phases E nP cf (\<lambda>p. ar_tmp (ae_rnd E p)) of
        None \<Rightarrow> None
      | Some (Inl e) \<Rightarrow> Some (Inl e)
      | Some (Inr R) \<Rightarrow>
          (case all_parties nP (\<lambda>p. sharding_in cf p (shard p) (shard_gt p) (ae_in E p)) of
             Inl e \<Rightarrow> Some (Inl e)
           | Inr FI \<Rightarrow>
               (case all_parties nP (\<lambda>p. map_sum Flex id (public_out cf p (ae_out E p))) of
                  Inl e \<Rightarrow> Some (Inl e)
                | Inr FO \<Rightarrow> Some (all_parties nP (online_bit E nP cf R FI FO)))))"

text \<open>One block of \<^verbatim>\<open>aes_ctr\<close>: the objects are filled first, then \<^verbatim>\<open>run_agmpc\<close> runs all phases.\<close>

definition run_agmpc ::
  "'g app_env \<Rightarrow> nat \<Rightarrow> BristolFormat \<Rightarrow> (nat \<Rightarrow> bool arr) \<Rightarrow> (nat \<Rightarrow> FlexIn) \<Rightarrow> (nat \<Rightarrow> FlexOut)
   \<Rightarrow> (app_error + (nat \<Rightarrow> FlexOut)) option" where
  "run_agmpc E nP cf delta FI FO =
     (case run_phases E nP cf delta of
        None \<Rightarrow> None
      | Some (Inl e) \<Rightarrow> Some (Inl e)
      | Some (Inr R) \<Rightarrow> Some (all_parties nP (online_party E nP cf R FI FO)))"

definition run_aes_block ::
  "'g app_env \<Rightarrow> nat \<Rightarrow> BristolFormat \<Rightarrow> (nat \<Rightarrow> bool arr) \<Rightarrow> (nat \<Rightarrow> string) \<Rightarrow> (app_error + (nat \<Rightarrow> FlexOut)) option" where
  "run_aes_block E nP cf delta key_share =
     (case all_parties nP (\<lambda>p. aes_in p (key_share p) (ae_in E p)) of
        Inl e \<Rightarrow> Some (Inl e)
      | Inr FI \<Rightarrow>
          (case all_parties nP (\<lambda>p. map_sum Flex id (aes_out p (ae_out E p))) of
             Inl e \<Rightarrow> Some (Inl e)
           | Inr FO \<Rightarrow> run_agmpc E nP cf delta FI FO))"

text \<open>The loop over the blocks: block \<open>j\<close> runs with fresh coins \<open>E j\<close>, and what it returns is dropped; the share printed at
  the end is the empty string it was initialised with.\<close>

primrec aes_blocks :: "(nat \<Rightarrow> 'g app_env) \<Rightarrow> nat \<Rightarrow> BristolFormat \<Rightarrow> (nat \<Rightarrow> bool arr) \<Rightarrow> (nat \<Rightarrow> string) \<Rightarrow> nat list \<Rightarrow> string
   \<Rightarrow> (app_error + string) option" where
  "aes_blocks E nP cf delta key_share [] out_share = Some (Inr out_share)"
| "aes_blocks E nP cf delta key_share (j # js) out_share =
     (case run_aes_block (E j) nP cf delta key_share of
        None \<Rightarrow> None
      | Some (Inl e) \<Rightarrow> Some (Inl e)
      | Some (Inr out) \<Rightarrow> aes_blocks E nP cf delta key_share js out_share)"

definition run_aes_handler :: "(nat \<Rightarrow> 'g app_env) \<Rightarrow> nat \<Rightarrow> BristolFormat \<Rightarrow> (nat \<Rightarrow> bool arr) \<Rightarrow> (nat \<Rightarrow> string) \<Rightarrow> string
   \<Rightarrow> (app_error + string) option" where
  "run_aes_handler E nP cf delta key_share input_share =
     aes_blocks E nP cf delta key_share [0..<fst (pad_share input_share)] []"

subsection \<open>Loops of assignments\<close>

lemma assign_parties_seq:
  assumes "\<And>i. i < n \<Longrightarrow> f i (g i) = Inr (g (Suc i))"
  shows "assign_parties f [0..<n] (g 0) = Inr (g n)"
  using assms by (induction n) (simp_all add: assign_parties_append)

lemma assign_parties_seq_from:
  assumes "\<And>i. a \<le> i \<Longrightarrow> i < b \<Longrightarrow> f i (g i) = Inr (g (Suc i))" and "a \<le> b"
  shows "assign_parties f [a..<b] (g a) = Inr (g b)"
  using assms(2,1)
proof (induction b rule: dec_induct)
  case (step b)
  then show ?case by (simp add: assign_parties_append)
qed simp

subsection \<open>Plain shares\<close>

lemma assign_digit_at:
  assumes "i < length s" and "pos < length (fi_party_assignment st)" and "pos < length (fi_plaintext_assignment st)"
    and "fi_party_assignment st ! pos = -2"
  shows "assign_digit s i pos st = Inr (st\<lparr>fi_plaintext_assignment := (fi_plaintext_assignment st)[pos := s ! i = CHR ''1'']\<rparr>)"
  using assms by (simp add: assign_digit_def str_at_def assign_plaintext_bit_def vec_set_def)

lemma update_prefix: "length xs = m \<Longrightarrow> ys \<noteq> [] \<Longrightarrow> (xs @ ys)[m := v] = xs @ v # tl ys"
  by (cases ys) (auto simp: list_update_append)

lemma tl_replicate_drop: "n < m \<Longrightarrow> tl (replicate (m - n) a) = replicate (m - Suc n) a"
  by (simp add: tl_replicate)

lemma sharding_in_ok:
  assumes "length x = n1 cf" and "length y = n2 cf"
  shows "sharding_in cf party x y heap = Inr ((FlexIn_new (n1 cf + n2 cf) party heap)
     \<lparr>fi_party_assignment := replicate (n1 cf + n2 cf) (-2), fi_plaintext_assignment := string_bits (x @ y)\<rparr>)"
proof -
  let ?n = "n1 cf + n2 cf"
  define g where "g v = (FlexIn_new ?n party heap)\<lparr>fi_party_assignment := replicate ?n (-2), fi_plaintext_assignment := v\<rparr>" for v
  let ?u = "\<lambda>i. string_bits (take i x) @ replicate (?n - i) False"
  let ?w = "\<lambda>i. string_bits (x @ take i y) @ replicate (n2 cf - i) False"
  have step: "assign_digit s i pos (g v) = Inr (g (v[pos := s ! i = CHR ''1'']))" if "i < length s" "pos < ?n" "length v = ?n" for s i pos v
    using assign_digit_at [of i s pos "g v"] that by (simp add: g_def)
  have A: "assign_parties (\<lambda>i. assign_digit x i i) [0..<n1 cf] (g (?u 0)) = Inr (g (?u (n1 cf)))"
  proof (rule assign_parties_seq)
    fix i assume i: "i < n1 cf"
    have "(?u i)[i := x ! i = CHR ''1''] = ?u (Suc i)"
      using i assms by (subst update_prefix) (auto simp: tl_replicate take_Suc_conv_app_nth string_bits_def)
    then show "assign_digit x i i (g (?u i)) = Inr (g (?u (Suc i)))"
      using step [of i x i "?u i"] i assms by simp
  qed
  have B: "assign_parties (\<lambda>i. assign_digit y i (i + n1 cf)) [0..<n2 cf] (g (?w 0)) = Inr (g (?w (n2 cf)))"
  proof (rule assign_parties_seq)
    fix i assume i: "i < n2 cf"
    have "(?w i)[i + n1 cf := y ! i = CHR ''1''] = ?w (Suc i)"
      using i assms by (subst update_prefix) (auto simp: tl_replicate take_Suc_conv_app_nth string_bits_def)
    then show "assign_digit y i (i + n1 cf) (g (?w i)) = Inr (g (?w (Suc i)))"
      using step [of i y "i + n1 cf" "?w i"] i assms by simp
  qed
  have G: "(FlexIn_new ?n party heap)\<lparr>fi_party_assignment := replicate ?n (-2)\<rparr> = g (?u 0)"
    by (simp add: g_def FlexIn_new_def string_bits_def)
  have U: "?u (n1 cf) = ?w 0" and W: "?w (n2 cf) = string_bits (x @ y)" using assms by simp_all
  have "sharding_in cf party x y heap = Inr (g (string_bits (x @ y)))"
    unfolding sharding_in_def fi_assign_all G map_sum.simps id_apply sum.case A U B W by (rule refl)
  then show ?thesis by (simp add: g_def)
qed

lemma run_sharding_ok:
  assumes laws: "group_laws (ae_G E)" and nP: "2 \<le> nP" and cf: "wf_circuit cf" "lengths_ok cf 40" "1 \<le> n3 cf"
    and D: "\<And>p. 1 \<le> p \<Longrightarrow> p \<le> nP \<Longrightarrow> bool_to_block (ar_tmp (ae_rnd E p)) \<noteq> 0"
    and len: "\<And>p. 1 \<le> p \<Longrightarrow> p \<le> nP \<Longrightarrow> length (x p) = n1 cf" "\<And>p. 1 \<le> p \<Longrightarrow> p \<le> nP \<Longrightarrow> length (y p) = n2 cf"
  obtains r where "run_sharding E nP cf x y = Some (Inr r)"
    and "\<And>p. 1 \<le> p \<Longrightarrow> p \<le> nP \<Longrightarrow> r p = eval_circuit cf (\<lambda>w. parity (\<lambda>q. string_bits (x q @ y q) ! w) (parties nP)) (num_wire cf - n3 cf)"
proof -
  obtain W where W: "run_phases E nP cf (\<lambda>p. ar_tmp (ae_rnd E p)) = Some (Inr (run_function_dependent nP cf W))" "preprocessed nP cf W"
    and DW: "\<And>p. cm_Delta (W p) = bool_to_block (ar_tmp (ae_rnd E p))"
    by (rule run_phases_ok [OF laws nP cf(2), where delta = "\<lambda>p. ar_tmp (ae_rnd E p)"]) (rule that)
  let ?FI = "\<lambda>p. (FlexIn_new (n1 cf + n2 cf) p (ae_in E p))
     \<lparr>fi_party_assignment := replicate (n1 cf + n2 cf) (-2), fi_plaintext_assignment := string_bits (x p @ y p)\<rparr>"
  obtain FI where FI: "all_parties nP (\<lambda>p. sharding_in cf p (x p) (y p) (ae_in E p)) = Inr FI"
    and FI_at: "\<And>p. 1 \<le> p \<Longrightarrow> p \<le> nP \<Longrightarrow> FI p = ?FI p"
    by (rule all_parties_Inr [where f = "\<lambda>p. sharding_in cf p (x p) (y p) (ae_in E p)" and g = ?FI])
      (rule sharding_in_ok, (rule len; assumption)+, rule that)
  obtain FO where FO: "all_parties nP (\<lambda>p. map_sum Flex id (public_out cf p (ae_out E p))) = Inr FO"
    and FO_at: "\<And>p. 1 \<le> p \<Longrightarrow> p \<le> nP \<Longrightarrow> FO p = FlexOut_new (n3 cf) p (ae_out E p)"
    by (rule all_parties_Inr [where f = "\<lambda>p. map_sum Flex id (public_out cf p (ae_out E p))" and g = "\<lambda>p. FlexOut_new (n3 cf) p (ae_out E p)"])
      (simp add: public_out_ok, rule that)
  have su: "flex_setup nP cf (replicate (n1 cf + n2 cf) (-2)) (replicate (n3 cf) 0) (\<lambda>p. cm_Delta (W p)) FI FO"
    by (auto simp: flex_setup_def list_all_iff flex_input_ok_def FI_at FO_at FlexIn_new_def FlexOut_new_def simp del: upt_Suc)
  have input: "flex_input_bit nP (replicate (n1 cf + n2 cf) (-2)) FI w = parity (\<lambda>q. string_bits (x q @ y q) ! w) (parties nP)"
    if "w < n1 cf + n2 cf" for w
  proof -
    have "parity (\<lambda>q. fi_plaintext_assignment (FI q) ! w) (parties nP) = parity (\<lambda>q. string_bits (x q @ y q) ! w) (parties nP)"
      by (intro parity_cong refl) (auto simp: FI_at)
    with that show ?thesis by (simp add: flex_input_bit_def del: upt_Suc)
  qed
  obtain r where r: "all_parties nP (online_bit E nP cf (run_function_dependent nP cf W) FI FO) = Inr r"
    "\<And>p. 1 \<le> p \<Longrightarrow> p \<le> nP \<Longrightarrow> r p = eval_circuit cf (\<lambda>w. parity (\<lambda>q. string_bits (x q @ y q) ! w) (parties nP)) (num_wire cf - n3 cf)"
    by (rule online_bits_ok [OF cf(1) W(2) cf(3) _ su input, where E = E]) (use D DW in auto)
  then show thesis by (intro that [of r]) (simp_all add: run_sharding_def W(1) FI FO)
qed

subsection \<open>AES\<close>

definition aes_assignment :: "int list" where
  "aes_assignment = replicate 128 (-2) @ replicate 128 0"

definition aes_plain :: "string \<Rightarrow> bool list" where
  "aes_plain key_share = string_bits key_share @ map odd [128..<256]"

lemma nth_prefix_odd:
  "length xs = n \<Longrightarrow> i < m \<Longrightarrow> (xs @ map odd [n..<m]) ! i = (if i < n then xs ! i else odd i)"
  by (auto simp: nth_append)

lemma aes_plain_nth:
  assumes "length key_share = 128" and "i < 256"
  shows "aes_plain key_share ! i = (if i < 128 then string_bits key_share ! i else odd i)"
  unfolding aes_plain_def by (rule nth_prefix_odd) (simp_all add: assms)

lemma aes_in_ok:
  assumes key: "length key_share = 128"
  shows "aes_in party key_share heap = Inr ((FlexIn_new 256 party heap)
     \<lparr>fi_party_assignment := aes_assignment, fi_plaintext_assignment := aes_plain key_share\<rparr>)"
proof -
  define g where "g a v = (FlexIn_new 256 party heap)\<lparr>fi_party_assignment := a, fi_plaintext_assignment := v\<rparr>" for a v
  let ?a = "\<lambda>i. replicate i (-2 :: int) @ replicate (256 - i) 0"
  let ?u = "\<lambda>i. string_bits (take i key_share) @ replicate (256 - i) False"
  let ?w = "\<lambda>i. (string_bits key_share @ map odd [128..<i]) @ replicate (256 - i) False"
  have A: "assign_parties (\<lambda>i st. case map_sum Flex id (fi_assign_party i (-2) st) of Inl e \<Rightarrow> Inl e | Inr st \<Rightarrow> assign_digit key_share i i st)
      [0..<128] (g (?a 0) (?u 0)) = Inr (g (?a 128) (?u 128))"
  proof (rule assign_parties_seq)
    fix i :: nat assume i: "i < 128"
    have "(?a i)[i := -2] = ?a (Suc i)"
      using i by (subst update_prefix) (auto simp: tl_replicate replicate_app_Cons_same)
    then have "fi_assign_party i (-2) (g (?a i) (?u i)) = Inr (g (?a (Suc i)) (?u i))"
      using i by (simp add: fi_assign_party_def vec_set_def g_def)
    moreover have "(?u i)[i := key_share ! i = CHR ''1''] = ?u (Suc i)"
      using i key by (subst update_prefix) (auto simp: tl_replicate take_Suc_conv_app_nth string_bits_def)
    then have "assign_digit key_share i i (g (?a (Suc i)) (?u i)) = Inr (g (?a (Suc i)) (?u (Suc i)))"
      using i key by (subst assign_digit_at) (simp_all add: g_def nth_append nth_Cons split: nat.splits)
    ultimately show "(case map_sum Flex id (fi_assign_party i (-2) (g (?a i) (?u i))) of Inl e \<Rightarrow> Inl e | Inr st \<Rightarrow> assign_digit key_share i i st)
       = Inr (g (?a (Suc i)) (?u (Suc i)))" by simp
  qed
  have B: "assign_parties (\<lambda>i st. case map_sum Flex id (fi_assign_party i 0 st) of Inl e \<Rightarrow> Inl e
        | Inr st \<Rightarrow> map_sum Flex id (assign_plaintext_bit i (i mod 2 \<noteq> 0) st)) [128..<256] (g aes_assignment (?w 128)) = Inr (g aes_assignment (?w 256))"
  proof (rule assign_parties_seq_from)
    fix i :: nat assume i: "128 \<le> i" "i < 256"
    have asg: "length aes_assignment = 256" "aes_assignment ! i = 0" using i by (auto simp: aes_assignment_def nth_append)
    then have "aes_assignment[i := 0] = aes_assignment" by (metis list_update_id)
    then have "fi_assign_party i 0 (g aes_assignment (?w i)) = Inr (g aes_assignment (?w i))"
      using i asg by (simp add: fi_assign_party_def vec_set_def g_def)
    moreover have "(?w i)[i := odd i] = ?w (Suc i)"
      using i key by (subst update_prefix) (auto simp: tl_replicate)
    then have "assign_plaintext_bit i (i mod 2 \<noteq> 0) (g aes_assignment (?w i)) = Inr (g aes_assignment (?w (Suc i)))"
      using i key asg by (simp add: assign_plaintext_bit_def vec_set_def g_def odd_iff_mod_2_eq_one)
    ultimately show "(case map_sum Flex id (fi_assign_party i 0 (g aes_assignment (?w i))) of Inl e \<Rightarrow> Inl e
        | Inr st \<Rightarrow> map_sum Flex id (assign_plaintext_bit i (i mod 2 \<noteq> 0) st)) = Inr (g aes_assignment (?w (Suc i)))" by simp
  qed simp
  have G: "FlexIn_new 256 party heap = g (?a 0) (?u 0)" by (simp add: g_def FlexIn_new_def string_bits_def)
  have U: "?a 128 = aes_assignment" "?u 128 = ?w 128" "?w 256 = aes_plain key_share"
    using key by (simp_all add: aes_assignment_def aes_plain_def)
  have "aes_in party key_share heap = Inr (g aes_assignment (aes_plain key_share))"
    unfolding aes_in_def G A sum.case U B by (rule refl)
  then show ?thesis by (simp add: g_def)
qed

lemma aes_out_ok: "aes_out party heap = Inr ((FlexOut_new 128 party heap)\<lparr>fo_party_assignment := replicate 128 (-1)\<rparr>)"
  unfolding aes_out_def fo_assign_party_def
  by (rule assign_parties_fill [where get = fo_party_assignment and upd = "\<lambda>v st. st\<lparr>fo_party_assignment := v\<rparr>"])
    (simp_all add: FlexOut_new_def)

lemma run_aes_block_ok:
  fixes delta :: "nat \<Rightarrow> bool arr"
  assumes laws: "group_laws (ae_G E)" and nP: "2 \<le> nP" and cf: "wf_circuit cf" "lengths_ok cf 40" "n1 cf + n2 cf = 256" "n3 cf = 128"
    and D: "\<And>p. 1 \<le> p \<Longrightarrow> p \<le> nP \<Longrightarrow> bool_to_block (delta p) \<noteq> 0"
    and key: "\<And>p. 1 \<le> p \<Longrightarrow> p \<le> nP \<Longrightarrow> length (key_share p) = 128"
  defines "v \<equiv> \<lambda>w. if w < 128 then parity (\<lambda>q. string_bits (key_share q) ! w) (parties nP) else odd w"
  obtains out where "run_aes_block E nP cf delta key_share = Some (Inr out)"
    and "\<And>i. i < 128 \<Longrightarrow> auth_bit nP (\<lambda>p. bool_to_block (delta p)) (\<lambda>p. bit_share (fo_authenticated_share_results (out p) ! i))
           (\<lambda>p j. ab_mac (fo_authenticated_share_results (out p) ! i) j) (\<lambda>p j. ab_key (fo_authenticated_share_results (out p) ! i) j)"
    and "\<And>i. i < 128 \<Longrightarrow> parity (\<lambda>p. bit_share (fo_authenticated_share_results (out p) ! i)) (parties nP)
           = eval_circuit cf v (num_wire cf - 128 + i)"
proof -
  obtain W where W: "run_phases E nP cf delta = Some (Inr (run_function_dependent nP cf W))" "preprocessed nP cf W"
    and DW: "\<And>p. cm_Delta (W p) = bool_to_block (delta p)"
    by (rule run_phases_ok [OF laws nP cf(2), where delta = delta]) (rule that)
  let ?FI = "\<lambda>p. (FlexIn_new 256 p (ae_in E p))\<lparr>fi_party_assignment := aes_assignment, fi_plaintext_assignment := aes_plain (key_share p)\<rparr>"
  let ?FO = "\<lambda>p. (FlexOut_new 128 p (ae_out E p))\<lparr>fo_party_assignment := replicate 128 (-1)\<rparr>"
  obtain FI where FI: "all_parties nP (\<lambda>p. aes_in p (key_share p) (ae_in E p)) = Inr FI"
    and FI_at: "\<And>p. 1 \<le> p \<Longrightarrow> p \<le> nP \<Longrightarrow> FI p = ?FI p"
    by (rule all_parties_Inr [where f = "\<lambda>p. aes_in p (key_share p) (ae_in E p)" and g = ?FI])
      (rule aes_in_ok, (rule key; assumption)+, rule that)
  obtain FO where FO: "all_parties nP (\<lambda>p. map_sum Flex id (aes_out p (ae_out E p))) = Inr FO"
    and FO_at: "\<And>p. 1 \<le> p \<Longrightarrow> p \<le> nP \<Longrightarrow> FO p = ?FO p"
    by (rule all_parties_Inr [where f = "\<lambda>p. map_sum Flex id (aes_out p (ae_out E p))" and g = ?FO]) (simp add: aes_out_ok, rule that)
  have public: "aes_plain (key_share p) ! i = odd i" if "1 \<le> p" "p \<le> nP" "128 \<le> i" "i < 256" for p i
    using that key by (simp add: aes_plain_nth)
  have asg: "aes_assignment ! i = (if i < 128 then -2 else 0)" if "i < 256" for i
    using that by (auto simp: aes_assignment_def nth_append)
  have su: "flex_setup nP cf aes_assignment (replicate (n3 cf) (-1)) (\<lambda>p. cm_Delta (W p)) FI FO"
    using nP public
    by (auto simp: flex_setup_def list_all_iff flex_input_ok_def FI_at FO_at FlexIn_new_def FlexOut_new_def cf asg simp del: upt_Suc)
  have input: "flex_input_bit nP aes_assignment FI w = v w" if "w < 256" for w
  proof -
    have "parity (\<lambda>q. fi_plaintext_assignment (FI q) ! w) (parties nP) = parity (\<lambda>q. string_bits (key_share q) ! w) (parties nP)" if "w < 128"
      using that key by (intro parity_cong refl) (auto simp: FI_at aes_plain_nth)
    with that nP public [of 1 w] show ?thesis by (simp add: flex_input_bit_def v_def asg FI_at del: upt_Suc)
  qed
  have "\<exists>Q. (\<forall>p. 1 \<le> p \<and> p \<le> nP \<longrightarrow> run_online_flex nP cf (run_function_dependent nP cf W) (ae_ga E) (ae_masked E) FI FO p = Inr (Q p, []))
    \<and> (\<forall>i<128. auth_bit nP (\<lambda>p. cm_Delta (W p)) (\<lambda>p. bit_share (fo_authenticated_share_results (Q p) ! i))
           (\<lambda>p j. ab_mac (fo_authenticated_share_results (Q p) ! i) j) (\<lambda>p j. ab_key (fo_authenticated_share_results (Q p) ! i) j)
         \<and> parity (\<lambda>p. bit_share (fo_authenticated_share_results (Q p) ! i)) (parties nP)
           = eval_circuit cf (flex_input_bit nP aes_assignment FI) (num_wire cf - n3 cf + i))"
    by (rule online_flex_ok [OF cf(1) W(2) _ su, where g = "ae_ga E" and garbage = "ae_masked E"])
      (use D DW cf in \<open>auto intro!: exI simp del: upt_Suc\<close>)
  then obtain Q where Q: "\<And>p. 1 \<le> p \<Longrightarrow> p \<le> nP \<Longrightarrow> run_online_flex nP cf (run_function_dependent nP cf W) (ae_ga E) (ae_masked E) FI FO p = Inr (Q p, [])"
    and out: "\<And>i. i < 128 \<Longrightarrow> auth_bit nP (\<lambda>p. cm_Delta (W p)) (\<lambda>p. bit_share (fo_authenticated_share_results (Q p) ! i))
           (\<lambda>p j. ab_mac (fo_authenticated_share_results (Q p) ! i) j) (\<lambda>p j. ab_key (fo_authenticated_share_results (Q p) ! i) j)
         \<and> parity (\<lambda>p. bit_share (fo_authenticated_share_results (Q p) ! i)) (parties nP)
           = eval_circuit cf (flex_input_bit nP aes_assignment FI) (num_wire cf - n3 cf + i)"
    by blast
  have "online_party E nP cf (run_function_dependent nP cf W) FI FO p = Inr (Q p)" if "1 \<le> p" "p \<le> nP" for p
    by (simp add: online_party_def Q [OF that])
  then obtain out' where run: "all_parties nP (online_party E nP cf (run_function_dependent nP cf W) FI FO) = Inr out'"
    and out': "\<And>p. 1 \<le> p \<Longrightarrow> p \<le> nP \<Longrightarrow> out' p = Q p"
    by (rule all_parties_Inr) (assumption+, rule that)
  show thesis
  proof (rule that [of out'])
    show "run_aes_block E nP cf delta key_share = Some (Inr out')"
      by (simp add: run_aes_block_def run_agmpc_def FI FO W(1) run)
    fix i :: nat assume i: "i < 128"
    show "auth_bit nP (\<lambda>p. bool_to_block (delta p)) (\<lambda>p. bit_share (fo_authenticated_share_results (out' p) ! i))
         (\<lambda>p j. ab_mac (fo_authenticated_share_results (out' p) ! i) j) (\<lambda>p j. ab_key (fo_authenticated_share_results (out' p) ! i) j)"
      using out [OF i] by (auto simp: auth_bit_def out' DW)
    have "parity (\<lambda>p. bit_share (fo_authenticated_share_results (out' p) ! i)) (parties nP)
        = parity (\<lambda>p. bit_share (fo_authenticated_share_results (Q p) ! i)) (parties nP)"
      by (intro parity_cong refl) (auto simp: out')
    also have "\<dots> = eval_circuit cf v (num_wire cf - n3 cf + i)"
      unfolding out [OF i, THEN conjunct2] using i cf input by (intro eval_circuit_cong output_defined) auto
    finally show "parity (\<lambda>p. bit_share (fo_authenticated_share_results (out' p) ! i)) (parties nP) = eval_circuit cf v (num_wire cf - 128 + i)"
      by (simp only: cf(4))
  qed
qed

lemma aes_blocks_ok:
  assumes "\<And>j. j \<in> set js \<Longrightarrow> \<exists>out. run_aes_block (E j) nP cf delta key_share = Some (Inr out)"
  shows "aes_blocks E nP cf delta key_share js s = Some (Inr s)"
  using assms by (induction js) (fastforce split: option.splits sum.splits)+

subsection \<open>files/xor128.txt\<close>

definition xor128 :: BristolFormat where
  "xor128 = \<lparr>num_gate = 128, num_wire = 384, n1 = 128, n2 = 128, n3 = 128,
     gates = concat (map (\<lambda>i. [i, 128 + i, 256 + i, XOR_GATE]) [0..<128])\<rparr>"

lemma xor128_fields [simp]:
  "num_gate xor128 = 128" "num_wire xor128 = 384" "n1 xor128 = 128" "n2 xor128 = 128" "n3 xor128 = 128"
  by (simp_all add: xor128_def)

lemma xor128_gates:
  assumes "i < 128"
  shows "gate_in1 xor128 i = i" "gate_in2 xor128 i = 128 + i" "gate_out xor128 i = 256 + i" "gate_type xor128 i = XOR_GATE"
proof -
  have "gates xor128 ! (4 * i + j) = [i, 128 + i, 256 + i, XOR_GATE] ! j" if "j < 4" for j
  proof -
    have "gates xor128 ! (4 * i + j) = [[0..<128] ! i, 128 + [0..<128] ! i, 256 + [0..<128] ! i, XOR_GATE] ! j"
      unfolding xor128_def BristolFormat.simps by (rule nth_concat_map_const) (use that assms in simp_all)
    then show ?thesis using assms by simp
  qed
  from this [of 0] this [of 1] this [of 2] this [of 3]
  show "gate_in1 xor128 i = i" "gate_in2 xor128 i = 128 + i" "gate_out xor128 i = 256 + i" "gate_type xor128 i = XOR_GATE"
    by (simp_all add: gate_in1_def gate_in2_def gate_out_def gate_type_def)
qed

lemma xor128_wf: "wf_circuit xor128"
proof -
  have dfd: "defined_by xor128 i w \<longleftrightarrow> w < 256 + i" if "i \<le> 128" for i w
  proof -
    have "w \<in> gate_out xor128 ` {0..<i} \<longleftrightarrow> w \<in> (\<lambda>j. 256 + j) ` {0..<i}"
      using that by (intro arg_cong2 [where f = "(\<in>)"] image_cong refl xor128_gates) auto
    then show ?thesis by (auto simp: defined_by_def image_iff)
  qed
  have "length (gates xor128) = 512"
    unfolding xor128_def BristolFormat.simps by (subst length_concat_map_const [where n = 4]) simp_all
  then show ?thesis
    by (auto simp: wf_circuit_def wf_gate_def list_all_iff xor128_gates dfd)
qed

lemma xor128_lengths: "lengths_ok xor128 40"
proof -
  have "count_ands xor128 n = 0" if "n \<le> 128" for n
    using that
  proof (induction n)
    case (Suc n)
    then have "gate_type xor128 n = XOR_GATE" by (simp add: xor128_gates)
    then show ?case using Suc gate_types(1) by (simp only: count_ands_append) simp
  qed (simp add: count_ands_def)
  then have "count_ands xor128 (num_gate xor128) = 0" by simp
  then show ?thesis
    unfolding lengths_ok_def Let_def by (simp add: check1_size_def get_bucket_size_def)
qed

lemma xor128_eval:
  assumes "i < 128"
  shows "eval_circuit xor128 w (256 + i) = bxor (w i) (w (128 + i))"
proof -
  have "(\<forall>i<n. fold (eval_gate xor128) [0..<n] w (256 + i) = bxor (w i) (w (128 + i)))
      \<and> (\<forall>i<256. fold (eval_gate xor128) [0..<n] w i = w i)" if "n \<le> 128" for n
    using that
  proof (induction n)
    case (Suc n)
    then show ?case by (auto simp: eval_gate_typed xor128_gates less_Suc_eq)
  qed simp
  from this [of 128] show ?thesis using assms by (simp add: eval_circuit_def)
qed

end
