(* ===== verification/Ggm.thy ===== *)
theory Ggm
  imports Cot
begin

text \<open>
  The puncturable pseudo-random function of Ferret: \<^verbatim>\<open>emp-ot/ferret/twokeyprp.h\<close>, and the trees of
  \<^verbatim>\<open>spcot_sender.h\<close> and \<^verbatim>\<open>spcot_recver.h\<close>.  A tree is stored level by level in the same array and expanded in
  place, from the right to the left.  The sender's array ends up as the leaves of the reference tree \<open>ggm\<close>; the receiver,
  who gets one of two sums per level, rebuilds all leaves but one.
\<close>

subsection \<open>twokeyprp.h\<close>

definition TwoKeyPRP_new :: "block \<Rightarrow> block \<Rightarrow> AES_KEY list" where
  "TwoKeyPRP_new seed0 seed1 = [AES_set_encrypt_key seed0, AES_set_encrypt_key seed1]"

text \<open>\<open>c\<close> and \<open>p\<close> are the positions of \<^verbatim>\<open>children\<close> and \<^verbatim>\<open>parent\<close> in the memory \<open>m\<close>, where they may overlap.\<close>

definition node_expand_1to2 :: "AES_KEY list \<Rightarrow> nat \<Rightarrow> block \<Rightarrow> block arr \<Rightarrow> block arr" where
  "node_expand_1to2 key c parent m =
     (let m = m(c := parent); m = m(c + 1 := parent);
          tmp = ParaEnc 1 [parent, parent] key;
          m = m(c := m c XOR tmp ! 0)
      in m(c + 1 := m (c + 1) XOR tmp ! 1))"

definition node_expand_2to4 :: "AES_KEY list \<Rightarrow> nat \<Rightarrow> nat \<Rightarrow> block arr \<Rightarrow> block arr" where
  "node_expand_2to4 key c p m =
     (let t3 = m (p + 1); m = m(c + 3 := t3);
          t1 = m (p + 1); m = m(c + 2 := t1);
          t2 = m p; m = m(c + 1 := t2);
          t0 = m p; m = m(c := t0);
          tmp = ParaEnc 2 [t0, t1, t2, t3] key;
          m = m(c + 3 := m (c + 3) XOR tmp ! 3);
          m = m(c + 2 := m (c + 2) XOR tmp ! 1);
          m = m(c + 1 := m (c + 1) XOR tmp ! 2)
      in m(c := m c XOR tmp ! 0))"

definition node_expand_4to8 :: "AES_KEY list \<Rightarrow> nat \<Rightarrow> nat \<Rightarrow> block arr \<Rightarrow> block arr" where
  "node_expand_4to8 key c p m =
     (let t7 = m (p + 3); m = m(c + 7 := t7);
          t3 = m (p + 3); m = m(c + 6 := t3);
          t6 = m (p + 2); m = m(c + 5 := t6);
          t2 = m (p + 2); m = m(c + 4 := t2);
          t5 = m (p + 1); m = m(c + 3 := t5);
          t1 = m (p + 1); m = m(c + 2 := t1);
          t4 = m p; m = m(c + 1 := t4);
          t0 = m p; m = m(c := t0);
          tmp = ParaEnc 4 [t0, t1, t2, t3, t4, t5, t6, t7] key;
          m = m(c + 7 := m (c + 7) XOR tmp ! 7);
          m = m(c + 6 := m (c + 6) XOR tmp ! 3);
          m = m(c + 5 := m (c + 5) XOR tmp ! 6);
          m = m(c + 4 := m (c + 4) XOR tmp ! 2);
          m = m(c + 3 := m (c + 3) XOR tmp ! 5);
          m = m(c + 2 := m (c + 2) XOR tmp ! 1);
          m = m(c + 1 := m (c + 1) XOR tmp ! 4)
      in m(c := m c XOR tmp ! 0))"

text \<open>Every child is its parent, encrypted under the key of its side, plus the parent.\<close>

definition node_child :: "AES_KEY list \<Rightarrow> bool \<Rightarrow> block \<Rightarrow> block" where
  "node_child key right x = x XOR aes_encrypt (key ! of_bool right) x"

definition aes_keys :: "AES_KEY list \<Rightarrow> bool" where
  "aes_keys key \<longleftrightarrow> rounds (key ! 0) = 10 \<and> rounds (key ! 1) = 10"

lemma aes_keys_new [simp]: "aes_keys (TwoKeyPRP_new a b)"
  by (simp add: aes_keys_def TwoKeyPRP_new_def)

lemma node_expand_1to2_eq:
  assumes "aes_keys key"
  shows "node_expand_1to2 key 0 x m = m(0 := node_child key False x, 1 := node_child key True x)"
  using assms by (simp add: node_expand_1to2_def aes_keys_def ParaEnc_nth node_child_def)

lemma node_expand_2to4_eq:
  assumes "aes_keys key"
  shows "node_expand_2to4 key 0 0 m k = (if k < 4 then node_child key (odd k) (m (k div 2)) else m k)"
proof (cases "k < 4")
  case True
  then consider "k = 0" | "k = 1" | "k = 2" | "k = 3" by linarith
  then show ?thesis
    using assms by cases (simp_all add: node_expand_2to4_def Let_def aes_keys_def ParaEnc_nth node_child_def)
next
  case False
  then show ?thesis by (simp add: node_expand_2to4_def Let_def)
qed

lemma node_expand_4to8_eq:
  assumes "aes_keys key" and "i = 0 \<or> 4 \<le> i"
  shows "node_expand_4to8 key (2 * i) i m k
    = (if 2 * i \<le> k \<and> k < 2 * i + 8 then node_child key (odd k) (m (k div 2)) else m k)"
proof -
  have "2 * i \<le> k \<and> k < 2 * i + 8 \<Longrightarrow> k = 2 * i \<or> k = 2 * i + 1 \<or> k = 2 * i + 2 \<or> k = 2 * i + 3 \<or> k = 2 * i + 4
     \<or> k = 2 * i + 5 \<or> k = 2 * i + 6 \<or> k = 2 * i + 7" by arith
  then show ?thesis
    using assms by (auto simp: node_expand_4to8_def Let_def aes_keys_def ParaEnc_nth node_child_def)
qed

subsection \<open>spcot\_sender.h\<close>

definition ggm_key :: "AES_KEY list" where
  "ggm_key = TwoKeyPRP_new zero_block (makeBlock 0 1)"

record SPCOT_Sender =
  ss_seed :: block
  ss_delta :: block
  ss_ggm_tree :: "block arr"
  ss_m0 :: "block arr"
  ss_m1 :: "block arr"
  ss_depth :: nat
  ss_leave_n :: nat
  ss_secret_sum_f2 :: block

definition SPCOT_Sender_new :: "nat \<Rightarrow> block \<Rightarrow> SPCOT_Sender \<Rightarrow> SPCOT_Sender" where
  "SPCOT_Sender_new depth_in seed heap = heap\<lparr>ss_depth := depth_in, ss_leave_n := 2 ^ (depth_in - 1), ss_seed := seed\<rparr>"

text \<open>The body of the loop over \<open>i = sz - 4, \<dots>, 4, 0\<close> of one level; \<open>q\<close> is \<open>i / 4\<close>.\<close>

definition ggm_expand_step :: "nat \<Rightarrow> block \<times> block \<times> block arr \<Rightarrow> block \<times> block \<times> block arr" where
  "ggm_expand_step q = (\<lambda>(s0, s1, t).
     let i = 4 * q; t = node_expand_4to8 ggm_key (i * 2) i t;
         s0 = s0 XOR t (i * 2); s0 = s0 XOR t (i * 2 + 2); s0 = s0 XOR t (i * 2 + 4); s0 = s0 XOR t (i * 2 + 6);
         s1 = s1 XOR t (i * 2 + 1); s1 = s1 XOR t (i * 2 + 3); s1 = s1 XOR t (i * 2 + 5); s1 = s1 XOR t (i * 2 + 7)
     in (s0, s1, t))"

definition ggm_level :: "nat \<Rightarrow> block arr \<times> block arr \<times> block arr \<Rightarrow> block arr \<times> block arr \<times> block arr" where
  "ggm_level h = (\<lambda>(ot_msg_0, ot_msg_1, t).
     let (s0, s1, t) = fold ggm_expand_step (rev [0..<2 ^ h div 4]) (zero_block, zero_block, t)
     in (ot_msg_0(h := s0), ot_msg_1(h := s1), t))"

definition ggm_tree_gen :: "nat \<Rightarrow> block \<Rightarrow> block arr \<times> block arr \<times> block arr \<Rightarrow> block arr \<times> block arr \<times> block arr" where
  "ggm_tree_gen depth seed = (\<lambda>(ot_msg_0, ot_msg_1, ggm_tree).
     let t = node_expand_1to2 ggm_key 0 seed ggm_tree;
         ot_msg_0 = ot_msg_0(0 := t 0); ot_msg_1 = ot_msg_1(0 := t 1);
         t = node_expand_2to4 ggm_key 0 0 t;
         ot_msg_0 = ot_msg_0(1 := t 0 XOR t 2); ot_msg_1 = ot_msg_1(1 := t 1 XOR t 3)
     in fold ggm_level [2..<depth - 1] (ot_msg_0, ot_msg_1, t))"

definition low_mask :: block where
  "low_mask = makeBlock 0xFFFFFFFFFFFFFFFF 0xFFFFFFFFFFFFFFFE"

definition mask_leaves :: "nat \<Rightarrow> block arr \<Rightarrow> block arr \<times> block" where
  "mask_leaves leave_n t =
     fold (\<lambda>i (t, s). let t = t(i := t i AND low_mask) in (t, s XOR t i)) [0..<leave_n] (t, zero_block)"

definition spcot_send_compute :: "block arr \<Rightarrow> block \<Rightarrow> SPCOT_Sender \<Rightarrow> SPCOT_Sender" where
  "spcot_send_compute ggm_tree_mem secret st =
     (let (m0, m1, t) = ggm_tree_gen (ss_depth st) (ss_seed st) (ss_m0 st, ss_m1 st, ggm_tree_mem);
          (t, s) = mask_leaves (ss_leave_n st) t
      in st\<lparr>ss_delta := secret, ss_m0 := m0, ss_m1 := m1, ss_ggm_tree := t, ss_secret_sum_f2 := s XOR secret\<rparr>)"

subsection \<open>spcot\_recver.h\<close>

record SPCOT_Recver =
  sr_ggm_tree :: "block arr"
  sr_m :: "block arr"
  sr_b :: "bool arr"
  sr_choice_pos :: nat
  sr_depth :: nat
  sr_leave_n :: nat
  sr_secret_sum_f2 :: block

definition SPCOT_Recver_new :: "nat \<Rightarrow> SPCOT_Recver \<Rightarrow> SPCOT_Recver" where
  "SPCOT_Recver_new depth_in heap = heap\<lparr>sr_depth := depth_in, sr_leave_n := 2 ^ (depth_in - 1)\<rparr>"

definition get_index :: "SPCOT_Recver \<Rightarrow> nat \<times> SPCOT_Recver" where
  "get_index st =
     (let c = fold (\<lambda>i c. let c = c * 2 in if \<not> sr_b st i then c + 1 else c) [0..<sr_depth st - 1] 0
      in (c, st\<lparr>sr_choice_pos := c\<rparr>))"

definition layer_recover :: "nat \<Rightarrow> nat \<Rightarrow> nat \<Rightarrow> nat \<Rightarrow> block \<Rightarrow> block arr \<Rightarrow> block arr" where
  "layer_recover dpt depth lr to_fill_idx s t =
     (let item_n = 2 ^ depth;
          nodes_sum = fold (\<lambda>q x. x XOR t (2 * q + lr)) [0..<item_n div 2] zero_block;
          t = t(to_fill_idx := nodes_sum XOR s)
      in if depth = dpt - 1 then t
         else if item_n = 2 then node_expand_2to4 ggm_key 0 0 t
         else fold (\<lambda>q t. node_expand_4to8 ggm_key (4 * q * 2) (4 * q) t) (rev [0..<item_n div 4]) t)"

definition reconstruct_step :: "nat \<Rightarrow> bool arr \<Rightarrow> block arr \<Rightarrow> nat \<Rightarrow> nat \<times> block arr \<Rightarrow> nat \<times> block arr" where
  "reconstruct_step dpt b m i = (\<lambda>(to_fill_idx, t).
     let to_fill_idx = to_fill_idx * 2;
         t = t(to_fill_idx + 1 := zero_block, to_fill_idx := zero_block)
     in if b (i - 1) = False then (to_fill_idx + 1, layer_recover dpt i 0 to_fill_idx (m (i - 1)) t)
        else (to_fill_idx, layer_recover dpt i 1 (to_fill_idx + 1) (m (i - 1)) t))"

definition ggm_tree_reconstruction :: "nat \<Rightarrow> bool arr \<Rightarrow> block arr \<Rightarrow> block arr \<Rightarrow> block arr" where
  "ggm_tree_reconstruction depth b m t = snd (fold (reconstruct_step depth b m) [1..<depth] (0, t))"

definition spcot_recv_compute :: "block arr \<Rightarrow> SPCOT_Recver \<Rightarrow> SPCOT_Recver" where
  "spcot_recv_compute ggm_tree_mem st =
     (let t = ggm_tree_reconstruction (sr_depth st) (sr_b st) (sr_m st) ggm_tree_mem;
          t = t(sr_choice_pos st := zero_block);
          (t, nodes_sum) = mask_leaves (sr_leave_n st) t
      in st\<lparr>sr_ggm_tree := t(sr_choice_pos st := nodes_sum XOR sr_secret_sum_f2 st)\<rparr>)"

subsection \<open>The reference tree\<close>

primrec ggm :: "block \<Rightarrow> nat \<Rightarrow> nat \<Rightarrow> block" where
  "ggm seed 0 i = seed"
| "ggm seed (Suc h) i = node_child ggm_key (odd i) (ggm seed h (i div 2))"

definition level_sum :: "block \<Rightarrow> nat \<Rightarrow> bool \<Rightarrow> block" where
  "level_sum seed h right = xsum (\<lambda>j. ggm seed (Suc h) (2 * j + of_bool right)) [0..<2 ^ h]"

lemma keys_ggm [simp]: "aes_keys ggm_key"
  by (simp add: ggm_key_def)

lemma upt_four: "[0..<4 * Suc n] = [0..<4 * n] @ [4 * n, 4 * n + 1, 4 * n + 2, 4 * n + 3]"
  by (simp add: numeral_eq_Suc)

lemma expand_four:
  "node_expand_4to8 ggm_key (8 * n) (4 * n) t j
     = (if 8 * n \<le> j \<and> j < 8 * n + 8 then node_child ggm_key (odd j) (t (j div 2)) else t j)"
  using node_expand_4to8_eq [of ggm_key "4 * n" t j] by (cases n) simp_all

lemma expand_all:
  "fold (\<lambda>q t. node_expand_4to8 ggm_key (4 * q * 2) (4 * q) t) (rev [0..<n]) t k
     = (if k < 8 * n then node_child ggm_key (odd k) (t (k div 2)) else t k)"
proof (induction n arbitrary: t)
  case (Suc n)
  then show ?case by (auto simp: expand_four)
qed simp

lemma expand_step_eq:
  "ggm_expand_step n (s0, s1, t)
     = (s0 XOR xsum (\<lambda>j. node_child ggm_key False (t j)) [4 * n, 4 * n + 1, 4 * n + 2, 4 * n + 3],
        s1 XOR xsum (\<lambda>j. node_child ggm_key True (t j)) [4 * n, 4 * n + 1, 4 * n + 2, 4 * n + 3],
        node_expand_4to8 ggm_key (4 * n * 2) (4 * n) t)"
proof -
  have "(8 * n + 3) div 2 = Suc (4 * n)" "(8 * n + 5) div 2 = Suc (Suc (4 * n))" "(8 * n + 7) div 2 = 4 * n + 3" by arith+
  then show ?thesis by (simp add: ggm_expand_step_def Let_def expand_four xor.assoc)
qed

lemma fold_expand_step:
  "fold ggm_expand_step (rev [0..<n]) (s0, s1, t)
     = (s0 XOR xsum (\<lambda>j. node_child ggm_key False (t j)) [0..<4 * n], s1 XOR xsum (\<lambda>j. node_child ggm_key True (t j)) [0..<4 * n],
        fold (\<lambda>q t. node_expand_4to8 ggm_key (4 * q * 2) (4 * q) t) (rev [0..<n]) t)"
proof (induction n arbitrary: s0 s1 t)
  case (Suc n)
  let ?t = "node_expand_4to8 ggm_key (4 * n * 2) (4 * n) t"
  have same: "xsum (\<lambda>j. node_child ggm_key b (?t j)) [0..<4 * n] = xsum (\<lambda>j. node_child ggm_key b (t j)) [0..<4 * n]" for b
    by (intro xsum_cong refl) (auto simp: expand_four)
  have "fold ggm_expand_step (rev [0..<Suc n]) (s0, s1, t) = fold ggm_expand_step (rev [0..<n]) (ggm_expand_step n (s0, s1, t))" by simp
  then show ?case
    unfolding upt_four xsum_append expand_step_eq Suc same by (simp add: xor.assoc xor.commute xor.left_commute)
qed simp

lemma four_dvd_power: "2 \<le> h \<Longrightarrow> 4 * (2 ^ h div 4) = (2 ^ h :: nat)"
proof -
  assume "2 \<le> h"
  then obtain d where "h = d + 2" using le_Suc_ex by (metis add.commute)
  then show ?thesis by (simp add: power_add)
qed

lemma ggm_level_eq:
  assumes "2 \<le> h" and "\<And>k. k < 2 ^ h \<Longrightarrow> t k = ggm seed h k"
  obtains t' where "ggm_level h (m0, m1, t) = (m0(h := level_sum seed h False), m1(h := level_sum seed h True), t')"
    and "\<And>k. k < 2 ^ Suc h \<Longrightarrow> t' k = ggm seed (Suc h) k"
proof -
  let ?t = "fold (\<lambda>q t. node_expand_4to8 ggm_key (4 * q * 2) (4 * q) t) (rev [0..<2 ^ h div 4]) t"
  have "xsum (\<lambda>j. node_child ggm_key b (t j)) [0..<2 ^ h] = level_sum seed h b" for b
    unfolding level_sum_def by (intro xsum_cong refl) (auto simp: assms(2))
  then have "ggm_level h (m0, m1, t) = (m0(h := level_sum seed h False), m1(h := level_sum seed h True), ?t)"
    by (simp add: ggm_level_def fold_expand_step four_dvd_power [OF assms(1)])
  moreover have "?t k = ggm seed (Suc h) k" if "k < 2 ^ Suc h" for k
  proof -
    have "8 * (2 ^ h div 4) = 2 * (2 ^ h :: nat)" using four_dvd_power [OF assms(1)] by simp
    then show ?thesis unfolding expand_all using that assms(2) [of "k div 2"] by simp
  qed
  ultimately show thesis by (rule that)
qed

text \<open>The sender's array holds the leaves, and the messages are the sums of the left and of the right nodes of every level.\<close>

lemma ggm_tree_gen_eq:
  assumes "3 \<le> depth"
  obtains m0' m1' t' where "ggm_tree_gen depth seed (m0, m1, t) = (m0', m1', t')"
    and "\<And>k. k < 2 ^ (depth - 1) \<Longrightarrow> t' k = ggm seed (depth - 1) k"
    and "\<And>h. h < depth - 1 \<Longrightarrow> m0' h = level_sum seed h False \<and> m1' h = level_sum seed h True"
proof -
  have levels: "\<exists>m0' m1' t'. fold ggm_level [2..<H] (m0, m1, t) = (m0', m1', t')
      \<and> (\<forall>k<2 ^ H. t' k = ggm seed H k) \<and> (\<forall>h<H. m0' h = level_sum seed h False \<and> m1' h = level_sum seed h True)"
    if "2 \<le> H" "\<And>k. k < 4 \<Longrightarrow> t k = ggm seed 2 k" "\<And>h. h < 2 \<Longrightarrow> m0 h = level_sum seed h False \<and> m1 h = level_sum seed h True" for H m0 m1 t
    using that
  proof (induction H rule: dec_induct)
    case base
    then show ?case by auto
  next
    case (step H)
    then obtain m0' m1' t' where IH: "fold ggm_level [2..<H] (m0, m1, t) = (m0', m1', t')" "\<forall>k<2 ^ H. t' k = ggm seed H k"
      "\<forall>h<H. m0' h = level_sum seed h False \<and> m1' h = level_sum seed h True" by blast
    obtain t'' where "ggm_level H (m0', m1', t') = (m0'(H := level_sum seed H False), m1'(H := level_sum seed H True), t'')"
      and "\<And>k. k < 2 ^ Suc H \<Longrightarrow> t'' k = ggm seed (Suc H) k"
      by (rule ggm_level_eq [where h = H and t = t' and seed = seed and ?m0.0 = m0' and ?m1.0 = m1']) (use IH step in auto)
    then show ?case using IH step(1) by (auto simp: less_Suc_eq)
  qed
  let ?t1 = "node_expand_1to2 ggm_key 0 seed t"
  let ?t2 = "node_expand_2to4 ggm_key 0 0 ?t1"
  have t1: "?t1 0 = ggm seed 1 0" "?t1 1 = ggm seed 1 1" by (simp_all add: node_expand_1to2_eq)
  have t2: "?t2 k = ggm seed 2 k" if "k < 4" for k
  proof -
    have "k div 2 = 0 \<or> k div 2 = 1" using that by auto
    then have "?t1 (k div 2) = ggm seed 1 (k div 2)" using t1 by metis
    moreover have "ggm seed 2 k = node_child ggm_key (odd k) (ggm seed 1 (k div 2))" by (metis Suc_1 ggm.simps(2))
    ultimately show ?thesis using that by (simp add: node_expand_2to4_eq)
  qed
  let ?m0 = "m0(0 := ?t1 0, 1 := ?t2 0 XOR ?t2 2)" and ?m1 = "m1(0 := ?t1 1, 1 := ?t2 1 XOR ?t2 3)"
  have "?m0 h = level_sum seed h False \<and> ?m1 h = level_sum seed h True" if "h < 2" for h
  proof -
    from that consider "h = 0" | "h = 1" by linarith
    then show ?thesis using t1 t2 by cases (simp_all add: level_sum_def numeral_2_eq_2 numeral_3_eq_3)
  qed
  then have "\<exists>m0' m1' t'. fold ggm_level [2..<depth - 1] (?m0, ?m1, ?t2) = (m0', m1', t')
      \<and> (\<forall>k<2 ^ (depth - 1). t' k = ggm seed (depth - 1) k)
      \<and> (\<forall>h<depth - 1. m0' h = level_sum seed h False \<and> m1' h = level_sum seed h True)"
    using assms by (intro levels t2) auto
  moreover have "ggm_tree_gen depth seed (m0, m1, t) = fold ggm_level [2..<depth - 1] (?m0, ?m1, ?t2)"
    by (simp add: ggm_tree_gen_def Let_def)
  ultimately show thesis using that by metis
qed

subsection \<open>The punctured tree\<close>

definition punctured :: "bool arr \<Rightarrow> nat \<Rightarrow> nat" where
  "punctured b n = fold (\<lambda>i c. let c = c * 2 in if \<not> b i then c + 1 else c) [0..<n] 0"

lemma punctured_Suc [simp]: "punctured b (Suc n) = 2 * punctured b n + of_bool (\<not> b n)" and punctured_0 [simp]: "punctured b 0 = 0"
  by (simp_all add: punctured_def Let_def)

lemma punctured_less: "punctured b n < 2 ^ n"
  by (induction n) (auto simp: of_bool_def)

lemma xsum_hole:
  assumes "a < n" and "\<And>j. j < n \<Longrightarrow> f j = (if j = a then 0 else g j)"
  shows "xsum f [0..<n] XOR xsum g [0..<n] = g a"
proof -
  have "xsum f (filter (\<lambda>i. i \<noteq> a) [0..<n]) = xsum g (filter (\<lambda>i. i \<noteq> a) [0..<n])"
    using assms(2) by (intro xsum_cong refl) auto
  then show ?thesis
    using xsum_remove [of "[0..<n]" a f] xsum_remove [of "[0..<n]" a g] assms by (simp add: xor.left_commute)
qed

text \<open>One level: the two nodes below the punctured one are unknown, and one of them is recovered from the sum.\<close>

lemma layer_recover_eq:
  fixes r :: bool and dpt :: nat
  assumes i: "1 \<le> i" and a: "a < 2 ^ (i - 1)"
    and t: "\<And>k. k < 2 ^ i \<Longrightarrow> t k = (if k div 2 = a then 0 else ggm seed i k)"
  defines "t' \<equiv> layer_recover dpt i (of_bool r) (2 * a + of_bool r) (level_sum seed (i - 1) r) t"
  shows "i = dpt - 1 \<Longrightarrow> k < 2 ^ i \<Longrightarrow> k \<noteq> 2 * a + of_bool (\<not> r) \<Longrightarrow> t' k = ggm seed i k"
    and "i \<noteq> dpt - 1 \<Longrightarrow> k < 2 ^ Suc i \<Longrightarrow> k div 2 \<noteq> 2 * a + of_bool (\<not> r) \<Longrightarrow> t' k = ggm seed (Suc i) k"
proof -
  obtain j where j: "i = Suc j" using i by (cases i) auto
  let ?sum = "fold (\<lambda>q x. x XOR t (2 * q + of_bool r)) [0..<2 ^ i div 2] zero_block"
  let ?u = "t(2 * a + of_bool r := ?sum XOR level_sum seed (i - 1) r)"
  have fill: "?sum XOR level_sum seed (i - 1) r = ggm seed i (2 * a + of_bool r)"
  proof -
    have "xsum (\<lambda>q. t (2 * q + of_bool r)) [0..<2 ^ j] XOR xsum (\<lambda>q. ggm seed i (2 * q + of_bool r)) [0..<2 ^ j] = ggm seed i (2 * a + of_bool r)"
      using a t by (intro xsum_hole) (auto simp: j of_bool_def)
    then show ?thesis by (simp add: fold_xor_xsum level_sum_def j)
  qed
  have u: "?u k = ggm seed i k" if "k < 2 ^ i" "k \<noteq> 2 * a + of_bool (\<not> r)" for k
  proof (cases "k = 2 * a + of_bool r")
    case False
    then have "k div 2 \<noteq> a" using that(2) by (cases r) auto
    then show ?thesis using False that t [of k] by simp
  qed (simp only: fun_upd_same fill)
  show "i = dpt - 1 \<Longrightarrow> k < 2 ^ i \<Longrightarrow> k \<noteq> 2 * a + of_bool (\<not> r) \<Longrightarrow> t' k = ggm seed i k"
    using u by (simp add: t'_def layer_recover_def Let_def)
  assume more: "i \<noteq> dpt - 1" and k: "k < 2 ^ Suc i" "k div 2 \<noteq> 2 * a + of_bool (\<not> r)"
  have "t' k = node_child ggm_key (odd k) (?u (k div 2))"
  proof (cases "i = 1")
    case True
    then show ?thesis using more k by (simp add: t'_def layer_recover_def Let_def node_expand_2to4_eq)
  next
    case False
    then have i2: "2 \<le> i" using i by simp
    then have "2 ^ i \<noteq> (2 :: nat)" using power_inject_exp [of "2 :: nat" i 1] by simp
    moreover have "8 * (2 ^ i div 4) = 2 * (2 ^ i :: nat)" using four_dvd_power [OF i2] by simp
    ultimately show ?thesis using more k unfolding t'_def layer_recover_def Let_def by (simp only: expand_all if_False) simp
  qed
  then show "t' k = ggm seed (Suc i) k" using u [of "k div 2"] k by simp
qed

text \<open>Before level \<open>i\<close> all nodes are known but the two below the node punctured so far.\<close>

lemma reconstruct_step_eq:
  assumes i: "1 \<le> i" and m: "m (i - 1) = level_sum seed (i - 1) (b (i - 1))"
    and t: "\<And>k. k < 2 ^ i \<Longrightarrow> k div 2 \<noteq> punctured b (i - 1) \<Longrightarrow> t k = ggm seed i k"
  obtains t' where "reconstruct_step dpt b m i (punctured b (i - 1), t) = (punctured b i, t')"
    and "\<And>k. i = dpt - 1 \<Longrightarrow> k < 2 ^ i \<Longrightarrow> k \<noteq> punctured b i \<Longrightarrow> t' k = ggm seed i k"
    and "\<And>k. i \<noteq> dpt - 1 \<Longrightarrow> k < 2 ^ Suc i \<Longrightarrow> k div 2 \<noteq> punctured b i \<Longrightarrow> t' k = ggm seed (Suc i) k"
proof -
  obtain j where j: "i = Suc j" using i by (cases i) auto
  let ?a = "punctured b j" and ?r = "b j"
  let ?t = "t(?a * 2 + 1 := zero_block, ?a * 2 := zero_block)"
  let ?t' = "layer_recover dpt i (of_bool ?r) (2 * ?a + of_bool ?r) (level_sum seed j ?r) ?t"
  have "?t k = (if k div 2 = ?a then 0 else ggm seed i k)" if "k < 2 ^ i" for k
  proof (cases "k div 2 = ?a")
    case True
    then have "k = ?a * 2 + 1 \<or> k = ?a * 2" by presburger
    then show ?thesis using True by auto
  next
    case False
    then have "k \<noteq> ?a * 2 + 1 \<and> k \<noteq> ?a * 2" by auto
    then show ?thesis using False t that j by simp
  qed
  note L = layer_recover_eq [where i = i and a = ?a and t = ?t and seed = seed and dpt = dpt and r = ?r, OF i _ this]
  have "i - 1 = j" "punctured b i = 2 * ?a + of_bool (\<not> ?r)" using j by simp_all
  note L' = L [unfolded this(1), folded this(2), OF punctured_less]
  have rec: "i = dpt - 1 \<Longrightarrow> k < 2 ^ i \<Longrightarrow> k \<noteq> punctured b i \<Longrightarrow> ?t' k = ggm seed i k"
    "i \<noteq> dpt - 1 \<Longrightarrow> k < 2 ^ Suc i \<Longrightarrow> k div 2 \<noteq> punctured b i \<Longrightarrow> ?t' k = ggm seed (Suc i) k" for k
    using L' by blast+
  have "reconstruct_step dpt b m i (punctured b (i - 1), t) = (punctured b i, ?t')"
    using m by (cases ?r) (simp_all add: reconstruct_step_def Let_def j mult.commute)
  then show thesis using rec by (rule that)
qed

lemma ggm_tree_reconstruction_eq:
  assumes "2 \<le> depth" and m: "\<And>h. h < depth - 1 \<Longrightarrow> m h = level_sum seed h (b h)"
    and "k < 2 ^ (depth - 1)" and "k \<noteq> punctured b (depth - 1)"
  shows "ggm_tree_reconstruction depth b m t k = ggm seed (depth - 1) k"
proof -
  have "\<exists>t'. fold (reconstruct_step depth b m) [1..<i] (0, t) = (punctured b (i - 1), t')
      \<and> (\<forall>k. k < 2 ^ i \<and> k div 2 \<noteq> punctured b (i - 1) \<longrightarrow> t' k = ggm seed i k)" if "1 \<le> i" "i \<le> depth - 1" for i
    using that
  proof (induction i rule: dec_induct)
    case (step i)
    then obtain t' where IH: "fold (reconstruct_step depth b m) [1..<i] (0, t) = (punctured b (i - 1), t')"
      "\<forall>k. k < 2 ^ i \<and> k div 2 \<noteq> punctured b (i - 1) \<longrightarrow> t' k = ggm seed i k" by auto
    obtain t'' where "reconstruct_step depth b m i (punctured b (i - 1), t') = (punctured b i, t'')"
      "\<And>k. i \<noteq> depth - 1 \<Longrightarrow> k < 2 ^ Suc i \<Longrightarrow> k div 2 \<noteq> punctured b i \<Longrightarrow> t'' k = ggm seed (Suc i) k"
      by (rule reconstruct_step_eq [where i = i and m = m and b = b and seed = seed and t = t' and dpt = depth]) (use IH step m in auto)
    then show ?case using IH step by simp
  qed auto
  from this [of "depth - 1", OF _ order_refl] assms(1) obtain t' where
    "fold (reconstruct_step depth b m) [1..<depth - 1] (0, t) = (punctured b (depth - 1 - 1), t')"
    "\<forall>k. k < 2 ^ (depth - 1) \<and> k div 2 \<noteq> punctured b (depth - 1 - 1) \<longrightarrow> t' k = ggm seed (depth - 1) k" by fastforce
  moreover obtain t'' where "reconstruct_step depth b m (depth - 1) (punctured b (depth - 1 - 1), t') = (punctured b (depth - 1), t'')"
    "\<And>k. k < 2 ^ (depth - 1) \<Longrightarrow> k \<noteq> punctured b (depth - 1) \<Longrightarrow> t'' k = ggm seed (depth - 1) k"
    by (rule reconstruct_step_eq [where i = "depth - 1" and m = m and b = b and seed = seed and t = t' and dpt = depth])
      (use calculation(2) assms(1) m in auto)
  moreover have "[1..<depth] = [1..<depth - 1] @ [depth - 1]"
    using assms(1) upt_Suc_append [of 1 "depth - 1"] by simp
  ultimately show ?thesis using assms(3,4) by (simp add: ggm_tree_reconstruction_def)
qed

subsection \<open>The single-point correlation\<close>

lemma mask_leaves_eq:
  "mask_leaves n t = (\<lambda>k. if k < n then t k AND low_mask else t k, xsum (\<lambda>k. t k AND low_mask) [0..<n])"
  unfolding mask_leaves_def
  by (induction n) (auto simp: Let_def less_Suc_eq xor.commute intro!: ext)

lemma get_index_eq: "get_index st = (punctured (sr_b st) (sr_depth st - 1), st\<lparr>sr_choice_pos := punctured (sr_b st) (sr_depth st - 1)\<rparr>)"
  by (simp add: get_index_def punctured_def Let_def)

lemma spcot_send_compute_eq:
  assumes "3 \<le> ss_depth st" and "ss_leave_n st = 2 ^ (ss_depth st - 1)"
  defines "leaf \<equiv> \<lambda>k. ggm (ss_seed st) (ss_depth st - 1) k AND low_mask"
  shows "k < ss_leave_n st \<Longrightarrow> ss_ggm_tree (spcot_send_compute mem secret st) k = leaf k"
    and "ss_secret_sum_f2 (spcot_send_compute mem secret st) = xsum leaf [0..<ss_leave_n st] XOR secret"
    and "h < ss_depth st - 1 \<Longrightarrow> ss_m0 (spcot_send_compute mem secret st) h = level_sum (ss_seed st) h False"
    and "h < ss_depth st - 1 \<Longrightarrow> ss_m1 (spcot_send_compute mem secret st) h = level_sum (ss_seed st) h True"
proof -
  obtain m0 m1 t where gen: "ggm_tree_gen (ss_depth st) (ss_seed st) (ss_m0 st, ss_m1 st, mem) = (m0, m1, t)"
    "\<And>k. k < 2 ^ (ss_depth st - 1) \<Longrightarrow> t k = ggm (ss_seed st) (ss_depth st - 1) k"
    "\<And>h. h < ss_depth st - 1 \<Longrightarrow> m0 h = level_sum (ss_seed st) h False \<and> m1 h = level_sum (ss_seed st) h True"
    by (rule ggm_tree_gen_eq [OF assms(1)]) blast
  have "xsum (\<lambda>k. t k AND low_mask) [0..<ss_leave_n st] = xsum leaf [0..<ss_leave_n st]"
    using gen(2) assms(2) by (intro xsum_cong refl) (simp add: leaf_def)
  then show "k < ss_leave_n st \<Longrightarrow> ss_ggm_tree (spcot_send_compute mem secret st) k = leaf k"
    and "ss_secret_sum_f2 (spcot_send_compute mem secret st) = xsum leaf [0..<ss_leave_n st] XOR secret"
    and "h < ss_depth st - 1 \<Longrightarrow> ss_m0 (spcot_send_compute mem secret st) h = level_sum (ss_seed st) h False"
    and "h < ss_depth st - 1 \<Longrightarrow> ss_m1 (spcot_send_compute mem secret st) h = level_sum (ss_seed st) h True"
    using gen assms(2) by (simp_all add: spcot_send_compute_def mask_leaves_eq leaf_def)
qed

text \<open>The receiver ends with the sender's leaves, except at its own position, where the secret is added.\<close>

lemma spcot_recv_compute_eq:
  assumes "3 \<le> sr_depth R" and "sr_leave_n R = 2 ^ (sr_depth R - 1)" and "sr_choice_pos R = punctured (sr_b R) (sr_depth R - 1)"
    and m: "\<And>h. h < sr_depth R - 1 \<Longrightarrow> sr_m R h = level_sum seed h (sr_b R h)"
  defines "leaf \<equiv> \<lambda>k. ggm seed (sr_depth R - 1) k AND low_mask"
  assumes s: "sr_secret_sum_f2 R = xsum leaf [0..<sr_leave_n R] XOR secret" and k: "k < sr_leave_n R"
  shows "sr_ggm_tree (spcot_recv_compute mem R) k = leaf k XOR (if k = sr_choice_pos R then secret else 0)"
proof -
  let ?c = "sr_choice_pos R" and ?n = "sr_leave_n R"
  let ?t = "(ggm_tree_reconstruction (sr_depth R) (sr_b R) (sr_m R) mem)(?c := zero_block)"
  have t: "?t k AND low_mask = (if k = ?c then 0 else leaf k)" if "k < ?n" for k
    using that assms(1-3) m ggm_tree_reconstruction_eq [where m = "sr_m R" and b = "sr_b R" and depth = "sr_depth R" and seed = seed and k = k and t = mem]
    by (auto simp: leaf_def)
  have "xsum (\<lambda>k. ?t k AND low_mask) [0..<?n] XOR xsum leaf [0..<?n] = leaf ?c"
    using assms(2,3) punctured_less t by (intro xsum_hole) auto
  then have "xsum (\<lambda>k. ?t k AND low_mask) [0..<?n] XOR (xsum leaf [0..<?n] XOR secret) = leaf ?c XOR secret"
    by (simp add: xor.assoc [symmetric])
  then show ?thesis using t [OF k] k s by (auto simp: spcot_recv_compute_def mask_leaves_eq Let_def)
qed

end
