(* ===== verification/Gfmul.thy ===== *)
theory Gfmul
  imports Gf2k
begin

text \<open>
  \<^verbatim>\<open>emp-tool/utils/f2k.h\<close>, multiplication with reduction and what is built on it.  The sequence of shifts of \<^verbatim>\<open>gfmul\<close>
  is proved equal to the block multiplication of the GCM standard, a shift-and-add loop over a field of \<open>2 ^ 128\<close>
  elements, and hence commutative, associative and bilinear.
\<close>

definition mm_srli_epi32 :: "block \<Rightarrow> nat \<Rightarrow> block" where
  "mm_srli_epi32 a n =
     mm_set_epi32 (drop_bit n (ucast (lane32 a 3))) (drop_bit n (ucast (lane32 a 2)))
       (drop_bit n (ucast (lane32 a 1))) (drop_bit n (ucast (lane32 a 0)))"

text \<open>\<^verbatim>\<open>gfmul\<close> after the call of \<^verbatim>\<open>mul128\<close>.\<close>

definition gf_reduce :: "block \<Rightarrow> block \<Rightarrow> block" where
  "gf_reduce tmp3 tmp6 =
     (let tmp7 = mm_srli_epi32 tmp3 31;
          tmp8 = mm_srli_epi32 tmp6 31;
          tmp3 = mm_slli_epi32 tmp3 1;
          tmp6 = mm_slli_epi32 tmp6 1;
          tmp9 = mm_srli_si128 tmp7 12;
          tmp8 = mm_slli_si128 tmp8 4;
          tmp7 = mm_slli_si128 tmp7 4;
          tmp3 = tmp3 OR tmp7;
          tmp6 = tmp6 OR tmp8;
          tmp6 = tmp6 OR tmp9;
          tmp7 = mm_slli_epi32 tmp3 31;
          tmp8 = mm_slli_epi32 tmp3 30;
          tmp9 = mm_slli_epi32 tmp3 25;
          tmp7 = tmp7 XOR tmp8;
          tmp7 = tmp7 XOR tmp9;
          tmp8 = mm_srli_si128 tmp7 4;
          tmp7 = mm_slli_si128 tmp7 12;
          tmp3 = tmp3 XOR tmp7;
          tmp2 = mm_srli_epi32 tmp3 1;
          tmp4 = mm_srli_epi32 tmp3 2;
          tmp5 = mm_srli_epi32 tmp3 7;
          tmp2 = tmp2 XOR tmp4;
          tmp2 = tmp2 XOR tmp5;
          tmp2 = tmp2 XOR tmp8;
          tmp3 = tmp3 XOR tmp2
      in tmp6 XOR tmp3)"

definition gfmul :: "block \<Rightarrow> block \<Rightarrow> block" where
  "gfmul a b = (let (tmp3, tmp6) = mul128 a b in gf_reduce tmp3 tmp6)"

definition vector_inn_prdt_sum_red :: "block arr \<Rightarrow> block arr \<Rightarrow> nat \<Rightarrow> block" where
  "vector_inn_prdt_sum_red a b sz = fold (\<lambda>i r. r XOR gfmul (a i) (b i)) [0..<sz] zero_block"

definition uni_hash_batch :: "block \<Rightarrow> nat \<Rightarrow> block arr \<Rightarrow> block arr" where
  "uni_hash_batch multiplier i c =
     (let c = c(i := gfmul (c (i - 4)) multiplier); c = c(i + 1 := gfmul (c (i - 3)) multiplier);
          c = c(i + 2 := gfmul (c (i - 2)) multiplier)
      in c(i + 3 := gfmul (c (i - 1)) multiplier))"

text \<open>The batches start at \<open>i = 4, 8, \<dots>\<close> below \<open>sz - 3\<close>.\<close>

definition uni_hash_coeff_gen :: "block arr \<Rightarrow> block \<Rightarrow> nat \<Rightarrow> block arr" where
  "uni_hash_coeff_gen c seed sz =
     (let c = c(0 := seed)
      in if sz = 1 then c
         else let c = c(1 := gfmul seed seed)
         in if sz = 2 then c
            else let c = c(2 := gfmul (c 1) seed)
            in if sz = 3 then c
               else let multiplier = gfmul (c 2) seed; c = c(3 := multiplier)
               in if sz = 4 then c
                  else let c = fold (\<lambda>q c. uni_hash_batch multiplier (4 * q) c) [1..<sz div 4] c
                       in if sz mod 4 \<noteq> 0 then fold (\<lambda>i c. c(i := gfmul (c (i - 1)) seed)) [sz - sz mod 4..<sz] c
                          else c)"

definition packing_base_gen :: "block arr \<Rightarrow> block arr" where
  "packing_base_gen base =
     (let (b, base) = fold (\<lambda>q (b, base). let i = 4 * q in (push_bit 4 b,
            base(i := makeBlock 0 b, i + 1 := makeBlock 0 (push_bit 1 b), i + 2 := makeBlock 0 (push_bit 2 b), i + 3 := makeBlock 0 (push_bit 3 b))))
            [0..<16] (1, base);
          (a, base) = fold (\<lambda>q (a, base). let i = 4 * q in (push_bit 4 a,
            base(i := makeBlock a 0, i + 1 := makeBlock (push_bit 1 a) 0, i + 2 := makeBlock (push_bit 2 a) 0, i + 3 := makeBlock (push_bit 3 a) 0)))
            [16..<32] (1, base)
      in base)"

definition packing :: "block arr \<Rightarrow> block arr \<Rightarrow> block" where
  "packing base data = vector_inn_prdt_sum_red data base 128"

definition vector_self_xor :: "block arr \<Rightarrow> nat \<Rightarrow> block" where
  "vector_self_xor data sz =
     (let res = fold (\<lambda>q (r0, r1, r2, r3). let i = 4 * q
            in (data i XOR r0, data (i + 1) XOR r1, data (i + 2) XOR r2, data (i + 3) XOR r3))
            [0..<sz div 4] (zero_block, zero_block, zero_block, zero_block);
          i = sz div 4 * 4;
          (r0, r1, r2, r3) = res;
          r0 = (if i < sz then data i XOR r0 else r0);
          r1 = (if i + 1 < sz then data (i + 1) XOR r1 else r1);
          r2 = (if i + 2 < sz then data (i + 2) XOR r2 else r2);
          r0 = r0 XOR r1;
          r2 = r2 XOR r3
      in r0 XOR r2)"

subsection \<open>The shifts\<close>

lemma bit_slli_epi32: "k < 32 \<Longrightarrow> bit (mm_slli_epi32 a k) n \<longleftrightarrow> n < 128 \<and> k \<le> n mod 32 \<and> bit a (n - k)"
proof (cases "n < 128")
  case True
  assume "k < 32"
  have m: "n mod 32 = (if n < 32 then n else if n < 64 then n - 32 else if n < 96 then n - 64 else n - 96)"
    using True by (auto simp: le_mod_geq)
  have "n mod 32 < 32" by simp
  then show ?thesis
    unfolding mm_slli_epi32_def bit_set_epi32 [OF True] using True
    by (auto simp: bit_push_bit_iff bit_ucast_iff bit_lane32 m)
next
  case False
  then show ?thesis using bit_imp_le_length [of "mm_slli_epi32 a k" n] by auto
qed

lemma bit_srli_epi32: "bit (mm_srli_epi32 a k) n \<longleftrightarrow> n < 128 \<and> n mod 32 + k < 32 \<and> bit a (n + k)"
proof (cases "n < 128")
  case True
  have m: "n mod 32 = (if n < 32 then n else if n < 64 then n - 32 else if n < 96 then n - 64 else n - 96)"
    using True by (auto simp: le_mod_geq)
  show ?thesis
    unfolding mm_srli_epi32_def bit_set_epi32 [OF True] using True
    by (auto simp: bit_drop_bit_eq bit_ucast_iff bit_lane32 m add.commute)
next
  case False
  then show ?thesis using bit_imp_le_length [of "mm_srli_epi32 a k" n] by auto
qed

lemma not_bit_block: "128 \<le> n \<Longrightarrow> \<not> bit (a :: block) n"
  using bit_imp_le_length [of a n] by auto

lemma double_low: "mm_slli_epi32 lo 1 OR mm_slli_si128 (mm_srli_epi32 lo 31) 4 = push_bit 1 lo"
proof (rule bit_word_eqI)
  fix n assume n: "n < LENGTH(128)"
  have "(1 \<le> n mod 32 \<and> bit lo (n - 1) \<or> 32 \<le> n \<and> (n - 32) mod 32 + 31 < 32 \<and> bit lo (n - 32 + 31)) \<longleftrightarrow> 1 \<le> n \<and> bit lo (n - 1)"
  proof (cases "n mod 32 = 0")
    case True
    then have "n = 0 \<or> 32 \<le> n \<and> (n - 32) mod 32 = 0 \<and> n - 32 + 31 = n - 1" by (auto simp: le_mod_geq)
    then show ?thesis using True by auto
  next
    case False
    then have "1 \<le> n mod 32" "1 \<le> n" "\<not> (32 \<le> n \<and> (n - 32) mod 32 + 31 < 32)" by (auto simp: le_mod_geq)
    then show ?thesis by auto
  qed
  moreover have "bit (push_bit 1 lo) n \<longleftrightarrow> 1 \<le> n \<and> bit lo (n - 1)"
    using n by (simp only: bit_push_bit_iff) auto
  moreover have "bit (mm_slli_epi32 lo 1 OR mm_slli_si128 (mm_srli_epi32 lo 31) 4) n
      \<longleftrightarrow> 1 \<le> n mod 32 \<and> bit lo (n - 1) \<or> 32 \<le> n \<and> (n - 32) mod 32 + 31 < 32 \<and> bit lo (n - 32 + 31)"
    using n unfolding bit_or_iff mm_slli_si128_def by (auto simp: bit_push_bit_iff bit_slli_epi32 bit_srli_epi32)
  ultimately show "bit (mm_slli_epi32 lo 1 OR mm_slli_si128 (mm_srli_epi32 lo 31) 4) n = bit (push_bit 1 lo) n" by blast
qed

lemma top_bit: "mm_srli_si128 (mm_srli_epi32 lo 31) 12 = drop_bit 127 lo"
  by (rule bit_word_eqI)
    (auto simp: mm_srli_si128_def bit_drop_bit_eq bit_srli_epi32 not_bit_block dest: bit_imp_le_length)

lemma shift_lanes_left: "j < 32 \<Longrightarrow> mm_slli_si128 (mm_slli_epi32 lo j) 12 = push_bit (96 + j) lo"
proof (rule bit_word_eqI)
  fix n assume "j < 32" "n < LENGTH(128)"
  moreover have "n < 128 \<Longrightarrow> 96 \<le> n \<Longrightarrow> (n - 96) mod 32 = n - 96" by simp
  ultimately show "bit (mm_slli_si128 (mm_slli_epi32 lo j) 12) n = bit (push_bit (96 + j) lo) n"
    by (auto simp: mm_slli_si128_def bit_push_bit_iff bit_slli_epi32)
qed

lemma shift_lanes_right:
  assumes "1 \<le> k" and "k \<le> 7" and "\<And>i. i < 121 \<Longrightarrow> bit L i = bit lo i"
  shows "mm_srli_epi32 L k XOR mm_srli_si128 (mm_slli_epi32 lo (32 - k)) 4 = drop_bit k L"
proof (rule bit_word_eqI)
  fix n assume "n < LENGTH(128)"
  then have n: "n < 128" by simp
  have k: "32 - k < 32" using assms(1) by simp
  show "bit (mm_srli_epi32 L k XOR mm_srli_si128 (mm_slli_epi32 lo (32 - k)) 4) n = bit (drop_bit k L) n"
  proof (cases "n mod 32 + k < 32")
    case True
    then have "\<not> 32 - k \<le> (n + 32) mod 32" by simp
    then show ?thesis using True n k by (simp add: bit_xor_iff mm_srli_si128_def bit_drop_bit_eq bit_slli_epi32 bit_srli_epi32 add.commute)
  next
    case False
    show ?thesis
    proof (cases "n < 96")
      case True
      then have "n mod 32 \<ge> 25" using False assms(2) by linarith
      then have "n + k < 121" using True assms(2) by linarith
      then have "bit L (n + k) = bit lo (n + k)" by (rule assms(3))
      moreover have "n + 32 - (32 - k) = n + k" "32 - k \<le> n mod 32" using assms(2) False by simp_all
      ultimately show ?thesis
        using False True k by (simp add: bit_xor_iff mm_srli_si128_def bit_drop_bit_eq bit_slli_epi32 bit_srli_epi32 add.commute)
    next
      case f: False
      have "n + k \<ge> 128" using f False n by (auto simp: le_mod_geq split: if_splits)
      then show ?thesis using f False by (simp add: bit_xor_iff mm_srli_si128_def bit_drop_bit_eq bit_srli_epi32 not_bit_block add.commute)
    qed
  qed
qed

text \<open>The reduction with whole-word shifts.\<close>

definition fold_high :: "block \<Rightarrow> block" where
  "fold_high lo = lo XOR push_bit 127 lo XOR push_bit 126 lo XOR push_bit 121 lo"

definition reduced :: "block \<Rightarrow> block" where
  "reduced lo = (let L = fold_high lo in L XOR drop_bit 1 L XOR drop_bit 2 L XOR drop_bit 7 L)"

lemma fold_high_low: "i < 121 \<Longrightarrow> bit (fold_high lo) i = bit lo i"
  by (simp add: fold_high_def bit_xor_iff bit_push_bit_iff)

lemma linear_bytes:
  "mm_slli_si128 (a XOR b) n = mm_slli_si128 a n XOR mm_slli_si128 b n"
  "mm_srli_si128 (a XOR b) n = mm_srli_si128 a n XOR mm_srli_si128 b n"
  by (simp_all add: mm_slli_si128_def mm_srli_si128_def)

lemma gf_reduce_eq: "gf_reduce lo hi = (push_bit 1 hi OR drop_bit 127 lo) XOR reduced (push_bit 1 lo)"
proof -
  let ?x = "push_bit 1 lo"
  let ?L = "fold_high ?x" and ?s = "(mm_slli_epi32 ?x 31 XOR mm_slli_epi32 ?x 30) XOR mm_slli_epi32 ?x 25"
  have L: "?x XOR mm_slli_si128 ?s 12 = ?L"
    by (simp add: linear_bytes shift_lanes_left fold_high_def xor.assoc)
  have R: "mm_srli_epi32 ?L k XOR mm_srli_si128 (mm_slli_epi32 ?x (32 - k)) 4 = drop_bit k ?L" if "1 \<le> k" "k \<le> 7" for k
    using that fold_high_low by (rule shift_lanes_right)
  have "((mm_srli_epi32 ?L 1 XOR mm_srli_epi32 ?L 2) XOR mm_srli_epi32 ?L 7) XOR mm_srli_si128 ?s 4
    = (mm_srli_epi32 ?L 1 XOR mm_srli_si128 (mm_slli_epi32 ?x 31) 4) XOR (mm_srli_epi32 ?L 2 XOR mm_srli_si128 (mm_slli_epi32 ?x 30) 4)
      XOR (mm_srli_epi32 ?L 7 XOR mm_srli_si128 (mm_slli_epi32 ?x 25) 4)"
    unfolding linear_bytes by (simp only: xor.assoc xor.commute xor.left_commute)
  also have "\<dots> = drop_bit 1 ?L XOR drop_bit 2 ?L XOR drop_bit 7 ?L"
    using R [of 1] R [of 2] R [of 7] by simp
  finally show ?thesis
    unfolding gf_reduce_def Let_def double_low top_bit L reduced_def by (simp only:)
qed

subsection \<open>The reference multiplication\<close>

text \<open>Multiplication of blocks as NIST SP 800-38D defines it, with the first bit of the standard as bit 127.\<close>

definition gcm_R :: block where
  "gcm_R = push_bit 120 0xe1"

definition gcm_x :: "block \<Rightarrow> block" where
  "gcm_x V = (if bit V 0 then drop_bit 1 V XOR gcm_R else drop_bit 1 V)"

definition gcm_mult :: "block \<Rightarrow> block \<Rightarrow> block" where
  "gcm_mult X Y = fst (fold (\<lambda>i (Z, V). (if bit X (127 - i) then Z XOR V else Z, gcm_x V)) [0..<128] (0, Y))"

definition unit_at :: "nat \<Rightarrow> block" where
  "unit_at i = push_bit i 1"

lemma bit_unit_at: "bit (unit_at i) n \<longleftrightarrow> n = i \<and> i < 128"
  unfolding unit_at_def bit_push_bit_iff by (auto simp: bit_1_iff)

lemma bit_xsum: "bit (xsum f is) n = parity (\<lambda>i. bit (f i) n) is"
  by (induction "is") (simp_all add: bit_xor_iff bxor_def)

lemma parity_single: "distinct is \<Longrightarrow> parity (\<lambda>i. i = a \<and> P) is = (a \<in> set is \<and> P)"
  by (induction "is") (auto simp: bxor_def)

lemma xsum_map: "xsum f (map g is) = xsum (\<lambda>i. f (g i)) is"
  by (induction "is") simp_all

lemma block_units: "a = xsum (\<lambda>i. gate_blk (bit a i) (unit_at i)) [0..<128]"
proof (rule bit_word_eqI)
  fix n assume "n < LENGTH(128)"
  then have n: "n < 128" by simp
  have "parity (\<lambda>i. bit (gate_blk (bit a i) (unit_at i)) n) [0..<128] = parity (\<lambda>i. i = n \<and> bit a n) [0..<128]"
    using n by (intro parity_cong refl) (auto simp: gate_blk_def bit_unit_at)
  also have "\<dots> = bit a n" using n by (subst parity_single) simp_all
  finally show "bit a n = bit (xsum (\<lambda>i. gate_blk (bit a i) (unit_at i)) [0..<128]) n" by (simp only: bit_xsum)
qed

definition linear :: "(block \<Rightarrow> block) \<Rightarrow> bool" where
  "linear f \<longleftrightarrow> (\<forall>a b. f (a XOR b) = f a XOR f b)"

lemma linear_zero: "linear f \<Longrightarrow> f 0 = 0"
  by (metis linear_def xor_self_eq)

lemma linear_xsum: "linear f \<Longrightarrow> f (xsum g is) = xsum (\<lambda>i. f (g i)) is"
  by (induction "is") (simp_all add: linear_zero linear_def)

lemma linear_gate: "linear f \<Longrightarrow> f (gate_blk b x) = gate_blk b (f x)"
  by (simp add: gate_blk_def linear_zero)

lemma linear_units: "linear f \<Longrightarrow> f a = xsum (\<lambda>i. gate_blk (bit a i) (f (unit_at i))) [0..<128]"
  by (subst block_units [of a]) (simp only: linear_xsum linear_gate)

lemma linear_funpow: "linear f \<Longrightarrow> linear (f ^^ n)"
  by (induction n) (simp_all add: linear_def)

lemma linear_gcm_x: "linear gcm_x"
  by (auto simp: linear_def gcm_x_def bit_xor_iff xor.assoc xor.commute xor.left_commute)

lemma linear_reduced: "linear reduced"
  by (simp add: linear_def reduced_def fold_high_def Let_def xor.assoc xor.commute xor.left_commute)

subsection \<open>Powers of x\<close>

definition xp :: "nat \<Rightarrow> block" where
  "xp k = (gcm_x ^^ k) (unit_at 127)"

lemma xp_add: "xp (k + l) = (gcm_x ^^ k) (xp l)"
  by (simp add: xp_def funpow_add)

lemma xp_low: "k \<le> 127 \<Longrightarrow> xp k = unit_at (127 - k)"
proof (induction k)
  case (Suc k)
  have "gcm_x (unit_at (127 - k)) = unit_at (127 - Suc k)"
    using Suc(2) by (intro bit_word_eqI) (auto simp: gcm_x_def bit_unit_at bit_drop_bit_eq)
  then show ?case using Suc by (simp add: xp_def)
qed (simp add: xp_def)

lemma drop_unit: "k \<le> i \<Longrightarrow> drop_bit k (unit_at i) = (if i < 128 then unit_at (i - k) else 0)"
  by (rule bit_word_eqI) (auto simp: bit_drop_bit_eq bit_unit_at)

lemma gcm_x_unit: "i < 127 \<Longrightarrow> gcm_x (unit_at (Suc i)) = unit_at i"
  using drop_unit [of 1 "Suc i"] by (simp add: gcm_x_def bit_unit_at)

lemma reduced_unit:
  assumes "7 \<le> i" and "i < 128"
  shows "reduced (unit_at i) = unit_at i XOR unit_at (i - 1) XOR unit_at (i - 2) XOR unit_at (i - 7)"
proof -
  have "push_bit k (unit_at i) = 0" if "121 \<le> k" for k
    using assms that by (intro bit_word_eqI) (auto simp: bit_push_bit_iff bit_unit_at)
  then have "fold_high (unit_at i) = unit_at i" by (simp add: fold_high_def)
  then show ?thesis using assms by (simp add: reduced_def drop_unit)
qed

lemma reduce_low_units: "list_all (\<lambda>i. gcm_x (reduced (unit_at (Suc i))) = reduced (unit_at i)) [0..<7]"
  by code_simp

lemma reduce_unit:
  assumes "i < 127"
  shows "gcm_x (reduced (unit_at (Suc i))) = reduced (unit_at i)"
proof (cases "i < 7")
  case True
  then show ?thesis using reduce_low_units by (simp add: list_all_iff)
next
  case False
  then obtain j where j: "i = j + 7" by (metis add.commute le_Suc_ex not_less)
  have "gcm_x (unit_at (Suc i)) = unit_at i" "gcm_x (unit_at (Suc i - 1)) = unit_at (i - 1)"
    "gcm_x (unit_at (Suc i - 2)) = unit_at (i - 2)" "gcm_x (unit_at (Suc i - 7)) = unit_at (i - 7)"
    using assms j gcm_x_unit [of "j + 7"] gcm_x_unit [of "j + 6"] gcm_x_unit [of "j + 5"] gcm_x_unit [of j]
    by (simp_all add: numeral_eq_Suc)
  then show ?thesis
    using assms False linear_gcm_x by (simp add: reduced_unit linear_def)
qed

lemma xp_Suc: "xp (Suc k) = gcm_x (xp k)"
  by (simp add: xp_def)

lemma xp_high: "i \<le> 127 \<Longrightarrow> xp (255 - i) = reduced (unit_at i)"
proof (induction "127 - i" arbitrary: i)
  case 0
  have "gcm_x (unit_at 0) = reduced (unit_at 127)" by code_simp
  then show ?case using 0 xp_Suc [of 127] by (simp add: xp_low)
next
  case (Suc n)
  then have i: "i < 127" and "xp (255 - Suc i) = reduced (unit_at (Suc i))" by (simp, intro Suc(1), simp_all)
  moreover have "Suc (255 - Suc i) = 255 - i" using i by simp
  ultimately show ?case using reduce_unit [OF i] xp_Suc [of "255 - Suc i"] by simp
qed

subsection \<open>gfmul is the reference multiplication\<close>

lemma coeff_large: "coeff a b n \<Longrightarrow> n < 255" for a b :: block
proof (rule ccontr)
  assume c: "coeff a b n" and "\<not> n < 255"
  then have "coeff a b n = parity (\<lambda>i. False) [0..<128]"
    unfolding coeff_def by (intro parity_cong) (auto dest: bit_imp_le_length)
  with c show False by simp
qed

lemma map_plus_upt: "map ((+) i) [0..<n] = [i..<i + n]"
  by (rule nth_equalityI) simp_all

lemma gfmul_coeff: "gfmul a b = xsum (\<lambda>n. gate_blk (coeff a b n) (xp (254 - n))) [0..<255]"
proof -
  obtain lo hi where m: "mul128 a b = (lo, hi)" by fastforce
  have lo: "bit lo n = (n < 128 \<and> coeff a b n)" and hi: "bit hi n = (n < 128 \<and> coeff a b (n + 128))" for n
    using bit_mul128 [of a b n] by (simp_all add: m)
  let ?c = "\<lambda>n. gate_blk (coeff a b n) (xp (254 - n))"
  have "reduced (push_bit 1 lo) = xsum (\<lambda>i. gate_blk (bit (push_bit 1 lo) i) (reduced (unit_at i))) (0 # map Suc [0..<127])"
    using linear_units [OF linear_reduced, of "push_bit 1 lo"] by (simp only: map_Suc_upt upt_conv_Cons [symmetric]) (simp add: upt_conv_Cons)
  also have "\<dots> = xsum ?c [0..<127]"
  proof -
    have "gate_blk (bit (push_bit 1 lo) (Suc i)) (reduced (unit_at (Suc i))) = ?c i" if "i < 127" for i
    proof -
      have "bit (push_bit 1 lo) (Suc i) = coeff a b i" using that unfolding bit_push_bit_iff by (simp add: lo)
      then show ?thesis using that xp_high [of "Suc i"] by simp
    qed
    moreover have "\<not> bit (push_bit 1 lo) 0" unfolding bit_push_bit_iff by simp
    ultimately show ?thesis unfolding xsum_simps xsum_map by (simp only: gate_blk_simps xor.left_neutral) (intro xsum_cong refl; simp)
  qed
  finally have A: "reduced (push_bit 1 lo) = xsum ?c [0..<127]" .
  let ?W = "push_bit 1 hi OR drop_bit 127 lo"
  have W: "bit ?W j = coeff a b (127 + j)" if "j < 128" for j
    using that unfolding bit_or_iff bit_push_bit_iff bit_drop_bit_eq
    by (cases j) (simp_all add: lo hi add.commute)
  have "?W = xsum (\<lambda>j. gate_blk (bit ?W j) (unit_at j)) [0..<128]" by (rule block_units)
  also have "\<dots> = xsum (\<lambda>j. ?c (127 + j)) [0..<128]"
  proof (intro xsum_cong refl)
    fix j assume "j \<in> set [0..<128]"
    then have "j < 128" by simp
    then show "gate_blk (bit ?W j) (unit_at j) = ?c (127 + j)" unfolding W [OF \<open>j < 128\<close>] by (simp add: xp_low)
  qed
  also have "\<dots> = xsum ?c (map ((+) 127) [0..<128])" unfolding xsum_map ..
  also have "\<dots> = xsum ?c [127..<127 + 128]" unfolding map_plus_upt ..
  finally have B: "?W = xsum ?c [127..<127 + 128]" .
  have "[0..<255] = [0..<127] @ [127..<127 + 128 :: nat]" using upt_add_eq_append [of 0 127 128] by simp
  then show ?thesis
    by (simp only: gfmul_def m prod.case Let_def gf_reduce_eq A B xsum_append xor.commute)
qed

lemma gfmul_powers:
  "gfmul a b = xsum (\<lambda>i. xsum (\<lambda>j. gate_blk (bit b i \<and> bit a j) (xp (254 - i - j))) [0..<128]) [0..<128]"
proof -
  have row: "xsum (\<lambda>n. gate_blk (bit b i \<and> i \<le> n \<and> bit a (n - i)) (xp (254 - n))) [0..<255]
      = xsum (\<lambda>j. gate_blk (bit b i \<and> bit a j) (xp (254 - i - j))) [0..<128]" if "i < 128" for i
  proof -
    let ?f = "\<lambda>n. gate_blk (bit b i \<and> i \<le> n \<and> bit a (n - i)) (xp (254 - n))"
    have "[0..<255] = [0..<i] @ map ((+) i) [0..<128] @ [i + 128..<255]"
    proof -
      have "[i + 128..<i + 128 + (127 - i)] = [i + 128..<255]" "[0..<0 + i] = [0..<i]" using that by simp_all
      moreover have "[0..<0 + i + (255 - i)] = [0..<255]" "[i..<i + 128 + (127 - i)] = [i..<0 + i + (255 - i)]" using that by simp_all
      ultimately show ?thesis
        using upt_add_eq_append [of 0 "0 + i" "255 - i"] upt_add_eq_append [of i "i + 128" "127 - i"]
        unfolding map_plus_upt by (metis add_0 le0 le_add1)
    qed
    moreover have "xsum ?f [0..<i] = xsum (\<lambda>n. 0) [0..<i]" by (intro xsum_cong refl) simp
    moreover have "xsum ?f [i + 128..<255] = xsum (\<lambda>n. 0) [i + 128..<255]"
      by (intro xsum_cong refl) (auto simp: not_bit_block)
    moreover have "xsum ?f (map ((+) i) [0..<128]) = xsum (\<lambda>j. gate_blk (bit b i \<and> bit a j) (xp (254 - i - j))) [0..<128]"
      unfolding xsum_map by (intro xsum_cong refl) simp
    ultimately show ?thesis by (simp only: xsum_append xsum_zero xor.left_neutral xor.right_neutral)
  qed
  have "gfmul a b = xsum (\<lambda>n. xsum (\<lambda>i. gate_blk (bit b i \<and> i \<le> n \<and> bit a (n - i)) (xp (254 - n))) [0..<128]) [0..<255]"
    unfolding gfmul_coeff xsum_gate_blk by (simp only: coeff_def len_bit0 len_bit1 len_num1) simp
  also have "\<dots> = xsum (\<lambda>i. xsum (\<lambda>n. gate_blk (bit b i \<and> i \<le> n \<and> bit a (n - i)) (xp (254 - n))) [0..<255]) [0..<128]"
    by (rule xsum_swap)
  also have "\<dots> = xsum (\<lambda>i. xsum (\<lambda>j. gate_blk (bit b i \<and> bit a j) (xp (254 - i - j))) [0..<128]) [0..<128]"
    by (intro xsum_cong refl row) simp
  finally show ?thesis .
qed

lemma gfmul_commute: "gfmul a b = gfmul b a"
  unfolding gfmul_powers by (subst xsum_swap) (simp only: conj_commute diff_right_commute)

lemma gfmul_shifts: "gfmul a b = xsum (\<lambda>i. gate_blk (bit a i) ((gcm_x ^^ (127 - i)) b)) [0..<128]"
proof -
  have "xsum (\<lambda>j. gate_blk (bit a i \<and> bit b j) (xp (254 - i - j))) [0..<128] = gate_blk (bit a i) ((gcm_x ^^ (127 - i)) b)" if "i < 128" for i
  proof -
    have "(gcm_x ^^ (127 - i)) b = xsum (\<lambda>j. gate_blk (bit b j) ((gcm_x ^^ (127 - i)) (unit_at j))) [0..<128]"
      by (rule linear_units [OF linear_funpow [OF linear_gcm_x]])
    also have "\<dots> = xsum (\<lambda>j. gate_blk (bit b j) (xp (254 - i - j))) [0..<128]"
    proof (intro xsum_cong refl)
      fix j assume "j \<in> set [0..<128]"
      then have j: "j < 128" by simp
      then have "unit_at j = xp (127 - j)" by (simp add: xp_low)
      moreover have "127 - i + (127 - j) = 254 - i - j" using that j by simp
      ultimately show "gate_blk (bit b j) ((gcm_x ^^ (127 - i)) (unit_at j)) = gate_blk (bit b j) (xp (254 - i - j))"
        using xp_add [of "127 - i" "127 - j"] by simp
    qed
    finally show ?thesis by (auto simp: gate_blk_def cong: xsum_cong)
  qed
  then have "xsum (\<lambda>i. xsum (\<lambda>j. gate_blk (bit a i \<and> bit b j) (xp (254 - i - j))) [0..<128]) [0..<128]
      = xsum (\<lambda>i. gate_blk (bit a i) ((gcm_x ^^ (127 - i)) b)) [0..<128]"
    by (intro xsum_cong [OF refl]) simp
  then show ?thesis
    unfolding gfmul_commute [of a b] gfmul_powers [of b a] .
qed

lemma gcm_mult_shifts: "gcm_mult X Y = xsum (\<lambda>i. gate_blk (bit X (127 - i)) ((gcm_x ^^ i) Y)) [0..<128]"
proof -
  have "fold (\<lambda>i (Z, V). (if bit X (127 - i) then Z XOR V else Z, gcm_x V)) [0..<n] (0, Y)
      = (xsum (\<lambda>i. gate_blk (bit X (127 - i)) ((gcm_x ^^ i) Y)) [0..<n], (gcm_x ^^ n) Y)" for n
    by (induction n) (simp_all add: gate_blk_def)
  then show ?thesis by (simp add: gcm_mult_def)
qed

lemma xsum_rev: "xsum f (rev is) = xsum f is"
  by (induction "is") (simp_all add: xor.commute)

lemma rev_upt_map: "rev [0..<n] = map (\<lambda>i. n - 1 - i) [0..<n]"
  by (rule nth_equalityI) (simp_all add: rev_nth)

subsection \<open>The field operations are bilinear, commutative and associative\<close>

lemma funpow_gcm_x_commute: "gcm_x ((gcm_x ^^ n) a) = (gcm_x ^^ n) (gcm_x a)"
  by (simp add: funpow_swap1)

lemma linear_gfmul_right: "linear (gfmul a)"
proof -
  have "(gcm_x ^^ n) (b XOR c) = (gcm_x ^^ n) b XOR (gcm_x ^^ n) c" for n b c
    using linear_funpow [OF linear_gcm_x] by (simp only: linear_def)
  then show ?thesis
    unfolding linear_def gfmul_shifts by (simp only: gate_blk_xor_blk xsum_xor simp_thms)
qed

lemma linear_gfmul_left: "linear (\<lambda>a. gfmul a b)"
  unfolding gfmul_commute [of _ b] by (rule linear_gfmul_right)

lemma gfmul_xor [simp]: "gfmul a (b XOR c) = gfmul a b XOR gfmul a c" "gfmul (a XOR b) c = gfmul a c XOR gfmul b c"
  using linear_gfmul_right [of a] linear_gfmul_left [of c] by (simp_all only: linear_def)

lemma gfmul_zero [simp]: "gfmul a 0 = 0" "gfmul 0 a = 0"
  using linear_zero [OF linear_gfmul_right] linear_zero [OF linear_gfmul_left] by simp_all

lemma gfmul_gate: "gfmul a (gate_blk c b) = gate_blk c (gfmul a b)" "gfmul (gate_blk c a) b = gate_blk c (gfmul a b)"
  by (simp_all add: gate_blk_def)

lemma gfmul_xsum: "gfmul (xsum f is) a = xsum (\<lambda>i. gfmul (f i) a) is"
  by (induction "is") simp_all

lemma gfmul_gcm_x: "gfmul a (gcm_x b) = gcm_x (gfmul a b)"
  unfolding gfmul_shifts linear_xsum [OF linear_gcm_x] linear_gate [OF linear_gcm_x] funpow_gcm_x_commute ..

lemma gfmul_funpow: "gfmul ((gcm_x ^^ n) a) b = (gcm_x ^^ n) (gfmul a b)"
  by (induction n) (simp_all add: gfmul_gcm_x gfmul_commute [of _ b])

lemma gfmul_assoc: "gfmul (gfmul a b) c = gfmul a (gfmul b c)"
  unfolding gfmul_shifts [of a] gfmul_xsum gfmul_gate gfmul_funpow ..

lemma gfmul_left_commute: "gfmul a (gfmul b c) = gfmul b (gfmul a c)"
  by (metis gfmul_assoc gfmul_commute)

lemma gfmul_one [simp]: "gfmul (unit_at 127) a = a" "gfmul a (unit_at 127) = a"
proof -
  have "gfmul (unit_at 127) a = xsum (\<lambda>i. gate_blk (i = 127 \<and> True) a) [0..<128]"
    unfolding gfmul_shifts by (intro xsum_cong refl) (auto simp: bit_unit_at gate_blk_def)
  also have "\<dots> = a" unfolding xsum_gate_blk by (subst parity_single) simp_all
  finally show "gfmul (unit_at 127) a = a" .
  then show "gfmul a (unit_at 127) = a" by (simp only: gfmul_commute)
qed

definition gf_one :: block where
  "gf_one = unit_at 127"

interpretation gf: comm_monoid gfmul gf_one
  by unfold_locales (rule gfmul_assoc gfmul_commute gfmul_one [folded gf_one_def])+

subsection \<open>Inner products, sums and the coefficients of the hash\<close>

lemma inn_prdt_red_eq: "vector_inn_prdt_sum_red a b n = xsum (\<lambda>i. gfmul (a i) (b i)) [0..<n]"
  by (simp add: vector_inn_prdt_sum_red_def fold_xor_xsum)

text \<open>The reference: the powers of the seed, one multiplication each.\<close>

primrec gf_power :: "block \<Rightarrow> nat \<Rightarrow> block" where
  "gf_power a 0 = gf_one"
| "gf_power a (Suc n) = gfmul (gf_power a n) a"

lemma gf_power_add: "gf_power a (m + n) = gfmul (gf_power a m) (gf_power a n)"
  by (induction n) (simp_all add: gf.assoc)

lemma gf_power_small: "gf_power a 2 = gfmul a a" "gf_power a 3 = gfmul (gfmul a a) a" "gf_power a 4 = gfmul (gfmul (gfmul a a) a) a"
  by (simp_all add: numeral_eq_Suc)

lemma uni_hash_batch_eq:
  assumes "4 \<le> i" and "\<And>k. k < i \<Longrightarrow> c k = gf_power s (Suc k)" and "k < i + 4"
  shows "uni_hash_batch (gf_power s 4) i c k = gf_power s (Suc k)"
proof -
  have step: "gfmul (gf_power s (Suc (j - 4))) (gf_power s 4) = gf_power s (Suc j)" if "4 \<le> j" for j
    using that gf_power_add [of s "Suc (j - 4)" 4] by (simp add: algebra_simps)
  have "uni_hash_batch m i c = c(i := gfmul (c (i - 4)) m, i + 1 := gfmul (c (i - 3)) m, i + 2 := gfmul (c (i - 2)) m, i + 3 := gfmul (c (i - 1)) m)" for m
  proof -
    have "i - 3 \<noteq> i" "i - 2 \<noteq> i" "i - 2 \<noteq> i + 1" "i - 1 \<noteq> i" "i - 1 \<noteq> i + 1" "i - 1 \<noteq> i + 2" using assms(1) by auto
    then show ?thesis by (simp only: uni_hash_batch_def Let_def fun_upd_apply if_False)
  qed
  moreover have "i + 1 - 4 = i - 3" "i + 2 - 4 = i - 2" "i + 3 - 4 = i - 1" using assms(1) by auto
  moreover have "c (i - 4) = gf_power s (Suc (i - 4))" "c (i - 3) = gf_power s (Suc (i - 3))" "c (i - 2) = gf_power s (Suc (i - 2))"
    "c (i - 1) = gf_power s (Suc (i - 1))" using assms(1) by (intro assms(2); simp)+
  moreover have "k < i \<or> k = i \<or> k = i + 1 \<or> k = i + 2 \<or> k = i + 3" using assms(3) by linarith
  ultimately show ?thesis
    using assms(1,2) step [of i] step [of "i + 1"] step [of "i + 2"] step [of "i + 3"]
    by (elim disjE) (simp_all add: add.commute del: gf_power.simps)
qed

lemma uni_hash_coeff_gen_eq:
  assumes "k < sz"
  shows "uni_hash_coeff_gen c seed sz k = gf_power seed (Suc k)"
proof -
  let ?p = "\<lambda>k. gf_power seed (Suc k)"
  define c4 where "c4 = c(0 := seed, 1 := gfmul seed seed, 2 := gfmul (gfmul seed seed) seed, 3 := gf_power seed 4)"
  have p: "?p 0 = seed" "?p 1 = gfmul seed seed" "?p 2 = gfmul (gfmul seed seed) seed" "?p 3 = gf_power seed 4"
    by (simp_all add: numeral_eq_Suc)
  have c4: "c4 k = ?p k" if "k < 4" for k
  proof -
    from that consider "k = 0" | "k = 1" | "k = 2" | "k = 3" by linarith
    then show ?thesis using p by cases (simp_all add: c4_def del: gf_power.simps)
  qed
  show ?thesis
  proof (cases "sz \<le> 4")
    case True
    then consider "sz = 1" | "sz = 2" | "sz = 3" | "sz = 4" using assms by linarith
    moreover have "k = 0 \<or> k = 1 \<or> k = 2 \<or> k = 3" "k < sz" using True assms by auto
    ultimately show ?thesis
      using p gf_power_small by cases (auto simp: uni_hash_coeff_gen_def Let_def simp del: gf_power.simps)
  next
    case False
    have batches: "fold (\<lambda>q c. uni_hash_batch (gf_power seed 4) (4 * q) c) [1..<Suc n] c4 k = ?p k" if "k < 4 * Suc n" for n k
      using that
    proof (induction n arbitrary: k)
      case 0
      then show ?case using c4 by simp
    next
      case (Suc n)
      then show ?case using uni_hash_batch_eq [of "4 * Suc n" _ seed k] by simp
    qed
    let ?b = "fold (\<lambda>q c. uni_hash_batch (gf_power seed 4) (4 * q) c) [1..<sz div 4] c4"
    have "1 \<le> sz div 4" using False by simp
    then have b: "?b k = ?p k" if "k < 4 * (sz div 4)" for k using that batches [of k "sz div 4 - 1"] by simp
    have rest: "fold (\<lambda>i c. c(i := gfmul (c (i - 1)) seed)) [a..<a + n] d k = ?p k"
      if "\<And>k. k < a \<Longrightarrow> d k = ?p k" "k < a + n" "0 < a" for a n d k
      using that(2)
    proof (induction n arbitrary: k)
      case (Suc n)
      then show ?case using that(3) gf_power.simps(2) [of seed "a + n - 1"] by (auto simp: less_Suc_eq)
    qed (use that in auto)
    have "sz - sz mod 4 = 4 * (sz div 4)" "sz = sz - sz mod 4 + sz mod 4"
      by (simp_all add: minus_mod_eq_mult_div)
    moreover have "uni_hash_coeff_gen c seed sz
        = (if sz mod 4 \<noteq> 0 then fold (\<lambda>i c. c(i := gfmul (c (i - 1)) seed)) [sz - sz mod 4..<sz] ?b else ?b)"
      using False gf_power_small [of seed] by (simp add: uni_hash_coeff_gen_def Let_def c4_def del: gf_power.simps)
    ultimately show ?thesis
      using rest [of "sz - sz mod 4" ?b k "sz mod 4"] b assms False by (cases "sz mod 4 = 0") auto
  qed
qed

lemma vector_self_xor_eq: "vector_self_xor data sz = xsum data [0..<sz]"
proof -
  have lanes: "fold (\<lambda>q (r0, r1, r2, r3). let i = 4 * q in (data i XOR r0, data (i + 1) XOR r1, data (i + 2) XOR r2, data (i + 3) XOR r3))
      [0..<n] (0, 0, 0, 0) = (r0, r1, r2, r3) \<Longrightarrow> r0 XOR r1 XOR r2 XOR r3 = xsum data [0..<4 * n]" for n r0 r1 r2 r3
  proof (induction n arbitrary: r0 r1 r2 r3)
    case (Suc n)
    obtain s0 s1 s2 s3 where s: "fold (\<lambda>q (r0, r1, r2, r3). let i = 4 * q in (data i XOR r0, data (i + 1) XOR r1, data (i + 2) XOR r2, data (i + 3) XOR r3))
      [0..<n] (0, 0, 0, 0) = (s0, s1, s2, s3)" using prod_cases4 by blast
    have "[0..<4 * Suc n] = [0..<4 * n] @ [4 * n, 4 * n + 1, 4 * n + 2, 4 * n + 3]" by (simp add: numeral_eq_Suc)
    then show ?case using Suc(2) s by (auto simp: Let_def Suc(1) [OF s, symmetric] xor_ac)
  qed simp
  obtain r0 r1 r2 r3 where r: "fold (\<lambda>q (r0, r1, r2, r3). let i = 4 * q in (data i XOR r0, data (i + 1) XOR r1, data (i + 2) XOR r2, data (i + 3) XOR r3))
      [0..<sz div 4] (0, 0, 0, 0) = (r0, r1, r2, r3)" using prod_cases4 by blast
  define m where "m = sz div 4 * 4"
  have "sz = m + sz mod 4" "sz mod 4 < 4" by (simp_all add: m_def)
  then consider "sz = m" | "sz = m + 1" | "sz = m + 2" | "sz = m + 3" by linarith
  moreover have "vector_self_xor data sz = (r0 XOR r1 XOR r2 XOR r3) XOR
      (gate_blk (m < sz) (data m) XOR gate_blk (m + 1 < sz) (data (m + 1)) XOR gate_blk (m + 2 < sz) (data (m + 2)))"
    unfolding vector_self_xor_def zero_block_eq r m_def [symmetric] by (auto simp: Let_def gate_blk_def xor_ac)
  moreover have "r0 XOR r1 XOR r2 XOR r3 = xsum data [0..<m]" using lanes [OF r] by (simp add: m_def mult.commute)
  moreover have "xsum data [0..<n + 1] = xsum data [0..<n] XOR data n" "xsum data [0..<n + 2] = xsum data [0..<n] XOR data n XOR data (n + 1)"
    "xsum data [0..<n + 3] = xsum data [0..<n] XOR data n XOR data (n + 1) XOR data (n + 2)" for n
    by (simp_all add: numeral_eq_Suc xor_ac)
  ultimately show ?thesis by cases (simp_all add: gate_blk_def)
qed

text \<open>The base of the packing is the standard basis, so packing multiples of one block by bits multiplies by those bits.\<close>

definition bit64 :: "nat \<Rightarrow> 64 word" where
  "bit64 n = push_bit n 1"

lemma push_bit64: "push_bit j (bit64 n) = bit64 (n + j)"
  by (simp only: bit64_def push_bit_push_bit add.commute)

lemma pack_low:
  "fold (\<lambda>q (b, base). let i = 4 * q in (push_bit 4 b,
      base(i := makeBlock 0 b, i + 1 := makeBlock 0 (push_bit 1 b), i + 2 := makeBlock 0 (push_bit 2 b), i + 3 := makeBlock 0 (push_bit 3 b))))
      [0..<n] (bit64 0, base) = (bit64 (4 * n), \<lambda>k. if k < 4 * n then makeBlock 0 (bit64 k) else base k)"
proof (induction n)
  case (Suc n)
  have "4 * Suc n = 4 * n + 4" by simp
  then show ?case
    unfolding upt_Suc_append [OF le0] fold_append o_apply Suc fold_simps prod.case
    by (simp only: Let_def push_bit64 prod.inject fun_eq_iff) auto
qed simp

lemma pack_high:
  "fold (\<lambda>q (a, base). let i = 4 * q in (push_bit 4 a,
      base(i := makeBlock a 0, i + 1 := makeBlock (push_bit 1 a) 0, i + 2 := makeBlock (push_bit 2 a) 0, i + 3 := makeBlock (push_bit 3 a) 0)))
      [16..<16 + n] (bit64 0, base) = (bit64 (4 * n), \<lambda>k. if 64 \<le> k \<and> k < 64 + 4 * n then makeBlock (bit64 (k - 64)) 0 else base k)"
proof (induction n)
  case (Suc n)
  have "[16..<16 + Suc n] = [16..<16 + n] @ [16 + n]" "4 * Suc n = 4 * n + 4" "4 * (16 + n) = 64 + 4 * n"
    using upt_Suc_append [of 16 "16 + n"] by simp_all
  then show ?case
    unfolding \<open>[16..<16 + Suc n] = _\<close> fold_append o_apply Suc fold_simps prod.case
    by (simp only: Let_def push_bit64 prod.inject fun_eq_iff) (auto simp: add.commute)
qed (auto simp: fun_eq_iff)

lemma makeBlock_bit64:
  "k < 64 \<Longrightarrow> makeBlock 0 (bit64 k) = unit_at k" "64 \<le> k \<Longrightarrow> k < 128 \<Longrightarrow> makeBlock (bit64 (k - 64)) 0 = unit_at k"
  by (intro bit_word_eqI; unfold bit64_def bit_makeBlock bit_push_bit_iff; auto simp: bit_unit_at bit_1_iff)+

lemma packing_base:
  assumes "k < 128"
  shows "packing_base_gen base k = unit_at k"
proof -
  have "16 + 16 = (32 :: nat)" "(1 :: 64 word) = bit64 0" by (simp_all add: bit64_def)
  then show ?thesis
    using assms makeBlock_bit64 [of k] pack_low [of 16 base] pack_high [of 16] unfolding packing_base_gen_def
    by (simp only: prod.case Let_def) auto
qed

lemma packing_eq: "packing (packing_base_gen base) data = xsum (\<lambda>k. gfmul (data k) (unit_at k)) [0..<128]"
  unfolding packing_def inn_prdt_red_eq by (intro xsum_cong refl) (simp add: packing_base)

lemma packing_gates: "xsum (\<lambda>k. gfmul (gate_blk (bit x k) D) (unit_at k)) [0..<128] = gfmul x D"
proof -
  have "gfmul x D = xsum (\<lambda>k. gfmul (gate_blk (bit x k) (unit_at k)) D) [0..<128]"
    by (subst block_units [of x]) (rule gfmul_xsum)
  then show ?thesis unfolding gfmul_gate gfmul_commute [of D] by simp
qed

text \<open>
  C19.  \<^verbatim>\<open>gfmul\<close>, a fixed sequence of carry-less multiplications and lane shifts without loops or tables, is the multiplication of
  blocks that the GCM standard defines bit by bit.
\<close>

theorem gfmul_gcm: "gfmul a b = gcm_mult a b"
proof -
  let ?f = "\<lambda>i. gate_blk (bit a i) ((gcm_x ^^ (127 - i)) b)"
  have "gfmul a b = xsum ?f (rev [0..<128])" unfolding gfmul_shifts xsum_rev ..
  also have "\<dots> = xsum (\<lambda>i. ?f (128 - 1 - i)) [0..<128]" unfolding rev_upt_map xsum_map ..
  also have "\<dots> = gcm_mult a b"
    unfolding gcm_mult_shifts by (intro xsum_cong refl) simp
  finally show ?thesis .
qed

end
