(* ===== verification/Spcot.thy ===== *)
theory Spcot
  imports Ggm Gfmul
begin

text \<open>
  Single-point correlated transfers of Ferret: the transfers prepared ahead of time (\<^verbatim>\<open>emp-ot/ferret/preot.h\<close>) and
  the communication and check messages of \<^verbatim>\<open>spcot_sender.h\<close> and \<^verbatim>\<open>spcot_recver.h\<close>.  \<^verbatim>\<open>send_f2k\<close> and
  \<^verbatim>\<open>recv_f2k\<close> are templates over the transfer; the locale \<open>slotted_ot\<close> is what they need of it and \<^verbatim>\<open>OTPre\<close> provides.
\<close>

subsection \<open>preot.h\<close>

record OTPre =
  op_pre_data :: "block arr"
  op_bits :: "bool arr"
  op_n :: nat
  op_length :: nat
  op_count :: nat
  op_Delta :: block

definition OTPre_new :: "nat \<Rightarrow> nat \<Rightarrow> OTPre \<Rightarrow> OTPre" where
  "OTPre_new len slots heap = heap\<lparr>op_length := len, op_n := len * slots, op_count := 0\<rparr>"

definition ccrh_key :: AES_KEY where
  "ccrh_key = PRP_key zero_block"

definition put_Hn :: "block arr \<Rightarrow> nat \<Rightarrow> block arr \<Rightarrow> nat \<Rightarrow> block arr" where
  "put_Hn m a inp n = put_blocks m a (\<lambda>i. CCRH_Hn ccrh_key (map inp [0..<n]) ! i) n"

text \<open>The upper half of \<^verbatim>\<open>pre_data\<close> is first the scratch space of the first call.\<close>

definition op_send_pre :: "block arr \<Rightarrow> block \<Rightarrow> OTPre \<Rightarrow> OTPre" where
  "op_send_pre data in_Delta st =
     (let n = op_n st;
          pd = put_blocks (op_pre_data st) n (\<lambda>i. permute_block ccrh_key (map (\<lambda>j. sigma (data j)) [0..<n]) ! i) n;
          pd = put_Hn pd 0 data n;
          pd = put_blocks pd n (xorBlocks_const (\<lambda>i. pd (n + i)) data in_Delta n) n;
          pd = put_Hn pd n (\<lambda>i. pd (n + i)) n
      in st\<lparr>op_Delta := in_Delta, op_pre_data := pd\<rparr>)"

definition op_recv_pre_bits :: "block arr \<Rightarrow> bool arr \<Rightarrow> OTPre \<Rightarrow> OTPre" where
  "op_recv_pre_bits data b st =
     st\<lparr>op_bits := (\<lambda>i. if i < op_n st then b i else op_bits st i), op_pre_data := put_Hn (op_pre_data st) 0 data (op_n st)\<rparr>"

definition op_recv_pre :: "block arr \<Rightarrow> OTPre \<Rightarrow> OTPre" where
  "op_recv_pre data st =
     st\<lparr>op_bits := fold (\<lambda>i b. b(i := getLSB (data i))) [0..<op_n st] (op_bits st),
        op_pre_data := put_Hn (op_pre_data st) 0 data (op_n st)\<rparr>"

definition choices_sender :: "OTPre \<Rightarrow> OTPre" where
  "choices_sender st = st\<lparr>op_count := op_count st + op_length st\<rparr>"

definition choices_recver :: "bool arr \<Rightarrow> OTPre \<Rightarrow> bool arr \<times> OTPre" where
  "choices_recver b st =
     (\<lambda>i. if i < op_length st then op_bits st (op_count st + i) else b i, st\<lparr>op_count := op_count st + op_length st\<rparr>)"

definition op_reset :: "OTPre \<Rightarrow> OTPre" where
  "op_reset st = st\<lparr>op_count := 0\<rparr>"

definition op_send :: "OTPre \<Rightarrow> block arr \<Rightarrow> block arr \<Rightarrow> nat \<Rightarrow> nat \<Rightarrow> channel" where
  "op_send st m0 m1 len s =
     concat (map (\<lambda>i. let k = s * len + i in [m0 i XOR op_pre_data st k, m1 i XOR op_pre_data st (k + op_n st)]) [0..<len])"

fun op_recv_loop :: "OTPre \<Rightarrow> bool arr \<Rightarrow> nat \<Rightarrow> nat list \<Rightarrow> block arr \<times> channel \<Rightarrow> (block arr \<times> channel) option" where
  "op_recv_loop st b k0 [] r = Some r"
| "op_recv_loop st b k0 (i # is) (data, ch) =
     (case recv_block 2 ch of None \<Rightarrow> None | Some (pad, ch) \<Rightarrow>
        (let ind = (if b i then 1 else 0)
         in op_recv_loop st b k0 is (data(i := op_pre_data st (k0 + i) XOR pad ! ind), ch)))"

definition op_recv :: "OTPre \<Rightarrow> bool arr \<Rightarrow> nat \<Rightarrow> nat \<Rightarrow> block arr \<Rightarrow> channel \<Rightarrow> (block arr \<times> channel) option" where
  "op_recv st b len s data ch = op_recv_loop st b (s * len) [0..<len] (data, ch)"

subsection \<open>Communication and check messages of the single-point transfer\<close>

definition send_f2k :: "('s \<Rightarrow> block arr \<Rightarrow> block arr \<Rightarrow> nat \<Rightarrow> nat \<Rightarrow> channel) \<Rightarrow> 's \<Rightarrow> nat \<Rightarrow> SPCOT_Sender \<Rightarrow> channel" where
  "send_f2k ot_send ot s st = ot_send ot (ss_m0 st) (ss_m1 st) (ss_depth st - 1) s @ [ss_secret_sum_f2 st]"

definition recv_f2k ::
  "('r \<Rightarrow> bool arr \<Rightarrow> nat \<Rightarrow> nat \<Rightarrow> block arr \<Rightarrow> channel \<Rightarrow> (block arr \<times> channel) option) \<Rightarrow> 'r \<Rightarrow> nat \<Rightarrow> channel
   \<Rightarrow> SPCOT_Recver \<Rightarrow> (SPCOT_Recver \<times> channel) option" where
  "recv_f2k ot_recv ot s ch st =
     (case ot_recv ot (sr_b st) (sr_depth st - 1) s (sr_m st) ch of None \<Rightarrow> None | Some (m, ch) \<Rightarrow>
        (case recv_block 1 ch of None \<Rightarrow> None | Some (sec, ch) \<Rightarrow> Some (st\<lparr>sr_m := m, sr_secret_sum_f2 := sec ! 0\<rparr>, ch)))"

text \<open>\<open>junk\<close> is the content of the fresh array \<^verbatim>\<open>chi\<close>, \<open>sha\<close> the digest.\<close>

definition spcot_chi :: "(bytes \<Rightarrow> bytes) \<Rightarrow> block arr \<Rightarrow> block \<Rightarrow> nat \<Rightarrow> block arr" where
  "spcot_chi sha junk secret_sum leave_n = uni_hash_coeff_gen junk (hash_for_block sha (bytes_of_block secret_sum)) leave_n"

definition sender_check_msg_gen :: "(bytes \<Rightarrow> bytes) \<Rightarrow> block arr \<Rightarrow> SPCOT_Sender \<Rightarrow> block" where
  "sender_check_msg_gen sha junk st =
     vector_inn_prdt_sum_red (spcot_chi sha junk (ss_secret_sum_f2 st) (ss_leave_n st)) (ss_ggm_tree st) (ss_leave_n st)"

definition recver_check_msg_gen :: "(bytes \<Rightarrow> bytes) \<Rightarrow> block arr \<Rightarrow> SPCOT_Recver \<Rightarrow> block \<times> block" where
  "recver_check_msg_gen sha junk st =
     (let chi = spcot_chi sha junk (sr_secret_sum_f2 st) (sr_leave_n st)
      in (chi (sr_choice_pos st), vector_inn_prdt_sum_red chi (sr_ggm_tree st) (sr_leave_n st)))"

lemma spcot_chi_eq: "k < n \<Longrightarrow> spcot_chi sha junk x n k = gf_power (hash_for_block sha (bytes_of_block x)) (Suc k)"
  unfolding spcot_chi_def by (rule uni_hash_coeff_gen_eq)

lemma check_msg_eq:
  "vector_inn_prdt_sum_red (spcot_chi sha junk x n) t n
     = xsum (\<lambda>k. gfmul (gf_power (hash_for_block sha (bytes_of_block x)) (Suc k)) (t k)) [0..<n]"
  unfolding inn_prdt_red_eq by (intro xsum_cong refl) (simp add: spcot_chi_eq del: gf_power.simps)

subsection \<open>What the template needs of the transfer\<close>

text \<open>\<open>ready S R b len s\<close>: slot \<open>s\<close> of \<open>len\<close> transfers is prepared for the choices \<open>b\<close>.\<close>

locale slotted_ot =
  fixes ot_send :: "'s \<Rightarrow> block arr \<Rightarrow> block arr \<Rightarrow> nat \<Rightarrow> nat \<Rightarrow> channel"
    and ot_recv :: "'r \<Rightarrow> bool arr \<Rightarrow> nat \<Rightarrow> nat \<Rightarrow> block arr \<Rightarrow> channel \<Rightarrow> (block arr \<times> channel) option"
    and ready :: "'s \<Rightarrow> 'r \<Rightarrow> bool arr \<Rightarrow> nat \<Rightarrow> nat \<Rightarrow> bool"
  assumes transfer: "ready S R b len s \<Longrightarrow> \<exists>d'. (\<forall>rest. ot_recv R b len s d (ot_send S m0 m1 len s @ rest) = Some (d', rest))
      \<and> (\<forall>i<len. d' i = (if b i then m1 i else m0 i))"
begin

text \<open>One tree: whatever follows on the channel, the receiver ends with the sender's leaves plus the secret at its own position,
  and the check messages differ by the coefficient of that position times the secret.\<close>

lemma single_point:
  fixes S :: SPCOT_Sender and R :: SPCOT_Recver and memS :: "block arr" and secret :: block
  assumes depth: "3 \<le> ss_depth S" "sr_depth R = ss_depth S"
    and leaves: "ss_leave_n S = 2 ^ (ss_depth S - 1)" "sr_leave_n R = ss_leave_n S"
    and choice: "sr_choice_pos R = punctured (sr_b R) (sr_depth R - 1)"
    and "ready oS oR (sr_b R) (ss_depth S - 1) s"
  defines "S' \<equiv> spcot_send_compute memS secret S"
  shows "\<exists>R'. (\<forall>rest. recv_f2k ot_recv oR s (send_f2k ot_send oS s S' @ rest) R = Some (R', rest))
    \<and> (\<forall>k < ss_leave_n S. \<not> getLSB (ss_ggm_tree S' k))
    \<and> (\<forall>memR. \<forall>k < ss_leave_n S. sr_ggm_tree (spcot_recv_compute memR R') k
         = ss_ggm_tree S' k XOR (if k = sr_choice_pos R then secret else 0))
    \<and> (\<forall>memR junk junk'. \<exists>c. recver_check_msg_gen sha junk' (spcot_recv_compute memR R')
         = (c, sender_check_msg_gen sha junk S' XOR gfmul c secret))"
proof -
  have keep: "ss_depth S' = ss_depth S" "ss_leave_n S' = ss_leave_n S"
    by (simp_all add: S'_def spcot_send_compute_def split: prod.splits)
  obtain m where m: "\<And>rest. ot_recv oR (sr_b R) (ss_depth S - 1) s (sr_m R) (ot_send oS (ss_m0 S') (ss_m1 S') (ss_depth S - 1) s @ rest) = Some (m, rest)"
    "\<And>h. h < ss_depth S - 1 \<Longrightarrow> m h = (if sr_b R h then ss_m1 S' h else ss_m0 S' h)"
    using transfer [OF assms(6), where d = "sr_m R" and ?m0.0 = "ss_m0 S'" and ?m1.0 = "ss_m1 S'"] by blast
  let ?leaf = "\<lambda>k. ggm (ss_seed S) (ss_depth S - 1) k AND low_mask"
  note snd = spcot_send_compute_eq [OF depth(1) leaves(1), where mem = memS and secret = secret, folded S'_def]
  define R' where "R' = R\<lparr>sr_m := m, sr_secret_sum_f2 := ss_secret_sum_f2 S'\<rparr>"
  have recv: "recv_f2k ot_recv oR s (send_f2k ot_send oS s S' @ rest) R = Some (R', rest)" for rest
    using m(1) by (simp add: recv_f2k_def send_f2k_def depth(2) keep recv_block_def R'_def)
  have leaf: "sr_ggm_tree (spcot_recv_compute memR R') k = ?leaf k XOR (if k = sr_choice_pos R then secret else 0)"
    if "k < ss_leave_n S" for memR k
  proof -
    have "sr_m R' h = level_sum (ss_seed S) h (sr_b R' h)" if "h < sr_depth R' - 1" for h
      using that m(2) [of h] snd(3,4) [of h] by (simp add: R'_def depth(2))
    then have "sr_ggm_tree (spcot_recv_compute memR R') k = ggm (ss_seed S) (sr_depth R' - 1) k AND low_mask XOR (if k = sr_choice_pos R' then secret else 0)"
      by (intro spcot_recv_compute_eq) (use depth leaves choice snd(2) that in \<open>simp_all add: R'_def\<close>)
    then show ?thesis by (simp add: R'_def depth(2))
  qed
  have tree: "sr_ggm_tree (spcot_recv_compute memR R') k = ss_ggm_tree S' k XOR (if k = sr_choice_pos R then secret else 0)"
    if "k < ss_leave_n S" for memR k
    using leaf [OF that] snd(1) that by simp
  have even: "\<not> getLSB (ss_ggm_tree S' k)" if "k < ss_leave_n S" for k
    using snd(1) that by (simp add: getLSB_bit bit_and_iff low_mask_def bit_makeBlock)
  have "\<exists>c. recver_check_msg_gen sha junk' (spcot_recv_compute memR R') = (c, sender_check_msg_gen sha junk S' XOR gfmul c secret)"
    for memR junk junk'
  proof -
    let ?n = "ss_leave_n S" and ?c = "sr_choice_pos R"
    let ?p = "\<lambda>k. gf_power (hash_for_block sha (bytes_of_block (ss_secret_sum_f2 S'))) (Suc k)"
    have c: "?c < ?n" using punctured_less [of "sr_b R" "sr_depth R - 1"] choice depth(2) leaves(1) by simp
    have "xsum (\<lambda>k. gfmul (?p k) (sr_ggm_tree (spcot_recv_compute memR R') k)) [0..<?n]
       = xsum (\<lambda>k. gfmul (?p k) (ss_ggm_tree S' k)) [0..<?n] XOR xsum (\<lambda>k. gate_blk (k = ?c \<and> True) (gfmul (?p ?c) secret)) [0..<?n]"
      unfolding xsum_xor [symmetric] by (intro xsum_cong refl) (auto simp: gate_blk_def tree simp del: gf_power.simps)
    also have "\<dots> = xsum (\<lambda>k. gfmul (?p k) (ss_ggm_tree S' k)) [0..<?n] XOR gfmul (?p ?c) secret"
      unfolding xsum_gate_blk using c by (subst parity_single) (simp_all add: gate_blk_def del: gf_power.simps)
    finally have "xsum (\<lambda>k. gfmul (?p k) (sr_ggm_tree (spcot_recv_compute memR R') k)) [0..<?n]
       = xsum (\<lambda>k. gfmul (?p k) (ss_ggm_tree S' k)) [0..<?n] XOR gfmul (?p ?c) secret" .
    moreover have "sr_leave_n (spcot_recv_compute memR R') = ?n" "sr_choice_pos (spcot_recv_compute memR R') = ?c"
      "sr_secret_sum_f2 (spcot_recv_compute memR R') = ss_secret_sum_f2 S'"
      by (simp_all add: spcot_recv_compute_def R'_def leaves(2) split: prod.splits)
    ultimately show ?thesis
      using c by (simp add: recver_check_msg_gen_def sender_check_msg_gen_def keep check_msg_eq spcot_chi_eq Let_def del: gf_power.simps)
  qed
  with recv even tree show ?thesis by blast
qed

end
subsection \<open>The prepared transfers\<close>

lemma put_Hn_eq: "put_Hn m a inp n k = (if a \<le> k \<and> k < a + n then CCRH_H ccrh_key (inp (k - a)) else m k)"
  by (auto simp: put_Hn_def put_blocks_eq CCRH_Hn_map)

lemma op_send_pre_eq:
  assumes "k < op_n st"
  shows "op_pre_data (op_send_pre data D st) k = CCRH_H ccrh_key (data k)"
    and "op_pre_data (op_send_pre data D st) (k + op_n st) = CCRH_H ccrh_key (data k XOR D)"
  using assms by (simp_all add: op_send_pre_def Let_def put_Hn_eq put_blocks_eq)

lemma op_recv_pre_eq:
  assumes "k < op_n st"
  shows "op_pre_data (op_recv_pre data st) k = CCRH_H ccrh_key (data k)" and "op_bits (op_recv_pre data st) k = getLSB (data k)"
    and "op_pre_data (op_recv_pre_bits data b st) k = CCRH_H ccrh_key (data k)" and "op_bits (op_recv_pre_bits data b st) k = b k"
  using assms by (simp_all add: op_recv_pre_def op_recv_pre_bits_def put_Hn_eq fold_fun_upd_upt)

lemma op_pre_keep [simp]:
  "op_n (op_send_pre data D st) = op_n st" "op_n (op_recv_pre data st) = op_n st" "op_n (op_recv_pre_bits data b st) = op_n st"
  "op_length (op_send_pre data D st) = op_length st" "op_length (op_recv_pre data st) = op_length st" "op_length (op_recv_pre_bits data b st) = op_length st"
  "op_count (op_send_pre data D st) = op_count st" "op_count (op_recv_pre data st) = op_count st" "op_count (op_recv_pre_bits data b st) = op_count st"
  by (simp_all add: op_send_pre_def op_recv_pre_def op_recv_pre_bits_def Let_def)

definition op_ready :: "OTPre \<Rightarrow> OTPre \<Rightarrow> bool arr \<Rightarrow> nat \<Rightarrow> nat \<Rightarrow> bool" where
  "op_ready S R b len s \<longleftrightarrow> (\<forall>i<len. op_pre_data R (s * len + i) = op_pre_data S (s * len + i + (if b i then op_n S else 0)))"

lemma op_recv_loop_eq:
  assumes "\<And>i. i \<in> set is \<Longrightarrow> op_pre_data R (k0 + i) = op_pre_data S (k0 + i + (if b i then op_n S else 0))" and "distinct is"
  shows "op_recv_loop R b k0 is (d, concat (map (\<lambda>i. [m0 i XOR op_pre_data S (k0 + i), m1 i XOR op_pre_data S (k0 + i + op_n S)]) is) @ rest)
    = Some (\<lambda>i. if i \<in> set is then if b i then m1 i else m0 i else d i, rest)"
  using assms
proof (induction "is" arbitrary: d)
  case (Cons j js)
  have "op_pre_data R (k0 + j) XOR [m0 j XOR op_pre_data S (k0 + j), m1 j XOR op_pre_data S (k0 + j + op_n S)] ! (if b j then 1 else 0)
      = (if b j then m1 j else m0 j)" using Cons.prems(1) [of j] by (simp add: xor_ac)
  then show ?case using Cons.IH Cons.prems by (auto simp: recv_block_def fun_eq_iff)
qed simp

interpretation otpre: slotted_ot op_send op_recv op_ready
proof
  fix S R b len s d m0 m1 assume "op_ready S R b len s"
  then show "\<exists>d'. (\<forall>rest. op_recv R b len s d (op_send S m0 m1 len s @ rest) = Some (d', rest))
      \<and> (\<forall>i<len. d' i = (if b i then m1 i else m0 i))"
    using op_recv_loop_eq [of "[0..<len]" R "s * len" S b d m0 m1] by (simp add: op_ready_def op_recv_def op_send_def Let_def)
qed

text \<open>Correlated data make the transfers ready for the receiver's bits, slot by slot.\<close>

lemma prepared_ready:
  assumes "op_n R = op_n S" and "s * len + len \<le> op_n S"
    and "\<And>i. i < op_n S \<Longrightarrow> op_pre_data R i = CCRH_H ccrh_key (dS i XOR gate_blk (b i) D)"
    and "\<And>i. i < op_n S \<Longrightarrow> op_pre_data S i = CCRH_H ccrh_key (dS i)"
    and "\<And>i. i < op_n S \<Longrightarrow> op_pre_data S (i + op_n S) = CCRH_H ccrh_key (dS i XOR D)"
    and "\<And>i. i < len \<Longrightarrow> c i = b (s * len + i)"
  shows "op_ready S R c len s"
  using assms(2-) by (auto simp: op_ready_def gate_blk_def)

end
