(* ===== verification/Mpcot.thy ===== *)
theory Mpcot
  imports Spcot
begin

text \<open>
  \<^verbatim>\<open>emp-ot/ferret/mpcot_reg.h\<close>: many single-point transfers side by side, one tree per bin of the output, and the consistency
  check over \<open>2 ^ 128\<close> elements.  The trees are divided among the threads, each with a channel of its own; the model runs
  the threads one after the other, which is one of the interleavings (they write to disjoint parts of the output).
\<close>

record MpcotReg =
  mp_threads :: nat
  mp_item_n :: nat
  mp_idx_max :: nat
  mp_tree_height :: nat
  mp_leave_n :: nat
  mp_tree_n :: nat
  mp_consist_check_cot_num :: nat
  mp_is_malicious :: bool
  mp_Delta_f2k :: block
  mp_item_pos_recver :: "nat list"
  mp_pack_base :: "block arr"

definition MpcotReg_new :: "nat \<Rightarrow> nat \<Rightarrow> nat \<Rightarrow> nat \<Rightarrow> MpcotReg \<Rightarrow> MpcotReg" where
  "MpcotReg_new threads n t log_bin_sz heap =
     heap\<lparr>mp_threads := threads, mp_consist_check_cot_num := 128, mp_is_malicious := False, mp_item_n := t, mp_idx_max := n,
       mp_tree_height := log_bin_sz + 1, mp_leave_n := 2 ^ (log_bin_sz + 1 - 1), mp_tree_n := t,
       mp_item_pos_recver := [], mp_pack_base := packing_base_gen (mp_pack_base heap)\<rparr>"

definition set_malicious :: "MpcotReg \<Rightarrow> MpcotReg" where
  "set_malicious st = st\<lparr>mp_is_malicious := True\<rparr>"

definition sender_init :: "block \<Rightarrow> MpcotReg \<Rightarrow> MpcotReg" where
  "sender_init delta st = st\<lparr>mp_Delta_f2k := delta\<rparr>"

definition recver_init :: "MpcotReg \<Rightarrow> MpcotReg" where
  "recver_init st =
     (let pos = mp_item_pos_recver st; n = mp_item_n st
      in st\<lparr>mp_item_pos_recver := take n pos @ replicate (n - length pos) 0\<rparr>)"

definition mpcot_init_sender :: "MpcotReg \<Rightarrow> block arr \<Rightarrow> SPCOT_Sender arr \<Rightarrow> OTPre \<Rightarrow> SPCOT_Sender list \<times> OTPre" where
  "mpcot_init_sender st seeds heap ot =
     (let (senders, ot) = fold (\<lambda>i (senders, ot). (senders @ [SPCOT_Sender_new (mp_tree_height st) (seeds i) (heap i)], choices_sender ot))
            [0..<mp_tree_n st] ([], ot)
      in (senders, op_reset ot))"

definition init_recver_step :: "MpcotReg \<Rightarrow> SPCOT_Recver arr \<Rightarrow> nat \<Rightarrow> SPCOT_Recver list \<times> nat list \<times> OTPre \<Rightarrow> SPCOT_Recver list \<times> nat list \<times> OTPre" where
  "init_recver_step st heap i = (\<lambda>(recvers, pos, ot).
     let r = SPCOT_Recver_new (mp_tree_height st) (heap i);
         (b, ot) = choices_recver (sr_b r) ot;
         (c, r) = get_index (r\<lparr>sr_b := b\<rparr>)
     in (recvers @ [r], pos[i := c], ot))"

definition mpcot_init_recver :: "MpcotReg \<Rightarrow> SPCOT_Recver arr \<Rightarrow> OTPre \<Rightarrow> SPCOT_Recver list \<times> MpcotReg \<times> OTPre" where
  "mpcot_init_recver st heap ot =
     (let (recvers, pos, ot) = fold (init_recver_step st heap) [0..<mp_tree_n st] ([], mp_item_pos_recver st, ot)
      in (recvers, st\<lparr>mp_item_pos_recver := pos\<rparr>, op_reset ot))"

subsection \<open>The trees of all threads\<close>

text \<open>Which channel each tree uses, in the order of the threads.\<close>

definition tree_schedule :: "nat \<Rightarrow> nat \<Rightarrow> (nat \<times> nat) list" where
  "tree_schedule threads tree_n =
     (let width = tree_n div threads
      in concat (map (\<lambda>t. map (Pair t) [t * width..<(t + 1) * width]) [0..<threads - 1]) @ map (Pair (threads - 1)) [(threads - 1) * width..<tree_n])"

type_synonym send_state = "SPCOT_Sender list \<times> block arr \<times> block arr \<times> channel arr"
type_synonym recv_state = "SPCOT_Recver list \<times> block arr \<times> block arr \<times> block arr \<times> channel arr"

definition exec_f2k_sender :: "(bytes \<Rightarrow> bytes) \<Rightarrow> block party_arr \<Rightarrow> MpcotReg \<Rightarrow> OTPre \<Rightarrow> nat \<times> nat \<Rightarrow> send_state \<Rightarrow> send_state" where
  "exec_f2k_sender sha junk st ot = (\<lambda>(io, i) (senders, sparse_vector, VW, ios).
     let a = i * mp_leave_n st;
         s = spcot_send_compute (\<lambda>k. sparse_vector (a + k)) (mp_Delta_f2k st) (senders ! i);
         sparse_vector = at_offset a sparse_vector (ss_ggm_tree s);
         ios = ios(io := ios io @ send_f2k op_send ot i s);
         VW = (if mp_is_malicious st then VW(i := sender_check_msg_gen sha (junk i) s) else VW)
     in (senders[i := s], sparse_vector, VW, ios))"

definition exec_parallel_sender :: "(bytes \<Rightarrow> bytes) \<Rightarrow> block party_arr \<Rightarrow> MpcotReg \<Rightarrow> OTPre \<Rightarrow> send_state \<Rightarrow> send_state" where
  "exec_parallel_sender sha junk st ot = fold (exec_f2k_sender sha junk st ot) (tree_schedule (mp_threads st) (mp_tree_n st))"

definition exec_f2k_recver :: "(bytes \<Rightarrow> bytes) \<Rightarrow> block party_arr \<Rightarrow> MpcotReg \<Rightarrow> OTPre \<Rightarrow> nat \<times> nat \<Rightarrow> recv_state \<Rightarrow> recv_state option" where
  "exec_f2k_recver sha junk st ot = (\<lambda>(io, i) (recvers, sparse_vector, chi_alpha, VW, ios).
     case recv_f2k op_recv ot i (ios io) (recvers ! i) of None \<Rightarrow> None | Some (r, ch) \<Rightarrow>
       (let a = i * mp_leave_n st;
            r = spcot_recv_compute (\<lambda>k. sparse_vector (a + k)) r;
            sparse_vector = at_offset a sparse_vector (sr_ggm_tree r);
            (c, W) = recver_check_msg_gen sha (junk i) r;
            (chi_alpha, VW) = (if mp_is_malicious st then (chi_alpha(i := c), VW(i := W)) else (chi_alpha, VW))
        in Some (recvers[i := r], sparse_vector, chi_alpha, VW, ios(io := ch))))"

fun fold_opt :: "('a \<Rightarrow> 's \<Rightarrow> 's option) \<Rightarrow> 'a list \<Rightarrow> 's \<Rightarrow> 's option" where
  "fold_opt f [] s = Some s"
| "fold_opt f (x # xs) s = (case f x s of None \<Rightarrow> None | Some s \<Rightarrow> fold_opt f xs s)"

definition exec_parallel_recver :: "(bytes \<Rightarrow> bytes) \<Rightarrow> block party_arr \<Rightarrow> MpcotReg \<Rightarrow> OTPre \<Rightarrow> recv_state \<Rightarrow> recv_state option" where
  "exec_parallel_recver sha junk st ot = fold_opt (exec_f2k_recver sha junk st ot) (tree_schedule (mp_threads st) (mp_tree_n st))"

subsection \<open>The consistency check\<close>

definition digest_blocks :: "bytes \<Rightarrow> block arr" where
  "digest_blocks dig = (\<lambda>k. block_of_bytes (take 16 (drop (16 * k) dig)))"

definition mm_extract_epi64 :: "block \<Rightarrow> nat \<Rightarrow> 64 word" where
  "mm_extract_epi64 a i = ucast (drop_bit (64 * i) a)"

definition consistency_check_sender ::
  "(bytes \<Rightarrow> bytes) \<Rightarrow> MpcotReg \<Rightarrow> block arr \<Rightarrow> nat \<Rightarrow> bool arr \<Rightarrow> block arr \<Rightarrow> block arr \<times> block arr" where
  "consistency_check_sender sha st VW num x_prime pre_cot_data =
     (let r1 = vector_self_xor VW num;
          pre_cot_data = fold (\<lambda>i p. if x_prime i then p(i := p i XOR mp_Delta_f2k st) else p) [0..<128] pre_cot_data;
          r2 = packing (mp_pack_base st) pre_cot_data;
          r1 = r1 XOR r2
      in (digest_blocks (hash_once sha (bytes_of_block r1)), pre_cot_data))"

text \<open>The receiver up to its message, and after the sender's.\<close>

definition check_bits :: "block \<Rightarrow> block arr \<Rightarrow> bool arr \<Rightarrow> bool arr" where
  "check_bits r2 pre_cot_data b =
     fold (\<lambda>i b. fst (fold (\<lambda>j (b, pos). (b(i * 64 + j := bxor (pos AND 1 = 1) (getLSB (pre_cot_data (i * 64 + j)))), drop_bit 1 pos))
        [0..<64] (b, mm_extract_epi64 r2 i))) [0..<2] b"

definition consistency_check_recver1 :: "block arr \<Rightarrow> nat \<Rightarrow> block arr \<Rightarrow> bool arr \<Rightarrow> bool arr" where
  "consistency_check_recver1 chi_alpha num pre_cot_data junk = check_bits (vector_self_xor chi_alpha num) pre_cot_data junk"

text \<open>\<open>False\<close>: the message \<^verbatim>\<open>SPCOT consistency check fails\<close> is printed.\<close>

definition consistency_check_recver2 :: "(bytes \<Rightarrow> bytes) \<Rightarrow> MpcotReg \<Rightarrow> block arr \<Rightarrow> nat \<Rightarrow> block arr \<Rightarrow> block arr \<Rightarrow> bool" where
  "consistency_check_recver2 sha st VW num pre_cot_data received =
     (let r1 = vector_self_xor VW num;
          r3 = packing (mp_pack_base st) pre_cot_data;
          r1 = r1 XOR r3
      in cmpBlock (digest_blocks (hash_once sha (bytes_of_block r1))) received 2)"

subsection \<open>Both parties\<close>

text \<open>The uninitialised memory of both parties and the seeds the sender draws.\<close>

record mpcot_mem =
  mm_seeds :: "block arr"
  mm_senders :: "SPCOT_Sender arr"
  mm_recvers :: "SPCOT_Recver arr"
  mm_VWS :: "block arr"
  mm_VWR :: "block arr"
  mm_chi_alpha :: "block arr"
  mm_chiS :: "block party_arr"
  mm_chiR :: "block party_arr"
  mm_bits :: "bool arr"

text \<open>The result: the outputs, the sender's input (which the check changes), the states and what the check found.\<close>

definition run_mpcot ::
  "(bytes \<Rightarrow> bytes) \<Rightarrow> mpcot_mem \<Rightarrow> MpcotReg \<times> OTPre \<times> block arr \<times> block arr \<Rightarrow> MpcotReg \<times> OTPre \<times> block arr \<times> block arr
   \<Rightarrow> ((OTPre \<times> block arr \<times> block arr) \<times> (MpcotReg \<times> OTPre \<times> block arr) \<times> bool) option" where
  "run_mpcot sha mem = (\<lambda>(stS, otS, svS, preS) (stR, otR, svR, preR).
     let (senders, otS) = mpcot_init_sender stS (mm_seeds mem) (mm_senders mem) otS;
         (senders, svS, VWS, ios) = exec_parallel_sender sha (mm_chiS mem) stS otS (senders, svS, mm_VWS mem, \<lambda>_. []);
         (recvers, stR, otR) = mpcot_init_recver stR (mm_recvers mem) otR
     in case exec_parallel_recver sha (mm_chiR mem) stR otR (recvers, svR, mm_chi_alpha mem, mm_VWR mem, ios) of
          None \<Rightarrow> None
        | Some (recvers, svR, chi_alpha, VWR, ios) \<Rightarrow>
            if mp_is_malicious stS \<and> mp_is_malicious stR then
              (let x_prime = consistency_check_recver1 chi_alpha (mp_tree_n stR) preR (mm_bits mem);
                   (dig, preS) = consistency_check_sender sha stS VWS (mp_tree_n stS) x_prime preS;
                   ok = consistency_check_recver2 sha stR VWR (mp_tree_n stR) preR dig
               in Some ((otS, svS, preS), (stR, otR, svR), ok))
            else if mp_is_malicious stS \<or> mp_is_malicious stR then None
            else Some ((otS, svS, preS), (stR, otR, svR), True))"

subsection \<open>Initialisation\<close>

lemma mpcot_init_sender_eq:
  "mpcot_init_sender st seeds heap ot = (map (\<lambda>i. SPCOT_Sender_new (mp_tree_height st) (seeds i) (heap i)) [0..<mp_tree_n st], op_reset ot)"
proof -
  have "fold (\<lambda>i (senders, ot). (senders @ [f i], choices_sender ot)) [0..<n] (l, ot)
      = (l @ map f [0..<n], ot\<lparr>op_count := op_count ot + n * op_length ot\<rparr>)" for f n and l :: "SPCOT_Sender list" and ot
    by (induction n) (simp_all add: choices_sender_def)
  then show ?thesis by (simp add: mpcot_init_sender_def op_reset_def)
qed

definition init_recver :: "MpcotReg \<Rightarrow> SPCOT_Recver arr \<Rightarrow> OTPre \<Rightarrow> nat \<Rightarrow> SPCOT_Recver" where
  "init_recver st heap ot i =
     (let b = (\<lambda>j. if j < op_length ot then op_bits ot (op_count ot + i * op_length ot + j) else sr_b (heap i) j)
      in (SPCOT_Recver_new (mp_tree_height st) (heap i))\<lparr>sr_b := b, sr_choice_pos := punctured b (mp_tree_height st - 1)\<rparr>)"

lemma mpcot_init_recver_eq:
  obtains pos where "mpcot_init_recver st heap ot = (map (init_recver st heap ot) [0..<mp_tree_n st], st\<lparr>mp_item_pos_recver := pos\<rparr>, op_reset ot)"
proof -
  have step: "\<exists>pos'. init_recver_step st heap n (l, pos, ot\<lparr>op_count := op_count ot + n * op_length ot\<rparr>)
      = (l @ [init_recver st heap ot n], pos', ot\<lparr>op_count := op_count ot + Suc n * op_length ot\<rparr>)" for n l pos
    by (simp add: init_recver_step_def init_recver_def SPCOT_Recver_new_def choices_recver_def get_index_eq Let_def add.commute add.left_commute)
  have "\<exists>pos'. fold (init_recver_step st heap) [0..<n] (l, pos, ot)
      = (l @ map (init_recver st heap ot) [0..<n], pos', ot\<lparr>op_count := op_count ot + n * op_length ot\<rparr>)" for n l pos
  proof (induction n)
    case (Suc n)
    then obtain pos' where "fold (init_recver_step st heap) [0..<n] (l, pos, ot)
      = (l @ map (init_recver st heap ot) [0..<n], pos', ot\<lparr>op_count := op_count ot + n * op_length ot\<rparr>)" by blast
    then show ?case using step [of n "l @ map (init_recver st heap ot) [0..<n]" pos'] by simp
  qed simp
  from this [of "mp_tree_n st" "[]" "mp_item_pos_recver st"]
  obtain pos where "fold (init_recver_step st heap) [0..<mp_tree_n st] ([], mp_item_pos_recver st, ot)
      = (map (init_recver st heap ot) [0..<mp_tree_n st], pos, ot\<lparr>op_count := op_count ot + mp_tree_n st * op_length ot\<rparr>)" by auto
  then have "mpcot_init_recver st heap ot = (map (init_recver st heap ot) [0..<mp_tree_n st], st\<lparr>mp_item_pos_recver := pos\<rparr>, op_reset ot)"
    by (simp add: mpcot_init_recver_def op_reset_def)
  then show thesis by (rule that)
qed

subsection \<open>The schedule\<close>

lemma upt_rows: "concat (map (\<lambda>t. [t * w..<(t + 1) * w]) [0..<m]) = [0..<m * w]"
proof (induction m)
  case (Suc m)
  have "[0..<m * w + w] = [0..<m * w] @ [m * w..<m * w + w]" by (rule upt_add_eq_append) simp
  then show ?case using Suc by (simp add: add.commute)
qed simp

lemma schedule_trees:
  assumes "0 < threads"
  shows "map snd (tree_schedule threads n) = [0..<n]"
proof -
  let ?w = "n div threads"
  have "(threads - 1) * ?w \<le> threads * ?w" by simp
  then have "(threads - 1) * ?w \<le> n" using order_trans times_div_less_eq_dividend by blast
  then have "[0..<(threads - 1) * ?w] @ [(threads - 1) * ?w..<n] = [0..<n]" using upt_add_eq_append [of 0 "(threads - 1) * ?w" "n - (threads - 1) * ?w"] by simp
  then show ?thesis
    unfolding tree_schedule_def Let_def map_append map_concat map_map o_def snd_conv map_ident upt_rows .
qed

subsection \<open>The trees\<close>

text \<open>A correlation: the sender's block is even, and the receiver's is the sender's plus its own low bit times the offset.\<close>

definition cot_pair :: "block \<Rightarrow> block \<Rightarrow> block \<Rightarrow> bool" where
  "cot_pair D v w \<longleftrightarrow> \<not> getLSB v \<and> w = v XOR gate_blk (getLSB w) D"

lemma getLSB_xor: "getLSB (a XOR b) = bxor (getLSB a) (getLSB b)"
  by (auto simp: getLSB_bit bit_xor_iff bxor_def)

lemma cot_pairI:
  assumes "getLSB D" and "\<not> getLSB v"
  shows "cot_pair D v (v XOR gate_blk c D)"
  using assms by (cases c) (simp_all add: cot_pair_def getLSB_xor)

lemma cot_pair_xor: "cot_pair D v w \<Longrightarrow> cot_pair D v' w' \<Longrightarrow> cot_pair D (v XOR v') (w XOR w')"
  unfolding cot_pair_def getLSB_xor gate_blk_bxor by (metis bxor_def xor.assoc xor.left_commute)

definition tree_ready :: "nat \<Rightarrow> nat \<Rightarrow> OTPre \<Rightarrow> OTPre \<Rightarrow> SPCOT_Sender \<Rightarrow> SPCOT_Recver \<Rightarrow> nat \<Rightarrow> bool" where
  "tree_ready h L otS otR S R i \<longleftrightarrow> ss_depth S = h \<and> sr_depth R = h \<and> ss_leave_n S = L \<and> sr_leave_n R = L
     \<and> sr_choice_pos R = punctured (sr_b R) (h - 1) \<and> op_ready otS otR (sr_b R) (h - 1) i"

definition regs_ok :: "block \<Rightarrow> nat \<Rightarrow> MpcotReg \<Rightarrow> MpcotReg \<Rightarrow> bool" where
  "regs_ok D h stS stR \<longleftrightarrow> getLSB D \<and> 3 \<le> h \<and> mp_leave_n stS = 2 ^ (h - 1) \<and> mp_leave_n stR = 2 ^ (h - 1)
     \<and> mp_Delta_f2k stS = D \<and> mp_is_malicious stR = mp_is_malicious stS"

lemma exec_tree:
  assumes regs: "regs_ok D h stS stR" and tree: "tree_ready h (2 ^ (h - 1)) otS otR (senders ! i) (recvers ! i) i"
  defines "L \<equiv> 2 ^ (h - 1)" and "mal \<equiv> mp_is_malicious stS"
  obtains S' tS vS msg R' tR c W where
    "\<And>VW ios. exec_f2k_sender sha junk stS otS (io, i) (senders, svS, VW, ios)
        = (senders[i := S'], at_offset (i * L) svS tS, if mal then VW(i := vS) else VW, ios(io := ios io @ msg))"
    and "\<And>chi VW ios rest. ios io = msg @ rest \<Longrightarrow> exec_f2k_recver sha junk' stR otR (io, i) (recvers, svR, chi, VW, ios)
        = Some (recvers[i := R'], at_offset (i * L) svR tR, if mal then chi(i := c) else chi, if mal then VW(i := W) else VW, ios(io := rest))"
    and "\<And>k. k < L \<Longrightarrow> cot_pair D (tS k) (tR k)" and "W = vS XOR gfmul c D"
proof -
  let ?s = "senders ! i" and ?r = "recvers ! i"
  note r = regs [unfolded regs_ok_def] and t = tree [unfolded tree_ready_def]
  let ?S = "spcot_send_compute (\<lambda>k. svS (i * L + k)) D ?s"
  obtain R1 where R1: "\<And>rest. recv_f2k op_recv otR i (send_f2k op_send otS i ?S @ rest) ?r = Some (R1, rest)"
    "\<And>k. k < L \<Longrightarrow> \<not> getLSB (ss_ggm_tree ?S k)"
    "\<And>mem k. k < L \<Longrightarrow> sr_ggm_tree (spcot_recv_compute mem R1) k = ss_ggm_tree ?S k XOR (if k = sr_choice_pos ?r then D else 0)"
    "\<And>mem junk junk'. \<exists>c. recver_check_msg_gen sha junk' (spcot_recv_compute mem R1) = (c, sender_check_msg_gen sha junk ?S XOR gfmul c D)"
    using otpre.single_point [where S = ?s and R = ?r and oS = otS and oR = otR and s = i and memS = "\<lambda>k. svS (i * L + k)" and secret = D and sha = sha] r t
    by (auto simp: L_def)
  let ?R = "spcot_recv_compute (\<lambda>k. svR (i * L + k)) R1"
  obtain c where c: "recver_check_msg_gen sha (junk' i) ?R = (c, sender_check_msg_gen sha (junk i) ?S XOR gfmul c D)"
    using R1(4) by blast
  have pair: "cot_pair D (ss_ggm_tree ?S k) (sr_ggm_tree ?R k)" if "k < L" for k
    using R1(3) [OF that] cot_pairI [of D _ "k = sr_choice_pos ?r"] R1(2) [OF that] r by (simp add: gate_blk_def)
  have send: "exec_f2k_sender sha junk stS otS (io, i) (senders, svS, VW, ios)
        = (senders[i := ?S], at_offset (i * L) svS (ss_ggm_tree ?S), if mal then VW(i := sender_check_msg_gen sha (junk i) ?S) else VW,
           ios(io := ios io @ send_f2k op_send otS i ?S))" for VW ios
    using r by (simp add: exec_f2k_sender_def Let_def L_def mal_def)
  have recv: "exec_f2k_recver sha junk' stR otR (io, i) (recvers, svR, chi, VW, ios)
        = Some (recvers[i := ?R], at_offset (i * L) svR (sr_ggm_tree ?R), if mal then chi(i := c) else chi,
            if mal then VW(i := sender_check_msg_gen sha (junk i) ?S XOR gfmul c D) else VW, ios(io := rest))"
    if "ios io = send_f2k op_send otS i ?S @ rest" for chi VW ios rest
  proof -
    have "mp_is_malicious stR = mal" "mp_leave_n stR = L" using r by (simp_all add: mal_def L_def)
    then show ?thesis using that R1(1) [of rest] c by (simp add: exec_f2k_recver_def Let_def)
  qed
  show thesis by (rule that [OF send recv pair refl])
qed

definition trees_done :: "block \<Rightarrow> nat \<Rightarrow> bool \<Rightarrow> nat set \<Rightarrow> block arr \<times> block arr \<Rightarrow> block arr \<times> block arr \<Rightarrow> block arr \<Rightarrow> bool" where
  "trees_done D L mal I sv VW chi \<longleftrightarrow> (\<forall>i\<in>I. (\<forall>k<L. cot_pair D (fst sv (i * L + k)) (snd sv (i * L + k)))
     \<and> (mal \<longrightarrow> snd VW i = fst VW i XOR gfmul (chi i) D))"

text \<open>All trees of a schedule, in the order of their positions; earlier parts of the outputs are left alone.\<close>

lemma exec_trees:
  assumes regs: "regs_ok D h stS stR" and "sorted_wrt (<) (map snd ps)"
    and "\<forall>i\<in>snd ` set ps. i < length senders \<and> i < length recvers \<and> tree_ready h (2 ^ (h - 1)) otS otR (senders ! i) (recvers ! i) i"
  shows "\<exists>senders' svS' VWS' out recvers' svR' chi' VWR'.
     (\<forall>ios. fold (exec_f2k_sender sha junk stS otS) ps (senders, svS, VWS, ios) = (senders', svS', VWS', \<lambda>io. ios io @ out io))
   \<and> (\<forall>rest. fold_opt (exec_f2k_recver sha junk' stR otR) ps (recvers, svR, chi, VWR, \<lambda>io. out io @ rest io) = Some (recvers', svR', chi', VWR', rest))
   \<and> trees_done D (2 ^ (h - 1)) (mp_is_malicious stS) (snd ` set ps) (svS', svR') (VWS', VWR') chi'
   \<and> (\<forall>k. (\<forall>i\<in>snd ` set ps. k < i * 2 ^ (h - 1)) \<longrightarrow> svS' k = svS k \<and> svR' k = svR k)
   \<and> (\<forall>i. i \<notin> snd ` set ps \<longrightarrow> VWS' i = VWS i \<and> VWR' i = VWR i \<and> chi' i = chi i)"
  using assms(2,3)
proof (induction ps arbitrary: senders svS VWS recvers svR chi VWR)
  case Nil
  show ?case by (intro exI [of _ senders] exI [of _ svS] exI [of _ VWS] exI [of _ "\<lambda>_. []"] exI [of _ recvers] exI [of _ svR] exI [of _ chi] exI [of _ VWR])
    (simp add: trees_done_def)
next
  case (Cons p ps)
  obtain io i where p: "p = (io, i)" by fastforce
  let ?L = "2 ^ (h - 1)" and ?mal = "mp_is_malicious stS"
  have i: "i < length senders" "i < length recvers" "tree_ready h ?L otS otR (senders ! i) (recvers ! i) i"
    using Cons.prems(2) by (simp_all add: p)
  have later: "i < j" if "j \<in> snd ` set ps" for j using Cons.prems(1) that by (auto simp: p)
  show ?case
  proof (rule exec_tree [OF regs i(3), where sha = sha and junk = junk and junk' = junk' and svS = svS and svR = svR and io = io])
    fix S' tS vS msg R' tR c W
    assume step:
    "\<And>VW ios. exec_f2k_sender sha junk stS otS (io, i) (senders, svS, VW, ios)
        = (senders[i := S'], at_offset (i * ?L) svS tS, if ?mal then VW(i := vS) else VW, ios(io := ios io @ msg))"
    "\<And>chi VW ios rest. ios io = msg @ rest \<Longrightarrow> exec_f2k_recver sha junk' stR otR (io, i) (recvers, svR, chi, VW, ios)
        = Some (recvers[i := R'], at_offset (i * ?L) svR tR, if ?mal then chi(i := c) else chi, if ?mal then VW(i := W) else VW, ios(io := rest))"
    "\<And>k. k < ?L \<Longrightarrow> cot_pair D (tS k) (tR k)" "W = vS XOR gfmul c D"
    have sorted: "sorted_wrt (<) (map snd ps)" using Cons.prems(1) by simp
    have ready: "\<forall>j\<in>snd ` set ps. j < length (senders[i := S']) \<and> j < length (recvers[i := R']) \<and> tree_ready h ?L otS otR (senders[i := S'] ! j) (recvers[i := R'] ! j) j"
      using Cons.prems(2) later by fastforce
    obtain senders' svS' VWS' out recvers' svR' chi' VWR' where IH0:
      "\<forall>ios. fold (exec_f2k_sender sha junk stS otS) ps (senders[i := S'], at_offset (i * ?L) svS tS, if ?mal then VWS(i := vS) else VWS, ios)
         = (senders', svS', VWS', \<lambda>io. ios io @ out io)"
      "\<forall>rest. fold_opt (exec_f2k_recver sha junk' stR otR) ps (recvers[i := R'], at_offset (i * ?L) svR tR, if ?mal then chi(i := c) else chi,
          if ?mal then VWR(i := W) else VWR, \<lambda>io. out io @ rest io) = Some (recvers', svR', chi', VWR', rest)"
      "trees_done D ?L ?mal (snd ` set ps) (svS', svR') (VWS', VWR') chi'"
      "\<forall>k. (\<forall>i\<in>snd ` set ps. k < i * ?L) \<longrightarrow> svS' k = at_offset (i * ?L) svS tS k \<and> svR' k = at_offset (i * ?L) svR tR k"
      "\<forall>j. j \<notin> snd ` set ps \<longrightarrow> VWS' j = (if ?mal then VWS(i := vS) else VWS) j \<and> VWR' j = (if ?mal then VWR(i := W) else VWR) j
          \<and> chi' j = (if ?mal then chi(i := c) else chi) j"
      using Cons.IH [where senders = "senders[i := S']" and recvers = "recvers[i := R']" and svS = "at_offset (i * ?L) svS tS" and svR = "at_offset (i * ?L) svR tR"
          and VWS = "if ?mal then VWS(i := vS) else VWS" and VWR = "if ?mal then VWR(i := W) else VWR" and chi = "if ?mal then chi(i := c) else chi", OF sorted ready]
      by (elim exE conjE) (rule that)
    note IH = IH0 [rule_format]
    have "\<forall>ios. fold (exec_f2k_sender sha junk stS otS) (p # ps) (senders, svS, VWS, ios) = (senders', svS', VWS', \<lambda>io'. ios io' @ (out(io := msg @ out io)) io')"
      using step(1) IH(1) by (auto simp: p)
    moreover have "\<forall>rest. fold_opt (exec_f2k_recver sha junk' stR otR) (p # ps) (recvers, svR, chi, VWR, \<lambda>io'. (out(io := msg @ out io)) io' @ rest io')
        = Some (recvers', svR', chi', VWR', rest)"
    proof
      fix rest
      let ?ios = "\<lambda>io'. (out(io := msg @ out io)) io' @ rest io'"
      have "?ios(io := out io @ rest io) = (\<lambda>io. out io @ rest io)" by auto
      then show "fold_opt (exec_f2k_recver sha junk' stR otR) (p # ps) (recvers, svR, chi, VWR, ?ios) = Some (recvers', svR', chi', VWR', rest)"
        using step(2) [of ?ios "out io @ rest io"] IH(2) by (simp add: p)
    qed
    moreover have frame: "svS' k = at_offset (i * ?L) svS tS k \<and> svR' k = at_offset (i * ?L) svR tR k" if "k < (i + 1) * ?L" for k
    proof (rule IH(4))
      fix j assume "j \<in> snd ` set ps"
      then have "(i + 1) * ?L \<le> j * ?L" using later [of j] by (intro mult_right_mono) auto
      then show "k < j * ?L" using that by simp
    qed
    have "trees_done D ?L ?mal (snd ` set (p # ps)) (svS', svR') (VWS', VWR') chi'"
    proof -
      have "cot_pair D (svS' (i * ?L + k)) (svR' (i * ?L + k))" if "k < ?L" for k
        using frame [of "i * ?L + k"] step(3) [OF that] that by (simp add: at_offset_def)
      moreover have "i \<notin> snd ` set ps" using later by blast
      ultimately show ?thesis using IH(3,5) step(4) by (auto simp: trees_done_def p)
    qed
    moreover have "\<forall>k. (\<forall>j\<in>snd ` set (p # ps). k < j * ?L) \<longrightarrow> svS' k = svS k \<and> svR' k = svR k"
      using frame by (auto simp: p at_offset_def)
    moreover have "\<forall>j. j \<notin> snd ` set (p # ps) \<longrightarrow> VWS' j = VWS j \<and> VWR' j = VWR j \<and> chi' j = chi j"
      using IH(5) by (auto simp: p)
    ultimately show ?case by blast
  qed
qed

subsection \<open>The check passes\<close>

lemma shift_bits:
  "fold (\<lambda>j (b, pos). (b(a + j := bxor (pos AND 1 = 1) (f j)), drop_bit 1 pos)) [0..<n] (b, pos :: 64 word)
     = (\<lambda>k. if a \<le> k \<and> k < a + n then bxor (bit pos (k - a)) (f (k - a)) else b k, drop_bit n pos)"
proof (induction n)
  case (Suc n)
  have "(drop_bit n pos AND 1 = 1) = bit pos n" by (simp add: and_one_eq bit_iff_odd_drop_bit odd_iff_mod_2_eq_one)
  moreover have "drop_bit 1 (drop_bit n pos) = drop_bit (Suc n) pos" by (simp only: drop_bit_drop_bit add.commute plus_1_eq_Suc)
  ultimately show ?case
    unfolding upt_Suc_append [OF le0] fold_append o_apply Suc fold_simps prod.case by (auto simp: fun_eq_iff simp del: drop_bit_Suc drop_bit_drop_bit)
qed auto

lemma check_bits_eq:
  assumes "k < 128"
  shows "check_bits r2 pre b k = bxor (bit r2 k) (getLSB (pre k))"
proof -
  have "bit (mm_extract_epi64 r2 i) n = (n < 64 \<and> bit r2 (64 * i + n))" for i n
    by (simp add: mm_extract_epi64_def bit_ucast_iff bit_drop_bit_eq)
  moreover have "[0..<2] = [0, 1 :: nat]" by (simp add: upt_rec)
  ultimately show ?thesis
    using assms unfolding check_bits_def shift_bits by auto
qed

lemma add_delta_eq:
  "fold (\<lambda>i p. if x i then p(i := p i XOR D) else p) [0..<n] p k = (if k < n then p k XOR gate_blk (x k) D else p k :: block)"
  by (induction n arbitrary: k) (auto simp: gate_blk_def less_Suc_eq)

lemma shift_pair: "w = v XOR gate_blk l D \<Longrightarrow> v XOR gate_blk (bxor x l) D = w XOR gate_blk x D"
  by (simp add: gate_blk_bxor xor_ac)

lemma consistency_check_passes:
  assumes "\<And>k. k < 128 \<Longrightarrow> cot_pair D (preS k) (preR k)" and "\<And>i. i < num \<Longrightarrow> VWR i = VWS i XOR gfmul (chi i) D"
    and "mp_Delta_f2k stS = D" and "mp_pack_base stS = packing_base_gen base" and "mp_pack_base stR = packing_base_gen base'"
  obtains dig preS' where "consistency_check_sender sha stS VWS num (consistency_check_recver1 chi num preR junk) preS = (dig, preS')"
    and "consistency_check_recver2 sha stR VWR num preR dig" and "\<And>k. 128 \<le> k \<Longrightarrow> preS' k = preS k"
proof -
  let ?X = "xsum chi [0..<num]"
  let ?pre = "fold (\<lambda>i p. if consistency_check_recver1 chi num preR junk i then p(i := p i XOR D) else p) [0..<128] preS"
  have "?pre k = preR k XOR gate_blk (bit ?X k) D" if "k < 128" for k
  proof -
    have "preR k = preS k XOR gate_blk (getLSB (preR k)) D" using assms(1) [OF that] by (simp add: cot_pair_def)
    then have "preS k XOR gate_blk (bxor (bit ?X k) (getLSB (preR k))) D = preR k XOR gate_blk (bit ?X k) D" by (rule shift_pair)
    moreover have "consistency_check_recver1 chi num preR junk k = bxor (bit ?X k) (getLSB (preR k))"
      unfolding consistency_check_recver1_def vector_self_xor_eq by (rule check_bits_eq [OF that])
    ultimately show ?thesis
      unfolding add_delta_eq using that by simp
  qed
  then have "packing (mp_pack_base stS) ?pre = xsum (\<lambda>k. gfmul (preR k XOR gate_blk (bit ?X k) D) (unit_at k)) [0..<128]"
    unfolding assms(4) packing_eq by (intro xsum_cong refl arg_cong2 [where f = gfmul]) simp
  also have "\<dots> = packing (mp_pack_base stR) preR XOR gfmul ?X D"
    unfolding assms(5) packing_eq gfmul_xor xsum_xor packing_gates ..
  finally have pack: "packing (mp_pack_base stS) ?pre = packing (mp_pack_base stR) preR XOR gfmul ?X D" .
  have "vector_self_xor VWR num = xsum (\<lambda>i. VWS i XOR gfmul (chi i) D) [0..<num]"
    unfolding vector_self_xor_eq by (intro xsum_cong refl) (simp add: assms(2))
  also have "\<dots> = vector_self_xor VWS num XOR gfmul ?X D"
    unfolding vector_self_xor_eq xsum_xor gfmul_xsum ..
  finally have same: "vector_self_xor VWS num XOR packing (mp_pack_base stS) ?pre = vector_self_xor VWR num XOR packing (mp_pack_base stR) preR"
    unfolding pack by (simp add: xor_ac)
  let ?dig = "digest_blocks (hash_once sha (bytes_of_block (vector_self_xor VWR num XOR packing (mp_pack_base stR) preR)))"
  have "consistency_check_sender sha stS VWS num (consistency_check_recver1 chi num preR junk) preS = (?dig, ?pre)"
    unfolding consistency_check_sender_def Let_def assms(3) same ..
  moreover have "consistency_check_recver2 sha stR VWR num preR ?dig"
    by (simp add: consistency_check_recver2_def Let_def cmpBlock_iff)
  moreover have "?pre k = preS k" if "128 \<le> k" for k using that unfolding add_delta_eq by simp
  ultimately show thesis by (rule that)
qed

subsection \<open>Multi-point transfers\<close>

text \<open>The transfers hold the hashes of correlated blocks, for the receiver's bits.\<close>

definition prepared :: "block \<Rightarrow> nat \<Rightarrow> nat \<Rightarrow> OTPre \<Rightarrow> OTPre \<Rightarrow> bool" where
  "prepared D len t S R \<longleftrightarrow> op_length R = len \<and> op_count R = 0 \<and> op_n S = len * t \<and> op_n R = len * t
     \<and> (\<exists>d. \<forall>i<len * t. op_pre_data R i = CCRH_H ccrh_key (d i XOR gate_blk (op_bits R i) D)
          \<and> op_pre_data S i = CCRH_H ccrh_key (d i) \<and> op_pre_data S (i + op_n S) = CCRH_H ccrh_key (d i XOR D))"

lemma init_ready:
  assumes "prepared D (h - 1) t otS otR" and "i < t" and "mp_tree_height stR = h"
  shows "tree_ready h (2 ^ (h - 1)) (op_reset otS) (op_reset otR) (SPCOT_Sender_new h sd hS) (init_recver stR heap otR i) i"
proof -
  obtain d where d: "\<And>j. j < op_n otS \<Longrightarrow> op_pre_data otR j = CCRH_H ccrh_key (d j XOR gate_blk (op_bits otR j) D)"
    "\<And>j. j < op_n otS \<Longrightarrow> op_pre_data otS j = CCRH_H ccrh_key (d j)"
    "\<And>j. j < op_n otS \<Longrightarrow> op_pre_data otS (j + op_n otS) = CCRH_H ccrh_key (d j XOR D)"
    and n: "op_n otR = op_n otS" "op_n otS = (h - 1) * t" "op_length otR = h - 1" "op_count otR = 0"
    using assms(1) by (auto simp: prepared_def)
  have "(i + 1) * (h - 1) \<le> t * (h - 1)" using assms(2) by (intro mult_right_mono) auto
  then have fits: "i * (h - 1) + (h - 1) \<le> op_n otS" by (simp add: n(2) mult.commute [of t] add.commute)
  have "op_ready otS otR (sr_b (init_recver stR heap otR i)) (h - 1) i"
    by (rule prepared_ready [where b = "op_bits otR", OF n(1) fits d]) (simp_all add: init_recver_def n Let_def)
  then have "op_ready (op_reset otS) (op_reset otR) (sr_b (init_recver stR heap otR i)) (h - 1) i"
    by (simp add: op_ready_def op_reset_def)
  then show ?thesis using assms(3) by (simp add: tree_ready_def SPCOT_Sender_new_def init_recver_def SPCOT_Recver_new_def Let_def)
qed

definition mpcot_regs :: "block \<Rightarrow> nat \<Rightarrow> nat \<Rightarrow> MpcotReg \<Rightarrow> MpcotReg \<Rightarrow> bool" where
  "mpcot_regs D h t stS stR \<longleftrightarrow> regs_ok D h stS stR \<and> mp_tree_height stS = h \<and> mp_tree_height stR = h \<and> mp_tree_n stS = t \<and> mp_tree_n stR = t
     \<and> 0 < mp_threads stS \<and> mp_threads stR = mp_threads stS
     \<and> (\<exists>b. mp_pack_base stS = packing_base_gen b) \<and> (\<exists>b. mp_pack_base stR = packing_base_gen b)"

lemma run_mpcot_ok:
  assumes regs: "mpcot_regs D h t stS stR" and ots: "prepared D (h - 1) t otS otR"
    and pre: "\<And>k. mp_is_malicious stS \<Longrightarrow> k < 128 \<Longrightarrow> cot_pair D (preS k) (preR k)"
  obtains svS' preS' pos svR' where
    "run_mpcot sha mem (stS, otS, svS, preS) (stR, otR, svR, preR)
       = Some ((op_reset otS, svS', preS'), (stR\<lparr>mp_item_pos_recver := pos\<rparr>, op_reset otR, svR'), True)"
    and "\<And>k. k < t * 2 ^ (h - 1) \<Longrightarrow> cot_pair D (svS' k) (svR' k)" and "\<And>k. 128 \<le> k \<Longrightarrow> preS' k = preS k"
proof -
  note r = regs [unfolded mpcot_regs_def]
  obtain pos where initR: "mpcot_init_recver stR (mm_recvers mem) otR
      = (map (init_recver stR (mm_recvers mem) otR) [0..<t], stR\<lparr>mp_item_pos_recver := pos\<rparr>, op_reset otR)"
    using r by (metis mpcot_init_recver_eq)
  let ?S = "map (\<lambda>i. SPCOT_Sender_new h (mm_seeds mem i) (mm_senders mem i)) [0..<t]" and ?R = "map (init_recver stR (mm_recvers mem) otR) [0..<t]"
  let ?stR = "stR\<lparr>mp_item_pos_recver := pos\<rparr>" and ?ps = "tree_schedule (mp_threads stS) t"
  have initS: "mpcot_init_sender stS (mm_seeds mem) (mm_senders mem) otS = (?S, op_reset otS)" using r by (simp add: mpcot_init_sender_eq)
  have ps: "map snd ?ps = [0..<t]" using r by (intro schedule_trees) simp
  then have ps': "snd ` set ?ps = {0..<t}" by (metis image_set set_upt)
  have regs': "regs_ok D h stS ?stR" using r by (simp add: regs_ok_def)
  have sorted: "sorted_wrt (<) (map snd ?ps)" unfolding ps by simp
  have ready: "\<forall>i\<in>snd ` set ?ps. i < length ?S \<and> i < length ?R \<and> tree_ready h (2 ^ (h - 1)) (op_reset otS) (op_reset otR) (?S ! i) (?R ! i) i"
    unfolding ps' using init_ready [OF ots] r by simp
  obtain senders svS' VWS out recvers svR' chi VWR where run:
    "\<forall>ios. fold (exec_f2k_sender sha (mm_chiS mem) stS (op_reset otS)) ?ps (?S, svS, mm_VWS mem, ios) = (senders, svS', VWS, \<lambda>io. ios io @ out io)"
    "\<forall>rest. fold_opt (exec_f2k_recver sha (mm_chiR mem) ?stR (op_reset otR)) ?ps (?R, svR, mm_chi_alpha mem, mm_VWR mem, \<lambda>io. out io @ rest io)
       = Some (recvers, svR', chi, VWR, rest)"
    "trees_done D (2 ^ (h - 1)) (mp_is_malicious stS) (snd ` set ?ps) (svS', svR') (VWS, VWR) chi"
    using exec_trees [OF regs' sorted ready, where sha = sha and junk = "mm_chiS mem" and junk' = "mm_chiR mem" and svS = svS and svR = svR
        and VWS = "mm_VWS mem" and VWR = "mm_VWR mem" and chi = "mm_chi_alpha mem"]
    by (elim exE conjE) (rule that)
  have send: "exec_parallel_sender sha (mm_chiS mem) stS (op_reset otS) (?S, svS, mm_VWS mem, \<lambda>_. []) = (senders, svS', VWS, out)"
    using run(1) [THEN spec, of "\<lambda>_. []"] r by (simp add: exec_parallel_sender_def)
  have recv: "exec_parallel_recver sha (mm_chiR mem) ?stR (op_reset otR) (?R, svR, mm_chi_alpha mem, mm_VWR mem, out) = Some (recvers, svR', chi, VWR, \<lambda>_. [])"
    using run(2) [THEN spec, of "\<lambda>_. []"] r by (simp add: exec_parallel_recver_def)
  have corr: "cot_pair D (svS' k) (svR' k)" if "k < t * 2 ^ (h - 1)" for k
  proof -
    have "k div 2 ^ (h - 1) < t" using that by (simp add: less_mult_imp_div_less)
    moreover have "k div 2 ^ (h - 1) * 2 ^ (h - 1) + k mod 2 ^ (h - 1) = k" "k mod 2 ^ (h - 1) < 2 ^ (h - 1)" by (simp_all only: div_mult_mod_eq) simp
    ultimately show ?thesis using run(3) unfolding trees_done_def ps' by (metis atLeastLessThan_iff fst_conv le0 snd_conv)
  qed
  show thesis
  proof (cases "mp_is_malicious stS")
    case False
    then have "run_mpcot sha mem (stS, otS, svS, preS) (stR, otR, svR, preR) = Some ((op_reset otS, svS', preS), (?stR, op_reset otR, svR'), True)"
      using r initS initR send recv by (simp add: run_mpcot_def regs_ok_def)
    then show thesis using corr by (rule that) simp_all
  next
    case True
    have VW: "VWR i = VWS i XOR gfmul (chi i) D" if "i < t" for i using run(3) that True unfolding trees_done_def ps' by simp
    obtain bS bR where b: "mp_pack_base stS = packing_base_gen bS" "mp_pack_base ?stR = packing_base_gen bR" "mp_Delta_f2k stS = D"
      using r by (auto simp: regs_ok_def)
    obtain dig preS' where c: "consistency_check_sender sha stS VWS t (consistency_check_recver1 chi t preR (mm_bits mem)) preS = (dig, preS')"
      "consistency_check_recver2 sha ?stR VWR t preR dig" "\<And>k. 128 \<le> k \<Longrightarrow> preS' k = preS k"
      using consistency_check_passes [where D = D and preS = preS and preR = preR and VWR = VWR and VWS = VWS and chi = chi and num = t
          and stS = stS and stR = ?stR and sha = sha and junk = "mm_bits mem", OF pre [OF True] VW b(3,1,2)] by blast
    have "run_mpcot sha mem (stS, otS, svS, preS) (stR, otR, svR, preR) = Some ((op_reset otS, svS', preS'), (?stR, op_reset otR, svR'), True)"
      using r True initS initR send recv c by (simp add: run_mpcot_def regs_ok_def)
    then show thesis using corr c(3) by (rule that)
  qed
qed

end
