(* ===== verification/Lpn.thy ===== *)
theory Lpn
  imports Cipher
begin

text \<open>
  \<^verbatim>\<open>emp-ot/ferret/lpn_f2.h\<close>: the local linear code that turns sparse correlations into random-looking ones.  Every output
  gets the sum of \<open>d = 10\<close> inputs, at positions both parties derive from the same seed.  The tasks of the threads write to disjoint
  ranges of the output and are run one after the other.
\<close>

record LpnF2 =
  lp_n :: nat
  lp_k :: nat
  lp_mask :: nat
  lp_threads :: nat
  lp_seed :: block

text \<open>The loop of the constructor, on 32-bit signed integers; \<open>None\<close> if it does not end.\<close>

partial_function (option) lpn_mask_loop :: "32 word \<Rightarrow> 32 word \<Rightarrow> 32 word option" where
  "lpn_mask_loop k m = (if m <s k then lpn_mask_loop k (push_bit 1 m OR 1) else Some m)"

definition LpnF2_new :: "nat \<Rightarrow> nat \<Rightarrow> nat \<Rightarrow> block \<Rightarrow> LpnF2 option" where
  "LpnF2_new n k threads seed_junk =
     (case lpn_mask_loop (of_nat k) 1 of None \<Rightarrow> None
      | Some m \<Rightarrow> Some \<lparr>lp_n = n, lp_k = k, lp_mask = unat m, lp_threads = threads, lp_seed = seed_junk\<rparr>)"

text \<open>Word \<open>q\<close> of an array of blocks read as \<^verbatim>\<open>uint32_t\<close>.\<close>

definition lpn_word :: "block list \<Rightarrow> nat \<Rightarrow> 32 word" where
  "lpn_word tmp q = ucast (lane32 (tmp ! (q div 4)) (q mod 4))"

definition lpn_index4 :: "LpnF2 \<Rightarrow> 32 word \<Rightarrow> nat" where
  "lpn_index4 st r = (let index = unat (r AND of_nat (lp_mask st)) in if index \<ge> lp_k st then index - lp_k st else index)"

definition lpn_compute4 :: "AES_KEY \<Rightarrow> LpnF2 \<Rightarrow> block arr \<Rightarrow> nat \<Rightarrow> block arr \<Rightarrow> block arr" where
  "lpn_compute4 aes st kk i nn =
     (let tmp = AES_ecb_encrypt_blks aes (map (\<lambda>m. makeBlock (of_nat i) (of_nat m)) [0..<10])
      in fold (\<lambda>m nn. fold (\<lambda>j nn. nn(i + m := nn (i + m) XOR kk (lpn_index4 st (lpn_word tmp (10 * m + j))))) [0..<10] nn) [0..<4] nn)"

definition lpn_compute1 :: "AES_KEY \<Rightarrow> LpnF2 \<Rightarrow> block arr \<Rightarrow> nat \<Rightarrow> block arr \<Rightarrow> block arr" where
  "lpn_compute1 aes st kk i nn =
     (let nr_blocks = 10 div 4 + of_bool (10 mod 4 \<noteq> (0 :: nat));
          tmp = permute_block aes (map (\<lambda>m. makeBlock (of_nat i) (of_nat m)) [0..<nr_blocks])
      in fold (\<lambda>j nn. nn(i := nn i XOR kk (unat (lpn_word tmp j) mod lp_k st))) [0..<10] nn)"

text \<open>The first loop of \<^verbatim>\<open>task\<close>, with the counter it leaves behind.\<close>

function lpn_task4 :: "AES_KEY \<Rightarrow> LpnF2 \<Rightarrow> block arr \<Rightarrow> nat \<Rightarrow> nat \<Rightarrow> block arr \<Rightarrow> nat \<times> block arr" where
  "lpn_task4 aes st kk e j nn = (if j + 4 < e then lpn_task4 aes st kk e (j + 4) (lpn_compute4 aes st kk j nn) else (j, nn))"
  by pat_completeness auto
termination by (relation "measure (\<lambda>(aes, st, kk, e, j, nn). e - j)") auto

declare lpn_task4.simps [simp del]

definition lpn_task :: "LpnF2 \<Rightarrow> block arr \<Rightarrow> nat \<Rightarrow> nat \<Rightarrow> block arr \<Rightarrow> block arr" where
  "lpn_task st kk start e nn =
     (let prp = PRP_key (lp_seed st);
          (j, nn) = lpn_task4 prp st kk e start nn
      in fold (lpn_compute1 prp st kk) [j..<e] nn)"

definition lpn_bench :: "LpnF2 \<Rightarrow> block arr \<Rightarrow> block arr \<Rightarrow> block arr" where
  "lpn_bench st kk nn =
     (let n = lp_n st; threads = lp_threads st; width = n div threads;
          nn = fold (\<lambda>i nn. lpn_task st kk (i * width) (min ((i + 1) * width) n) nn) [0..<threads - 1] nn
      in lpn_task st kk ((threads - 1) * width) (min (threads * width) n) nn)"

text \<open>\<open>seed\<close>: drawn by the sender, sent to the receiver.\<close>

definition lpn_compute :: "block \<Rightarrow> block arr \<Rightarrow> block arr \<Rightarrow> LpnF2 \<Rightarrow> block arr \<times> LpnF2" where
  "lpn_compute seed kk nn st = (let st = st\<lparr>lp_seed := seed\<rparr> in (lpn_bench st kk nn, st))"

subsection \<open>The mask\<close>

abbreviation ones :: "nat \<Rightarrow> 32 word" where
  "ones j \<equiv> mask j"

lemma ones_step: "push_bit 1 (ones j) OR 1 = ones (Suc j)"
  by (simp add: mask_Suc_double or.commute mult.commute)

lemma ones_value:
  assumes "j \<le> 31"
  shows "sint (ones j) = 2 ^ j - 1" and "unat (ones j) = 2 ^ j - 1"
proof -
  have u: "uint (ones j) = 2 ^ j - 1" using assms unfolding uint_mask_eq by (simp add: mask_eq_exp_minus_1)
  have "(2 :: int) ^ j \<le> 2 ^ 31" using assms by (intro power_increasing) simp_all
  moreover have "- 2147483648 < (2 :: int) ^ j" by (rule less_trans [of _ 0]) simp_all
  ultimately show "sint (ones j) = 2 ^ j - 1"
    unfolding sint_uint u by (intro signed_take_bit_int_eq_self) simp_all
  show "unat (ones j) = 2 ^ j - 1" using u by (simp add: unat_eq_nat_uint nat_diff_distrib nat_power_eq)
qed

lemma mask_loop:
  assumes "1 \<le> j" and "j \<le> 31" and "j = 1 \<or> 2 ^ (j - 1) \<le> sint k"
  shows "\<exists>j'. 1 \<le> j' \<and> j' \<le> 31 \<and> lpn_mask_loop k (ones j) = Some (ones j') \<and> sint k \<le> 2 ^ j' - 1 \<and> (j' = 1 \<or> 2 ^ (j' - 1) \<le> sint k)"
  using assms
proof (induction "31 - j" arbitrary: j)
  case 0
  then have j: "j = 31" by simp
  moreover have "sint k < 2 ^ 31" using sint_lt [of k] by simp
  ultimately show ?case using 0 ones_value [of 31] by (intro exI [of _ 31]) (simp add: lpn_mask_loop.simps word_sless_alt)
next
  case (Suc n)
  show ?case
  proof (cases "ones j <s k")
    case True
    have "2 ^ j \<le> sint k" using True ones_value [of j] Suc.prems by (simp add: word_sless_alt)
    then show ?thesis
      using Suc.hyps(1) [of "Suc j"] Suc.hyps(2) Suc.prems True unfolding lpn_mask_loop.simps [of k "ones j"] ones_step by simp
  next
    case False
    then have "sint k \<le> 2 ^ j - 1" using ones_value [of j] Suc.prems by (simp add: word_sless_alt)
    then show ?thesis using False Suc.prems by (intro exI [of _ j]) (simp add: lpn_mask_loop.simps)
  qed
qed

text \<open>
  C22.  The loop that computes the index mask ends for every 32-bit \<open>k\<close>: it stops at the smallest \<open>2 ^ j - 1\<close> (with \<open>j\<close> at least 1 and
  at most 31) that is not below \<open>k\<close>, before the shift can leave the positive integers.
\<close>

theorem lpn_mask_terminates:
  "\<exists>j. 1 \<le> j \<and> j \<le> 31 \<and> lpn_mask_loop k 1 = Some (2 ^ j - 1) \<and> sint k \<le> 2 ^ j - 1 \<and> (j = 1 \<or> 2 ^ (j - 1) \<le> sint k)"
  using mask_loop [of 1 k] by (simp add: mask_eq_exp_minus_1)

subsection \<open>A local code\<close>

text \<open>\<open>f\<close> adds to every output from \<open>lo\<close> to \<open>hi\<close> ten of the first \<open>k\<close> inputs, at fixed positions, and leaves the others alone.\<close>

definition local_code :: "nat \<Rightarrow> nat \<Rightarrow> nat \<Rightarrow> (block arr \<Rightarrow> block arr \<Rightarrow> block arr) \<Rightarrow> bool" where
  "local_code k lo hi f \<longleftrightarrow> (\<exists>row. (\<forall>p. if lo \<le> p \<and> p < hi then length (row p) = 10 \<and> set (row p) \<subseteq> {..<k} else row p = [])
     \<and> (\<forall>kk nn. f kk nn = (\<lambda>p. nn p XOR xsum kk (row p))))"

lemma local_codeI:
  assumes "\<And>p. if lo \<le> p \<and> p < hi then length (row p) = 10 \<and> set (row p) \<subseteq> {..<k} else row p = []"
    and "\<And>kk nn. f kk nn = (\<lambda>p. nn p XOR xsum kk (row p))"
  shows "local_code k lo hi f"
  unfolding local_code_def using assms by (intro exI [of _ row] conjI allI)

lemma local_code_empty [simp]: "hi \<le> lo \<Longrightarrow> local_code k lo hi (\<lambda>kk nn. nn)"
  unfolding local_code_def by (intro exI [of _ "\<lambda>_. []"]) auto

lemma local_code_comp:
  assumes "local_code k lo mid f" and "local_code k mid hi g" and "lo \<le> mid" and "mid \<le> hi"
  shows "local_code k lo hi (\<lambda>kk nn. g kk (f kk nn))"
proof -
  obtain r where r: "\<And>p. if lo \<le> p \<and> p < mid then length (r p) = 10 \<and> set (r p) \<subseteq> {..<k} else r p = []"
    "\<And>kk nn. f kk nn = (\<lambda>p. nn p XOR xsum kk (r p))" using assms(1) unfolding local_code_def by blast
  obtain s where s: "\<And>p. if mid \<le> p \<and> p < hi then length (s p) = 10 \<and> set (s p) \<subseteq> {..<k} else s p = []"
    "\<And>kk nn. g kk nn = (\<lambda>p. nn p XOR xsum kk (s p))" using assms(2) unfolding local_code_def by blast
  have "if lo \<le> p \<and> p < hi then length (r p @ s p) = 10 \<and> set (r p @ s p) \<subseteq> {..<k} else r p @ s p = []" for p
    using r(1) [of p] s(1) [of p] assms(3,4) by (cases "p < mid") auto
  moreover have "g kk (f kk nn) = (\<lambda>p. nn p XOR xsum kk (r p @ s p))" for kk nn by (simp add: r s xor.assoc)
  ultimately show ?thesis by (rule local_codeI)
qed

lemma add_entry: "fold (\<lambda>j nn. nn(i := nn i XOR f j)) js nn = nn(i := nn i XOR xsum f js)" for nn :: "block arr"
  by (induction js arbitrary: nn) (simp_all add: xor.assoc)

lemma xsum_rows: "xsum kk (map f js) = xsum (\<lambda>j. kk (f j)) js"
  by (induction js) simp_all

lemma add_rows:
  "fold (\<lambda>m nn. fold (\<lambda>j nn. nn(i + m := nn (i + m) XOR f m j)) js nn) [0..<n] nn
     = (\<lambda>p. nn p XOR (if i \<le> p \<and> p < i + n then xsum (f (p - i)) js else 0))" for nn :: "block arr"
proof -
  have "fold (\<lambda>m nn. nn(i + m := nn (i + m) XOR g m)) [0..<n] nn = (\<lambda>p. nn p XOR (if i \<le> p \<and> p < i + n then g (p - i) else 0))" for g
    by (induction n) (auto simp: fun_eq_iff)
  then show ?thesis unfolding add_entry .
qed

definition lpn_wf :: "LpnF2 \<Rightarrow> bool" where
  "lpn_wf st \<longleftrightarrow> 0 < lp_k st \<and> lp_mask st < 2 * lp_k st \<and> lp_mask st < 2 ^ 31"

lemma lpn_index4_less: "lpn_wf st \<Longrightarrow> lpn_index4 st r < lp_k st"
proof -
  assume wf: "lpn_wf st"
  have "r AND of_nat (lp_mask st) \<le> of_nat (lp_mask st)" by (rule word_and_le1)
  then have "unat (r AND of_nat (lp_mask st)) \<le> lp_mask st"
    using wf by (simp add: word_le_nat_alt unat_of_nat lpn_wf_def)
  then show ?thesis using wf by (auto simp: lpn_index4_def lpn_wf_def Let_def)
qed

lemma local_compute4: "lpn_wf st \<Longrightarrow> local_code (lp_k st) i (i + 4) (\<lambda>kk. lpn_compute4 aes st kk i)"
proof -
  assume wf: "lpn_wf st"
  let ?tmp = "AES_ecb_encrypt_blks aes (map (\<lambda>m. makeBlock (of_nat i) (of_nat m)) [0..<10])"
  let ?row = "\<lambda>p. if i \<le> p \<and> p < i + 4 then map (\<lambda>j. lpn_index4 st (lpn_word ?tmp (10 * (p - i) + j))) [0..<10] else []"
  have "lpn_compute4 aes st kk i nn = (\<lambda>p. nn p XOR xsum kk (?row p))" for kk nn
  proof (rule ext)
    fix p show "lpn_compute4 aes st kk i nn p = nn p XOR xsum kk (?row p)"
      unfolding lpn_compute4_def Let_def add_rows
      by (cases "i \<le> p \<and> p < i + 4") (simp_all only: if_True if_False simp_thms xsum_rows xsum_simps)
  qed
  moreover have "if i \<le> p \<and> p < i + 4 then length (?row p) = 10 \<and> set (?row p) \<subseteq> {..<lp_k st} else ?row p = []" for p
    using lpn_index4_less [OF wf] by auto
  ultimately show ?thesis by (intro local_codeI [where row = ?row])
qed

lemma local_compute1: "lpn_wf st \<Longrightarrow> local_code (lp_k st) i (Suc i) (\<lambda>kk. lpn_compute1 aes st kk i)"
proof -
  assume wf: "lpn_wf st"
  let ?tmp = "permute_block aes (map (\<lambda>m. makeBlock (of_nat i) (of_nat m)) [0..<10 div 4 + of_bool (10 mod 4 \<noteq> (0 :: nat))])"
  let ?row = "\<lambda>p. if p = i then map (\<lambda>j. unat (lpn_word ?tmp j) mod lp_k st) [0..<10] else []"
  have "lpn_compute1 aes st kk i nn = (\<lambda>p. nn p XOR xsum kk (?row p))" for kk nn
  proof (rule ext)
    fix p show "lpn_compute1 aes st kk i nn p = nn p XOR xsum kk (?row p)"
      unfolding lpn_compute1_def Let_def add_entry
      by (cases "p = i") (simp_all only: if_True if_False simp_thms xsum_rows xsum_simps fun_upd_apply xor.right_neutral)
  qed
  moreover have "if i \<le> p \<and> p < Suc i then length (?row p) = 10 \<and> set (?row p) \<subseteq> {..<lp_k st} else ?row p = []" for p
    using wf by (auto simp: lpn_wf_def)
  ultimately show ?thesis by (intro local_codeI [where row = ?row])
qed

lemma local_task4:
  assumes "lpn_wf st" and "start \<le> e"
  shows "\<exists>j F. start \<le> j \<and> j \<le> e \<and> local_code (lp_k st) start j F \<and> (\<forall>kk nn. lpn_task4 aes st kk e start nn = (j, F kk nn))"
  using assms(2)
proof (induction "e - start" arbitrary: start rule: less_induct)
  case less
  show ?case
  proof (cases "start + 4 < e")
    case True
    then have "e - (start + 4) < e - start" "start + 4 \<le> e" by simp_all
    from less(1) [OF this] obtain j F where jF: "start + 4 \<le> j" "j \<le> e" "local_code (lp_k st) (start + 4) j F" "\<forall>kk nn. lpn_task4 aes st kk e (start + 4) nn = (j, F kk nn)"
      by blast
    have "local_code (lp_k st) start j (\<lambda>kk nn. F kk (lpn_compute4 aes st kk start nn))"
      using local_code_comp [OF local_compute4 [OF assms(1)] jF(3)] jF(1) by simp
    moreover have "lpn_task4 aes st kk e start nn = (j, F kk (lpn_compute4 aes st kk start nn))" for kk nn
      using True jF(4) by (simp add: lpn_task4.simps [of _ _ _ _ start])
    ultimately show ?thesis using jF(1,2) by (intro exI [of _ j] exI [of _ "\<lambda>kk nn. F kk (lpn_compute4 aes st kk start nn)"]) simp
  next
    case False
    then show ?thesis using less(2)
      by (intro exI [of _ start] exI [of _ "\<lambda>kk nn. nn"]) (simp add: lpn_task4.simps)
  qed
qed

lemma local_singles:
  assumes "lpn_wf st" and "j \<le> e"
  shows "local_code (lp_k st) j e (\<lambda>kk. fold (lpn_compute1 aes st kk) [j..<e])"
  using assms(2)
proof (induction e rule: dec_induct)
  case (step e)
  then show ?case using local_code_comp [OF step(3) local_compute1 [OF assms(1)]] by simp
qed simp

lemma local_task:
  assumes "lpn_wf st" and "start \<le> e"
  shows "local_code (lp_k st) start e (\<lambda>kk. lpn_task st kk start e)"
proof -
  obtain j F where j: "start \<le> j" "j \<le> e" "local_code (lp_k st) start j F" "\<forall>kk nn. lpn_task4 (PRP_key (lp_seed st)) st kk e start nn = (j, F kk nn)"
    using local_task4 [OF assms] by blast
  then show ?thesis
    using local_code_comp [OF j(3) local_singles [OF assms(1) j(2)] j(1,2), of "PRP_key (lp_seed st)"] by (simp add: lpn_task_def [abs_def])
qed

lemma local_bench:
  assumes wf: "lpn_wf st" and "0 < lp_threads st"
  shows "local_code (lp_k st) 0 (lp_threads st * (lp_n st div lp_threads st)) (lpn_bench st)"
proof -
  let ?t = "lp_threads st" and ?n = "lp_n st"
  let ?w = "?n div ?t"
  have fits: "i * ?w \<le> ?n" if "i \<le> ?t" for i
    using that by (meson mult_le_mono1 order_trans times_div_less_eq_dividend)
  have "local_code (lp_k st) 0 (m * ?w) (\<lambda>kk. fold (\<lambda>i. lpn_task st kk (i * ?w) (min ((i + 1) * ?w) ?n)) [0..<m])" if "m \<le> ?t" for m
    using that
  proof (induction m)
    case (Suc m)
    have "min ((m + 1) * ?w) ?n = Suc m * ?w" using fits [of "Suc m"] Suc.prems by simp
    then show ?case
      using local_code_comp [OF Suc.IH local_task [OF wf, of "m * ?w" "Suc m * ?w"]] Suc.prems by simp
  qed (simp add: id_def)
  from this [of "?t - 1"] have first: "local_code (lp_k st) 0 ((?t - 1) * ?w) (\<lambda>kk. fold (\<lambda>i. lpn_task st kk (i * ?w) (min ((i + 1) * ?w) ?n)) [0..<?t - 1])" by simp
  have "(?t - 1) * ?w \<le> ?t * ?w" by simp
  from local_code_comp [OF first local_task [OF wf this] _ this] fits [of ?t] show ?thesis
    by (simp add: lpn_bench_def [abs_def] Let_def min_absorb1)
qed

lemma LpnF2_new_wf:
  assumes "0 < k" and "k < 2 ^ 31"
  obtains m where "LpnF2_new n k threads junk = Some \<lparr>lp_n = n, lp_k = k, lp_mask = m, lp_threads = threads, lp_seed = junk\<rparr>"
    and "lpn_wf \<lparr>lp_n = n, lp_k = k, lp_mask = m, lp_threads = threads, lp_seed = s\<rparr>"
proof -
  let ?k = "of_nat k :: 32 word"
  have "sint ?k = int k"
    using assms(2) by (simp add: sint_uint uint_nat unat_of_nat) (intro signed_take_bit_int_eq_self; simp)
  moreover obtain j where j: "1 \<le> j" "j \<le> 31" "lpn_mask_loop ?k (ones 1) = Some (ones j)" "j = 1 \<or> 2 ^ (j - 1) \<le> sint ?k"
    using mask_loop [of 1 ?k] by auto
  ultimately have "(2 :: int) ^ (j - 1) \<le> int k" using assms(1) by auto
  then have "2 ^ (j - 1) \<le> k" by (metis numeral_power_le_of_nat_cancel_iff of_nat_numeral)
  moreover have "(2 :: nat) ^ j = 2 * 2 ^ (j - 1)" using j(1) by (simp flip: power_Suc)
  moreover have "(2 :: nat) ^ j \<le> 2 ^ 31" using j(2) by (intro power_increasing) simp_all
  moreover have "(0 :: nat) < 2 ^ j" by simp
  ultimately have "2 ^ j - 1 < 2 * k" "2 ^ j - 1 < (2 :: nat) ^ 31" by linarith+
  then show thesis using j assms(1) ones_value(2) [of j] by (intro that [of "2 ^ j - 1"]) (simp_all add: LpnF2_new_def lpn_wf_def)
qed

text \<open>
  C21.  \<^verbatim>\<open>LpnF2\<close> is a 10-local linear code: once constructed, \<^verbatim>\<open>compute\<close> adds to each of the first \<open>threads * (n div threads)\<close>
  outputs the sum of exactly ten inputs, all of them among the first \<open>k\<close>, at positions that depend on the seed and not on the
  data; the remaining outputs (fewer than the number of threads, when it does not divide \<open>n\<close>) are left as they are.
\<close>

theorem lpn_local:
  assumes "0 < k" and "k < 2 ^ 31" and "0 < threads"
  shows "\<exists>st row. LpnF2_new n k threads junk = Some st
     \<and> (\<forall>p. if p < threads * (n div threads) then length (row p) = 10 \<and> set (row p) \<subseteq> {..<k} else row p = [])
     \<and> (\<forall>kk nn. fst (lpn_compute seed kk nn st) = (\<lambda>p. nn p XOR xsum kk (row p)))"
proof -
  obtain m where m: "LpnF2_new n k threads junk = Some \<lparr>lp_n = n, lp_k = k, lp_mask = m, lp_threads = threads, lp_seed = junk\<rparr>"
    "lpn_wf \<lparr>lp_n = n, lp_k = k, lp_mask = m, lp_threads = threads, lp_seed = seed\<rparr>"
    by (rule LpnF2_new_wf [OF assms(1,2)])
  let ?st = "\<lparr>lp_n = n, lp_k = k, lp_mask = m, lp_threads = threads, lp_seed = seed\<rparr>"
  from local_bench [OF m(2)] assms(3) have "local_code k 0 (threads * (n div threads)) (lpn_bench ?st)" by simp
  then obtain row where "\<forall>p. if p < threads * (n div threads) then length (row p) = 10 \<and> set (row p) \<subseteq> {..<k} else row p = []"
    "\<forall>kk nn. lpn_bench ?st kk nn = (\<lambda>p. nn p XOR xsum kk (row p))" unfolding local_code_def by auto
  moreover have "fst (lpn_compute seed kk nn (?st\<lparr>lp_seed := junk\<rparr>)) = lpn_bench ?st kk nn" for kk nn by (simp add: lpn_compute_def Let_def)
  ultimately show ?thesis using m(1) by (intro exI [of _ "?st\<lparr>lp_seed := junk\<rparr>"] exI [of _ row]) simp
qed

theorem lpn_local_witness:
  "\<exists>st row. LpnF2_new 20 6 3 0 = Some st
     \<and> (\<forall>p. if p < 3 * (20 div 3) then length (row p) = 10 \<and> set (row p) \<subseteq> {..<6} else row p = [])
     \<and> (\<forall>kk nn. fst (lpn_compute 7 kk nn st) = (\<lambda>p. nn p XOR xsum kk (row p)))"
  by (rule lpn_local) simp_all

end
