(* ===== verification/FerretBase.thy ===== *)
theory FerretBase
  imports Mpcot Lpn
begin

text \<open>
  What Ferret starts from: the parameter sets of \<^verbatim>\<open>emp-ot/ferret/constants.h\<close> and the correlated transfers that
  \<^verbatim>\<open>base_cot.h\<close> obtains from the extension of 128 base transfers.  Its outputs carry the choice bit in their lowest bit.
\<close>

subsection \<open>constants.h\<close>

record PrimalLPNParameter =
  pl_n :: nat
  pl_t :: nat
  pl_k :: nat
  pl_log_bin_sz :: nat
  pl_n_pre :: nat
  pl_t_pre :: nat
  pl_k_pre :: nat
  pl_log_bin_sz_pre :: nat

datatype ferret_error = LPN_parameter_not_matched | Base_transfer cot_error | Run_setup_before_extending
  | Space_not_enough | Call_byte_memory_need_inplace

definition PrimalLPNParameter_new ::
  "nat \<Rightarrow> nat \<Rightarrow> nat \<Rightarrow> nat \<Rightarrow> nat \<Rightarrow> nat \<Rightarrow> nat \<Rightarrow> nat \<Rightarrow> ferret_error + PrimalLPNParameter" where
  "PrimalLPNParameter_new n t k log_bin_sz n_pre t_pre k_pre log_bin_sz_pre =
     (if n \<noteq> t * 2 ^ log_bin_sz \<or> n_pre \<noteq> t_pre * 2 ^ log_bin_sz_pre \<or> n_pre < k + t * log_bin_sz + 128
      then Inl LPN_parameter_not_matched
      else Inr \<lparr>pl_n = n, pl_t = t, pl_k = k, pl_log_bin_sz = log_bin_sz, pl_n_pre = n_pre, pl_t_pre = t_pre, pl_k_pre = k_pre,
        pl_log_bin_sz_pre = log_bin_sz_pre\<rparr>)"

definition buf_sz :: "PrimalLPNParameter \<Rightarrow> int" where
  "buf_sz p = int (pl_n p) - int (pl_t p) * int (pl_log_bin_sz p) - int (pl_k p) - 128"

definition ferret_b13 :: "ferret_error + PrimalLPNParameter" where
  "ferret_b13 = PrimalLPNParameter_new 10485760 1280 452000 13 470016 918 32768 9"

definition ferret_b12 :: "ferret_error + PrimalLPNParameter" where
  "ferret_b12 = PrimalLPNParameter_new 10268672 2507 238000 12 268800 1050 17384 8"

definition ferret_b11 :: "ferret_error + PrimalLPNParameter" where
  "ferret_b11 = PrimalLPNParameter_new 10180608 4971 124000 11 178944 699 17384 8"

text \<open>
  What the rest of the library needs of a parameter set.  The first two lines are the constructor's own check.  The others are not checked:
  trees of at least four leaves, code lengths that fit an \<^verbatim>\<open>int\<close>, and an extension that yields at least twice the correlations the next one
  uses up; without the last, \<^verbatim>\<open>rcot\<close> may run over the caller's array (theorem \<open>rcot_in_bounds\<close>).
\<close>

definition param_ok :: "PrimalLPNParameter \<Rightarrow> bool" where
  "param_ok p \<longleftrightarrow> pl_n p = pl_t p * 2 ^ pl_log_bin_sz p \<and> pl_n_pre p = pl_t_pre p * 2 ^ pl_log_bin_sz_pre p
     \<and> pl_k p + pl_t p * pl_log_bin_sz p + 128 \<le> pl_n_pre p
     \<and> 2 \<le> pl_log_bin_sz p \<and> 2 \<le> pl_log_bin_sz_pre p
     \<and> 0 < pl_k p \<and> pl_k p < 2 ^ 31 \<and> 0 < pl_k_pre p \<and> pl_k_pre p < 2 ^ 31
     \<and> 2 * (pl_k p + pl_t p * pl_log_bin_sz p + 128) \<le> pl_n p"

lemma shipped_params: "case ferret_b13 of Inl e \<Rightarrow> False | Inr p \<Rightarrow> param_ok p" "case ferret_b12 of Inl e \<Rightarrow> False | Inr p \<Rightarrow> param_ok p"
  "case ferret_b11 of Inl e \<Rightarrow> False | Inr p \<Rightarrow> param_ok p"
  by (simp_all add: ferret_b13_def ferret_b12_def ferret_b11_def PrimalLPNParameter_new_def param_ok_def)

subsection \<open>base\_cot.h\<close>

record BaseCot =
  bc_ot_delta :: block
  bc_iknp :: IKNP
  bc_malicious :: bool

definition BaseCot_new :: "bool \<Rightarrow> BaseCot \<Rightarrow> BaseCot" where
  "BaseCot_new malicious heap = heap\<lparr>bc_malicious := malicious\<rparr>"

text \<open>\<open>kS\<close>, \<open>k0\<close> and \<open>k1\<close> are the keys of the base transfers that \<^verbatim>\<open>setup_send\<close> and \<^verbatim>\<open>setup_recv\<close> run.\<close>

definition cot_gen_pre_send :: "bool arr \<Rightarrow> block arr \<Rightarrow> block \<Rightarrow> BaseCot \<Rightarrow> BaseCot" where
  "cot_gen_pre_send junk kS deltain st =
     st\<lparr>bc_ot_delta := deltain, bc_iknp := IKNP_setup_send (bc_malicious st) (block_to_bool junk deltain) kS\<rparr>"

definition cot_gen_pre_random :: "bool arr \<Rightarrow> block arr \<Rightarrow> block \<Rightarrow> BaseCot \<Rightarrow> BaseCot" where
  "cot_gen_pre_random junk kS rnd st =
     (let ot_delta = rnd AND low_mask; ot_delta = ot_delta XOR makeBlock 0 1
      in st\<lparr>bc_ot_delta := ot_delta, bc_iknp := IKNP_setup_send (bc_malicious st) (block_to_bool junk ot_delta) kS\<rparr>)"

definition cot_gen_pre_recv :: "block arr \<Rightarrow> block arr \<Rightarrow> BaseCot \<Rightarrow> BaseCot" where
  "cot_gen_pre_recv k0 k1 st = st\<lparr>bc_iknp := IKNP_setup_recv (bc_malicious st) k0 k1\<rparr>"

definition cot_gen_send :: "block arr \<Rightarrow> block arr \<Rightarrow> nat \<Rightarrow> channel \<Rightarrow> BaseCot \<Rightarrow> (cot_error + block arr \<times> channel \<times> BaseCot) option" where
  "cot_gen_send junk ot_data sz ch st =
     (case IKNP_send_cot junk ot_data sz ch (bc_iknp st) of None \<Rightarrow> None | Some (Inl e) \<Rightarrow> Some (Inl e)
      | Some (Inr (ot_data, ch, ik)) \<Rightarrow>
          Some (Inr (fold (\<lambda>i d. d(i := d i AND low_mask)) [0..<sz] ot_data, ch, st\<lparr>bc_iknp := ik\<rparr>)))"

text \<open>\<open>b\<close> are the bits drawn from \<^verbatim>\<open>prg\<close>.\<close>

definition cot_gen_recv :: "block arr \<Rightarrow> bool arr \<Rightarrow> block \<Rightarrow> block arr \<Rightarrow> bool arr \<Rightarrow> nat \<Rightarrow> BaseCot \<Rightarrow> block arr \<times> channel \<times> BaseCot" where
  "cot_gen_recv junk rnd seed2 ot_data b sz st =
     (let (ot_data, msg, ik) = IKNP_recv_cot junk rnd seed2 ot_data b sz (bc_iknp st);
          ch = (\<lambda>c. if c then makeBlock 0 1 else zero_block)
      in (fold (\<lambda>i d. d(i := (d i AND low_mask) XOR ch (b i))) [0..<sz] ot_data, msg, st\<lparr>bc_iknp := ik\<rparr>))"

definition cot_gen_ot_send ::
  "block arr \<Rightarrow> block arr \<Rightarrow> nat \<Rightarrow> channel \<Rightarrow> BaseCot \<times> OTPre \<Rightarrow> (cot_error + channel \<times> BaseCot \<times> OTPre) option" where
  "cot_gen_ot_send junk ot_data sz ch = (\<lambda>(st, pre_ot).
     case cot_gen_send junk ot_data sz ch st of None \<Rightarrow> None | Some (Inl e) \<Rightarrow> Some (Inl e)
     | Some (Inr (ot_data, ch, st)) \<Rightarrow> Some (Inr (ch, st, op_send_pre ot_data (bc_ot_delta st) pre_ot)))"

definition cot_gen_ot_recv ::
  "block arr \<Rightarrow> bool arr \<Rightarrow> block \<Rightarrow> block arr \<Rightarrow> bool arr \<Rightarrow> nat \<Rightarrow> BaseCot \<times> OTPre \<Rightarrow> channel \<times> BaseCot \<times> OTPre" where
  "cot_gen_ot_recv junk rnd seed2 ot_data b sz = (\<lambda>(st, pre_ot).
     let (ot_data, msg, st) = cot_gen_recv junk rnd seed2 ot_data b sz st in (msg, st, op_recv_pre_bits ot_data b pre_ot))"

text \<open>The receiver's side of \<^verbatim>\<open>check_cot\<close>; the sender sends its offset and its data.\<close>

definition check_cot :: "block \<Rightarrow> block arr \<Rightarrow> block arr \<Rightarrow> nat \<Rightarrow> bool" where
  "check_cot delta tmp data len =
     (let ch = (\<lambda>c. if c then delta else zero_block);
          tmp = fold (\<lambda>i t. t(i := t i XOR ch (getLSB (data i)))) [0..<len] tmp
      in cmpBlock tmp data len)"

subsection \<open>Correlations with the choice in the lowest bit\<close>

lemma bit_low_mask: "bit low_mask n \<longleftrightarrow> 0 < n \<and> n < 128"
proof -
  have "low_mask = NOT 1" by code_simp
  then show ?thesis unfolding \<open>low_mask = NOT 1\<close> bit_not_iff by (auto simp: bit_1_iff possible_bit_def)
qed

lemma marked_pair:
  fixes oS :: block and b :: bool
  assumes "getLSB D"
  defines "w \<equiv> ((oS XOR gate_blk b D) AND low_mask) XOR (if b then makeBlock 0 1 else zero_block)"
  shows "cot_pair D (oS AND low_mask) w" and "getLSB w = b"
proof -
  have "w = (oS AND low_mask) XOR gate_blk b D"
  proof (rule bit_word_eqI)
    fix n assume "n < LENGTH(128)"
    then show "bit w n = bit ((oS AND low_mask) XOR gate_blk b D) n"
      using assms(1) by (cases n) (auto simp: w_def bit_xor_iff bit_and_iff bit_low_mask gate_blk_def bit_makeBlock getLSB_bit bit_1_iff)
  qed
  moreover have "\<not> getLSB (oS AND low_mask)" by (simp add: getLSB_bit bit_and_iff bit_low_mask)
  ultimately show "cot_pair D (oS AND low_mask) w" "getLSB w = b"
    using cot_pairI [OF assms(1), of "oS AND low_mask" b] assms(1) by (cases b; simp add: getLSB_xor)+
qed

definition base_ready :: "block \<Rightarrow> BaseCot \<Rightarrow> BaseCot \<Rightarrow> bool" where
  "base_ready D S R \<longleftrightarrow> getLSB D \<and> bc_ot_delta S = D \<and> ik_Delta (bc_iknp S) = D \<and> synced (bc_iknp S) (bc_iknp R)"

lemma cot_gen_pre_ready:
  assumes "getLSB D" and "bc_malicious S = bc_malicious R" and "\<And>i. i < 128 \<Longrightarrow> kS i = (if bit D i then k1 i else k0 i)"
  shows "base_ready D (cot_gen_pre_send junk kS D S) (cot_gen_pre_recv k0 k1 R)"
  using assms setup_synced [of kS "block_to_bool junk D" k1 k0 "bc_malicious R"]
  by (simp add: base_ready_def cot_gen_pre_send_def cot_gen_pre_recv_def block_to_bool_nth bool_to_block_to_bool)

lemma fold_each: "fold (\<lambda>i d. d(i := g i (d i))) [0..<n] d k = (if k < n then g k (d k) else d k)"
  by (induction n) auto

lemma cot_gen_ok:
  assumes "base_ready D S R"
  obtains dR msg R' dS S' where "cot_gen_recv junk' rnd seed2 out' b n R = (dR, msg, R')"
    and "\<And>rest. cot_gen_send junk out n (msg @ rest) S = Some (Inr (dS, rest, S'))"
    and "base_ready D S' R'" and "\<And>i. i < n \<Longrightarrow> cot_pair D (dS i) (dR i) \<and> getLSB (dR i) = b i"
proof -
  note r = assms [unfolded base_ready_def]
  obtain oR oS msg S' R' where run: "IKNP_recv_cot junk' rnd seed2 out' b n (bc_iknp R) = (oR, msg, R')"
    "\<And>rest. IKNP_send_cot junk out n (msg @ rest) (bc_iknp S) = Some (Inr (oS, rest, S'))"
    "synced S' R'" "ik_Delta S' = ik_Delta (bc_iknp S)" "correlated (ik_Delta (bc_iknp S)) b n oS oR"
    using r iknp.cot [where S = "bc_iknp S" and R = "bc_iknp R" and junk = junk and out = out and junk' = junk' and rnd = rnd
        and ?seed2.0 = seed2 and out' = out' and b = b and n = n] by blast
  define dR where "dR = fold (\<lambda>i d. d(i := (d i AND low_mask) XOR (if b i then makeBlock 0 1 else zero_block))) [0..<n] oR"
  define dS where "dS = fold (\<lambda>i d. d(i := d i AND low_mask)) [0..<n] oS"
  have "cot_pair D (dS i) (dR i) \<and> getLSB (dR i) = b i" if "i < n" for i
  proof -
    have "oR i = oS i XOR gate_blk (b i) D" using run(5) r that by (simp add: correlated_def)
    then have "dR i = ((oS i XOR gate_blk (b i) D) AND low_mask) XOR (if b i then makeBlock 0 1 else zero_block)" "dS i = oS i AND low_mask"
      using that unfolding dR_def dS_def
      by (simp_all add: fold_each [where g = "\<lambda>i x. (x AND low_mask) XOR (if b i then makeBlock 0 1 else zero_block)"] fold_each [where g = "\<lambda>i x. x AND low_mask"])
    then show ?thesis using marked_pair [of D "oS i" "b i"] r by simp
  qed
  moreover have "base_ready D (S\<lparr>bc_iknp := S'\<rparr>) (R\<lparr>bc_iknp := R'\<rparr>)" using r run(3,4) by (simp add: base_ready_def)
  ultimately show thesis
    using run(1,2) by (intro that [of dR msg "R\<lparr>bc_iknp := R'\<rparr>" dS "S\<lparr>bc_iknp := S'\<rparr>"]) (simp_all add: cot_gen_recv_def cot_gen_send_def dR_def dS_def)
qed

text \<open>The debugging check accepts exactly the correlated data.\<close>

lemma check_cot_iff:
  assumes "\<And>i. i < len \<Longrightarrow> \<not> getLSB (v i)"
  shows "check_cot D v w len \<longleftrightarrow> (\<forall>i<len. cot_pair D (v i) (w i))"
proof -
  have "fold (\<lambda>i t. t(i := t i XOR (if getLSB (w i) then D else zero_block))) [0..<len] v i = v i XOR gate_blk (getLSB (w i)) D" if "i < len" for i
    using that by (simp add: fold_each [where g = "\<lambda>i x. x XOR (if getLSB (w i) then D else zero_block)"] gate_blk_def)
  then show ?thesis using assms unfolding check_cot_def Let_def cmpBlock_iff cot_pair_def by fastforce
qed

end
