(* ===== verification/Ferret.thy ===== *)
theory Ferret
  imports FerretBase "HOL-Library.Signed_Division"
begin

text \<open>
  \<^verbatim>\<open>emp-ot/ferret/ferret_cot.hpp\<close>.  Both parties run the same code in step, each with an object of its own; an operation in which they
  exchange messages is modelled as one function on the two objects (\<open>run_\<dots>\<close>), built from the functions of each side.  It is
  \<open>None\<close> when a party would wait forever.  Pointers that may be null are options; \<open>rnd\<close> and \<open>mem\<close> are
  the random values drawn and the contents of fresh memory.
\<close>

record FerretCOT =
  fc_Delta :: block
  fc_ch1 :: block
  fc_party :: nat
  fc_threads :: nat
  fc_is_malicious :: bool
  fc_extend_initialized :: bool
  fc_param :: PrimalLPNParameter
  fc_ot_used :: int
  fc_ot_limit :: int
  fc_M :: int
  fc_ot_pre_data :: "block arr option"
  fc_ot_data :: "block arr option"
  fc_base_cot :: BaseCot
  fc_pre_ot :: OTPre
  fc_mpcot :: MpcotReg
  fc_lpn_f2 :: LpnF2

definition FerretCOT_new :: "nat \<Rightarrow> nat \<Rightarrow> bool \<Rightarrow> PrimalLPNParameter \<Rightarrow> FerretCOT \<Rightarrow> FerretCOT" where
  "FerretCOT_new party threads malicious param heap =
     heap\<lparr>fc_party := party, fc_threads := threads, fc_is_malicious := malicious, fc_base_cot := BaseCot_new malicious (fc_base_cot heap),
       fc_param := param, fc_extend_initialized := False, fc_ot_pre_data := None, fc_ot_data := None\<rparr>"

text \<open>\<^verbatim>\<open>Delta ^ 0x1\<close> is a vector operation: the scalar is added to both halves.\<close>

definition ferret_random_delta :: "block \<Rightarrow> block" where
  "ferret_random_delta rnd = (rnd AND low_mask) XOR makeBlock 1 1"

definition ferret_mpcot :: "FerretCOT \<Rightarrow> nat \<Rightarrow> nat \<Rightarrow> nat \<Rightarrow> MpcotReg \<Rightarrow> MpcotReg" where
  "ferret_mpcot st n t log_bin_sz heap =
     (let mp = MpcotReg_new (fc_threads st) n t log_bin_sz heap in if fc_is_malicious st then set_malicious mp else mp)"

definition extend_initialization :: "FerretCOT \<Rightarrow> FerretCOT option" where
  "extend_initialization st =
     (let p = fc_param st in
      case LpnF2_new (pl_n p) (pl_k p) (fc_threads st) (lp_seed (fc_lpn_f2 st)) of None \<Rightarrow> None | Some lpn \<Rightarrow>
        (let mp = ferret_mpcot st (pl_n p) (pl_t p) (pl_log_bin_sz p) (fc_mpcot st);
             ot = OTPre_new (mp_tree_height mp - 1) (mp_tree_n mp) (fc_pre_ot st);
             M = int (pl_k p) + int (op_n ot) + int (mp_consist_check_cot_num mp);
             ot_limit = int (pl_n p) - M
         in Some (st\<lparr>fc_lpn_f2 := lpn, fc_mpcot := mp, fc_pre_ot := ot, fc_M := M, fc_ot_limit := ot_limit, fc_ot_used := ot_limit,
              fc_extend_initialized := True\<rparr>)))"

subsection \<open>Extension\<close>

record extend_rnd =
  er_mem :: mpcot_mem
  er_seed :: block

type_synonym ext_state = "MpcotReg \<times> OTPre \<times> LpnF2 \<times> block arr \<times> block arr"

definition run_extend :: "(bytes \<Rightarrow> bytes) \<Rightarrow> extend_rnd \<Rightarrow> block \<Rightarrow> ext_state \<Rightarrow> ext_state \<Rightarrow> (ext_state \<times> ext_state \<times> bool) option" where
  "run_extend sha rnd Delta = (\<lambda>(mpS, otS, lpS, outS, inS) (mpR, otR, lpR, outR, inR).
     let mpS = sender_init Delta mpS; mpR = recver_init mpR
     in case run_mpcot sha (er_mem rnd) (mpS, otS, outS, inS) (mpR, otR, outR, inR) of None \<Rightarrow> None
        | Some ((otS, outS, inS), (mpR, otR, outR), ok) \<Rightarrow>
            (let (outS, lpS) = lpn_compute (er_seed rnd) (\<lambda>i. inS (mp_consist_check_cot_num mpS + i)) outS lpS;
                 (outR, lpR) = lpn_compute (er_seed rnd) (\<lambda>i. inR (mp_consist_check_cot_num mpR + i)) outR lpR
             in Some ((mpS, otS, lpS, outS, inS), (mpR, otR, lpR, outR, inR), ok)))"

definition finish_extend :: "FerretCOT \<Rightarrow> ext_state \<Rightarrow> block arr \<times> FerretCOT" where
  "finish_extend st = (\<lambda>(mp, ot, lp, ot_buffer, ot_pre_data).
     (ot_buffer, st\<lparr>fc_mpcot := mp, fc_pre_ot := ot, fc_lpn_f2 := lp, fc_ot_used := 0,
        fc_ot_pre_data := Some (put_blocks ot_pre_data 0 (\<lambda>k. ot_buffer (nat (fc_ot_limit st) + k)) (nat (fc_M st)))\<rparr>))"

definition run_extend_f2k ::
  "(bytes \<Rightarrow> bytes) \<Rightarrow> extend_rnd \<Rightarrow> block arr \<times> FerretCOT \<Rightarrow> block arr \<times> FerretCOT
   \<Rightarrow> ((block arr \<times> FerretCOT) \<times> (block arr \<times> FerretCOT) \<times> bool) option" where
  "run_extend_f2k sha rnd = (\<lambda>(bufS, S) (bufR, R).
     case (fc_ot_pre_data S, fc_ot_pre_data R) of
       (Some preS, Some preR) \<Rightarrow>
         (let otS = op_send_pre preS (fc_Delta S) (fc_pre_ot S); otR = op_recv_pre preR (fc_pre_ot R)
          in case run_extend sha rnd (fc_Delta S) (fc_mpcot S, otS, fc_lpn_f2 S, bufS, preS) (fc_mpcot R, otR, fc_lpn_f2 R, bufR, preR) of
               None \<Rightarrow> None
             | Some (eS, eR, ok) \<Rightarrow> Some (finish_extend S eS, finish_extend R eR, ok))
     | _ \<Rightarrow> None)"

subsection \<open>Setup\<close>

text \<open>Without stored correlations of an earlier run.  The calls of the base transfers are numbered 0 and 1.\<close>

record setup_mem =
  sm_kS :: "block arr"
  sm_k0 :: "block arr"
  sm_k1 :: "block arr"
  sm_delta_bool :: "bool arr"
  sm_junkS :: "nat \<Rightarrow> block arr"
  sm_junkR :: "nat \<Rightarrow> block arr"
  sm_outS :: "nat \<Rightarrow> block arr"
  sm_outR :: "nat \<Rightarrow> block arr"
  sm_rnd :: "nat \<Rightarrow> bool arr"
  sm_seed2 :: "nat \<Rightarrow> block"
  sm_bits :: "nat \<Rightarrow> bool arr"
  sm_mpcot :: MpcotReg
  sm_otpre :: OTPre
  sm_lpn_seed :: block
  sm_ext :: extend_rnd

definition ini_parts :: "setup_mem \<Rightarrow> FerretCOT \<Rightarrow> (MpcotReg \<times> OTPre \<times> LpnF2) option" where
  "ini_parts sm st =
     (let p = fc_param st;
          mp = ferret_mpcot st (pl_n_pre p) (pl_t_pre p) (pl_log_bin_sz_pre p) (sm_mpcot sm);
          ot = OTPre_new (mp_tree_height mp - 1) (mp_tree_n mp) (sm_otpre sm)
      in case LpnF2_new (pl_n_pre p) (pl_k_pre p) (fc_threads st) (sm_lpn_seed sm) of None \<Rightarrow> None | Some lpn \<Rightarrow> Some (mp, ot, lpn))"

definition run_setup ::
  "(bytes \<Rightarrow> bytes) \<Rightarrow> setup_mem \<Rightarrow> block \<Rightarrow> FerretCOT \<Rightarrow> FerretCOT \<Rightarrow> (ferret_error + FerretCOT \<times> FerretCOT \<times> bool) option" where
  "run_setup sha sm Deltain S R =
     (case (extend_initialization (S\<lparr>fc_Delta := Deltain\<rparr>), extend_initialization R) of
        (Some S, Some R) \<Rightarrow>
          (let bS = cot_gen_pre_send (sm_delta_bool sm) (sm_kS sm) (fc_Delta S) (fc_base_cot S);
               bR = cot_gen_pre_recv (sm_k0 sm) (sm_k1 sm) (fc_base_cot R)
           in case (ini_parts sm S, ini_parts sm R) of
                (Some (mpS, otS, lpS), Some (mpR, otR, lpR)) \<Rightarrow>
                  (let (msg, bR, otR) = cot_gen_ot_recv (sm_junkR sm 0) (sm_rnd sm 0) (sm_seed2 sm 0) (sm_outR sm 0) (sm_bits sm 0) (op_n otR) (bR, otR)
                   in case cot_gen_ot_send (sm_junkS sm 0) (sm_outS sm 0) (op_n otS) msg (bS, otS) of None \<Rightarrow> None
                      | Some (Inl e) \<Rightarrow> Some (Inl (Base_transfer e))
                      | Some (Inr (ch, bS, otS)) \<Rightarrow>
                          (let n = pl_k_pre (fc_param R) + mp_consist_check_cot_num mpR;
                               (dR, msg, bR) = cot_gen_recv (sm_junkR sm 1) (sm_rnd sm 1) (sm_seed2 sm 1) (sm_outR sm 1) (sm_bits sm 1) n bR
                           in case cot_gen_send (sm_junkS sm 1) (sm_outS sm 1) (pl_k_pre (fc_param S) + mp_consist_check_cot_num mpS) (ch @ msg) bS of
                                None \<Rightarrow> None
                              | Some (Inl e) \<Rightarrow> Some (Inl (Base_transfer e))
                              | Some (Inr (dS, ch, bS)) \<Rightarrow>
                                  (case run_extend sha (sm_ext sm) (fc_Delta S) (mpS, otS, lpS, \<lambda>_. 0, dS) (mpR, otR, lpR, \<lambda>_. 0, dR) of
                                     None \<Rightarrow> None
                                   | Some ((_, _, _, outS, _), (_, _, _, outR, _), ok) \<Rightarrow>
                                       Some (Inr (S\<lparr>fc_base_cot := bS, fc_ot_pre_data := Some outS, fc_ch1 := Deltain\<rparr>,
                                         R\<lparr>fc_base_cot := bR, fc_ot_pre_data := Some outR\<rparr>, ok)))))
              | _ \<Rightarrow> None)
      | _ \<Rightarrow> None)"

subsection \<open>Random correlated transfers\<close>

definition silent_ot_left :: "FerretCOT \<Rightarrow> int" where
  "silent_ot_left st = fc_ot_limit st - fc_ot_used st"

definition alloc_ot_data :: "FerretCOT \<Rightarrow> FerretCOT" where
  "alloc_ot_data st = (case fc_ot_data st of None \<Rightarrow> st\<lparr>fc_ot_data := Some (\<lambda>_. 0)\<rparr> | Some _ \<Rightarrow> st)"

text \<open>\<^verbatim>\<open>gened\<close>, \<^verbatim>\<open>round_inplace\<close>, \<^verbatim>\<open>round_memcpy\<close> and \<^verbatim>\<open>last_round_ot\<close>.\<close>

definition rcot_plan :: "int \<Rightarrow> FerretCOT \<Rightarrow> int \<times> int \<times> bool \<times> int" where
  "rcot_plan num st =
     (let gened = silent_ot_left st;
          round_inplace = (num - gened - fc_M st) sdiv fc_ot_limit st;
          last_round_ot = num - gened - round_inplace * fc_ot_limit st;
          round_memcpy = (last_round_ot > fc_ot_limit st)
      in (gened, round_inplace, round_memcpy, if round_memcpy then last_round_ot - fc_ot_limit st else last_round_ot))"

definition take_ots :: "int \<Rightarrow> block arr \<times> FerretCOT \<Rightarrow> block arr \<times> FerretCOT" where
  "take_ots cnt = (\<lambda>(data, st).
     (case fc_ot_data st of None \<Rightarrow> data | Some ot_data \<Rightarrow> put_blocks data 0 (\<lambda>k. ot_data (nat (fc_ot_used st) + k)) (nat cnt), st))"

type_synonym ferret_world = "(block arr \<times> FerretCOT) \<times> (block arr \<times> FerretCOT) \<times> bool"

text \<open>One extension straight into the caller's array, at \<^verbatim>\<open>pt\<close>.\<close>

definition inplace_round :: "(bytes \<Rightarrow> bytes) \<Rightarrow> extend_rnd \<Rightarrow> nat \<Rightarrow> ferret_world \<Rightarrow> ferret_world option" where
  "inplace_round sha rnd pt = (\<lambda>((dS, S), (dR, R), ok).
     case run_extend_f2k sha rnd (\<lambda>k. dS (pt + k), S) (\<lambda>k. dR (pt + k), R) of None \<Rightarrow> None
     | Some ((bS, S), (bR, R), ok') \<Rightarrow>
         Some ((at_offset pt dS bS, S\<lparr>fc_ot_used := fc_ot_limit S\<rparr>), (at_offset pt dR bR, R\<lparr>fc_ot_used := fc_ot_limit R\<rparr>), ok \<and> ok'))"

text \<open>One extension into \<^verbatim>\<open>ot_data\<close>, of which \<^verbatim>\<open>cnt\<close> blocks are copied.\<close>

definition memcpy_round :: "(bytes \<Rightarrow> bytes) \<Rightarrow> extend_rnd \<Rightarrow> nat \<Rightarrow> int \<Rightarrow> ferret_world \<Rightarrow> ferret_world option" where
  "memcpy_round sha rnd pt cnt = (\<lambda>((dS, S), (dR, R), ok).
     case (fc_ot_data S, fc_ot_data R) of
       (Some oS, Some oR) \<Rightarrow>
         (case run_extend_f2k sha rnd (oS, S) (oR, R) of None \<Rightarrow> None
          | Some ((oS, S), (oR, R), ok') \<Rightarrow>
              Some ((put_blocks dS pt oS (nat cnt), S\<lparr>fc_ot_data := Some oS\<rparr>), (put_blocks dR pt oR (nat cnt), R\<lparr>fc_ot_data := Some oR\<rparr>), ok \<and> ok'))
     | _ \<Rightarrow> None)"

definition set_used :: "int \<Rightarrow> ferret_world \<Rightarrow> ferret_world" where
  "set_used u = (\<lambda>((dS, S), (dR, R), ok). ((dS, S\<lparr>fc_ot_used := u\<rparr>), (dR, R\<lparr>fc_ot_used := u\<rparr>), ok))"

definition run_rounds :: "(bytes \<Rightarrow> bytes) \<Rightarrow> (nat \<Rightarrow> extend_rnd) \<Rightarrow> int \<times> int \<times> bool \<times> int \<Rightarrow> int \<Rightarrow> ferret_world \<Rightarrow> ferret_world option" where
  "run_rounds sha rnd = (\<lambda>(gened, round_inplace, round_memcpy, last_round_ot) ot_limit w.
     case fold_opt (\<lambda>i. inplace_round sha (rnd i) (nat (gened + int i * ot_limit))) [0..<nat round_inplace] w of None \<Rightarrow> None
     | Some w \<Rightarrow>
         (let pt = gened + round_inplace * ot_limit
          in case (if round_memcpy then memcpy_round sha (rnd (nat round_inplace)) (nat pt) ot_limit w else Some w) of None \<Rightarrow> None
             | Some w \<Rightarrow>
                 (let pt = (if round_memcpy then pt + ot_limit else pt)
                  in if last_round_ot > 0
                     then map_option (set_used last_round_ot) (memcpy_round sha (rnd (nat round_inplace + 1)) (nat pt) last_round_ot w)
                     else Some w)))"

text \<open>The parties wait for each other forever when they do not agree on what to do.\<close>

definition run_rcot ::
  "(bytes \<Rightarrow> bytes) \<Rightarrow> (nat \<Rightarrow> extend_rnd) \<Rightarrow> int \<Rightarrow> block arr \<times> FerretCOT \<Rightarrow> block arr \<times> FerretCOT \<Rightarrow> (ferret_error + ferret_world) option" where
  "run_rcot sha rnd num = (\<lambda>(dS, S) (dR, R).
     let S = alloc_ot_data S; R = alloc_ot_data R
     in if \<not> fc_extend_initialized S \<or> \<not> fc_extend_initialized R then Some (Inl Run_setup_before_extending)
        else if rcot_plan num S \<noteq> rcot_plan num R \<or> fc_ot_limit S \<noteq> fc_ot_limit R then None
        else if num \<le> silent_ot_left S
        then Some (Inr (set_used (fc_ot_used S + num) (take_ots num (dS, S), take_ots num (dR, R), True)))
        else let gened = silent_ot_left S;
                 w = (if gened > 0 then (take_ots gened (dS, S), take_ots gened (dR, R), True) else ((dS, S), (dR, R), True))
             in map_option Inr (run_rounds sha rnd (rcot_plan num S) (fc_ot_limit S) w))"

subsection \<open>Chosen correlated transfers\<close>

definition online_recver :: "block arr \<Rightarrow> bool arr \<Rightarrow> nat \<Rightarrow> bool list" where
  "online_recver data b len = map (\<lambda>i. bxor (b i) (getLSB (data i))) [0..<len]"

definition online_sender :: "block arr \<Rightarrow> bool list \<Rightarrow> nat \<Rightarrow> FerretCOT \<Rightarrow> block arr" where
  "online_sender data bo len st =
     (let ch = (\<lambda>c. if c then fc_ch1 st else zero_block) in fold (\<lambda>i d. d(i := d i XOR ch (bo ! i))) [0..<len] data)"

definition run_cot ::
  "(bytes \<Rightarrow> bytes) \<Rightarrow> (nat \<Rightarrow> extend_rnd) \<Rightarrow> bool arr \<Rightarrow> nat \<Rightarrow> block arr \<times> FerretCOT \<Rightarrow> block arr \<times> FerretCOT
   \<Rightarrow> (ferret_error + ferret_world) option" where
  "run_cot sha rnd b len S R =
     (case run_rcot sha rnd (int len) S R of None \<Rightarrow> None | Some (Inl e) \<Rightarrow> Some (Inl e)
      | Some (Inr ((dS, S), (dR, R), ok)) \<Rightarrow>
          (let bo = online_recver dR b len in Some (Inr ((online_sender dS bo len S, S), (dR, R), ok))))"

subsection \<open>One extension\<close>

lemma cot_pair_zero [simp]: "cot_pair D 0 0"
  by (simp add: cot_pair_def getLSB_bit gate_blk_def)

lemma cot_pair_xsum: "(\<And>i. i \<in> set is \<Longrightarrow> cot_pair D (v i) (w i)) \<Longrightarrow> cot_pair D (xsum v is) (xsum w is)"
  by (induction "is") (simp_all add: cot_pair_xor)

text \<open>The parts of both parties that one extension uses: \<open>t\<close> trees of height \<open>h\<close>, a code with \<open>k\<close> inputs.\<close>

definition mpcot_pair :: "nat \<Rightarrow> nat \<Rightarrow> MpcotReg \<Rightarrow> MpcotReg \<Rightarrow> bool" where
  "mpcot_pair h t mpS mpR \<longleftrightarrow> 3 \<le> h \<and> mp_leave_n mpS = 2 ^ (h - 1) \<and> mp_leave_n mpR = 2 ^ (h - 1) \<and> mp_is_malicious mpR = mp_is_malicious mpS
     \<and> mp_tree_height mpS = h \<and> mp_tree_height mpR = h \<and> mp_tree_n mpS = t \<and> mp_tree_n mpR = t \<and> 0 < mp_threads mpS \<and> mp_threads mpR = mp_threads mpS
     \<and> mp_consist_check_cot_num mpS = 128 \<and> mp_consist_check_cot_num mpR = 128
     \<and> (\<exists>b. mp_pack_base mpS = packing_base_gen b) \<and> (\<exists>b. mp_pack_base mpR = packing_base_gen b)"

definition lpn_pair :: "nat \<Rightarrow> nat \<Rightarrow> LpnF2 \<Rightarrow> LpnF2 \<Rightarrow> bool" where
  "lpn_pair n k lpS lpR \<longleftrightarrow> lp_n lpS = n \<and> lp_k lpS = k \<and> 0 < lp_threads lpS \<and> (\<forall>s. lpn_wf (lpS\<lparr>lp_seed := s\<rparr>)) \<and> (\<forall>s. lpR\<lparr>lp_seed := s\<rparr> = lpS\<lparr>lp_seed := s\<rparr>)"

lemma lpn_pair_compute:
  assumes "lpn_pair n k lpS lpR"
  obtains row where "\<And>p. set (row p) \<subseteq> {..<k}" and "\<And>kk nn. fst (lpn_compute seed kk nn lpS) = (\<lambda>p. nn p XOR xsum kk (row p))"
    and "\<And>kk nn. fst (lpn_compute seed kk nn lpR) = (\<lambda>p. nn p XOR xsum kk (row p))"
proof -
  let ?st = "lpS\<lparr>lp_seed := seed\<rparr>"
  have "local_code (lp_k ?st) 0 (lp_threads ?st * (lp_n ?st div lp_threads ?st)) (lpn_bench ?st)"
    using assms by (intro local_bench) (simp_all add: lpn_pair_def)
  then obtain row where row: "\<And>p. if p < lp_threads ?st * (lp_n ?st div lp_threads ?st) then length (row p) = 10 \<and> set (row p) \<subseteq> {..<lp_k ?st} else row p = []"
    "\<And>kk nn. lpn_bench ?st kk nn = (\<lambda>p. nn p XOR xsum kk (row p))"
    unfolding local_code_def by auto
  have "lp_k ?st = k" "lpR\<lparr>lp_seed := seed\<rparr> = ?st" using assms by (simp_all add: lpn_pair_def)
  moreover have "set (row p) \<subseteq> {..<lp_k ?st}" for p using row(1) [of p] by (simp split: if_splits)
  ultimately show thesis using row(2) by (intro that [of row]) (simp_all add: lpn_compute_def Let_def)
qed

lemma lpn_pair_keep: "lpn_pair n k lpS lpR \<Longrightarrow> lpn_pair n k (snd (lpn_compute seed kk nn lpS)) (snd (lpn_compute seed kk' nn' lpR))"
  by (simp add: lpn_pair_def lpn_compute_def Let_def)

lemma run_extend_ok:
  assumes D: "getLSB D" and mp: "mpcot_pair h t mpS mpR" and ots: "prepared D (h - 1) t otS otR" and lp: "lpn_pair n k lpS lpR"
    and inp: "\<And>i. i < 128 + k \<Longrightarrow> cot_pair D (inS i) (inR i)"
  obtains mpS' lpS' outS' inS' mpR' lpR' outR' where
    "run_extend sha rnd D (mpS, otS, lpS, outS, inS) (mpR, otR, lpR, outR, inR)
       = Some ((mpS', op_reset otS, lpS', outS', inS'), (mpR', op_reset otR, lpR', outR', inR), True)"
    and "mpcot_pair h t mpS' mpR'" and "lpn_pair n k lpS' lpR'" and "\<And>i. i < t * 2 ^ (h - 1) \<Longrightarrow> cot_pair D (outS' i) (outR' i)"
proof -
  let ?mpS = "sender_init D mpS" and ?mpR = "recver_init mpR"
  have regs: "mpcot_regs D h t ?mpS ?mpR" and num: "mp_consist_check_cot_num ?mpS = 128" "mp_consist_check_cot_num ?mpR = 128"
    using mp D by (simp_all add: mpcot_pair_def mpcot_regs_def regs_ok_def sender_init_def recver_init_def Let_def)
  obtain svS inS' pos svR where run: "run_mpcot sha (er_mem rnd) (?mpS, otS, outS, inS) (?mpR, otR, outR, inR)
       = Some ((op_reset otS, svS, inS'), (?mpR\<lparr>mp_item_pos_recver := pos\<rparr>, op_reset otR, svR), True)"
    "\<And>i. i < t * 2 ^ (h - 1) \<Longrightarrow> cot_pair D (svS i) (svR i)" "\<And>i. 128 \<le> i \<Longrightarrow> inS' i = inS i"
    by (rule run_mpcot_ok [OF regs ots, where preS = inS and preR = inR and sha = sha and mem = "er_mem rnd" and svS = outS and svR = outR]) (use inp in auto)
  obtain row where row: "\<And>p. set (row p) \<subseteq> {..<k}" "\<And>kk nn. fst (lpn_compute (er_seed rnd) kk nn lpS) = (\<lambda>p. nn p XOR xsum kk (row p))"
    "\<And>kk nn. fst (lpn_compute (er_seed rnd) kk nn lpR) = (\<lambda>p. nn p XOR xsum kk (row p))"
    using lpn_pair_compute [OF lp] by blast
  let ?kS = "\<lambda>i. inS' (128 + i)" and ?kR = "\<lambda>i. inR (128 + i)" and ?mpR' = "?mpR\<lparr>mp_item_pos_recver := pos\<rparr>"
  let ?cS = "lpn_compute (er_seed rnd) ?kS svS lpS" and ?cR = "lpn_compute (er_seed rnd) ?kR svR lpR"
  have "cot_pair D (fst ?cS i) (fst ?cR i)" if "i < t * 2 ^ (h - 1)" for i
  proof -
    have "cot_pair D (xsum ?kS (row i)) (xsum ?kR (row i))"
    proof (rule cot_pair_xsum)
      fix j assume "j \<in> set (row i)"
      then have "j < k" using row(1) by blast
      then show "cot_pair D (?kS j) (?kR j)" using run(3) [of "128 + j"] inp [of "128 + j"] by simp
    qed
    then show ?thesis unfolding row by (intro cot_pair_xor run(2) that)
  qed
  moreover have "run_extend sha rnd D (mpS, otS, lpS, outS, inS) (mpR, otR, lpR, outR, inR)
      = Some ((?mpS, op_reset otS, snd ?cS, fst ?cS, inS'), (?mpR', op_reset otR, snd ?cR, fst ?cR, inR), True)"
    using run(1) num by (simp add: run_extend_def split_beta)
  moreover have "mpcot_pair h t ?mpS ?mpR'"
    using mp by (simp add: mpcot_pair_def sender_init_def recver_init_def Let_def)
  ultimately show thesis using lpn_pair_keep [OF lp] by (intro that)
qed

subsection \<open>Both objects in step\<close>

definition ferret_M :: "PrimalLPNParameter \<Rightarrow> nat" where
  "ferret_M p = pl_k p + pl_t p * pl_log_bin_sz p + 128"

definition ferret_L :: "PrimalLPNParameter \<Rightarrow> nat" where
  "ferret_L p = pl_n p - ferret_M p"

definition pre_pair :: "block \<Rightarrow> nat \<Rightarrow> FerretCOT \<Rightarrow> FerretCOT \<Rightarrow> bool" where
  "pre_pair D m S R \<longleftrightarrow> (\<exists>preS preR. fc_ot_pre_data S = Some preS \<and> fc_ot_pre_data R = Some preR \<and> (\<forall>i<m. cot_pair D (preS i) (preR i)))"

definition parts_pair :: "PrimalLPNParameter \<Rightarrow> FerretCOT \<Rightarrow> FerretCOT \<Rightarrow> bool" where
  "parts_pair p S R \<longleftrightarrow> fc_extend_initialized S \<and> fc_extend_initialized R \<and> fc_param S = p \<and> fc_param R = p \<and> param_ok p
     \<and> fc_M S = int (ferret_M p) \<and> fc_M R = int (ferret_M p) \<and> fc_ot_limit S = int (ferret_L p) \<and> fc_ot_limit R = int (ferret_L p)
     \<and> mpcot_pair (pl_log_bin_sz p + 1) (pl_t p) (fc_mpcot S) (fc_mpcot R) \<and> lpn_pair (pl_n p) (pl_k p) (fc_lpn_f2 S) (fc_lpn_f2 R)
     \<and> op_length (fc_pre_ot R) = pl_log_bin_sz p \<and> op_count (fc_pre_ot R) = 0
     \<and> op_n (fc_pre_ot S) = pl_log_bin_sz p * pl_t p \<and> op_n (fc_pre_ot R) = pl_log_bin_sz p * pl_t p"

definition ferret_core :: "block \<Rightarrow> PrimalLPNParameter \<Rightarrow> FerretCOT \<Rightarrow> FerretCOT \<Rightarrow> bool" where
  "ferret_core D p S R \<longleftrightarrow> getLSB D \<and> fc_Delta S = D \<and> fc_ch1 S = D \<and> parts_pair p S R \<and> pre_pair D (ferret_M p) S R"

lemma prepared_pre:
  assumes "op_length oR = len" and "op_count oR = 0" and "op_n oS = len * t" and "op_n oR = len * t"
    and "\<And>i. i < len * t \<Longrightarrow> cot_pair D (preS i) (preR i)"
  shows "prepared D len t (op_send_pre preS D oS) (op_recv_pre preR oR)"
proof -
  have "op_pre_data (op_recv_pre preR oR) i = CCRH_H ccrh_key (preS i XOR gate_blk (op_bits (op_recv_pre preR oR) i) D)
      \<and> op_pre_data (op_send_pre preS D oS) i = CCRH_H ccrh_key (preS i) \<and> op_pre_data (op_send_pre preS D oS) (i + op_n oS) = CCRH_H ccrh_key (preS i XOR D)"
    if "i < len * t" for i
  proof -
    have "preR i = preS i XOR gate_blk (getLSB (preR i)) D" using assms(5) [OF that] by (simp add: cot_pair_def)
    from this [symmetric] show ?thesis using that assms(3,4) op_send_pre_eq(2) [of i oS preS D] by (simp add: op_send_pre_eq(1) op_recv_pre_eq)
  qed
  then show ?thesis using assms(1-4) by (auto simp: prepared_def)
qed

lemma param_bounds:
  assumes "param_ok p"
  shows "pl_n p = pl_t p * 2 ^ pl_log_bin_sz p" and "ferret_M p + ferret_L p = pl_n p" and "ferret_M p \<le> ferret_L p" and "0 < ferret_L p"
    and "128 + pl_k p \<le> ferret_M p" and "pl_log_bin_sz p * pl_t p \<le> ferret_M p" and "ferret_M p \<le> pl_n_pre p"
proof -
  have "2 * ferret_M p \<le> pl_n p" "0 < ferret_M p" using assms by (simp_all add: param_ok_def ferret_M_def)
  then show "ferret_M p + ferret_L p = pl_n p" "ferret_M p \<le> ferret_L p" "0 < ferret_L p" by (simp_all add: ferret_L_def)
qed (use assms in \<open>simp_all add: param_ok_def ferret_M_def mult.commute\<close>)

text \<open>An extension delivers \<open>n\<close> correlations and renews those it starts from.\<close>

lemma run_extend_f2k_ok:
  assumes "ferret_core D p S R"
  obtains bS S' bR R' where "run_extend_f2k sha rnd (bufS, S) (bufR, R) = Some ((bS, S'), (bR, R'), True)"
    and "ferret_core D p S' R'" and "\<forall>i<pl_n p. cot_pair D (bS i) (bR i)"
    and "fc_ot_used S' = 0" and "fc_ot_used R' = 0" and "fc_ot_data S' = fc_ot_data S" and "fc_ot_data R' = fc_ot_data R"
proof -
  note c = assms [unfolded ferret_core_def parts_pair_def]
  obtain preS preR where pre: "fc_ot_pre_data S = Some preS" "fc_ot_pre_data R = Some preR" "\<And>i. i < ferret_M p \<Longrightarrow> cot_pair D (preS i) (preR i)"
    using c by (auto simp: pre_pair_def)
  have p: "param_ok p" using c by simp
  note b = param_bounds [OF p]
  have "prepared D (pl_log_bin_sz p + 1 - 1) (pl_t p) (op_send_pre preS D (fc_pre_ot S)) (op_recv_pre preR (fc_pre_ot R))"
    by (intro prepared_pre pre(3)) (use c b(6) in auto)
  moreover have "cot_pair D (preS i) (preR i)" if "i < 128 + pl_k p" for i using that b(5) by (intro pre(3)) simp
  ultimately obtain mpS lpS outS inS mpR lpR outR where run:
    "run_extend sha rnd D (fc_mpcot S, op_send_pre preS D (fc_pre_ot S), fc_lpn_f2 S, bufS, preS) (fc_mpcot R, op_recv_pre preR (fc_pre_ot R), fc_lpn_f2 R, bufR, preR)
       = Some ((mpS, op_reset (op_send_pre preS D (fc_pre_ot S)), lpS, outS, inS), (mpR, op_reset (op_recv_pre preR (fc_pre_ot R)), lpR, outR, preR), True)"
    "mpcot_pair (pl_log_bin_sz p + 1) (pl_t p) mpS mpR" "lpn_pair (pl_n p) (pl_k p) lpS lpR"
    "\<And>i. i < pl_t p * 2 ^ (pl_log_bin_sz p + 1 - 1) \<Longrightarrow> cot_pair D (outS i) (outR i)"
    using run_extend_ok [where D = D and sha = sha and rnd = rnd and outS = bufS and outR = bufR and mpS = "fc_mpcot S" and mpR = "fc_mpcot R"
        and lpS = "fc_lpn_f2 S" and lpR = "fc_lpn_f2 R" and h = "pl_log_bin_sz p + 1" and t = "pl_t p" and n = "pl_n p" and k = "pl_k p"
        and otS = "op_send_pre preS D (fc_pre_ot S)" and otR = "op_recv_pre preR (fc_pre_ot R)" and inS = preS and inR = preR] c by blast
  let ?S = "finish_extend S (mpS, op_reset (op_send_pre preS D (fc_pre_ot S)), lpS, outS, inS)"
  let ?R = "finish_extend R (mpR, op_reset (op_recv_pre preR (fc_pre_ot R)), lpR, outR, preR)"
  have corr: "cot_pair D (outS i) (outR i)" if "i < pl_n p" for i using run(4) [of i] that b(1) by simp
  have "pre_pair D (ferret_M p) (snd ?S) (snd ?R)"
    using c b(2) corr by (auto simp: pre_pair_def finish_extend_def put_blocks_eq)
  moreover have "parts_pair p (snd ?S) (snd ?R)"
    using c run(2,3) by (simp add: parts_pair_def finish_extend_def op_reset_def)
  ultimately have "ferret_core D p (snd ?S) (snd ?R)" using c by (simp add: ferret_core_def finish_extend_def)
  moreover have "run_extend_f2k sha rnd (bufS, S) (bufR, R) = Some (?S, ?R, True)"
    using run(1) pre(1,2) c by (simp add: run_extend_f2k_def)
  moreover have "fst ?S = outS" "fst ?R = outR" by (simp_all add: finish_extend_def)
  ultimately show thesis
    using corr by (intro that [of "fst ?S" "snd ?S" "fst ?R" "snd ?R"]) (simp_all add: finish_extend_def)
qed

subsection \<open>Setup puts the objects in step\<close>

lemma prepared_pre_bits:
  assumes "op_length oR = len" and "op_count oR = 0" and "op_n oS = len * t" and "op_n oR = len * t"
    and "\<And>i. i < len * t \<Longrightarrow> cot_pair D (preS i) (preR i) \<and> getLSB (preR i) = b i"
  shows "prepared D len t (op_send_pre preS D oS) (op_recv_pre_bits preR b oR)"
proof -
  have "op_pre_data (op_recv_pre_bits preR b oR) i = CCRH_H ccrh_key (preS i XOR gate_blk (op_bits (op_recv_pre_bits preR b oR) i) D)
      \<and> op_pre_data (op_send_pre preS D oS) i = CCRH_H ccrh_key (preS i) \<and> op_pre_data (op_send_pre preS D oS) (i + op_n oS) = CCRH_H ccrh_key (preS i XOR D)"
    if "i < len * t" for i
  proof -
    have l: "getLSB (preR i) = b i" and "preR i = preS i XOR gate_blk (getLSB (preR i)) D" using assms(5) [OF that] unfolding cot_pair_def by blast+
    then have "preS i XOR gate_blk (b i) D = preR i" unfolding l by simp
    then show ?thesis using that assms(3,4) op_send_pre_eq(2) [of i oS preS D] by (simp add: op_send_pre_eq(1) op_recv_pre_eq)
  qed
  then show ?thesis using assms(1-4) by (auto simp: prepared_def)
qed

lemma LpnF2_new_pair:
  assumes "0 < k" and "k < 2 ^ 31" and "0 < threads"
  obtains lpS lpR where "LpnF2_new n k threads jS = Some lpS" and "LpnF2_new n k threads jR = Some lpR" and "lpn_pair n k lpS lpR"
proof -
  obtain m where m: "LpnF2_new n k threads jS = Some \<lparr>lp_n = n, lp_k = k, lp_mask = m, lp_threads = threads, lp_seed = jS\<rparr>"
    "lpn_wf \<lparr>lp_n = n, lp_k = k, lp_mask = m, lp_threads = threads, lp_seed = jS\<rparr>"
    by (rule LpnF2_new_wf [OF assms(1,2)])
  let ?R = "\<lparr>lp_n = n, lp_k = k, lp_mask = m, lp_threads = threads, lp_seed = jR\<rparr>"
  have "LpnF2_new n k threads jR = Some ?R" using m(1) by (simp add: LpnF2_new_def split: option.splits)
  moreover have "lpn_pair n k \<lparr>lp_n = n, lp_k = k, lp_mask = m, lp_threads = threads, lp_seed = jS\<rparr> ?R"
    using m(2) assms(3) by (simp add: lpn_pair_def lpn_wf_def)
  ultimately show thesis using m(1) by (intro that)
qed

lemma ferret_mpcot_pair:
  assumes "fc_threads R = fc_threads S" and "0 < fc_threads S" and "fc_is_malicious R = fc_is_malicious S" and "2 \<le> log"
  shows "mpcot_pair (log + 1) t (ferret_mpcot S n t log hS) (ferret_mpcot R n t log hR)"
  using assms by (auto simp: mpcot_pair_def ferret_mpcot_def MpcotReg_new_def set_malicious_def Let_def)

lemma ferret_mpcot_simps [simp]:
  "mp_tree_height (ferret_mpcot st n t log h) = log + 1" "mp_tree_n (ferret_mpcot st n t log h) = t" "mp_consist_check_cot_num (ferret_mpcot st n t log h) = 128"
  by (simp_all add: ferret_mpcot_def MpcotReg_new_def set_malicious_def Let_def)

lemma OTPre_new_simps [simp]: "op_length (OTPre_new l t h) = l" "op_n (OTPre_new l t h) = l * t" "op_count (OTPre_new l t h) = 0"
  by (simp_all add: OTPre_new_def)

text \<open>Two objects made with the same parameters.\<close>

definition same_config :: "PrimalLPNParameter \<Rightarrow> FerretCOT \<Rightarrow> FerretCOT \<Rightarrow> bool" where
  "same_config p S R \<longleftrightarrow> param_ok p \<and> fc_param S = p \<and> fc_param R = p \<and> 0 < fc_threads S \<and> fc_threads R = fc_threads S
     \<and> fc_is_malicious R = fc_is_malicious S \<and> bc_malicious (fc_base_cot R) = bc_malicious (fc_base_cot S)"

lemma extend_initialization_pair:
  assumes "same_config p S R"
  obtains S' R' where "extend_initialization S = Some S'" and "extend_initialization R = Some R'" and "parts_pair p S' R'" and "same_config p S' R'"
    and "fc_Delta S' = fc_Delta S" and "fc_base_cot S' = fc_base_cot S" and "fc_base_cot R' = fc_base_cot R"
    and "fc_ot_used S' = int (ferret_L p)" and "fc_ot_used R' = int (ferret_L p)"
proof -
  note c = assms [unfolded same_config_def]
  obtain lpS lpR where lp: "LpnF2_new (pl_n p) (pl_k p) (fc_threads S) (lp_seed (fc_lpn_f2 S)) = Some lpS"
    "LpnF2_new (pl_n p) (pl_k p) (fc_threads S) (lp_seed (fc_lpn_f2 R)) = Some lpR" "lpn_pair (pl_n p) (pl_k p) lpS lpR"
    by (rule LpnF2_new_pair [where k = "pl_k p" and threads = "fc_threads S"]) (use c in \<open>simp_all add: param_ok_def\<close>)
  have "2 \<le> pl_log_bin_sz p" using c by (simp add: param_ok_def)
  then have mp: "mpcot_pair (Suc (pl_log_bin_sz p)) (pl_t p) (ferret_mpcot S (pl_n p) (pl_t p) (pl_log_bin_sz p) hS)
      (ferret_mpcot R (pl_n p) (pl_t p) (pl_log_bin_sz p) hR)" for hS hR
    using ferret_mpcot_pair [of R S "pl_log_bin_sz p"] c by simp
  have "int (pl_n p) - int (ferret_M p) = int (ferret_L p)" using param_bounds(2) [of p] c by simp
  moreover have "int (pl_k p) + int (pl_log_bin_sz p * pl_t p) + 128 = int (ferret_M p)" by (simp add: ferret_M_def mult.commute)
  ultimately have M: "int (pl_k p) + int (pl_log_bin_sz p * pl_t p) + 128 = int (ferret_M p)" "int (pl_n p) - int (ferret_M p) = int (ferret_L p)" by simp_all
  define ini where "ini st lp = st\<lparr>fc_lpn_f2 := lp, fc_mpcot := ferret_mpcot st (pl_n p) (pl_t p) (pl_log_bin_sz p) (fc_mpcot st),
      fc_pre_ot := OTPre_new (pl_log_bin_sz p) (pl_t p) (fc_pre_ot st), fc_M := int (ferret_M p), fc_ot_limit := int (ferret_L p),
      fc_ot_used := int (ferret_L p), fc_extend_initialized := True\<rparr>" for st lp
  have "extend_initialization S = Some (ini S lpS)" "extend_initialization R = Some (ini R lpR)"
    using c lp M by (simp_all add: extend_initialization_def Let_def ini_def)
  moreover have "parts_pair p (ini S lpS) (ini R lpR)" "same_config p (ini S lpS) (ini R lpR)"
    using c lp(3) mp by (simp_all add: parts_pair_def same_config_def ini_def)
  ultimately show thesis by (rule that) (simp_all add: ini_def)
qed

lemma ini_parts_pair:
  assumes "same_config p S R"
  obtains mpS otS lpS mpR otR lpR where "ini_parts sm S = Some (mpS, otS, lpS)" and "ini_parts sm R = Some (mpR, otR, lpR)"
    and "mpcot_pair (pl_log_bin_sz_pre p + 1) (pl_t_pre p) mpS mpR" and "lpn_pair (pl_n_pre p) (pl_k_pre p) lpS lpR"
    and "op_length otR = pl_log_bin_sz_pre p" and "op_count otR = 0"
    and "op_n otS = pl_log_bin_sz_pre p * pl_t_pre p" and "op_n otR = pl_log_bin_sz_pre p * pl_t_pre p"
proof -
  note c = assms [unfolded same_config_def]
  obtain lpS lpR where lp: "LpnF2_new (pl_n_pre p) (pl_k_pre p) (fc_threads S) (sm_lpn_seed sm) = Some lpS"
    "LpnF2_new (pl_n_pre p) (pl_k_pre p) (fc_threads S) (sm_lpn_seed sm) = Some lpR" "lpn_pair (pl_n_pre p) (pl_k_pre p) lpS lpR"
    by (rule LpnF2_new_pair [where k = "pl_k_pre p" and threads = "fc_threads S" and n = "pl_n_pre p" and jS = "sm_lpn_seed sm" and jR = "sm_lpn_seed sm"])
      (use c param_ok_def in blast)+
  have "2 \<le> pl_log_bin_sz_pre p" using c by (simp add: param_ok_def)
  then have mp: "mpcot_pair (pl_log_bin_sz_pre p + 1) (pl_t_pre p) (ferret_mpcot S (pl_n_pre p) (pl_t_pre p) (pl_log_bin_sz_pre p) hS)
      (ferret_mpcot R (pl_n_pre p) (pl_t_pre p) (pl_log_bin_sz_pre p) hR)" for hS hR
    using ferret_mpcot_pair [of R S "pl_log_bin_sz_pre p"] c by simp
  let ?ot = "OTPre_new (pl_log_bin_sz_pre p) (pl_t_pre p) (sm_otpre sm)"
  have "ini_parts sm S = Some (ferret_mpcot S (pl_n_pre p) (pl_t_pre p) (pl_log_bin_sz_pre p) (sm_mpcot sm), ?ot, lpS)"
    "ini_parts sm R = Some (ferret_mpcot R (pl_n_pre p) (pl_t_pre p) (pl_log_bin_sz_pre p) (sm_mpcot sm), ?ot, lpR)"
    using c lp by (simp_all add: ini_parts_def Let_def)
  then show thesis using mp lp(3) by (rule that) simp_all
qed

definition ferret_sync :: "block \<Rightarrow> PrimalLPNParameter \<Rightarrow> FerretCOT \<Rightarrow> FerretCOT \<Rightarrow> bool" where
  "ferret_sync D p S R \<longleftrightarrow> ferret_core D p S R \<and> fc_ot_used R = fc_ot_used S \<and> 0 \<le> fc_ot_used S \<and> fc_ot_used S \<le> int (ferret_L p)
     \<and> (fc_ot_used S < int (ferret_L p) \<longrightarrow> (\<exists>oS oR. fc_ot_data S = Some oS \<and> fc_ot_data R = Some oR
          \<and> (\<forall>i. fc_ot_used S \<le> int i \<and> i < ferret_L p \<longrightarrow> cot_pair D (oS i) (oR i))))"

lemma run_setup_ok:
  assumes conf: "same_config p S R" and D: "getLSB D" and keys: "\<And>i. i < 128 \<Longrightarrow> sm_kS sm i = (if bit D i then sm_k1 sm i else sm_k0 sm i)"
  obtains S' R' where "run_setup sha sm D S R = Some (Inr (S', R', True))" and "ferret_sync D p S' R'"
proof -
  have conf': "same_config p (S\<lparr>fc_Delta := D\<rparr>) R" using conf by (simp add: same_config_def)
  obtain S1 R1 where i: "extend_initialization (S\<lparr>fc_Delta := D\<rparr>) = Some S1" "extend_initialization R = Some R1" "parts_pair p S1 R1" "same_config p S1 R1"
    "fc_Delta S1 = D" "fc_base_cot S1 = fc_base_cot S" "fc_base_cot R1 = fc_base_cot R" "fc_ot_used S1 = int (ferret_L p)" "fc_ot_used R1 = int (ferret_L p)"
    using extend_initialization_pair [OF conf'] by (metis FerretCOT.select_convs(1) FerretCOT.surjective FerretCOT.update_convs(1) FerretCOT.select_convs(13))
  note c = i(4) [unfolded same_config_def]
  obtain mpS otS lpS mpR otR lpR where ini: "ini_parts sm S1 = Some (mpS, otS, lpS)" "ini_parts sm R1 = Some (mpR, otR, lpR)"
    "mpcot_pair (pl_log_bin_sz_pre p + 1) (pl_t_pre p) mpS mpR" "lpn_pair (pl_n_pre p) (pl_k_pre p) lpS lpR"
    "op_length otR = pl_log_bin_sz_pre p" "op_count otR = 0" "op_n otS = pl_log_bin_sz_pre p * pl_t_pre p" "op_n otR = pl_log_bin_sz_pre p * pl_t_pre p"
    by (rule ini_parts_pair [OF i(4)])
  let ?bS = "cot_gen_pre_send (sm_delta_bool sm) (sm_kS sm) D (fc_base_cot S1)" and ?bR = "cot_gen_pre_recv (sm_k0 sm) (sm_k1 sm) (fc_base_cot R1)"
  have ready: "base_ready D ?bS ?bR" by (rule cot_gen_pre_ready) (use D keys c in auto)
  obtain d0R msg0 bR0 d0S bS0 where g0: "cot_gen_recv (sm_junkR sm 0) (sm_rnd sm 0) (sm_seed2 sm 0) (sm_outR sm 0) (sm_bits sm 0) (op_n otR) ?bR = (d0R, msg0, bR0)"
    "\<And>rest. cot_gen_send (sm_junkS sm 0) (sm_outS sm 0) (op_n otR) (msg0 @ rest) ?bS = Some (Inr (d0S, rest, bS0))"
    "base_ready D bS0 bR0" "\<And>i. i < op_n otR \<Longrightarrow> cot_pair D (d0S i) (d0R i) \<and> getLSB (d0R i) = sm_bits sm 0 i"
    using cot_gen_ok [OF ready, where junk' = "sm_junkR sm 0" and rnd = "sm_rnd sm 0" and ?seed2.0 = "sm_seed2 sm 0" and out' = "sm_outR sm 0" and b = "sm_bits sm 0"
          and n = "op_n otR" and junk = "sm_junkS sm 0" and out = "sm_outS sm 0"] by blast
  let ?n = "pl_k_pre p + 128"
  obtain dR msg1 bR1 dS bS1 where g1: "cot_gen_recv (sm_junkR sm 1) (sm_rnd sm 1) (sm_seed2 sm 1) (sm_outR sm 1) (sm_bits sm 1) ?n bR0 = (dR, msg1, bR1)"
    "\<And>rest. cot_gen_send (sm_junkS sm 1) (sm_outS sm 1) ?n (msg1 @ rest) bS0 = Some (Inr (dS, rest, bS1))"
    "base_ready D bS1 bR1" "\<And>i. i < ?n \<Longrightarrow> cot_pair D (dS i) (dR i) \<and> getLSB (dR i) = sm_bits sm 1 i"
    using cot_gen_ok [OF g0(3), where junk' = "sm_junkR sm 1" and rnd = "sm_rnd sm 1" and ?seed2.0 = "sm_seed2 sm 1" and out' = "sm_outR sm 1" and b = "sm_bits sm 1"
          and n = ?n and junk = "sm_junkS sm 1" and out = "sm_outS sm 1"] by blast
  let ?oS = "op_send_pre d0S D otS" and ?oR = "op_recv_pre_bits d0R (sm_bits sm 0) otR"
  have prep: "prepared D (pl_log_bin_sz_pre p + 1 - 1) (pl_t_pre p) ?oS ?oR"
    by (rule prepared_pre_bits) (use ini(5-8) g0(4) in auto)
  have inp: "cot_pair D (dS i) (dR i)" if "i < 128 + pl_k_pre p" for i using g1(4) [of i] that by simp
  obtain mpS' lpS' outS inS mpR' lpR' outR where ext:
    "run_extend sha (sm_ext sm) D (mpS, ?oS, lpS, \<lambda>_. 0, dS) (mpR, ?oR, lpR, \<lambda>_. 0, dR)
       = Some ((mpS', op_reset ?oS, lpS', outS, inS), (mpR', op_reset ?oR, lpR', outR, dR), True)"
    "\<And>i. i < pl_t_pre p * 2 ^ (pl_log_bin_sz_pre p + 1 - 1) \<Longrightarrow> cot_pair D (outS i) (outR i)"
    by (rule run_extend_ok [OF D ini(3) prep ini(4), where sha = sha and rnd = "sm_ext sm" and outS = "\<lambda>_. 0" and outR = "\<lambda>_. 0"
        and inS = dS and inR = dR], erule inp) blast
  let ?S = "S1\<lparr>fc_base_cot := bS1, fc_ot_pre_data := Some outS, fc_ch1 := D\<rparr>" and ?R = "R1\<lparr>fc_base_cot := bR1, fc_ot_pre_data := Some outR\<rparr>"
  have num: "mp_consist_check_cot_num mpS = 128" "mp_consist_check_cot_num mpR = 128" using ini(3) by (simp_all add: mpcot_pair_def)
  have delta: "bc_ot_delta bS0 = D" using g0(3) by (simp add: base_ready_def)
  have ot_send: "cot_gen_ot_send (sm_junkS sm 0) (sm_outS sm 0) (op_n otS) msg0 (?bS, otS) = Some (Inr ([], bS0, ?oS))"
    using g0(2) [of "[]"] ini(7,8) delta by (simp add: cot_gen_ot_send_def)
  have ot_recv: "cot_gen_ot_recv (sm_junkR sm 0) (sm_rnd sm 0) (sm_seed2 sm 0) (sm_outR sm 0) (sm_bits sm 0) (op_n otR) (?bR, otR) = (msg0, bR0, ?oR)"
    using g0(1) by (simp add: cot_gen_ot_recv_def)
  have "run_setup sha sm D S R = Some (Inr (?S, ?R, True))"
    unfolding run_setup_def i(1,2) option.case prod.case Let_def i(5) ini(1,2) ot_recv ot_send sum.case
    using c g1(1) g1(2) [of "[]"] ext(1) num by simp
  moreover have "cot_pair D (outS i) (outR i)" if "i < ferret_M p" for i
    using ext(2) [of i] that param_bounds(7) [of p] c by (simp add: param_ok_def)
  then have "ferret_core D p ?S ?R"
    using i(3,5) D by (simp add: ferret_core_def parts_pair_def pre_pair_def)
  then have "ferret_sync D p ?S ?R" using i(8,9) by (simp add: ferret_sync_def)
  ultimately show thesis by (rule that)
qed

end
