(* ===== verification/FerretRun.thy ===== *)
theory FerretRun
  imports Ferret
begin

text \<open>
  What the public operations of \<^verbatim>\<open>FerretCOT\<close> deliver: \<^verbatim>\<open>rcot\<close> stays inside the caller's array and fills it with correlations
  whatever is left over from earlier calls, and any sequence of calls of \<^verbatim>\<open>send_cot\<close> and \<^verbatim>\<open>recv_cot\<close> after a common
  \<^verbatim>\<open>setup\<close> gives the receiver, for its own choice bits, the sender's blocks plus the offset.
\<close>

subsection \<open>The plan of a call\<close>

lemma plan_arith:
  fixes x M L :: int
  assumes "0 < x" and "0 < M" and "0 < L"
  defines "r \<equiv> (x - M) sdiv L"
  shows "0 \<le> r \<longleftrightarrow> M - L < x" and "0 < x - r * L" and "M \<le> L \<Longrightarrow> x - r * L \<le> 2 * L" and "0 < r \<Longrightarrow> M + r * L \<le> x"
proof -
  have r: "r = (if x < M then - ((M - x) div L) else (x - M) div L)"
    using assms(1-3) by (auto simp: r_def signed_divide_int_def sgn_if)
  have q: "(x - M) div L * L + (x - M) mod L = x - M" "0 \<le> (x - M) mod L" "(x - M) mod L < L" using assms by simp_all
  have q': "(M - x) div L * L + (M - x) mod L = M - x" "0 \<le> (M - x) mod L" "(M - x) mod L < L" using assms by simp_all
  have neg: "(M - x) div L = 0 \<longleftrightarrow> M - L < x" if "x < M"
    using that assms(3) q' div_pos_pos_trivial [of "M - x" L] by (cases "(M - x) div L = 0") auto
  have nn: "0 \<le> (M - x) div L" if "x < M" using that assms(3) by (simp add: pos_imp_zdiv_nonneg_iff)
  have pos: "0 \<le> (x - M) div L" if "\<not> x < M" using that assms(3) by (simp add: pos_imp_zdiv_nonneg_iff)
  show "0 \<le> r \<longleftrightarrow> M - L < x" using r neg nn pos assms(3) by (cases "x < M") auto
  have *: "x < M \<and> r \<le> 0 \<and> - (r * L) = M - x - (M - x) mod L \<or> M \<le> x \<and> r * L = x - M - (x - M) mod L"
    using r q(1) q'(1) nn by (cases "x < M") (auto simp: algebra_simps)
  moreover have "r \<le> 0 \<Longrightarrow> r * L \<le> 0" using assms(3) by (simp add: mult_nonpos_nonneg)
  ultimately show "0 < x - r * L" using q(2,3) assms(1,2) by linarith
  show "0 < r \<Longrightarrow> M + r * L \<le> x" using * q(2) by auto
  show "x - r * L \<le> 2 * L" if "M \<le> L" using * q q' that by linarith
qed

lemma rcot_plan_ok:
  assumes p: "param_ok p" and S: "fc_M S = int (ferret_M p)" "fc_ot_limit S = int (ferret_L p)" and more: "silent_ot_left S < num"
  obtains r c l where "rcot_plan num S = (silent_ot_left S, r, c, l)" and "0 \<le> r" and "0 < l" and "l \<le> fc_ot_limit S"
    and "silent_ot_left S + r * fc_ot_limit S + (if c then fc_ot_limit S else 0) + l = num"
    and "0 < r \<Longrightarrow> silent_ot_left S + (r - 1) * fc_ot_limit S + int (pl_n p) \<le> num"
proof -
  let ?L = "fc_ot_limit S" and ?M = "fc_M S" and ?x = "num - silent_ot_left S"
  have M: "0 < ferret_M p" by (simp add: ferret_M_def)
  have b: "0 < ?M" "?M \<le> ?L" "int (pl_n p) = ?M + ?L" "0 < ?x"
    using more param_bounds(3) [OF p] M unfolding S param_bounds(2) [OF p, symmetric] by simp_all
  have L: "0 < ?L" using b(1,2) by simp
  have nonneg: "?M - ?L < ?x" using b by simp
  note a = plan_arith [of ?x ?M ?L, OF b(4,1) L]
  let ?r = "(?x - ?M) sdiv ?L"
  let ?tot = "?x - ?r * ?L"
  let ?rest = "if ?tot > ?L then ?tot - ?L else ?tot"
  have plan: "rcot_plan num S = (silent_ot_left S, ?r, ?tot > ?L, ?rest)" by (simp only: rcot_plan_def Let_def)
  show thesis
  proof (rule that [OF plan])
    show "0 \<le> ?r" using a(1) nonneg by blast
    show "0 < ?rest" "?rest \<le> ?L" using a(2) a(3) [OF b(2)] by (cases "?tot > ?L"; simp)+
    show "silent_ot_left S + ?r * ?L + (if ?tot > ?L then ?L else 0) + ?rest = num" by simp
    show "silent_ot_left S + (?r - 1) * ?L + int (pl_n p) \<le> num" if "0 < ?r" using a(4) [OF that] b(3) by (simp add: left_diff_distrib)
  qed
qed

lemma extend_initialization_fields:
  assumes "extend_initialization st = Some st'"
  shows "fc_M st' = int (pl_k (fc_param st) + pl_t (fc_param st) * pl_log_bin_sz (fc_param st) + 128)"
    and "fc_ot_limit st' = int (pl_n (fc_param st)) - fc_M st'"
  using assms by (auto simp: extend_initialization_def Let_def mult.commute split: option.splits)

lemma extend_initialization_Some: "\<exists>st'. extend_initialization st = Some st'"
proof -
  obtain m where "lpn_mask_loop (of_nat (pl_k (fc_param st))) 1 = Some m"
    using mask_loop [of 1 "of_nat (pl_k (fc_param st))"] by auto
  then show ?thesis by (simp add: extend_initialization_def LpnF2_new_def Let_def)
qed

text \<open>
  C20.  When \<^verbatim>\<open>rcot\<close> stays inside the caller's array.  Take an initialised object with a positive \<^verbatim>\<open>ot_limit = n - M\<close>, where
  \<open>M = k + t * log_bin_sz + 128\<close> correlations are kept for the next extension; \<open>u\<close> of the buffered correlations are used up and \<open>num\<close>, more than what is
  left, are requested.  If \<open>M - ot_limit < num - left\<close>, the correlations left, the rounds in place, the copied round and the
  last round make up exactly \<open>num\<close> blocks, and every round in place, which writes \<open>n\<close> blocks to hand out only \<^verbatim>\<open>ot_limit\<close>
  of them, ends below \<open>num\<close>; otherwise \<^verbatim>\<open>round_inplace\<close> is negative and more than \<open>num\<close> blocks are copied to the array.  If
  \<open>M \<le> ot_limit\<close> the first case holds for every request, and the last round hands out no more than \<^verbatim>\<open>ot_limit\<close> blocks.  All three
  shipped parameter sets satisfy this; the constructor of \<^verbatim>\<open>PrimalLPNParameter\<close> does not check it.
\<close>

theorem rcot_in_bounds:
  assumes "extend_initialization st = Some st0" and "0 < fc_ot_limit st0" and "0 \<le> u" and "u \<le> fc_ot_limit st0" and "fc_ot_limit st0 - u < num"
  defines "M \<equiv> int (pl_k (fc_param st) + pl_t (fc_param st) * pl_log_bin_sz (fc_param st) + 128)" and "L \<equiv> fc_ot_limit st0"
  shows "L = int (pl_n (fc_param st)) - M
     \<and> (case rcot_plan num (st0\<lparr>fc_ot_used := u\<rparr>) of (gened, r, c, l) \<Rightarrow> gened = L - u \<and> 0 < l
     \<and> (if M - L < num - gened
        then 0 \<le> r \<and> gened + r * L + (if c then L else 0) + l = num
           \<and> (\<forall>i. 0 \<le> i \<and> i < r \<longrightarrow> gened + i * L + int (pl_n (fc_param st)) \<le> num)
        else r < 0 \<and> num < gened + (if c then L else 0) + l)
     \<and> (M \<le> L \<longrightarrow> M - L < num - gened \<and> l \<le> L))"
proof -
  let ?S = "st0\<lparr>fc_ot_used := u\<rparr>" and ?x = "num - (L - u)"
  have M: "fc_M st0 = M" and n: "int (pl_n (fc_param st)) = M + L"
    using extend_initialization_fields [OF assms(1)] by (simp_all add: M_def L_def)
  have pos: "0 < ?x" "0 < M" "0 < L" using assms(2,5) by (simp_all add: M_def L_def add_nonneg_pos)
  note a = plan_arith [OF pos]
  define r where "r = (?x - M) sdiv L"
  define tot where "tot = ?x - r * L"
  note a = a [folded r_def, folded tot_def]
  have plan: "rcot_plan num ?S = (L - u, r, L < tot, if L < tot then tot - L else tot)"
    by (simp add: rcot_plan_def silent_ot_left_def Let_def M L_def [symmetric] r_def tot_def)
  have inplace: "L - u + i * L + int (pl_n (fc_param st)) \<le> num" if "0 \<le> i" "i < r" for i
  proof -
    have "i * L \<le> (r - 1) * L" using that pos(3) by (intro mult_right_mono) simp_all
    then show ?thesis using a(4) that n by (simp add: left_diff_distrib)
  qed
  have over: "L < tot" "num < L - u + tot" if "r < 0"
  proof -
    have "r * L \<le> - L" using that pos(3) mult_right_mono [of r "-1" L] by simp
    then show "L < tot" "num < L - u + tot" using pos by (simp_all add: tot_def)
  qed
  have "(if M - L < ?x then 0 \<le> r \<and> L - u + r * L + (if L < tot then L else 0) + (if L < tot then tot - L else tot) = num
      \<and> (\<forall>i. 0 \<le> i \<and> i < r \<longrightarrow> L - u + i * L + int (pl_n (fc_param st)) \<le> num)
    else r < 0 \<and> num < L - u + (if L < tot then L else 0) + (if L < tot then tot - L else tot))"
    using a(1) inplace over by (auto simp: tot_def)
  moreover have "0 < (if L < tot then tot - L else tot)" using a(2) by simp
  moreover have "M \<le> L \<longrightarrow> M - L < ?x \<and> (if L < tot then tot - L else tot) \<le> L" using a(3) pos by auto
  ultimately show ?thesis using n by (simp only: plan prod.case) simp
qed

text \<open>
  The parameters \<^verbatim>\<open>ferret_b11\<close> and a request for a hundred million correlations, twenty of them left over; and a
  small set that the constructor accepts, with which a request for ten correlations runs over the array.
\<close>

definition ferret_object :: "PrimalLPNParameter \<Rightarrow> nat \<Rightarrow> FerretCOT" where
  "ferret_object p party = \<lparr>fc_Delta = 0, fc_ch1 = 0, fc_party = party, fc_threads = 2, fc_is_malicious = True, fc_extend_initialized = False, fc_param = p,
     fc_ot_used = 0, fc_ot_limit = 0, fc_M = 0, fc_ot_pre_data = None, fc_ot_data = None,
     fc_base_cot = \<lparr>bc_ot_delta = 0, bc_iknp = IKNP_setup_recv True (\<lambda>_. 0) (\<lambda>_. 0), bc_malicious = True\<rparr>,
     fc_pre_ot = \<lparr>op_pre_data = (\<lambda>_. 0), op_bits = (\<lambda>_. False), op_n = 0, op_length = 0, op_count = 0, op_Delta = 0\<rparr>,
     fc_mpcot = \<lparr>mp_threads = 0, mp_item_n = 0, mp_idx_max = 0, mp_tree_height = 0, mp_leave_n = 0, mp_tree_n = 0, mp_consist_check_cot_num = 0,
       mp_is_malicious = False, mp_Delta_f2k = 0, mp_item_pos_recver = [], mp_pack_base = (\<lambda>_. 0)\<rparr>,
     fc_lpn_f2 = \<lparr>lp_n = 0, lp_k = 0, lp_mask = 0, lp_threads = 0, lp_seed = 0\<rparr>\<rparr>"

definition param_b11 :: PrimalLPNParameter where
  "param_b11 = \<lparr>pl_n = 10180608, pl_t = 4971, pl_k = 124000, pl_log_bin_sz = 11, pl_n_pre = 178944, pl_t_pre = 699, pl_k_pre = 17384, pl_log_bin_sz_pre = 8\<rparr>"

lemma param_b11: "param_ok param_b11" "ferret_b11 = Inr param_b11"
  by (simp_all add: param_b11_def param_ok_def ferret_b11_def PrimalLPNParameter_new_def)

lemma object_config: "same_config param_b11 (ferret_object param_b11 1) (ferret_object param_b11 2)"
  using param_b11(1) by (simp add: same_config_def ferret_object_def)

definition param_small :: PrimalLPNParameter where
  "param_small = \<lparr>pl_n = 512, pl_t = 4, pl_k = 200, pl_log_bin_sz = 7, pl_n_pre = 384, pl_t_pre = 3, pl_k_pre = 100, pl_log_bin_sz_pre = 7\<rparr>"

lemma param_small: "PrimalLPNParameter_new 512 4 200 7 384 3 100 7 = Inr param_small"
  by (simp add: param_small_def PrimalLPNParameter_new_def)

theorem rcot_in_bounds_witness:
  "\<exists>st0 st1. extend_initialization (ferret_object param_b11 1) = Some st0 \<and> extend_initialization (ferret_object param_small 1) = Some st1
     \<and> (case rcot_plan 100000000 (st0\<lparr>fc_ot_used := fc_ot_limit st0 - 20\<rparr>) of (gened, r, c, l) \<Rightarrow>
          gened = 20 \<and> gened + r * fc_ot_limit st0 + (if c then fc_ot_limit st0 else 0) + l = 100000000)
     \<and> (case rcot_plan 10 (st1\<lparr>fc_ot_used := fc_ot_limit st1\<rparr>) of (gened, r, c, l) \<Rightarrow>
          10 < gened + (if c then fc_ot_limit st1 else 0) + l)"
proof -
  obtain st0 st1 where st: "extend_initialization (ferret_object param_b11 1) = Some st0" "extend_initialization (ferret_object param_small 1) = Some st1"
    using extend_initialization_Some by metis
  have p: "fc_param (ferret_object q i) = q" for q i by (simp add: ferret_object_def)
  have L: "fc_ot_limit st0 = 10001799" "fc_ot_limit st1 = 156"
    using extend_initialization_fields [OF st(1)] extend_initialization_fields [OF st(2)] by (simp_all add: p param_b11_def param_small_def)
  show ?thesis
    using rcot_in_bounds [OF st(1), of "fc_ot_limit st0 - 20" 100000000] rcot_in_bounds [OF st(2), of "fc_ot_limit st1" 10] st L
    by (auto simp: p param_b11_def param_small_def split: prod.splits)
qed

subsection \<open>The rounds\<close>

text \<open>Both objects in step, buffers allocated, all checks passed and the first \<open>n\<close> blocks of both outputs correlated.\<close>

definition world_ok :: "block \<Rightarrow> PrimalLPNParameter \<Rightarrow> nat \<Rightarrow> ferret_world \<Rightarrow> bool" where
  "world_ok D p n = (\<lambda>((dS, S), (dR, R), ok). ok \<and> ferret_core D p S R \<and> (\<forall>k<n. cot_pair D (dS k) (dR k))
     \<and> fc_ot_data S \<noteq> None \<and> fc_ot_data R \<noteq> None)"

text \<open>All of \<^verbatim>\<open>ot_data\<close> is fresh.\<close>

definition buffer_fresh :: "block \<Rightarrow> PrimalLPNParameter \<Rightarrow> ferret_world \<Rightarrow> bool" where
  "buffer_fresh D p = (\<lambda>((dS, S), (dR, R), ok). \<exists>oS oR. fc_ot_data S = Some oS \<and> fc_ot_data R = Some oR \<and> (\<forall>k<ferret_L p. cot_pair D (oS k) (oR k)))"

lemma core_used [simp]: "ferret_core D p (S\<lparr>fc_ot_used := u\<rparr>) (R\<lparr>fc_ot_used := v\<rparr>) = ferret_core D p S R"
  and core_data [simp]: "ferret_core D p (S\<lparr>fc_ot_data := a\<rparr>) (R\<lparr>fc_ot_data := b\<rparr>) = ferret_core D p S R"
  by (simp_all add: ferret_core_def parts_pair_def pre_pair_def)

lemma core_limit: "ferret_core D p S R \<Longrightarrow> param_ok p \<and> fc_M S = int (ferret_M p) \<and> fc_ot_limit S = int (ferret_L p) \<and> fc_M R = int (ferret_M p) \<and> fc_ot_limit R = int (ferret_L p)"
  by (simp add: ferret_core_def parts_pair_def)

lemma inplace_round_ok:
  assumes "world_ok D p n w"
  obtains w' where "inplace_round sha rnd n w = Some w'" and "world_ok D p (n + ferret_L p) w'"
proof -
  obtain dS S dR R where w: "w = ((dS, S), (dR, R), True)" "ferret_core D p S R" "\<And>k. k < n \<Longrightarrow> cot_pair D (dS k) (dR k)"
    "fc_ot_data S \<noteq> None" "fc_ot_data R \<noteq> None"
    using assms by (auto simp: world_ok_def split: prod.splits)
  obtain bS S' bR R' where e: "run_extend_f2k sha rnd (\<lambda>k. dS (n + k), S) (\<lambda>k. dR (n + k), R) = Some ((bS, S'), (bR, R'), True)"
    "ferret_core D p S' R'" "\<forall>i<pl_n p. cot_pair D (bS i) (bR i)" "fc_ot_data S' = fc_ot_data S" "fc_ot_data R' = fc_ot_data R"
    by (rule run_extend_f2k_ok [OF w(2), where sha = sha and rnd = rnd and bufS = "\<lambda>k. dS (n + k)" and bufR = "\<lambda>k. dR (n + k)"]) (rule that)
  have "cot_pair D (at_offset n dS bS k) (at_offset n dR bR k)" if "k < n + ferret_L p" for k
    using that w(3) e(3) [rule_format, of "k - n"] param_bounds(2) [of p] core_limit [OF w(2)] by (auto simp: at_offset_def)
  then have "world_ok D p (n + ferret_L p) ((at_offset n dS bS, S'\<lparr>fc_ot_used := fc_ot_limit S'\<rparr>), (at_offset n dR bR, R'\<lparr>fc_ot_used := fc_ot_limit R'\<rparr>), True)"
    using e(2,4,5) w(4,5) by (simp add: world_ok_def)
  then show thesis using e(1) by (intro that) (simp_all add: inplace_round_def w(1))
qed

lemma memcpy_round_ok:
  assumes "world_ok D p n w" and "0 \<le> cnt" and "cnt \<le> int (ferret_L p)"
  obtains w' where "memcpy_round sha rnd n cnt w = Some w'" and "world_ok D p (n + nat cnt) w'" and "buffer_fresh D p w'"
proof -
  obtain dS S dR R oS oR where w: "w = ((dS, S), (dR, R), True)" "ferret_core D p S R" "\<And>k. k < n \<Longrightarrow> cot_pair D (dS k) (dR k)"
    "fc_ot_data S = Some oS" "fc_ot_data R = Some oR"
    using assms(1) by (auto simp: world_ok_def split: prod.splits)
  obtain bS S' bR R' where e: "run_extend_f2k sha rnd (oS, S) (oR, R) = Some ((bS, S'), (bR, R'), True)"
    "ferret_core D p S' R'" "\<forall>i<pl_n p. cot_pair D (bS i) (bR i)"
    by (rule run_extend_f2k_ok [OF w(2), where sha = sha and rnd = rnd and bufS = oS and bufR = oR]) (rule that)
  have small: "k < pl_n p" if "k < ferret_L p" for k using that param_bounds(2) [of p] core_limit [OF w(2)] by simp
  have "cot_pair D (put_blocks dS n bS (nat cnt) k) (put_blocks dR n bR (nat cnt) k)" if "k < n + nat cnt" for k
    using that w(3) e(3) [rule_format, OF small, of "k - n"] assms(2,3) by (auto simp: put_blocks_eq)
  then have "world_ok D p (n + nat cnt) ((put_blocks dS n bS (nat cnt), S'\<lparr>fc_ot_data := Some bS\<rparr>), (put_blocks dR n bR (nat cnt), R'\<lparr>fc_ot_data := Some bR\<rparr>), True)"
    using e(2) by (simp add: world_ok_def)
  moreover have "buffer_fresh D p ((put_blocks dS n bS (nat cnt), S'\<lparr>fc_ot_data := Some bS\<rparr>), (put_blocks dR n bR (nat cnt), R'\<lparr>fc_ot_data := Some bR\<rparr>), True)"
    using e(3) small by (simp add: buffer_fresh_def)
  ultimately show thesis using e(1) w(4,5) by (intro that) (simp_all add: memcpy_round_def w(1))
qed

lemma fold_opt_append: "fold_opt f (xs @ ys) s = (case fold_opt f xs s of None \<Rightarrow> None | Some s \<Rightarrow> fold_opt f ys s)"
  by (induction xs arbitrary: s) (simp_all split: option.splits)

lemma inplace_rounds_ok:
  assumes "world_ok D p (nat g) w" and "0 \<le> g"
  shows "\<exists>w'. fold_opt (\<lambda>i. inplace_round sha (rnd i) (nat (g + int i * int (ferret_L p)))) [0..<m] w = Some w' \<and> world_ok D p (nat g + m * ferret_L p) w'"
proof (induction m)
  case (Suc m)
  then obtain w1 where w1: "fold_opt (\<lambda>i. inplace_round sha (rnd i) (nat (g + int i * int (ferret_L p)))) [0..<m] w = Some w1"
    "world_ok D p (nat g + m * ferret_L p) w1" by blast
  have "nat (g + int m * int (ferret_L p)) = nat g + m * ferret_L p" using assms(2) by (simp add: nat_add_distrib nat_mult_distrib)
  moreover obtain w' where "inplace_round sha (rnd m) (nat g + m * ferret_L p) w1 = Some w'" "world_ok D p (nat g + m * ferret_L p + ferret_L p) w'"
    by (rule inplace_round_ok [OF w1(2)])
  ultimately show ?case using w1(1) by (simp add: fold_opt_append add.commute add.left_commute)
qed (use assms in simp)

lemma run_rounds_ok:
  assumes "world_ok D p (nat g) w" and "0 \<le> g" and "0 \<le> r" and "0 < l" and "l \<le> int (ferret_L p)"
    and num: "g + r * int (ferret_L p) + (if c then int (ferret_L p) else 0) + l = int n"
  shows "\<exists>w'. run_rounds sha rnd (g, r, c, l) (int (ferret_L p)) w = Some (set_used l w') \<and> world_ok D p n w' \<and> buffer_fresh D p w'"
proof -
  let ?L = "ferret_L p"
  obtain w1 where w1: "fold_opt (\<lambda>i. inplace_round sha (rnd i) (nat (g + int i * int ?L))) [0..<nat r] w = Some w1" "world_ok D p (nat g + nat r * ?L) w1"
    using inplace_rounds_ok [OF assms(1,2), of sha rnd "nat r"] by blast
  have pt: "nat (g + r * int ?L) = nat g + nat r * ?L" using assms(2,3) by (simp add: nat_add_distrib nat_mult_distrib)
  let ?n2 = "nat g + nat r * ?L + (if c then ?L else 0)"
  obtain w2 where w2: "(if c then memcpy_round sha (rnd (nat r)) (nat (g + r * int ?L)) (int ?L) w1 else Some w1) = Some w2" "world_ok D p ?n2 w2"
  proof (cases c)
    case True
    obtain w' where "memcpy_round sha (rnd (nat r)) (nat g + nat r * ?L) (int ?L) w1 = Some w'" "world_ok D p (nat g + nat r * ?L + nat (int ?L)) w'"
      by (rule memcpy_round_ok [OF w1(2), of "int ?L" sha "rnd (nat r)"]) simp_all
    then show thesis using True pt by (intro that [of w']) simp_all
  qed (use w1(2) in \<open>simp add: that\<close>)
  have pt2: "nat (if c then g + r * int ?L + int ?L else g + r * int ?L) = ?n2" using assms(2,3) pt by (simp add: nat_add_distrib)
  obtain w3 where w3: "memcpy_round sha (rnd (nat r + 1)) ?n2 l w2 = Some w3" "world_ok D p (?n2 + nat l) w3" "buffer_fresh D p w3"
    by (rule memcpy_round_ok [OF w2(2) less_imp_le [OF assms(4)] assms(5), where sha = sha and rnd = "rnd (nat r + 1)"])
  have "int (?n2 + nat l) = int n" using num assms(2-4) by (cases c) simp_all
  then have "?n2 + nat l = n" by linarith
  then have "world_ok D p n w3" using w3(2) by simp
  moreover have "run_rounds sha rnd (g, r, c, l) (int ?L) w = Some (set_used l w3)"
    using w1(1) w2(1) w3(1) assms(4) pt2 by (simp only: run_rounds_def prod.case option.case Let_def if_True option.map)
  ultimately show ?thesis using w3(3) by blast
qed

subsection \<open>One call\<close>

lemma sync_alloc:
  assumes "ferret_sync D p S R"
  shows "ferret_sync D p (alloc_ot_data S) (alloc_ot_data R)" and "fc_ot_data (alloc_ot_data S) \<noteq> None" and "fc_ot_data (alloc_ot_data R) \<noteq> None"
proof -
  have "ferret_core D p (alloc_ot_data S) (alloc_ot_data R)"
    using assms by (simp add: ferret_sync_def alloc_ot_data_def ferret_core_def parts_pair_def pre_pair_def split: option.splits)
  moreover have "fc_ot_used (alloc_ot_data st) = fc_ot_used st" for st by (simp add: alloc_ot_data_def split: option.splits)
  moreover have "fc_ot_data st = Some d \<Longrightarrow> fc_ot_data (alloc_ot_data st) = Some d" for st d by (simp add: alloc_ot_data_def)
  ultimately show "ferret_sync D p (alloc_ot_data S) (alloc_ot_data R)"
    using assms unfolding ferret_sync_def by metis
qed (simp_all add: alloc_ot_data_def split: option.splits)

lemma take_ots_ok:
  assumes "ferret_sync D p S R" and "0 \<le> cnt" and "cnt \<le> silent_ot_left S" and "fc_ot_data S \<noteq> None" and "fc_ot_data R \<noteq> None"
  shows "world_ok D p (nat cnt) (take_ots cnt (dS, S), take_ots cnt (dR, R), True)"
proof (cases "cnt = 0")
  case True
  then show ?thesis using assms by (auto simp: world_ok_def take_ots_def ferret_sync_def)
next
  case False
  note c = assms(1) [unfolded ferret_sync_def]
  have left: "silent_ot_left S = int (ferret_L p) - fc_ot_used S" using core_limit [of D p S R] c by (simp add: silent_ot_left_def)
  then have "fc_ot_used S < int (ferret_L p)" using False assms(2,3) by simp
  then obtain oS oR where o: "fc_ot_data S = Some oS" "fc_ot_data R = Some oR"
    "\<forall>i. fc_ot_used S \<le> int i \<and> i < ferret_L p \<longrightarrow> cot_pair D (oS i) (oR i)" using c by blast
  have "cot_pair D (oS (nat (fc_ot_used S) + k)) (oR (nat (fc_ot_used S) + k))" if "k < nat cnt" for k
  proof -
    have "int k < cnt" using that by simp
    then have "int (nat (fc_ot_used S) + k) < int (ferret_L p)" using left c assms(3) by simp
    then have "nat (fc_ot_used S) + k < ferret_L p" by (simp only: of_nat_less_iff)
    then show ?thesis using c by (intro o(3) [rule_format]) simp
  qed
  then show ?thesis using c o(1,2) by (simp add: world_ok_def take_ots_def put_blocks_eq)
qed

lemma run_rcot_ok:
  assumes "ferret_sync D p S R"
  obtains dS' S' dR' R' where "run_rcot sha rnd (int n) (dS, S) (dR, R) = Some (Inr ((dS', S'), (dR', R'), True))"
    and "ferret_sync D p S' R'" and "\<forall>k<n. cot_pair D (dS' k) (dR' k)"
proof -
  let ?S = "alloc_ot_data S" and ?R = "alloc_ot_data R" and ?L = "ferret_L p"
  note a = sync_alloc [OF assms]
  note c = a(1) [unfolded ferret_sync_def]
  have lim: "param_ok p" "fc_M ?S = int (ferret_M p)" "fc_ot_limit ?S = int ?L" "fc_M ?R = int (ferret_M p)" "fc_ot_limit ?R = int ?L"
    using core_limit c by blast+
  have ini: "fc_extend_initialized ?S" "fc_extend_initialized ?R" using c by (simp_all add: ferret_core_def parts_pair_def)
  have left: "silent_ot_left ?S = int ?L - fc_ot_used ?S" "0 \<le> silent_ot_left ?S" using lim c by (simp_all add: silent_ot_left_def)
  have "silent_ot_left ?R = silent_ot_left ?S" using c lim by (simp add: silent_ot_left_def)
  then have same: "rcot_plan (int n) ?R = rcot_plan (int n) ?S" using lim by (simp add: rcot_plan_def Let_def)
  show thesis
  proof (cases "int n \<le> silent_ot_left ?S")
    case True
    let ?w = "(take_ots (int n) (dS, ?S), take_ots (int n) (dR, ?R), True)"
    have snd: "snd (take_ots x (d, st)) = st" for x d st by (simp add: take_ots_def)
    have w: "world_ok D p n ?w" using take_ots_ok [OF a(1) _ True a(2,3)] by simp
    let ?u = "fc_ot_used ?S + int n"
    have "run_rcot sha rnd (int n) (dS, S) (dR, R)
        = Some (Inr ((fst (fst ?w), ?S\<lparr>fc_ot_used := ?u\<rparr>), (fst (take_ots (int n) (dR, ?R)), ?R\<lparr>fc_ot_used := ?u\<rparr>), True))"
      using True ini same lim unfolding run_rcot_def prod.case Let_def by (simp add: set_used_def take_ots_def)
    moreover have "ferret_sync D p (?S\<lparr>fc_ot_used := ?u\<rparr>) (?R\<lparr>fc_ot_used := ?u\<rparr>)" using c True left by (auto simp: ferret_sync_def)
    moreover have "\<forall>k<n. cot_pair D (fst (fst ?w) k) (fst (take_ots (int n) (dR, ?R)) k)" using w by (simp add: world_ok_def split: prod.splits)
    ultimately show thesis by (rule that)
  next
    case False
    let ?g = "silent_ot_left ?S"
    let ?w = "if ?g > 0 then (take_ots ?g (dS, ?S), take_ots ?g (dR, ?R), True) else ((dS, ?S), (dR, ?R), True)"
    have w: "world_ok D p (nat ?g) ?w"
      using take_ots_ok [OF a(1) left(2) order.refl a(2,3)] c a(2,3) left(2) by (auto simp: world_ok_def)
    obtain r b l where plan: "rcot_plan (int n) ?S = (?g, r, b, l)" "0 \<le> r" "0 < l" "l \<le> fc_ot_limit ?S"
      "?g + r * fc_ot_limit ?S + (if b then fc_ot_limit ?S else 0) + l = int n"
      using rcot_plan_ok [OF lim(1-3), of "int n"] False by (metis not_le)
    obtain w' where r: "run_rounds sha rnd (?g, r, b, l) (int ?L) ?w = Some (set_used l w')" "world_ok D p n w'" "buffer_fresh D p w'"
      using run_rounds_ok [OF w left(2) plan(2,3), of b n sha rnd] plan(4,5) unfolding lim(3) by blast
    obtain dS' S' dR' R' where w': "w' = ((dS', S'), (dR', R'), True)" using r(2) by (auto simp: world_ok_def split: prod.splits)
    have "run_rcot sha rnd (int n) (dS, S) (dR, R) = Some (Inr ((dS', S'\<lparr>fc_ot_used := l\<rparr>), (dR', R'\<lparr>fc_ot_used := l\<rparr>), True))"
      using False ini same lim(3,5) plan(1) r(1) unfolding run_rcot_def prod.case Let_def by (simp add: set_used_def w')
    moreover have "ferret_sync D p (S'\<lparr>fc_ot_used := l\<rparr>) (R'\<lparr>fc_ot_used := l\<rparr>)"
      using r(2,3) plan(3,4) lim(3) by (auto simp: ferret_sync_def world_ok_def buffer_fresh_def w')
    moreover have "\<forall>k<n. cot_pair D (dS' k) (dR' k)" using r(2) by (simp add: world_ok_def w')
    ultimately show thesis by (rule that)
  qed
qed

lemma run_cot_ok:
  assumes "ferret_sync D p S R"
  obtains dS' S' dR' R' where "run_cot sha rnd b n (dS, S) (dR, R) = Some (Inr ((dS', S'), (dR', R'), True))"
    and "ferret_sync D p S' R'" and "\<forall>k<n. dR' k = dS' k XOR gate_blk (b k) D"
proof -
  obtain rS S' rR R' where r: "run_rcot sha rnd (int n) (dS, S) (dR, R) = Some (Inr ((rS, S'), (rR, R'), True))"
    "ferret_sync D p S' R'" "\<forall>k<n. cot_pair D (rS k) (rR k)"
    by (rule run_rcot_ok [OF assms])
  let ?bo = "online_recver rR b n"
  have D: "fc_ch1 S' = D" using r(2) by (simp add: ferret_sync_def ferret_core_def)
  have "rR k = online_sender rS ?bo n S' k XOR gate_blk (b k) D" if "k < n" for k
  proof -
    have "online_sender rS ?bo n S' k = rS k XOR (if ?bo ! k then D else zero_block)"
      unfolding online_sender_def Let_def D using that fold_each [where g = "\<lambda>i x. x XOR (if ?bo ! i then D else zero_block)"] by simp
    then have "online_sender rS ?bo n S' k = rS k XOR gate_blk (bxor (b k) (getLSB (rR k))) D"
      using that by (simp add: online_recver_def gate_blk_def)
    moreover have "rR k = rS k XOR gate_blk (getLSB (rR k)) D" using r(3) that by (simp add: cot_pair_def)
    from shift_pair [OF this, of "b k"] have "rS k XOR gate_blk (bxor (b k) (getLSB (rR k))) D = rR k XOR gate_blk (b k) D" .
    ultimately show ?thesis by (simp add: xor.assoc)
  qed
  then show thesis using r(1,2) by (intro that [of "online_sender rS ?bo n S'" S' rR R']) (simp_all add: run_cot_def Let_def)
qed

subsection \<open>Any sequence of calls\<close>

text \<open>A call: the random values of its extensions, the receiver's choices, their number and the previous contents of both arrays.\<close>

type_synonym cot_call = "(nat \<Rightarrow> extend_rnd) \<times> bool arr \<times> nat \<times> block arr \<times> block arr"

fun run_cots ::
  "(bytes \<Rightarrow> bytes) \<Rightarrow> cot_call list \<Rightarrow> FerretCOT \<Rightarrow> FerretCOT
   \<Rightarrow> (ferret_error + (block arr \<times> block arr) list \<times> FerretCOT \<times> FerretCOT \<times> bool) option" where
  "run_cots sha [] S R = Some (Inr ([], S, R, True))"
| "run_cots sha ((rnd, b, n, dS, dR) # calls) S R =
     (case run_cot sha rnd b n (dS, S) (dR, R) of None \<Rightarrow> None | Some (Inl e) \<Rightarrow> Some (Inl e)
      | Some (Inr ((dS, S), (dR, R), ok)) \<Rightarrow>
          (case run_cots sha calls S R of None \<Rightarrow> None | Some (Inl e) \<Rightarrow> Some (Inl e)
           | Some (Inr (outs, S, R, ok')) \<Rightarrow> Some (Inr ((dS, dR) # outs, S, R, ok \<and> ok'))))"

definition call_ok :: "block \<Rightarrow> cot_call \<Rightarrow> block arr \<times> block arr \<Rightarrow> bool" where
  "call_ok D = (\<lambda>(rnd, b, n, d) (dS, dR). \<forall>k<n. dR k = dS k XOR gate_blk (b k) D)"

lemma run_cots_ok:
  assumes "ferret_sync D p S R"
  shows "\<exists>outs S' R'. run_cots sha calls S R = Some (Inr (outs, S', R', True)) \<and> list_all2 (call_ok D) calls outs"
  using assms
proof (induction calls arbitrary: S R)
  case (Cons call calls)
  obtain rnd b n dS dR where call: "call = (rnd, b, n, dS, dR)" using prod_cases5 by blast
  obtain dS' S1 dR' R1 where one: "run_cot sha rnd b n (dS, S) (dR, R) = Some (Inr ((dS', S1), (dR', R1), True))"
    "ferret_sync D p S1 R1" "\<forall>k<n. dR' k = dS' k XOR gate_blk (b k) D"
    by (rule run_cot_ok [OF Cons.prems])
  obtain outs S' R' where "run_cots sha calls S1 R1 = Some (Inr (outs, S', R', True))" "list_all2 (call_ok D) calls outs"
    using Cons.IH [OF one(2)] by blast
  then show ?case using one by (intro exI [of _ "(dS', dR') # outs"] exI [of _ S'] exI [of _ R']) (simp add: call call_ok_def)
qed simp

lemma getLSB_random_delta: "getLSB (ferret_random_delta x)"
  by (simp add: ferret_random_delta_def getLSB_bit bit_xor_iff bit_and_iff bit_low_mask bit_makeBlock)

lemma new_config: "param_ok p \<Longrightarrow> 0 < threads \<Longrightarrow> same_config p (FerretCOT_new a threads mal p hS) (FerretCOT_new b threads mal p hR)"
  by (simp add: same_config_def FerretCOT_new_def BaseCot_new_def)

text \<open>
  C16.  \<^verbatim>\<open>FerretCOT\<close>, end to end: two objects constructed with the same parameters \<open>p\<close> and no stored correlations (the branch of \<^verbatim>\<open>setup\<close> that reads
  them from a file is left out), \<open>param_ok p\<close> (true of the three shipped sets; it asks more than the constructor checks, in particular \<open>2 * M \<le> n\<close>), the base transfers giving the receiver of the extension the
  sender's keys for the bits of the offset.  Then \<^verbatim>\<open>setup\<close> succeeds on both sides, and so does every one of any sequence of
  calls of \<^verbatim>\<open>send_cot\<close> and \<^verbatim>\<open>recv_cot\<close>, of any lengths; all consistency checks of the malicious variant pass; and for every index the
  receiver's block is the sender's, plus the offset exactly when the receiver chose it.
\<close>

theorem ferret_correct:
  fixes D :: block
  assumes "param_ok p" and "0 < threads" and "D = ferret_random_delta x"
    and "\<forall>i<128. sm_kS sm i = (if bit D i then sm_k1 sm i else sm_k0 sm i)"
  shows "\<exists>S R outs S' R'. run_setup sha sm D (FerretCOT_new 1 threads mal p hS) (FerretCOT_new 2 threads mal p hR) = Some (Inr (S, R, True))
     \<and> run_cots sha calls S R = Some (Inr (outs, S', R', True)) \<and> length outs = length calls
     \<and> (\<forall>i<length calls. case calls ! i of (rnd, b, n, d) \<Rightarrow> \<forall>k<n. snd (outs ! i) k = fst (outs ! i) k XOR (if b k then D else 0))"
proof -
  obtain S R where s: "run_setup sha sm D (FerretCOT_new 1 threads mal p hS) (FerretCOT_new 2 threads mal p hR) = Some (Inr (S, R, True))" "ferret_sync D p S R"
    by (rule run_setup_ok [OF new_config [OF assms(1,2)], of D sm sha 1 mal hS 2 hR]) (use assms(3,4) getLSB_random_delta in auto)
  obtain outs S' R' where c: "run_cots sha calls S R = Some (Inr (outs, S', R', True))" "list_all2 (call_ok D) calls outs"
    using run_cots_ok [OF s(2)] by blast
  have all: "\<forall>i<length calls. case calls ! i of (rnd, b, n, d) \<Rightarrow> \<forall>k<n. snd (outs ! i) k = fst (outs ! i) k XOR (if b k then D else 0)"
    using list_all2_nthD [OF c(2)] by (fastforce simp: call_ok_def gate_blk_def split: prod.splits)
  have "length outs = length calls" using list_all2_lengthD [OF c(2)] by simp
  with s(1) c(1) all show ?thesis by blast
qed

definition sample_rnd :: extend_rnd where
  "sample_rnd = \<lparr>er_mem = \<lparr>mm_seeds = of_nat, mm_senders = (\<lambda>_. \<lparr>ss_seed = 0, ss_delta = 0, ss_ggm_tree = (\<lambda>_. 0), ss_m0 = (\<lambda>_. 0), ss_m1 = (\<lambda>_. 0),
       ss_depth = 0, ss_leave_n = 0, ss_secret_sum_f2 = 0\<rparr>),
     mm_recvers = (\<lambda>_. \<lparr>sr_ggm_tree = (\<lambda>_. 0), sr_m = (\<lambda>_. 0), sr_b = (\<lambda>_. False), sr_choice_pos = 0, sr_depth = 0, sr_leave_n = 0, sr_secret_sum_f2 = 0\<rparr>),
     mm_VWS = (\<lambda>_. 0), mm_VWR = (\<lambda>_. 0), mm_chi_alpha = (\<lambda>_. 0), mm_chiS = (\<lambda>_ _. 0), mm_chiR = (\<lambda>_ _. 0), mm_bits = (\<lambda>_. False)\<rparr>, er_seed = 11\<rparr>"

definition sample_setup :: "block \<Rightarrow> setup_mem" where
  "sample_setup D = \<lparr>sm_kS = (\<lambda>i. if bit D i then 1000 + of_nat i else of_nat i), sm_k0 = of_nat, sm_k1 = (\<lambda>i. 1000 + of_nat i), sm_delta_bool = (\<lambda>_. False),
     sm_junkS = (\<lambda>_ _. 0), sm_junkR = (\<lambda>_ _. 1), sm_outS = (\<lambda>_ _. 0), sm_outR = (\<lambda>_ _. 0), sm_rnd = (\<lambda>_. even), sm_seed2 = of_nat, sm_bits = (\<lambda>_. odd),
     sm_mpcot = fc_mpcot (ferret_object param_b11 1), sm_otpre = fc_pre_ot (ferret_object param_b11 1), sm_lpn_seed = 0, sm_ext = sample_rnd\<rparr>"

theorem ferret_correct_witness:
  "\<exists>S R outs S' R'. run_setup rev (sample_setup (ferret_random_delta 7)) (ferret_random_delta 7)
       (FerretCOT_new 1 2 True param_b11 (ferret_object param_b11 1)) (FerretCOT_new 2 2 True param_b11 (ferret_object param_b11 2)) = Some (Inr (S, R, True))
     \<and> run_cots rev [(\<lambda>_. sample_rnd, \<lambda>k. k = 3, 30000000, \<lambda>_. 0, \<lambda>_. 0), (\<lambda>_. sample_rnd, even, 5, \<lambda>_. 0, \<lambda>_. 0)] S R = Some (Inr (outs, S', R', True))
     \<and> snd (outs ! 0) 3 = fst (outs ! 0) 3 XOR ferret_random_delta 7 \<and> snd (outs ! 1) 1 = fst (outs ! 1) 1"
proof -
  let ?calls = "[(\<lambda>_. sample_rnd, \<lambda>k. k = 3, 30000000, \<lambda>_. 0, \<lambda>_. 0), (\<lambda>_. sample_rnd, even, 5, \<lambda>_. 0, \<lambda>_. 0)] :: cot_call list"
  have "\<forall>i<128. sm_kS (sample_setup D) i = (if bit D i then sm_k1 (sample_setup D) i else sm_k0 (sample_setup D) i)" for D
    by (simp add: sample_setup_def)
  then have "\<exists>S R outs S' R'. run_setup rev (sample_setup (ferret_random_delta 7)) (ferret_random_delta 7)
       (FerretCOT_new 1 2 True param_b11 (ferret_object param_b11 1)) (FerretCOT_new 2 2 True param_b11 (ferret_object param_b11 2)) = Some (Inr (S, R, True))
     \<and> run_cots rev ?calls S R = Some (Inr (outs, S', R', True)) \<and> length outs = length ?calls
     \<and> (\<forall>i<length ?calls. case ?calls ! i of (rnd, b, n, d) \<Rightarrow> \<forall>k<n. snd (outs ! i) k = fst (outs ! i) k XOR (if b k then ferret_random_delta 7 else 0))"
    by (intro ferret_correct [OF param_b11(1) _ refl]) simp_all
  then obtain S R outs S' R' where r: "run_setup rev (sample_setup (ferret_random_delta 7)) (ferret_random_delta 7)
       (FerretCOT_new 1 2 True param_b11 (ferret_object param_b11 1)) (FerretCOT_new 2 2 True param_b11 (ferret_object param_b11 2)) = Some (Inr (S, R, True))"
    "run_cots rev ?calls S R = Some (Inr (outs, S', R', True))"
    "\<forall>i<length ?calls. case ?calls ! i of (rnd, b, n, d) \<Rightarrow> \<forall>k<n. snd (outs ! i) k = fst (outs ! i) k XOR (if b k then ferret_random_delta 7 else 0)"
    by blast
  have "snd (outs ! 0) 3 = fst (outs ! 0) 3 XOR ferret_random_delta 7" using r(3) [rule_format, of 0] by simp
  moreover have "snd (outs ! 1) 1 = fst (outs ! 1) 1" using r(3) [rule_format, of 1] by simp
  ultimately show ?thesis using r(1,2) by blast
qed

end
