(* ===== verification/Spec2Isabelle.thy ===== *)
theory Spec2Isabelle
  imports OnlineRange PlainExec HalfGate BitonicSort Apps FerretRun
begin

text \<open>
  A verification of the multi-party computation core of Flock (\<^verbatim>\<open>src/mpcauth\<close>).  Users authenticate to
  several servers that hold shares of a passcode; the servers compare them inside a garbled
  circuit, maliciously secure among \<open>nP\<close> parties (\<^verbatim>\<open>emp-agmpc\<close>), on top of the circuit, garbling and
  utility library \<^verbatim>\<open>emp-tool\<close>.

  \<^bold>\<open>Parts and theories\<close>

  \<^item> \<open>Prelude\<close>: types shared by all theories, exclusive or on blocks and on shared bits.
  \<^item> \<open>Blocks\<close>: \<^verbatim>\<open>utils/block.h\<close>, \<^verbatim>\<open>utils/utils.hpp\<close>; a \<^verbatim>\<open>block\<close> is a 128-bit word.
  \<^item> \<open>Cipher\<close>, \<open>AesOpt\<close>: AES over the AES-NI instructions, the hashes \<^verbatim>\<open>crh.h\<close>, \<^verbatim>\<open>ccrh.h\<close>, \<^verbatim>\<open>tccrh.h\<close>,
    \<^verbatim>\<open>mitccrh.h\<close>, the batched key schedule.  The batched code equals the block-by-block code.
  \<^item> \<open>Circuit\<close>, \<open>Bits\<close>: the interface \<^verbatim>\<open>CircuitExecution\<close>, Bristol circuits, \<^verbatim>\<open>Bit\<close>.  The locale
    \<open>circuit_backend\<close> is the contract of a backend; \<open>protocol_backend\<close> adds input and output.
  \<^item> \<open>Integers\<close>, \<open>IntegerOps\<close>, \<open>BitonicSort\<close>: \<^verbatim>\<open>Integer\<close> and oblivious sorting, verified inside the locale for
    every backend.
  \<^item> \<open>PlainExec\<close>, \<open>HalfGate\<close>: the backends, with the interpretations \<open>plain\<close>, \<open>plain_prot\<close> and \<open>halfgate\<close>; also
    privacy-free garbling.
  \<^item> \<open>Shares\<close>: authenticated bits, the invariant \<open>auth_bit\<close> and what an accepted opening proves.
  \<^item> \<open>Helper\<close>: \<^verbatim>\<open>helper.h\<close>, \<^verbatim>\<open>hash.h\<close>.
  \<^item> \<open>Cmpc\<close>: the class \<^verbatim>\<open>CMPC\<close> (\<^verbatim>\<open>mpc.h\<close>), one function per method and loop.  \<open>Garbling\<close>, \<open>Garbled\<close>,
    \<open>Online\<close> prove what each phase leaves behind up to party 1's output.
  \<^item> \<open>OnlineRange\<close>, \<open>FlexIO\<close>, \<open>CmpcFlex\<close>: the overloads of \<^verbatim>\<open>online\<close> and \<^verbatim>\<open>flexible_input_output.h\<close>.
  \<^item> \<open>AuthShare\<close>: \<^verbatim>\<open>utils/authshare_builder.h\<close>.
  \<^item> \<open>Prg\<close>, \<open>Transpose\<close>, \<open>Gf2k\<close>: the generator \<^verbatim>\<open>prg.h\<close>, the bit-matrix transposition of \<^verbatim>\<open>block.h\<close>, carry-less
    multiplication of \<^verbatim>\<open>f2k.h\<close>, each equal to its reference definition.
  \<^item> \<open>BaseOT\<close>, \<open>Iknp\<close>, \<open>Cot\<close>: oblivious transfer (\<^verbatim>\<open>emp-ot\<close>): \<^verbatim>\<open>co.h\<close>, \<^verbatim>\<open>np.h\<close>, the extension \<^verbatim>\<open>iknp.h\<close> and the
    abstract class of \<^verbatim>\<open>cot.h\<close>, whose virtual functions are the locale \<open>correlated_ot\<close>, interpreted on \<^verbatim>\<open>IKNP\<close>.
  \<^item> \<open>Gfmul\<close>: multiplication in the field of \<open>2 ^ 128\<close> elements (the rest of \<^verbatim>\<open>f2k.h\<close>), equal to the one of the GCM standard.
  \<^item> \<open>Ggm\<close>, \<open>Spcot\<close>, \<open>Mpcot\<close>, \<open>Lpn\<close>, \<open>FerretBase\<close>, \<open>Ferret\<close>, \<open>FerretRun\<close>: the silent extension \<^verbatim>\<open>emp-ot/ferret\<close>, from the trees of
    \<^verbatim>\<open>spcot_sender.h\<close> and \<^verbatim>\<open>spcot_recver.h\<close> over many of them with a consistency check (\<^verbatim>\<open>mpcot_reg.h\<close>) and the local
    code \<^verbatim>\<open>lpn_f2.h\<close> to \<^verbatim>\<open>ferret_cot.hpp\<close>.  The template parameter of the trees is the locale \<open>slotted_ot\<close>, interpreted on
    \<^verbatim>\<open>OTPre\<close>; \<open>cot_pair\<close> is the correlation every step keeps, and \<open>ferret_correct\<close> follows
    it from the construction of both objects through any sequence of calls.
  \<^item> \<open>AuthBits\<close>, \<open>Fpre\<close>, \<open>Preprocess\<close>: \<^verbatim>\<open>abitmp.h\<close> and \<^verbatim>\<open>fpremp.h\<close>, from base transfers to authenticated AND triples,
    and \<^verbatim>\<open>CMPC::function_independent\<close> with both.
  \<^item> \<open>Base64\<close>, \<open>Comparison\<close>, \<open>Passcode\<close>, \<open>Apps\<close>: \<^verbatim>\<open>utils/base64.cpp\<close>, the circuits of \<^verbatim>\<open>files/comparison256.txt\<close> and
    \<^verbatim>\<open>xor128.txt\<close>, and the programs of \<^verbatim>\<open>mpcauth/apps\<close> on top of everything else.  Theorem \<open>auth_passcode_correct\<close> is the
    purpose of the program: the servers learn whether the passcode is right.

  \<^bold>\<open>How the code corresponds to the model\<close>

  One party's object is a record; a method is a function of the record and of the messages the
  party receives.  A theorem about an honest run feeds every party what the others compute; a
  theorem about cheating parties (\<open>flexin_sound\<close>, \<open>flexout_sound\<close>, \<open>sampleRandom_binding\<close>) leaves the received
  messages arbitrary.  Tasks of the thread pool write disjoint arrays and are composed in
  the order of the loops that enqueue them.  C arrays are functions on indices when the code
  allocates them with a size known elsewhere, so uninitialised entries are arbitrary values of the argument \<open>heap\<close> or
  \<open>garbage\<close>; \<^verbatim>\<open>std::vector\<close>s are lists.  An abort (\<^verbatim>\<open>exit\<close>, a failed \<^verbatim>\<open>assert\<close>, an access out of range where a component
  checks it) is a value of a sum or option type.  Randomness is an argument.
  Loops are folds or recursive functions with a termination proof; no fuel is used.

  \<^bold>\<open>Assumptions on code that is not modelled\<close>

  SHA-256 is a parameter \<open>sha\<close> of the functions that use it; the elliptic-curve group is a record of operations with
  the laws \<open>group_laws\<close>.  Theorem \<open>cmpc_end_to_end\<close> starts from the base transfers; the theorems on the
  overloads of \<^verbatim>\<open>online\<close> start from the results of the preprocessing, described by \<open>abits_ok\<close> and \<open>triples_ok\<close>, which
  \<open>run_function_independent_ok\<close> of theory \<open>Preprocess\<close> establishes.  The checks of the preprocessing always read one
  entry past their arrays; it enters their sums when 2048 divides the length, and \<open>lengths_ok\<close> excludes these lengths.  Theorem \<open>ferret_correct\<close>
  asks \<open>param_ok\<close> of the parameter set, which holds for the shipped sets and is more than their constructor checks; what happens
  without it is in theorem \<open>rcot_in_bounds\<close>.  Lengths are natural numbers; the
  \<^verbatim>\<open>int\<close> of the code limits sorting to \<open>2 ^ 30\<close> elements and base 64 to \<open>2 ^ 31\<close> bytes.

  \<^bold>\<open>Not modelled\<close>

  Sockets, TLS and the relay client (pure I/O); the thread pool; the generated circuits
  \<^verbatim>\<open>float32_*.cpp\<close>; vendored code (\<^verbatim>\<open>sse2neon.h\<close>, jsoncpp); the private information retrieval tools, which
  wrap an external library; the files and memory images in which Ferret stores its correlations; the
  parsers of circuit files; JSON parsing and the timing code of the programs.
\<close>

section \<open>Authenticated garbling, from construction to output\<close>

text \<open>
  C2.  The honest run of \<^verbatim>\<open>CMPC\<close> (construction, \<^verbatim>\<open>function_independent\<close>, \<^verbatim>\<open>function_dependent\<close>,
  \<^verbatim>\<open>online\<close>) over authenticated bits and AND triples computes the circuit: party 1 outputs the
  plain evaluation on the exclusive or of the parties' input shares and reports no mismatching
  garbled row.  Neither the labels, nor what the allocated arrays held, nor the uninitialised \<^verbatim>\<open>mask_input\<close> matters.
  The hypotheses are at least two parties and a non-zero offset of party 1.
\<close>

theorem cmpc_correct:
  assumes "wf_circuit cf" and "2 \<le> nP" and "\<Delta> 1 \<noteq> 0"
    and "triples_ok nP \<Delta> ands (count_ands cf (num_gate cf))"
    and "abits_ok nP \<Delta> pre (n1 cf + n2 cf + count_ands cf (num_gate cf) + 3 * ssp)"
  shows "run_online nP cf (run_function_dependent nP cf (setup_cmpc nP cf ssp \<Delta> labels ands pre heap))
           garbage inputs
         = (output_wires cf (eval_circuit cf (\<lambda>w. parity (\<lambda>p. inputs p w) (parties nP))), [])"
  using assms by (intro run_online_ok setup_cmpc_preprocessed) auto

definition and_circuit :: BristolFormat where
  "and_circuit = \<lparr>num_gate = 1, num_wire = 3, n1 = 1, n2 = 1, n3 = 1, gates = [0, 1, 2, 0]\<rparr>"

definition sample_auth :: "nat \<Rightarrow> auth_array" where
  "sample_auth p = ((\<lambda>k. p = Suc k), (\<lambda>j k. gate_blk (p = Suc k) (of_nat j)), (\<lambda>j k. 0))"

lemma sample_auth_entry: "auth_entry nP of_nat sample_auth k"
  by (simp add: auth_entry_def auth_bit_def sample_auth_def)

lemma and_circuit_fields [simp]:
  "num_gate and_circuit = 1" "num_wire and_circuit = 3" "n1 and_circuit = 1" "n2 and_circuit = 1"
  "n3 and_circuit = 1" "gate_in1 and_circuit 0 = 0" "gate_in2 and_circuit 0 = 1"
  "gate_out and_circuit 0 = 2" "gate_type and_circuit 0 = AND_GATE" "length (gates and_circuit) = 4"
  by (simp_all add: and_circuit_def gate_in1_def gate_in2_def gate_out_def gate_type_def AND_GATE_def)

lemma and_circuit_wf: "wf_circuit and_circuit"
  by (simp add: wf_circuit_def wf_gate_def defined_by_def)

lemma sample_triples: "triples_ok 3 of_nat sample_auth (count_ands and_circuit (num_gate and_circuit))"
  by (simp add: triples_ok_def sample_auth_entry sample_auth_def upt_rec numeral_eq_Suc)

lemma sample_abits: "abits_ok 3 of_nat sample_auth n"
  by (simp add: abits_ok_def sample_auth_entry list_all_iff)

theorem cmpc_correct_witness:
  "\<forall>labels heap garbage. run_online 3 and_circuit
     (run_function_dependent 3 and_circuit (setup_cmpc 3 and_circuit 1 of_nat labels sample_auth sample_auth heap))
     garbage (\<lambda>p w. p = Suc w) = ([True], [])"
  by (intro allI, subst cmpc_correct [OF and_circuit_wf _ _ sample_triples sample_abits])
    (simp_all add: output_wires_def eval_circuit_def eval_gate_def upt_rec numeral_eq_Suc)

text \<open>
  C3.  From the base transfers to the output, with nothing assumed of the preprocessing: all parties run the
  constructors (base transfers, extension set-up), \<^verbatim>\<open>function_independent\<close> (authenticated bits, leaky
  triples, all consistency checks, bucketing), \<^verbatim>\<open>function_dependent\<close> and \<^verbatim>\<open>online\<close>.  No party aborts or waits
  forever, and party 1 outputs the plain evaluation of the circuit on the exclusive or of the input shares.  The
  hypotheses are the laws of the elliptic-curve group, a non-zero offset of party 1, and lengths
  that 2048 does not divide: \<^verbatim>\<open>check1\<close> reads one element past its arrays in any case, and for these lengths that value does not enter its sums.
\<close>

theorem cmpc_end_to_end:
  assumes "wf_circuit cf" and "2 \<le> nP" and "group_laws G" and "lengths_ok cf ssp"
    and "bool_to_block (ar_tmp (rnd 1)) \<noteq> 0"
  shows "\<exists>AB W. run_function_independent sha nP cf ssp skip M C (run_construct sha G cf ssp rnd heap) = Some (Inr (AB, W))
    \<and> run_online nP cf (run_function_dependent nP cf W) garbage inputs
      = (output_wires cf (eval_circuit cf (\<lambda>w. parity (\<lambda>p. inputs p w) (parties nP))), [])"
proof -
  let ?D = "\<lambda>p. bool_to_block (ar_tmp (rnd p))"
  have "1 \<le> nP" using assms(2) by simp
  obtain AB T P where run: "run_function_independent sha nP cf ssp skip M C (run_construct sha G cf ssp rnd heap)
       = Some (Inr (AB, setup_cmpc nP cf ssp ?D (\<lambda>p. cc_labels (C p)) T P heap))"
    and ok: "triples_ok nP ?D T (count_ands cf (num_gate cf))"
      "abits_ok nP ?D P (n1 cf + n2 cf + count_ands cf (num_gate cf) + 3 * ssp)"
    by (rule run_function_independent_ok [OF assms(3) \<open>1 \<le> nP\<close> assms(4)]) (rule that)
  have "run_online nP cf (run_function_dependent nP cf (setup_cmpc nP cf ssp ?D (\<lambda>p. cc_labels (C p)) T P heap)) garbage inputs
      = (output_wires cf (eval_circuit cf (\<lambda>w. parity (\<lambda>p. inputs p w) (parties nP))), [])"
    using assms ok by (intro run_online_ok setup_cmpc_preprocessed) auto
  with run show ?thesis by blast
qed

definition sample_group :: "int group_ops" where
  "sample_group = \<lparr>gr_order = 0, gr_mul_gen = (\<lambda>a. a), gr_mul = (*), gr_add = (+), gr_inv = uminus, gr_to_bin = (\<lambda>P. [of_int P])\<rparr>"

definition sample_rand :: "nat \<Rightarrow> abit_rand" where
  "sample_rand p = \<lparr>ar_tmp = (\<lambda>i. i = p), ar_k0 = (\<lambda>j i. of_nat (i + j)), ar_k1 = (\<lambda>j i. of_nat (i * p)), ar_a = int, ar_bb = (\<lambda>j i. int (i + j))\<rparr>"

lemma sample_group_laws: "group_laws sample_group"
  by (simp add: group_laws_def sample_group_def algebra_simps)

lemma sample_lengths: "lengths_ok and_circuit 40"
proof -
  have "count_ands and_circuit (num_gate and_circuit) = 1" by (simp add: upt_rec)
  then show ?thesis by (simp add: lengths_ok_def check1_size_def get_bucket_size_def)
qed

lemma sample_Delta: "bool_to_block (ar_tmp (sample_rand 1)) \<noteq> 0"
proof
  assume "bool_to_block (ar_tmp (sample_rand 1)) = 0"
  then have "bit (bool_to_block (ar_tmp (sample_rand 1))) 1 = bit (0 :: block) 1" by (rule arg_cong)
  then show False by (simp add: bit_bool_to_block sample_rand_def)
qed

theorem cmpc_end_to_end_witness:
  "\<forall>M C heap garbage. \<exists>AB W. run_function_independent (\<lambda>x. x) 3 and_circuit 40 0 M C (run_construct (\<lambda>x. x) sample_group and_circuit 40 sample_rand heap)
       = Some (Inr (AB, W))
    \<and> run_online 3 and_circuit (run_function_dependent 3 and_circuit W) garbage (\<lambda>p w. p = Suc w) = ([True], [])"
proof (intro allI)
  fix M C heap garbage
  have "(output_wires and_circuit (eval_circuit and_circuit (\<lambda>w. parity (\<lambda>p. p = Suc w) (parties 3))), []) = ([True], [] :: nat list)"
    by (simp add: output_wires_def eval_circuit_def eval_gate_def upt_rec numeral_eq_Suc)
  then show "\<exists>AB W. run_function_independent (\<lambda>x. x) 3 and_circuit 40 0 M C (run_construct (\<lambda>x. x) sample_group and_circuit 40 sample_rand heap)
       = Some (Inr (AB, W))
    \<and> run_online 3 and_circuit (run_function_dependent 3 and_circuit W) garbage (\<lambda>p w. p = Suc w) = ([True], [])"
    using cmpc_end_to_end [where rnd = sample_rand and nP = 3 and sha = "\<lambda>x. x" and skip = 0 and M = M and C = C and heap = heap
        and garbage = garbage and inputs = "\<lambda>p w. p = Suc w", OF and_circuit_wf _ sample_group_laws sample_lengths sample_Delta]
    by simp
qed

text \<open>
  C4.  The same run ended by \<^verbatim>\<open>online(FlexIn *, FlexOut *)\<close>: no honest party aborts; every party gets the
  plain output bits that are public or assigned to it, and the output bits assigned to nobody
  become shares authenticated under the parties' offsets.  Inputs may be owned by one party, public,
  authenticated shares or unauthenticated shares.  The run starts from authenticated bits and AND triples; the offsets are not zero.
\<close>

theorem cmpc_flex_correct:
  assumes "wf_circuit cf" and "2 \<le> nP" and "\<And>p. 1 \<le> p \<Longrightarrow> p \<le> nP \<Longrightarrow> \<Delta> p \<noteq> 0"
    and "triples_ok nP \<Delta> ands (count_ands cf (num_gate cf))"
    and "abits_ok nP \<Delta> pre (n1 cf + n2 cf + count_ands cf (num_gate cf) + 3 * ssp)"
    and "flex_setup nP cf asgI asgO \<Delta> FI FO"
  shows "\<exists>Q. \<forall>p. 1 \<le> p \<and> p \<le> nP \<longrightarrow>
     run_online_flex nP cf (run_function_dependent nP cf (setup_cmpc nP cf ssp \<Delta> labels ands pre heap))
       g garbage FI FO p = Inr (Q p, [])
     \<and> (\<forall>i<n3 cf. (asgO ! i = 0 \<or> asgO ! i = int p \<longrightarrow>
            fo_plaintext_results (Q p) ! i
            = eval_circuit cf (flex_input_bit nP asgI FI) (num_wire cf - n3 cf + i))
          \<and> (asgO ! i = -1 \<longrightarrow>
               auth_bit nP \<Delta> (\<lambda>p. bit_share (fo_authenticated_share_results (Q p) ! i))
                 (\<lambda>p j. ab_mac (fo_authenticated_share_results (Q p) ! i) j)
                 (\<lambda>p j. ab_key (fo_authenticated_share_results (Q p) ! i) j)
               \<and> parity (\<lambda>p. bit_share (fo_authenticated_share_results (Q p) ! i)) (parties nP)
                 = eval_circuit cf (flex_input_bit nP asgI FI) (num_wire cf - n3 cf + i)))"
proof -
  let ?W = "setup_cmpc nP cf ssp \<Delta> labels ands pre heap"
  show ?thesis
    by (rule online_flex_ok [OF assms(1) setup_cmpc_preprocessed [OF assms(2,4,5), of labels heap],
          where asgI = asgI and asgO = asgO and FI = FI and FO = FO and g = g and garbage = garbage])
      (use assms(3,6) in \<open>auto intro!: exI\<close>)
qed

definition sample_in :: "nat \<Rightarrow> FlexIn" where
  "sample_in p = (FlexIn_new 2 p undefined)\<lparr>fi_party_assignment := [1, -2], fi_plaintext_assignment := [True, p = 3]\<rparr>"

definition sample_out :: "nat \<Rightarrow> FlexOut" where
  "sample_out p = FlexOut_new 1 p undefined"

lemma sample_flex_setup: "flex_setup 3 and_circuit [1, -2] [0] of_nat sample_in sample_out"
  by (simp add: flex_setup_def flex_input_ok_def sample_in_def sample_out_def FlexIn_new_def FlexOut_new_def
      upt_rec numeral_eq_Suc)

theorem cmpc_flex_correct_witness:
  "\<exists>Q. \<forall>p. 1 \<le> p \<and> p \<le> 3 \<longrightarrow>
     run_online_flex 3 and_circuit
       (run_function_dependent 3 and_circuit
          (setup_cmpc 3 and_circuit 1 of_nat (\<lambda>_ _. 0) sample_auth sample_auth undefined))
       empty_abit (\<lambda>_. False) sample_in sample_out p = Inr (Q p, [])
     \<and> fo_plaintext_results (Q p) ! 0"
proof -
  have out: "eval_circuit and_circuit (flex_input_bit 3 [1, -2] sample_in) 2"
    by (simp add: eval_circuit_def eval_gate_def flex_input_bit_def sample_in_def upt_rec numeral_eq_Suc)
  have "of_nat p \<noteq> (0 :: block)" if "1 \<le> p" "p \<le> 3" for p
  proof -
    have "p = 1 \<or> p = 2 \<or> p = 3" using that by arith
    then show ?thesis by auto
  qed
  from cmpc_flex_correct [OF and_circuit_wf _ this sample_triples sample_abits sample_flex_setup,
      where ssp = 1 and labels = "\<lambda>_ _. 0" and heap = undefined and g = empty_abit and garbage = "\<lambda>_. False"]
  show ?thesis by (simp add: out)
qed

text \<open>
  C8.  The same run ended by \<^verbatim>\<open>online(bool *, bool *, int * start, int * end)\<close>, where the ranges partition the
  input wires and party 1's begins at 0: no digest check fails, and party 1 outputs the plain
  evaluation in which each wire carries its owner's input.
\<close>

theorem cmpc_range_correct:
  assumes "wf_circuit cf" and "2 \<le> nP" and "\<Delta> 1 \<noteq> 0"
    and "triples_ok nP \<Delta> ands (count_ands cf (num_gate cf))"
    and "abits_ok nP \<Delta> pre (n1 cf + n2 cf + count_ands cf (num_gate cf) + 3 * ssp)"
    and "ranges_ok nP (n1 cf + n2 cf) s e"
  shows "run_online_range sha nP cf (run_function_dependent nP cf (setup_cmpc nP cf ssp \<Delta> labels ands pre heap))
           garbage inputs s e
         = Some (output_wires cf (eval_circuit cf (\<lambda>w. inputs (owner nP s e w) w)), [])"
  using assms by (intro run_online_range_ok setup_cmpc_preprocessed) auto

definition sample_start :: "nat \<Rightarrow> nat" where "sample_start p = p - 1"
definition sample_end :: "nat \<Rightarrow> nat" where "sample_end p = min p 2"

lemma sample_ranges: "ranges_ok 3 (n1 and_circuit + n2 and_circuit) sample_start sample_end"
  by (auto simp: ranges_ok_def ranges_split_def list_all_iff sample_start_def sample_end_def upt_rec numeral_eq_Suc)

theorem cmpc_range_correct_witness:
  "\<forall>sha labels heap garbage. run_online_range sha 3 and_circuit
     (run_function_dependent 3 and_circuit (setup_cmpc 3 and_circuit 1 of_nat labels sample_auth sample_auth heap))
     garbage (\<lambda>p w. p = Suc w) sample_start sample_end = Some ([True], [])"
  by (intro allI, subst cmpc_range_correct [OF and_circuit_wf _ _ sample_triples sample_abits sample_ranges])
    (simp_all add: sample_start_def sample_end_def output_wires_def eval_circuit_def eval_gate_def owner_def
      upt_rec numeral_eq_Suc)





section \<open>Passcode authentication\<close>

lemma comparison256_lengths: "lengths_ok comparison256 40"
  unfolding lengths_ok_def comparison256_ands Let_def
  by (simp add: check1_size_def get_bucket_size_def)

text \<open>
  C1.  \<^verbatim>\<open>auth_passcode\<close> authenticates: let a dealer (\<^verbatim>\<open>create_authshare\<close>) deal the 256 digits of a passcode and of the ground
  truth under the servers' offsets, and send every server its bytes and its offset in base 64.  Then the honest run of all
  servers, from decoding the payload through base transfers, preprocessing, garbling and evaluation of \<^verbatim>\<open>comparison256.txt\<close>,
  ends at every server with the same bit: whether passcode and ground truth agree in every digit.
  The hypotheses are at least two servers, non-zero offsets and the laws of the elliptic-curve group.
\<close>

theorem auth_passcode_correct:
  assumes "2 \<le> nP" and "group_laws (ae_G E)" and "\<And>p. 1 \<le> p \<Longrightarrow> p \<le> nP \<Longrightarrow> \<Delta> p \<noteq> 0"
    and "length x = 256" and "length y = 256"
  shows "\<exists>r. run_compare_passcode E nP comparison256
       (payload_of (gen_authshares nP ga keys rnd shheap heap x \<Delta>) (gen_authshares nP ga' keys' rnd' shheap' heap' y \<Delta>) \<Delta>)
     = Some (Inr r)
     \<and> (\<forall>p. 1 \<le> p \<and> p \<le> nP \<longrightarrow> r p = (string_bits x = string_bits y))"
proof -
  have "1 \<le> nP" using assms(1) by simp
  obtain X where X: "\<And>p. 1 \<le> p \<Longrightarrow> p \<le> nP \<Longrightarrow> gen_authshares nP ga keys rnd shheap heap x \<Delta> p = serialize nP (X p)"
    "dealt nP \<Delta> (string_bits x) X"
    by (rule gen_authshares_dealt [OF \<open>1 \<le> nP\<close>]) (rule that)
  obtain Y where Y: "\<And>p. 1 \<le> p \<Longrightarrow> p \<le> nP \<Longrightarrow> gen_authshares nP ga' keys' rnd' shheap' heap' y \<Delta> p = serialize nP (Y p)"
    "dealt nP \<Delta> (string_bits y) Y"
    by (rule gen_authshares_dealt [OF \<open>1 \<le> nP\<close>]) (rule that)
  let ?share = "gen_authshares nP ga keys rnd shheap heap x \<Delta>" and ?gt = "gen_authshares nP ga' keys' rnd' shheap' heap' y \<Delta>"
  obtain r where r: "run_compare_passcode E nP comparison256 (payload_of ?share ?gt \<Delta>) = Some (Inr r)"
    "\<And>p. 1 \<le> p \<Longrightarrow> p \<le> nP \<Longrightarrow> r p = eval_circuit comparison256 (\<lambda>w. (string_bits x @ string_bits y) ! w) 1280"
    by (rule run_compare_passcode_ok [where E = E and cf = comparison256 and share = ?share and gt = ?gt and X = X and Y = Y
          and x = "string_bits x" and y = "string_bits y" and \<Delta> = \<Delta> and nP = nP])
      (use assms X Y comparison256_wf comparison256_lengths in auto)
  have "(\<forall>k<256. (string_bits x @ string_bits y) ! k = (string_bits x @ string_bits y) ! (256 + k)) \<longleftrightarrow> string_bits x = string_bits y"
    using assms(4,5) by (auto simp: list_eq_iff_nth_eq nth_append)
  with r show ?thesis by (auto simp: comparison256_eval)
qed

definition sample_env :: "int app_env" where
  "sample_env = undefined\<lparr>ae_G := sample_group\<rparr>"

theorem auth_passcode_correct_witness:
  "\<exists>r. run_compare_passcode sample_env 3 comparison256
       (payload_of (gen_authshares 3 empty_abit (\<lambda>_ _ _. 0) (\<lambda>_ _. True) (\<lambda>_ _. False) sample_builder (replicate 256 CHR ''1'') of_nat)
         (gen_authshares 3 empty_abit (\<lambda>_ _ _. 0) (\<lambda>_ _. False) (\<lambda>_ _. False) sample_builder (replicate 256 CHR ''1'') of_nat) of_nat) = Some (Inr r)
     \<and> r 1 \<and> r 2 \<and> r 3"
proof -
  have D: "of_nat p \<noteq> (0 :: block)" if "1 \<le> p" "p \<le> 3" for p
  proof -
    have "p = 1 \<or> p = 2 \<or> p = 3" using that by arith
    then show ?thesis by auto
  qed
  have G: "group_laws (ae_G sample_env)" by (simp add: sample_env_def sample_group_laws)
  from auth_passcode_correct [where nP = 3 and E = sample_env and \<Delta> = of_nat and x = "replicate 256 CHR ''1''" and y = "replicate 256 CHR ''1''"
      and ga = empty_abit and keys = "\<lambda>_ _ _. 0" and rnd = "\<lambda>_ _. True" and shheap = "\<lambda>_ _. False" and heap = sample_builder
      and ga' = empty_abit and keys' = "\<lambda>_ _ _. 0" and rnd' = "\<lambda>_ _. False" and shheap' = "\<lambda>_ _. False" and heap' = sample_builder, OF _ G D]
  show ?thesis by auto
qed

text \<open>
  C7.  \<^verbatim>\<open>sharding\<close> compares without a dealer: every server holds an exclusive-or share of the passcode and of the ground truth as
  a string of 256 digits, and the honest run ends at every server with the bit that says whether the shared strings agree.
\<close>

theorem sharding_correct:
  assumes "2 \<le> nP" and "group_laws (ae_G E)" and "\<And>p. 1 \<le> p \<Longrightarrow> p \<le> nP \<Longrightarrow> bool_to_block (ar_tmp (ae_rnd E p)) \<noteq> 0"
    and "\<And>p. 1 \<le> p \<Longrightarrow> p \<le> nP \<Longrightarrow> length (x p) = 256" and "\<And>p. 1 \<le> p \<Longrightarrow> p \<le> nP \<Longrightarrow> length (y p) = 256"
  shows "\<exists>r. run_sharding E nP comparison256 x y = Some (Inr r)
     \<and> (\<forall>p. 1 \<le> p \<and> p \<le> nP \<longrightarrow> r p = (\<forall>k<256. parity (\<lambda>q. x q ! k = CHR ''1'') (parties nP) = parity (\<lambda>q. y q ! k = CHR ''1'') (parties nP)))"
proof -
  obtain r where r: "run_sharding E nP comparison256 x y = Some (Inr r)"
    "\<And>p. 1 \<le> p \<Longrightarrow> p \<le> nP \<Longrightarrow> r p = eval_circuit comparison256 (\<lambda>w. parity (\<lambda>q. string_bits (x q @ y q) ! w) (parties nP)) 1280"
    by (rule run_sharding_ok [where E = E and cf = comparison256 and x = x and y = y and nP = nP])
      (use assms comparison256_wf comparison256_lengths in auto)
  have "parity (\<lambda>q. string_bits (x q @ y q) ! k) (parties nP) = parity (\<lambda>q. x q ! k = CHR ''1'') (parties nP)"
    "parity (\<lambda>q. string_bits (x q @ y q) ! (256 + k)) (parties nP) = parity (\<lambda>q. y q ! k = CHR ''1'') (parties nP)" if "k < 256" for k
    using that assms(4,5) by (intro parity_cong refl; auto simp: string_bits_def nth_append)+
  with r show ?thesis by (auto simp: comparison256_eval simp del: upt_Suc)
qed

lemma unit_offset: "n < 128 \<Longrightarrow> bool_to_block (\<lambda>i. i = n) \<noteq> 0"
proof
  assume "n < 128" "bool_to_block (\<lambda>i. i = n) = 0"
  then have "bit (bool_to_block (\<lambda>i. i = n)) n = bit (0 :: block) n" by simp
  with \<open>n < 128\<close> show False by (simp add: bit_bool_to_block)
qed

theorem sharding_correct_witness:
  "\<exists>r. run_sharding (sample_env\<lparr>ae_rnd := sample_rand\<rparr>) 2 comparison256 (\<lambda>p. replicate 256 (if p = 1 then CHR ''1'' else CHR ''0''))
       (\<lambda>p. replicate 256 (if p = 1 then CHR ''0'' else CHR ''1'')) = Some (Inr r) \<and> r 1 \<and> r 2"
proof -
  let ?E = "sample_env\<lparr>ae_rnd := sample_rand\<rparr>"
  have G: "group_laws (ae_G ?E)" by (simp add: sample_env_def sample_group_laws)
  have D: "bool_to_block (ar_tmp (ae_rnd ?E p)) \<noteq> 0" if "1 \<le> p" "p \<le> 2" for p
    using that by (simp add: sample_rand_def unit_offset)
  have "parties 2 = [1, 2]" by (simp add: upt_rec)
  with sharding_correct [where nP = 2 and E = ?E and x = "\<lambda>p. replicate 256 (if p = 1 then CHR ''1'' else CHR ''0'')"
      and y = "\<lambda>p. replicate 256 (if p = 1 then CHR ''0'' else CHR ''1'')", OF _ G D]
  show ?thesis by auto
qed

text \<open>
  C9.  \<^verbatim>\<open>aes_ctr\<close>: the honest run of every block leaves the parties with authenticated shares of the circuit's output on
  the shared key and the constant second input 0101\<dots>, the same for every block; but \<^verbatim>\<open>handler\<close> drops them, and the share it prints is the empty string for every input.
  The key share of every party has 128 digits.  (\<^verbatim>\<open>run_agmpc\<close> has no return statement; the model returns normally.)
\<close>

theorem aes_ctr_blocks:
  fixes delta :: "nat \<Rightarrow> bool arr"
  assumes "2 \<le> nP" and "\<And>j. group_laws (ae_G (E j))" and "wf_circuit cf" and "lengths_ok cf 40" and "n1 cf + n2 cf = 256" and "n3 cf = 128"
    and "\<And>p. 1 \<le> p \<Longrightarrow> p \<le> nP \<Longrightarrow> bool_to_block (delta p) \<noteq> 0" and "\<And>p. 1 \<le> p \<Longrightarrow> p \<le> nP \<Longrightarrow> length (key_share p) = 128"
  shows "run_aes_handler E nP cf delta key_share input_share = Some (Inr [])
    \<and> (\<exists>out. \<forall>j. run_aes_block (E j) nP cf delta key_share = Some (Inr (out j))
       \<and> (\<forall>i<128. auth_bit nP (\<lambda>p. bool_to_block (delta p)) (\<lambda>p. bit_share (fo_authenticated_share_results (out j p) ! i))
             (\<lambda>p. ab_mac (fo_authenticated_share_results (out j p) ! i)) (\<lambda>p. ab_key (fo_authenticated_share_results (out j p) ! i))
         \<and> parity (\<lambda>p. bit_share (fo_authenticated_share_results (out j p) ! i)) (parties nP)
           = eval_circuit cf (\<lambda>w. if w < 128 then parity (\<lambda>q. string_bits (key_share q) ! w) (parties nP) else odd w) (num_wire cf - 128 + i)))"
proof -
  have block: "\<exists>out. run_aes_block (E j) nP cf delta key_share = Some (Inr out)
      \<and> (\<forall>i<128. auth_bit nP (\<lambda>p. bool_to_block (delta p)) (\<lambda>p. bit_share (fo_authenticated_share_results (out p) ! i))
             (\<lambda>p. ab_mac (fo_authenticated_share_results (out p) ! i)) (\<lambda>p. ab_key (fo_authenticated_share_results (out p) ! i))
         \<and> parity (\<lambda>p. bit_share (fo_authenticated_share_results (out p) ! i)) (parties nP)
           = eval_circuit cf (\<lambda>w. if w < 128 then parity (\<lambda>q. string_bits (key_share q) ! w) (parties nP) else odd w) (num_wire cf - 128 + i))" for j
    by (rule run_aes_block_ok [where E = "E j" and cf = cf and delta = delta and key_share = key_share and nP = nP])
      (use assms in \<open>auto simp del: upt_Suc\<close>)
  then have "run_aes_handler E nP cf delta key_share input_share = Some (Inr [])"
    unfolding run_aes_handler_def by (intro aes_blocks_ok) blast
  moreover note choice [OF allI [OF block]]
  ultimately show ?thesis by (rule conjI)
qed

theorem aes_ctr_blocks_witness:
  "run_aes_handler (\<lambda>_. sample_env) 2 xor128 (\<lambda>p i. i = p) (\<lambda>_. replicate 128 CHR ''1'') ''1'' = Some (Inr [])
   \<and> (\<exists>out. run_aes_block sample_env 2 xor128 (\<lambda>p i. i = p) (\<lambda>_. replicate 128 CHR ''1'') = Some (Inr out)
        \<and> parity (\<lambda>p. bit_share (fo_authenticated_share_results (out p) ! 5)) (parties 2))"
proof -
  have G: "group_laws (ae_G sample_env)" by (simp add: sample_env_def sample_group_laws)
  have D: "bool_to_block (\<lambda>i. i = p) \<noteq> 0" if "1 \<le> p" "p \<le> 2" for p :: nat using that by (simp add: unit_offset)
  let ?key = "\<lambda>_. replicate 128 CHR ''1''" and ?delta = "\<lambda>p i. i = p"
  let ?v = "\<lambda>w. if w < 128 then parity (\<lambda>q. string_bits (replicate 128 CHR ''1'') ! w) (parties 2) else odd w"
  have v: "eval_circuit xor128 ?v (num_wire xor128 - 128 + 5)"
    using xor128_eval [of 5 ?v] by (simp add: upt_rec string_bits_def)
  have run: "run_aes_handler (\<lambda>_. sample_env) 2 xor128 ?delta ?key ''1'' = Some (Inr [])
    \<and> (\<exists>out. \<forall>j. run_aes_block sample_env 2 xor128 ?delta ?key = Some (Inr (out (j :: nat)))
       \<and> (\<forall>i<128. auth_bit 2 (\<lambda>p. bool_to_block (?delta p)) (\<lambda>p. bit_share (fo_authenticated_share_results (out j p) ! i))
             (\<lambda>p. ab_mac (fo_authenticated_share_results (out j p) ! i)) (\<lambda>p. ab_key (fo_authenticated_share_results (out j p) ! i))
         \<and> parity (\<lambda>p. bit_share (fo_authenticated_share_results (out j p) ! i)) (parties 2) = eval_circuit xor128 ?v (num_wire xor128 - 128 + i)))"
    by (rule aes_ctr_blocks) (use G D xor128_wf xor128_lengths in simp_all)
  then obtain out where "run_aes_block sample_env 2 xor128 ?delta ?key = Some (Inr (out (0 :: nat)))"
    and "\<forall>i<128. parity (\<lambda>p. bit_share (fo_authenticated_share_results (out 0 p) ! i)) (parties 2) = eval_circuit xor128 ?v (num_wire xor128 - 128 + i)"
    by blast
  moreover from this(2) have "parity (\<lambda>p. bit_share (fo_authenticated_share_results (out 0 p) ! 5)) (parties 2)"
    using v by (simp del: upt_Suc)
  ultimately show ?thesis using run by blast
qed

section \<open>Two-party garbling of emp-tool programs\<close>

text \<open>Wires under half-gates: the garbler's zero label 0 beside the evaluator's label of bit \<open>i\<close> of \<open>v\<close>.\<close>

definition sample_wires :: "block \<Rightarrow> nat \<Rightarrow> int \<Rightarrow> (block \<times> block) list" where
  "sample_wires t0 n v = map (\<lambda>i. (0, gate_blk (bit v i) (set_bit_block t0 0))) [0..<n]"

lemma sample_wires: "length (sample_wires t0 n v) = n" "int_wires (label_rep (set_bit_block t0 0)) (sample_wires t0 n v) v"
  by (simp_all add: sample_wires_def int_wires_nth label_rep_def)

text \<open>
  C10.  A Bristol circuit run gate by gate on the half-gates garbler and evaluator, from freshly set
  up states: the evaluator's label of every output wire is the garbler's label of the bit that the
  plain evaluation gives, and all garbled tables sent have been consumed.
\<close>

theorem half_gates_bristol:
  assumes "wf_circuit cf" and "\<And>v. v < n1 cf \<Longrightarrow> label_rep (set_bit_block t0 0) (in1 v) (x v)"
    and "\<And>v. v < n2 cf \<Longrightarrow> label_rep (set_bit_block t0 0) (in2 v) (y v)"
    and "run_state (compute halfgate_exec cf wires in1 in2) (halfgate_start t0 t1 c0 c1) = (out, g, e)"
  shows "list_all2 (label_rep (set_bit_block t0 0)) out (output_wires cf (eval_circuit cf (load_inputs cf w x y)))
       \<and> hg_io g = []"
  using computesD [OF halfgate.compute_ok [OF assms(1-3)] halfgate_start_ok assms(4)]
  by (simp add: halfgate_ok_def)

theorem half_gates_bristol_witness:
  "\<exists>out g e. run_state (compute halfgate_exec and_circuit (\<lambda>_. (0, 0)) (\<lambda>_. (1, 1 XOR set_bit_block 6 0))
       (\<lambda>_. (2, 2 XOR set_bit_block 6 0))) (halfgate_start 6 0 0 0) = (out, g, e)
     \<and> list_all2 (label_rep (set_bit_block 6 0)) out [True]"
proof -
  obtain out g e where r: "run_state (compute halfgate_exec and_circuit (\<lambda>_. (0, 0)) (\<lambda>_. (1, 1 XOR set_bit_block 6 0))
     (\<lambda>_. (2, 2 XOR set_bit_block 6 0))) (halfgate_start 6 0 0 0) = (out, g, e)"
    by (rule prod_cases3) blast
  from half_gates_bristol [OF and_circuit_wf _ _ this, of "\<lambda>_. True" "\<lambda>_. True" "\<lambda>_. False"]
  have "list_all2 (label_rep (set_bit_block 6 0)) out [True]"
    by (simp add: label_rep_def output_wires_def eval_circuit_def eval_gate_def load_inputs_def upt_rec)
  with r show ?thesis by blast
qed

text \<open>
  C11.  \<^verbatim>\<open>Integer::operator/\<close> under half-gates, for operands in the signed range of their width: the
  evaluator ends with labels of the quotient rounded towards zero, and division by zero gives -1
  (1 for a negative dividend) instead of failing.
\<close>

theorem half_gates_division:
  assumes "length as = length bs" and "int_wires (label_rep (set_bit_block t0 0)) as x"
    and "int_wires (label_rep (set_bit_block t0 0)) bs y"
    and "in_range (length as) x" and "in_range (length as) y"
    and "run_state (int_div halfgate_exec as bs) (halfgate_start t0 t1 c0 c1) = (q, s)"
  shows "length q = length as \<and> int_wires (label_rep (set_bit_block t0 0)) q
           (if y = 0 then (if x < 0 then 1 else - 1) else x sdiv y)"
  using computesD [OF halfgate.int_div [OF assms(1-5)] halfgate_start_ok assms(6)] by simp

theorem half_gates_division_witness:
  "\<exists>q s. run_state (int_div halfgate_exec (sample_wires 0 8 (- 100)) (sample_wires 0 8 7)) (halfgate_start 0 0 0 0) = (q, s)
     \<and> length q = 8 \<and> int_wires (label_rep (set_bit_block 0 0)) q (- 14)"
proof -
  obtain q s where "run_state (int_div halfgate_exec (sample_wires 0 8 (- 100)) (sample_wires 0 8 7))
      (halfgate_start 0 0 0 0) = (q, s)" by (meson surj_pair)
  with half_gates_division [OF _ sample_wires(2) sample_wires(2) _ _ this] show ?thesis
    by (simp add: sample_wires(1) in_range_def signed_divide_int_def)
qed

text \<open>
  C13.  \<^verbatim>\<open>Integer::modExp\<close> under half-gates is modular exponentiation, for a modulus above 1 whose square
  fits the signed width and a reduced base.
\<close>

theorem half_gates_modExp:
  assumes "length ws = n" and "length qs = n" and "int_wires (label_rep (set_bit_block t0 0)) ws b"
    and "int_wires (label_rep (set_bit_block t0 0)) ps p" and "int_wires (label_rep (set_bit_block t0 0)) qs q"
    and "1 < q" and "q * q \<le> 2 ^ (n - 1)" and "0 \<le> b" and "b < q"
    and "run_state (modExp halfgate_exec ws ps qs) (halfgate_start t0 t1 c0 c1) = (r, s)"
  shows "length r = n \<and> int_wires (label_rep (set_bit_block t0 0)) r (b ^ nat (take_bit (length ps) p) mod q)"
  using computesD [OF halfgate.modExp [OF assms(1-9)] halfgate_start_ok assms(10)] by simp

theorem half_gates_modExp_witness:
  "\<exists>r s. run_state (modExp halfgate_exec (sample_wires 0 8 3) (sample_wires 0 4 5) (sample_wires 0 8 7)) (halfgate_start 0 0 0 0) = (r, s)
     \<and> length r = 8 \<and> int_wires (label_rep (set_bit_block 0 0)) r 5"
proof -
  obtain r s where "run_state (modExp halfgate_exec (sample_wires 0 8 3) (sample_wires 0 4 5) (sample_wires 0 8 7))
      (halfgate_start 0 0 0 0) = (r, s)" by (meson surj_pair)
  with half_gates_modExp [OF sample_wires(1) sample_wires(1) sample_wires(2) sample_wires(2) sample_wires(2) _ _ _ _ this]
  show ?thesis by (simp add: sample_wires(1) take_bit_eq_mod)
qed

text \<open>
  C12.  \<^verbatim>\<open>emp::sort\<close> under half-gates: the labels that come out represent a permutation of the key/data
  pairs that went in, with the keys ascending when \<^verbatim>\<open>acc\<close> is true and descending otherwise.
  Lengths are natural numbers; the code's \<^verbatim>\<open>int\<close> agrees with them up to \<open>2 ^ 30\<close> elements.
\<close>

theorem half_gates_sort:
  assumes "entry_rep (label_rep (set_bit_block t0 0)) wk wd n (key, data) X"
    and "label_rep (set_bit_block t0 0) acc a"
    and "run_state (emp_sort halfgate_exec key n data acc) (halfgate_start t0 t1 c0 c1) = (st, s)"
  shows "\<exists>Y. entry_rep (label_rep (set_bit_block t0 0)) wk wd n st Y \<and> entries n Y = entries n X \<and> ordered a 0 n Y"
  using computesD [OF halfgate.emp_sort [OF assms(1,2)] halfgate_start_ok assms(3)] by simp

theorem half_gates_sort_witness:
  "\<exists>st s Y. run_state (emp_sort halfgate_exec (\<lambda>i. sample_wires 0 4 (- int i)) 3 None (0, set_bit_block 0 0))
       (halfgate_start 0 0 0 0) = (st, s)
     \<and> entry_rep (label_rep (set_bit_block 0 0)) 4 0 3 st Y \<and> entries 3 Y = {#(0, 0), (- 1, 0), (- 2, 0)#} \<and> ordered True 0 3 Y"
proof -
  obtain st s where r: "run_state (emp_sort halfgate_exec (\<lambda>i. sample_wires 0 4 (- int i)) 3 None (0, set_bit_block 0 0))
       (halfgate_start 0 0 0 0) = (st, s)" by (meson surj_pair)
  have "entry_rep (label_rep (set_bit_block 0 0)) 4 0 3 (\<lambda>i. sample_wires 0 4 (- int i), None) (\<lambda>i. (- int i, 0))"
    by (simp add: entry_rep_def sample_wires in_range_def)
  moreover have "label_rep (set_bit_block 0 0) (0, set_bit_block 0 0) True" by (simp add: label_rep_def)
  moreover have "entries 3 (\<lambda>i. (- int i, 0 :: int)) = {#(0, 0), (- 1, 0), (- 2, 0)#}"
    by (simp add: entries_def upt_rec)
  ultimately show ?thesis using half_gates_sort [OF _ _ r, of 4 0] r by metis
qed

section \<open>emp-tool programs on plain bits\<close>

text \<open>
  C14.  On the plain backend, two \<^verbatim>\<open>Integer\<close>s of \<open>n\<close> bits fed by the two parties, divided (the divisor is not zero) and revealed:
  the result is the quotient rounded towards zero, modulo \<open>2 ^ n\<close>, cut to the 32 bits of the result type.
\<close>

theorem plain_division_revealed:
  assumes "in_range n (sint x)" and "in_range n (sint y)" and "sint y \<noteq> 0"
  shows "fst (run_state (do {
           a \<leftarrow> Integer_new plain_circ_exec plain_prot_exec n x ALICE;
           b \<leftarrow> Integer_new plain_circ_exec plain_prot_exec n y BOB;
           q \<leftarrow> int_div plain_circ_exec a b;
           reveal_u32 plain_prot_exec q PUBLIC }) (setup_plain_prot pr))
         = word_of_int (take_bit n (sint x sdiv sint y))"
proof -
  have "computes plain_ok (do {
           a \<leftarrow> Integer_new plain_circ_exec plain_prot_exec n x ALICE;
           b \<leftarrow> Integer_new plain_circ_exec plain_prot_exec n y BOB;
           q \<leftarrow> int_div plain_circ_exec a b;
           reveal_u32 plain_prot_exec q PUBLIC }) (\<lambda>u. u = word_of_int (take_bit n (sint x sdiv sint y)))"
  proof (rule computes_bind [OF plain_prot.Integer_new], rule computes_bind [OF plain_prot.Integer_new], elim conjE,
      rule computes_bind [OF plain.int_div])
    fix q :: "block list" and a :: "block list"
    assume "length q = length a \<and> int_wires plain_rep q (if sint y = 0 then if sint x < 0 then 1 else - 1 else sint x sdiv sint y)"
      and "length a = n"
    then show "computes plain_ok (reveal_u32 plain_prot_exec q PUBLIC) (\<lambda>u. u = word_of_int (take_bit n (sint x sdiv sint y)))"
      using assms(3) plain_prot.reveal_u32 [of q "sint x sdiv sint y" PUBLIC] by simp
  qed (use assms in auto)
  then show ?thesis
    by (rule computes_fst) (rule plain_ok_new)
qed

theorem plain_division_revealed_witness:
  "fst (run_state (do {
           a \<leftarrow> Integer_new plain_circ_exec plain_prot_exec 8 100 ALICE;
           b \<leftarrow> Integer_new plain_circ_exec plain_prot_exec 8 (- 7) BOB;
           q \<leftarrow> int_div plain_circ_exec a b;
           reveal_u32 plain_prot_exec q PUBLIC }) (setup_plain_prot True)) = 242"
proof -
  have "sint (100 :: 64 word) = 100" "sint (- 7 :: 64 word) = - 7" by (simp_all add: sint_uint signed_take_bit_eq_take_bit_shift)
  then show ?thesis
    using plain_division_revealed [of 8 100 "- 7" True]
    by (simp add: in_range_def signed_divide_int_def take_bit_eq_mod)
qed

text \<open>
  On the plain backend, \<^verbatim>\<open>leading_zeros\<close> of a value fed by a party and revealed is the number of zeros
  above its highest set bit, and the width when the value is zero.
\<close>

theorem plain_leading_zeros_revealed:
  assumes "0 < n"
  shows "fst (run_state (do {
           a \<leftarrow> Integer_new plain_circ_exec plain_prot_exec n x ALICE;
           z \<leftarrow> leading_zeros plain_circ_exec a;
           reveal_u64 plain_prot_exec z PUBLIC }) (setup_plain_prot pr))
         = of_nat (zeros_above n (take_bit n (sint x)))"
proof -
  have "computes plain_ok (do {
           a \<leftarrow> Integer_new plain_circ_exec plain_prot_exec n x ALICE;
           z \<leftarrow> leading_zeros plain_circ_exec a;
           reveal_u64 plain_prot_exec z PUBLIC }) (\<lambda>u. u = of_nat (zeros_above n (take_bit n (sint x))))"
  proof (rule computes_bind [OF plain_prot.Integer_new], elim conjE, rule computes_bind [OF plain.leading_zeros])
    fix z a :: "block list"
    assume z: "int_wires plain_rep z (int (zeros_above (length a) (take_bit (length a) (sint x))))
        \<and> int (zeros_above (length a) (take_bit (length a) (sint x))) < 2 ^ length z" and "length a = n"
    then show "computes plain_ok (reveal_u64 plain_prot_exec z PUBLIC) (\<lambda>u. u = of_nat (zeros_above n (take_bit n (sint x))))"
      using plain_prot.reveal_u64 [of z "int (zeros_above n (take_bit n (sint x)))" PUBLIC]
      by (simp add: take_bit_int_eq_self)
  qed (use assms in auto)
  then show ?thesis by (rule computes_fst) (rule plain_ok_new)
qed

theorem plain_leading_zeros_revealed_witness:
  "fst (run_state (do {
           a \<leftarrow> Integer_new plain_circ_exec plain_prot_exec 8 5 ALICE;
           z \<leftarrow> leading_zeros plain_circ_exec a;
           reveal_u64 plain_prot_exec z PUBLIC }) (setup_plain_prot False)) = 5"
proof -
  have "sint (5 :: 64 word) = 5" by (simp add: sint_uint signed_take_bit_eq_take_bit_shift)
  then show ?thesis
    using plain_leading_zeros_revealed [of 8 5 False] by (simp add: zeros_above_def take_bit_eq_mod upt_rec)
qed

end
